(* ===== verification/Zylib_Prelude.thy ===== *)
theory Zylib_Prelude
  imports Main "HOL-Library.Word"
begin

text \<open>
  The prelude of the zylib verification library.  It fixes the types the component
  theories share (bytes, machine words of the widths the C++ code uses, results that are
  either a fault or a value), the bind of such results, the model of \<open>std::find\<close> on a
  half-open range, and the generic lemmas on lists and words the components rest on.
\<close>

unbundle bit_operations_syntax

section \<open>Shared types\<close>

type_synonym byte = "8 word"
type_synonym u16 = "16 word"
type_synonym u32 = "32 word"
type_synonym u64 = "64 word"

text \<open>
  \<open>size_t\<close> is 64 bits wide on the platforms the build files name.  Lengths of containers
  are natural numbers in the models; where the code computes with a \<open>size_t\<close> and the
  result may wrap, the model computes on \<^typ>\<open>u64\<close>.
\<close>

named_theorems inv_rules \<open>preservation of the invariants of the components\<close>

section \<open>Results\<close>

text \<open>
  A C++ function that may throw, assert or run into undefined behaviour returns a sum: the
  left injection is what went wrong, the right one the value.  \<open>res_bind\<close> runs the
  continuation on a value and lets a fault through, as an exception would.
\<close>

definition res_bind :: "'e + 'a \<Rightarrow> ('a \<Rightarrow> 'e + 'b) \<Rightarrow> 'e + 'b" where
  "res_bind r f = (case r of Inl e \<Rightarrow> Inl e | Inr v \<Rightarrow> f v)"

lemma res_bind_Inl [simp]: "res_bind (Inl e) f = Inl e"
  by (simp add: res_bind_def)

lemma res_bind_Inr [simp]: "res_bind (Inr v) f = f v"
  by (simp add: res_bind_def)

lemma res_bind_eq_Inr: "res_bind r f = Inr w \<longleftrightarrow> (\<exists>v. r = Inr v \<and> f v = Inr w)"
  by (cases r) auto

lemma res_bind_eq_Inl: "res_bind r f = Inl e \<longleftrightarrow> r = Inl e \<or> (\<exists>v. r = Inr v \<and> f v = Inl e)"
  by (cases r) auto

definition is_value :: "'e + 'a \<Rightarrow> bool" where
  "is_value r \<longleftrightarrow> (case r of Inl _ \<Rightarrow> False | Inr _ \<Rightarrow> True)"

lemma is_value_simps [simp]: "is_value (Inr v)" "\<not> is_value (Inl e)"
  by (simp_all add: is_value_def)

lemma is_value_iff: "is_value r \<longleftrightarrow> (\<exists>v. r = Inr v)"
  by (cases r) auto

section \<open>Ranges of characters\<close>

text \<open>
  \<open>std::find(first, last, d)\<close> splits the range into what precedes the first \<open>d\<close> and the
  rest, which starts with \<open>d\<close> or is empty.  The iterators of the code are represented by
  the range that remains: \<open>it == last\<close> is the empty list, \<open>++it\<close> its tail.
\<close>

definition std_find :: "'c \<Rightarrow> 'c list \<Rightarrow> 'c list \<times> 'c list" where
  "std_find d s = (takeWhile (\<lambda>c. c \<noteq> d) s, dropWhile (\<lambda>c. c \<noteq> d) s)"

lemma std_find_Nil [simp]: "std_find d [] = ([], [])"
  by (simp add: std_find_def)

lemma std_find_Cons: "std_find d (c # s) =
    (if c = d then ([], c # s) else (c # fst (std_find d s), snd (std_find d s)))"
  by (simp add: std_find_def)

lemma std_find_append: "std_find d s = (f, r) \<Longrightarrow> s = f @ r"
  by (auto simp: std_find_def)

lemma std_find_no_delim: "std_find d s = (f, r) \<Longrightarrow> d \<notin> set f"
  by (auto simp: std_find_def dest: set_takeWhileD)

lemma std_find_rest: "std_find d s = (f, c # r) \<Longrightarrow> c = d"
  by (auto simp: std_find_def dropWhile_eq_Cons_conv)

lemma std_find_rest_Nil: "snd (std_find d s) = [] \<longleftrightarrow> d \<notin> set s"
  by (induction s) (auto simp: std_find_Cons)

lemma count_std_find: "std_find d s = (f, c # r) \<Longrightarrow> count_list s d = Suc (count_list r d)"
proof -
  assume eq: "std_find d s = (f, c # r)"
  then have "s = f @ d # r" using std_find_append std_find_rest by fastforce
  moreover have "d \<notin> set f" using eq by (rule std_find_no_delim)
  ultimately show ?thesis by simp
qed

section \<open>Bits of words\<close>

text \<open>Two bytes are equal when their eight bits agree; \<open>bit_simps\<close> then decides the bits.\<close>

lemma byte_eqI:
  fixes a b :: byte
  assumes "bit a 0 = bit b 0" "bit a 1 = bit b 1" "bit a 2 = bit b 2" "bit a 3 = bit b 3"
    "bit a 4 = bit b 4" "bit a 5 = bit b 5" "bit a 6 = bit b 6" "bit a 7 = bit b 7"
  shows "a = b"
proof (rule bit_word_eqI)
  fix n assume "n < LENGTH(8)"
  then have "n \<in> {0, 1, 2, 3, 4, 5, 6, 7}" by auto
  with assms show "bit a n = bit b n" by auto
qed

lemma byte_bit_out [simp]: "8 \<le> n \<Longrightarrow> \<not> bit (b :: byte) n"
  using bit_imp_le_length [of b n] by auto

lemma unat_byte_less [simp]: "unat (b :: byte) < 256"
  using unsigned_less [where w = b] by simp

lemma list_all_nth: "list_all P xs \<Longrightarrow> i < length xs \<Longrightarrow> P (xs ! i)"
  by (simp add: list_all_length)

text \<open>Prefixes and suffixes of keyed lists.\<close>

lemma distinct_map_takeWhile: "distinct (map f s) \<Longrightarrow> distinct (map f (takeWhile P s))"
  by (induction s) (auto dest: set_takeWhileD)

lemma distinct_map_dropWhile: "distinct (map f s) \<Longrightarrow> distinct (map f (dropWhile P s))"
  by (induction s) auto

lemma sorted_map_dropWhile: "sorted (map f s) \<Longrightarrow> sorted (map f (dropWhile P s))"
  by (induction s) auto

end
