(* ===== verification/Split_Functions.thy ===== *)
theory Split_Functions
  imports Zylib_Prelude
begin

text \<open>
  The fixed-arity splitters of \<open>zysoft/src/zysoft/string/split_functions.h\<close>: one function
  per number of recipients, each a straight line of \<open>std::find\<close> calls over the remaining
  range.  The recipients are results of the model; the two-way form leaves its second
  recipient as it was when there is no delimiter, so it takes the old value.
\<close>

section \<open>The overloads\<close>

definition split_impl2 ::
    "'c list \<Rightarrow> 'c \<Rightarrow> 'c list \<Rightarrow> 'c list \<Rightarrow> bool \<times> 'c list \<times> 'c list" where
  "split_impl2 s d s0 s1 =
     (let (f, it) = std_find d s in
      (case it of [] \<Rightarrow> (False, f, s1) | _ # e \<Rightarrow> (True, f, e)))"

text \<open>
  The block the longer overloads repeat: with a delimiter at \<open>it1\<close>, count it, step over it
  and search on; at the end of the range the field is empty and nothing is counted.
\<close>

definition split_next :: "'c \<Rightarrow> 'c list \<Rightarrow> nat \<Rightarrow> 'c list \<times> 'c list \<times> nat" where
  "split_next d it cnt =
     (case it of [] \<Rightarrow> ([], [], cnt)
      | _ # rest \<Rightarrow> (let (f, it') = std_find d rest in (f, it', Suc cnt)))"

text \<open>The last block takes the whole remainder (\<open>it1 = e\<close>).\<close>

definition split_last :: "'c list \<Rightarrow> nat \<Rightarrow> 'c list \<times> nat" where
  "split_last it cnt = (case it of [] \<Rightarrow> ([], cnt) | _ # rest \<Rightarrow> (rest, Suc cnt))"

definition split_impl3 ::
    "'c list \<Rightarrow> 'c \<Rightarrow> nat \<times> 'c list \<times> 'c list \<times> 'c list" where
  "split_impl3 s d =
     (let (s0, i0) = std_find d s; n0 = (if i0 \<noteq> [] then 1 else 0);
          (s1, i1, n1) = split_next d i0 n0;
          (s2, n2) = split_last i1 n1
      in (n2, s0, s1, s2))"

definition split_impl4 ::
    "'c list \<Rightarrow> 'c \<Rightarrow> nat \<times> 'c list \<times> 'c list \<times> 'c list \<times> 'c list" where
  "split_impl4 s d =
     (let (s0, i0) = std_find d s; n0 = (if i0 \<noteq> [] then 1 else 0);
          (s1, i1, n1) = split_next d i0 n0;
          (s2, i2, n2) = split_next d i1 n1;
          (s3, n3) = split_last i2 n2
      in (n3, s0, s1, s2, s3))"

definition split_impl5 ::
    "'c list \<Rightarrow> 'c \<Rightarrow> nat \<times> 'c list \<times> 'c list \<times> 'c list \<times> 'c list \<times> 'c list" where
  "split_impl5 s d =
     (let (s0, i0) = std_find d s; n0 = (if i0 \<noteq> [] then 1 else 0);
          (s1, i1, n1) = split_next d i0 n0;
          (s2, i2, n2) = split_next d i1 n1;
          (s3, i3, n3) = split_next d i2 n2;
          (s4, n4) = split_last i3 n3
      in (n4, s0, s1, s2, s3, s4))"

definition split_impl6 ::
    "'c list \<Rightarrow> 'c \<Rightarrow>
     nat \<times> 'c list \<times> 'c list \<times> 'c list \<times> 'c list \<times> 'c list \<times> 'c list" where
  "split_impl6 s d =
     (let (s0, i0) = std_find d s; n0 = (if i0 \<noteq> [] then 1 else 0);
          (s1, i1, n1) = split_next d i0 n0;
          (s2, i2, n2) = split_next d i1 n1;
          (s3, i3, n3) = split_next d i2 n2;
          (s4, i4, n4) = split_next d i3 n3;
          (s5, n5) = split_last i4 n4
      in (n5, s0, s1, s2, s3, s4, s5))"

text \<open>
  The public overloads hand the characters of the source string to the implementation and
  return its count; the two-way one converts the implementation's truth value.
\<close>

definition split2 :: "'c list \<Rightarrow> 'c \<Rightarrow> 'c list \<Rightarrow> 'c list \<Rightarrow> nat \<times> 'c list \<times> 'c list" where
  "split2 s d s0 s1 = (let (b, r) = split_impl2 s d s0 s1 in (of_bool b, r))"

definition split3 :: "'c list \<Rightarrow> 'c \<Rightarrow> nat \<times> 'c list \<times> 'c list \<times> 'c list" where
  "split3 s d = split_impl3 s d"

definition split4 :: "'c list \<Rightarrow> 'c \<Rightarrow> nat \<times> 'c list \<times> 'c list \<times> 'c list \<times> 'c list" where
  "split4 s d = split_impl4 s d"

definition split5 ::
    "'c list \<Rightarrow> 'c \<Rightarrow> nat \<times> 'c list \<times> 'c list \<times> 'c list \<times> 'c list \<times> 'c list" where
  "split5 s d = split_impl5 s d"

definition split6 ::
    "'c list \<Rightarrow> 'c \<Rightarrow>
     nat \<times> 'c list \<times> 'c list \<times> 'c list \<times> 'c list \<times> 'c list \<times> 'c list" where
  "split6 s d = split_impl6 s d"

section \<open>A reference splitter\<close>

text \<open>
  \<open>split_ref k d s\<close> cuts \<open>s\<close> at its first \<open>k\<close> delimiters into \<open>k + 1\<close> fields, the missing
  ones empty; \<open>join d\<close> is its inverse.
\<close>

fun split_ref :: "nat \<Rightarrow> 'c \<Rightarrow> 'c list \<Rightarrow> 'c list list" where
  "split_ref 0 d s = [s]"
| "split_ref (Suc k) d s =
     (let (f, it) = std_find d s in
      (case it of [] \<Rightarrow> f # replicate (Suc k) [] | _ # rest \<Rightarrow> f # split_ref k d rest))"

definition split_count :: "nat \<Rightarrow> 'c \<Rightarrow> 'c list \<Rightarrow> nat" where
  "split_count k d s = (if d \<in> set s then Suc (min k (count_list s d)) else 0)"

fun join :: "'c \<Rightarrow> 'c list list \<Rightarrow> 'c list" where
  "join d [] = []"
| "join d [f] = f"
| "join d (f # fs) = f @ d # join d fs"

lemma join_Cons: "fs \<noteq> [] \<Longrightarrow> join d (f # fs) = f @ d # join d fs"
  by (cases fs) auto

lemma length_split_ref [simp]: "length (split_ref k d s) = Suc k"
  by (induction k d s rule: split_ref.induct) (auto simp: Let_def split: prod.splits list.splits)

lemma split_ref_no_delim: "d \<notin> set s \<Longrightarrow> split_ref (Suc k) d s = s # replicate (Suc k) []"
  using std_find_rest_Nil [of d s] std_find_append [of d s]
  by (auto split: prod.splits list.splits)

lemma split_ref_join:
  "join d (take (Suc (min k (count_list s d))) (split_ref k d s)) = s"
proof (induction k d s rule: split_ref.induct)
  case (1 d s)
  then show ?case by simp
next
  case (2 k d s)
  obtain f it where fi: "std_find d s = (f, it)" by fastforce
  show ?case
  proof (cases it)
    case Nil
    with fi have "d \<notin> set s" using std_find_rest_Nil [of d s] by simp
    then show ?thesis by (simp add: split_ref_no_delim del: split_ref.simps)
  next
    case (Cons c rest)
    with fi have "c = d" and cnt: "count_list s d = Suc (count_list rest d)"
      and s: "s = f @ d # rest"
      using std_find_rest count_std_find std_find_append by fastforce+
    have "take (Suc (min k (count_list rest d))) (split_ref k d rest) \<noteq> []"
      by (metis Zero_not_Suc length_split_ref list.size(3) take_eq_Nil)
    with 2 [OF fi [symmetric] refl Cons] fi Cons cnt s show ?thesis
      by (simp add: join_Cons)
  qed
qed

lemma split_ref_fields_clean:
  "i < min k (count_list s d) \<Longrightarrow> d \<notin> set (split_ref k d s ! i)"
proof (induction k d s arbitrary: i rule: split_ref.induct)
  case (1 d s)
  then show ?case by simp
next
  case (2 k d s)
  obtain f it where fi: "std_find d s = (f, it)" by fastforce
  show ?case
  proof (cases it)
    case Nil
    with fi have "d \<notin> set s" using std_find_rest_Nil [of d s] by simp
    with 2 show ?thesis by simp
  next
    case (Cons c rest)
    with fi have "count_list s d = Suc (count_list rest d)" using count_std_find by fastforce
    with 2 fi Cons std_find_no_delim [OF fi] show ?thesis by (cases i) auto
  qed
qed

lemma split_ref_padding:
  "count_list s d < i \<Longrightarrow> i \<le> k \<Longrightarrow> split_ref k d s ! i = []"
proof (induction k d s arbitrary: i rule: split_ref.induct)
  case (1 d s)
  then show ?case by simp
next
  case (2 k d s)
  obtain f it where fi: "std_find d s = (f, it)" by fastforce
  show ?case
  proof (cases it)
    case Nil
    with fi 2 show ?thesis by (cases i) (auto simp del: replicate_Suc)
  next
    case (Cons c rest)
    with fi have "count_list s d = Suc (count_list rest d)" using count_std_find by fastforce
    with 2 fi Cons show ?thesis by (cases i) auto
  qed
qed

section \<open>The overloads agree with the reference\<close>

text \<open>
  The blocks after the first field, as one recursion: \<open>k\<close> searching blocks and the last one.
  Each overload is a first search followed by such a chain.
\<close>

fun split_chain :: "nat \<Rightarrow> 'c \<Rightarrow> 'c list \<Rightarrow> nat \<Rightarrow> 'c list list \<times> nat" where
  "split_chain 0 d it n = (let (f, m) = split_last it n in ([f], m))"
| "split_chain (Suc k) d it n =
     (let (f, it', n') = split_next d it n; (fs, m) = split_chain k d it' n' in (f # fs, m))"

lemma split_chain_Nil: "split_chain k d [] n = (replicate (Suc k) [], n)"
  by (induction k arbitrary: n) (auto simp: split_next_def split_last_def)

lemma split_chain_Cons:
  "split_chain k d (c # r) n = (split_ref k d r, n + Suc (min k (count_list r d)))"
proof (induction k arbitrary: c r n)
  case 0
  then show ?case by (simp add: split_last_def)
next
  case (Suc k)
  obtain f it where fi: "std_find d r = (f, it)" by fastforce
  show ?case
  proof (cases it)
    case Nil
    with fi have "count_list r d = 0" using std_find_rest_Nil [of d r] by (simp add: count_notin)
    with fi Nil show ?thesis by (simp add: split_next_def split_chain_Nil)
  next
    case (Cons e rest)
    with fi have "count_list r d = Suc (count_list rest d)" using count_std_find by fastforce
    with fi Cons Suc show ?thesis by (simp add: split_next_def)
  qed
qed

text \<open>What an overload with \<open>k + 2\<close> recipients computes, fields as a list.\<close>

definition split_run :: "nat \<Rightarrow> 'c \<Rightarrow> 'c list \<Rightarrow> 'c list list \<times> nat" where
  "split_run k d s =
     (let (f, it) = std_find d s; (fs, n) = split_chain k d it (if it \<noteq> [] then 1 else 0)
      in (f # fs, n))"

lemma split_run_ref: "split_run k d s = (split_ref (Suc k) d s, split_count (Suc k) d s)"
proof -
  obtain f it where fi: "std_find d s = (f, it)" by fastforce
  show ?thesis
  proof (cases it)
    case Nil
    with fi have "d \<notin> set s" using std_find_rest_Nil [of d s] by simp
    with fi Nil show ?thesis by (simp add: split_run_def split_chain_Nil split_count_def)
  next
    case (Cons c r)
    with fi have "s = f @ c # r" "c = d" "count_list s d = Suc (count_list r d)"
      using std_find_append std_find_rest count_std_find by fastforce+
    with fi Cons show ?thesis by (simp add: split_run_def split_chain_Cons split_count_def)
  qed
qed

lemma split_impls_run:
  "split_impl3 s d = (n, a0, a1, a2) \<Longrightarrow> split_run 1 d s = ([a0, a1, a2], n)"
  "split_impl4 s d = (n, a0, a1, a2, a3) \<Longrightarrow> split_run 2 d s = ([a0, a1, a2, a3], n)"
  "split_impl5 s d = (n, a0, a1, a2, a3, a4) \<Longrightarrow> split_run 3 d s = ([a0, a1, a2, a3, a4], n)"
  "split_impl6 s d = (n, a0, a1, a2, a3, a4, a5) \<Longrightarrow>
     split_run 4 d s = ([a0, a1, a2, a3, a4, a5], n)"
  by (auto simp: split_impl3_def split_impl4_def split_impl5_def split_impl6_def split_run_def
      numeral_eq_Suc Let_def split: prod.splits)

lemma split_impl2_ref:
  "split_impl2 s d s0 s1 =
     (d \<in> set s, split_ref 1 d s ! 0, if d \<in> set s then split_ref 1 d s ! 1 else s1)"
proof -
  obtain f it where fi: "std_find d s = (f, it)" by fastforce
  then show ?thesis
    using std_find_rest_Nil [of d s] by (cases it) (auto simp: split_impl2_def)
qed

section \<open>Properties\<close>

text \<open>
  C1. every overload of \<open>split\<close> computes the fields of the reference splitter, cut at the
  first delimiters and padded with empty fields, and the ones with three or more
  recipients return the number of fields found, or 0 when there is no delimiter at all.
\<close>

theorem split_overloads_are_reference:
  "split2 s d t0 t1 = (of_bool (d \<in> set s), split_ref 1 d s ! 0,
     if d \<in> set s then split_ref 1 d s ! 1 else t1)
   \<and> (case split3 s d of (n, a0, a1, a2) \<Rightarrow>
        [a0, a1, a2] = split_ref 2 d s \<and> n = split_count 2 d s)
   \<and> (case split4 s d of (n, a0, a1, a2, a3) \<Rightarrow>
        [a0, a1, a2, a3] = split_ref 3 d s \<and> n = split_count 3 d s)
   \<and> (case split5 s d of (n, a0, a1, a2, a3, a4) \<Rightarrow>
        [a0, a1, a2, a3, a4] = split_ref 4 d s \<and> n = split_count 4 d s)
   \<and> (case split6 s d of (n, a0, a1, a2, a3, a4, a5) \<Rightarrow>
        [a0, a1, a2, a3, a4, a5] = split_ref 5 d s \<and> n = split_count 5 d s)"
proof -
  have r: "split_run 1 d s = (split_ref 2 d s, split_count 2 d s)"
    "split_run 2 d s = (split_ref 3 d s, split_count 3 d s)"
    "split_run 3 d s = (split_ref 4 d s, split_count 4 d s)"
    "split_run 4 d s = (split_ref 5 d s, split_count 5 d s)"
    using split_run_ref [of 1 d s] split_run_ref [of 2 d s] split_run_ref [of 3 d s]
      split_run_ref [of 4 d s] by (simp_all add: numeral_eq_Suc)
  show ?thesis
    by (auto simp: split2_def split3_def split4_def split5_def split6_def split_impl2_ref
        dest!: split_impls_run simp: r r(1) [unfolded One_nat_def] simp del: split_ref.simps split: prod.splits)
qed

text \<open>
  splitting loses nothing: the fields found by the six-way overload, joined with the
  delimiter, are the source string, every field cut off by a delimiter is free of it, and
  the recipients beyond the fields found are empty.
\<close>

lemma split6_lossless:
  "(case split6 s d of (n, a0, a1, a2, a3, a4, a5) \<Rightarrow>
     (let fs = [a0, a1, a2, a3, a4, a5]; k = min 5 (count_list s d) in
      join d (take (Suc k) fs) = s
      \<and> list_all (\<lambda>f. d \<notin> set f) (take k fs)
      \<and> list_all (\<lambda>f. f = []) (drop (Suc k) fs)
      \<and> n = (if k = 0 then 0 else Suc k)))"
proof -
  obtain n a0 a1 a2 a3 a4 a5 where eq: "split6 s d = (n, a0, a1, a2, a3, a4, a5)"
    by (cases "split6 s d") auto
  let ?fs = "[a0, a1, a2, a3, a4, a5]" and ?k = "min 5 (count_list s d)"
  have fs: "?fs = split_ref 5 d s" and n: "n = split_count 5 d s"
    using split_impls_run(4) [OF eq [unfolded split6_def]] split_run_ref [of 4 d s]
    by (simp_all add: numeral_eq_Suc)
  have "join d (take (Suc ?k) ?fs) = s"
    unfolding fs by (rule split_ref_join)
  moreover have "list_all (\<lambda>f. d \<notin> set f) (take ?k ?fs)"
    unfolding fs by (auto simp: list_all_length split_ref_fields_clean simp del: split_ref.simps)
  moreover have "list_all (\<lambda>f. f = []) (drop (Suc ?k) ?fs)"
    unfolding fs
    by (auto simp: list_all_length intro!: split_ref_padding simp del: split_ref.simps)
  moreover have "n = (if ?k = 0 then 0 else Suc ?k)"
    by (auto simp: n split_count_def count_list_0_iff simp flip: neq0_conv)
  ultimately show ?thesis by (simp add: eq Let_def)
qed

end
