(* ===== verification/Interfaces.thy ===== *)
theory Interfaces
  imports Zylib_Prelude "HOL-Library.Sublist"
begin

text \<open>
  The contracts between the components, each a locale: what a client may assume of an
  operation, and what follows for every provider that meets it.  The component theories
  interpret the locales on their own definitions.
\<close>

section \<open>Encoders and decoders\<close>

text \<open>A decoder that recovers every encoded value of the domain \<open>dom\<close>.\<close>

locale codec =
  fixes dom :: "'a \<Rightarrow> bool"
    and enc :: "'a \<Rightarrow> 'w list"
    and dec :: "'w list \<Rightarrow> 'a option"
  assumes dec_enc: "dom x \<Longrightarrow> dec (enc x) = Some x"
begin

lemma enc_inj: "dom x \<Longrightarrow> dom y \<Longrightarrow> enc x = enc y \<longleftrightarrow> x = y"
  using dec_enc by (metis option.inject)

lemma dec_some: "dom x \<Longrightarrow> dec (enc x) \<noteq> None"
  by (simp add: dec_enc)

lemma dec_map: "list_all dom xs \<Longrightarrow> map (dec \<circ> enc) xs = map Some xs"
  by (induction xs) (auto simp: dec_enc)

end

text \<open>
  A frame decoder takes one message off the front of a byte stream.  What a stream client
  relies on is that a message, once complete, is not changed by bytes that arrive later.
\<close>

locale frame_decoder =
  fixes step :: "'w list \<Rightarrow> ('m \<times> 'w list) option"
  assumes step_stable: "step b = Some (m, r) \<Longrightarrow> step (b @ x) = Some (m, r @ x)"
begin

text \<open>\<open>drain b ms r\<close>: the loop that steps until no message is complete ends with \<open>ms\<close>, \<open>r\<close>.\<close>

inductive drain :: "'w list \<Rightarrow> 'm list \<Rightarrow> 'w list \<Rightarrow> bool" where
  stop: "step b = None \<Longrightarrow> drain b [] b"
| more: "step b = Some (m, b') \<Longrightarrow> drain b' ms r \<Longrightarrow> drain b (m # ms) r"

lemma drain_deterministic: "drain b ms r \<Longrightarrow> drain b ms' r' \<Longrightarrow> ms' = ms \<and> r' = r"
proof (induction arbitrary: ms' r' rule: drain.induct)
  case (stop b)
  from stop(2,1) show ?case by cases auto
next
  case (more b m b' ms r)
  from more.prems more.hyps(1) more.IH show ?case by (cases rule: drain.cases) auto
qed

lemma drain_rest_incomplete: "drain b ms r \<Longrightarrow> step r = None"
  by (induction rule: drain.induct) auto

text \<open>How the bytes are cut into reads does not matter: draining twice is draining once.\<close>

lemma drain_chunks: "drain b ms r \<Longrightarrow> drain (r @ x) ms' r' \<Longrightarrow> drain (b @ x) (ms @ ms') r'"
  by (induction rule: drain.induct) (auto intro: drain.more dest: step_stable)

end

text \<open>
  A frame decoder that consumes something at every step on the buffers of a class \<open>good\<close>
  that its steps do not leave: on those its loop ends.
\<close>

locale progressing_decoder = frame_decoder step
  for step :: "'w list \<Rightarrow> ('m \<times> 'w list) option" +
  fixes good :: "'w list \<Rightarrow> bool"
  assumes step_progress: "good b \<Longrightarrow> step b = Some (m, r) \<Longrightarrow> length r < length b \<and> good r"
begin

lemma drain_total: "good b \<Longrightarrow> \<exists>ms r. drain b ms r \<and> good r \<and> length ms + length r \<le> length b"
proof (induction b rule: length_induct)
  case (1 b)
  show ?case
  proof (cases "step b")
    case None
    with 1(2) show ?thesis by (intro exI [of _ "[]"] exI [of _ b]) (auto intro: drain.stop)
  next
    case (Some p)
    obtain m b' where p: "p = (m, b')" by fastforce
    with Some 1(2) have lt: "length b' < length b" "good b'" using step_progress by simp_all
    then obtain ms r where "drain b' ms r" "good r" "length ms + length r \<le> length b'"
      using 1 by blast
    with Some p lt show ?thesis
      by (intro exI [of _ "m # ms"] exI [of _ r]) (auto intro: drain.more)
  qed
qed

end

section \<open>Pools\<close>

text \<open>
  A pool hands out resources and takes them back.  \<open>free\<close> and \<open>used\<close> say which ones are
  idle and lent; \<open>acquire\<close> is \<open>None\<close> when nothing is idle.
\<close>

locale resource_pool =
  fixes free :: "'p \<Rightarrow> 'r set"
    and used :: "'p \<Rightarrow> 'r set"
    and ok :: "'p \<Rightarrow> bool"
    and acquire :: "'p \<Rightarrow> ('r \<times> 'p) option"
    and release :: "'r \<Rightarrow> 'p \<Rightarrow> 'p"
  assumes disjoint: "ok p \<Longrightarrow> free p \<inter> used p = {}"
    and acquire_None: "ok p \<Longrightarrow> acquire p = None \<longleftrightarrow> free p = {}"
    and acquire_Some: "ok p \<Longrightarrow> acquire p = Some (c, q) \<Longrightarrow>
      ok q \<and> c \<in> free p \<and> free q = free p - {c} \<and> used q = insert c (used p)"
    and release_used: "ok p \<Longrightarrow> c \<in> used p \<Longrightarrow>
      ok (release c p) \<and> free (release c p) = insert c (free p) \<and> used (release c p) = used p - {c}"
begin

lemma acquire_exclusive: "ok p \<Longrightarrow> acquire p = Some (c, q) \<Longrightarrow> c \<notin> used p \<and> c \<notin> free q"
  using disjoint acquire_Some by blast

lemma acquire_twice:
  assumes "ok p" "acquire p = Some (c, q)" "acquire q = Some (d, r)"
  shows "c \<noteq> d"
  using acquire_Some [OF assms(1,2)] acquire_Some [OF _ assms(3)] by blast

lemma acquire_release:
  assumes "ok p" "acquire p = Some (c, q)"
  shows "ok (release c q) \<and> free (release c q) = free p \<and> used (release c q) = used p"
proof -
  from assms have q: "ok q" "c \<in> free p" "free q = free p - {c}" "used q = insert c (used p)"
    using acquire_Some by blast+
  moreover have "c \<notin> used p" using assms acquire_exclusive by blast
  moreover have "ok (release c q)" "free (release c q) = insert c (free q)"
    "used (release c q) = used q - {c}"
    using release_used [of q c] q by auto
  ultimately show ?thesis by auto
qed

end

section \<open>Incremental digests\<close>

text \<open>
  A digest is fed its input in pieces.  \<open>absorbed\<close> relates a state to the input it has
  taken; the contract is that feeding one more piece appends to it and that the result
  depends on the input alone.
\<close>

locale incremental =
  fixes started :: "'s \<Rightarrow> bool"
    and update :: "'s \<Rightarrow> 'w list \<Rightarrow> 's"
    and absorbed :: "'w list \<Rightarrow> 's \<Rightarrow> bool"
    and result :: "'s \<Rightarrow> 'd"
    and digest :: "'w list \<Rightarrow> 'd"
  assumes absorbed_init: "started s \<Longrightarrow> absorbed [] s"
    and absorbed_update: "absorbed xs s \<Longrightarrow> absorbed (xs @ ys) (update s ys)"
    and absorbed_result: "absorbed xs s \<Longrightarrow> result s = digest xs"
begin

lemma absorbed_updates: "absorbed xs s \<Longrightarrow> absorbed (xs @ concat yss) (foldl update s yss)"
proof (induction yss arbitrary: xs s)
  case Nil
  then show ?case by simp
next
  case (Cons ys yss)
  then have "absorbed ((xs @ ys) @ concat yss) (foldl update (update s ys) yss)"
    using absorbed_update by blast
  then show ?case by simp
qed

lemma result_chunks: "started s \<Longrightarrow> result (foldl update s yss) = digest (concat yss)"
  using absorbed_updates [OF absorbed_init, of s yss] absorbed_result by simp

lemma chunking_irrelevant:
  "started s \<Longrightarrow> started s' \<Longrightarrow> concat xss = concat yss \<Longrightarrow>
     result (foldl update s xss) = result (foldl update s' yss)"
  by (simp add: result_chunks)

end

section \<open>Queues of bytes\<close>

text \<open>
  A buffer that is written at its end and consumed at its front.  Both operations may fail; when they do not, they act on
  the contents as on a list.
\<close>

locale byte_queue =
  fixes wf :: "'b \<Rightarrow> bool"
    and bytes_of :: "'b \<Rightarrow> 'w list"
    and put :: "'w list \<Rightarrow> 'b \<Rightarrow> 'e + 'b"
    and consume :: "nat \<Rightarrow> 'b \<Rightarrow> 'e + 'b"
  assumes put_bytes: "wf b \<Longrightarrow> put bs b = Inr b' \<Longrightarrow> wf b' \<and> bytes_of b' = bytes_of b @ bs"
    and consume_bytes: "wf b \<Longrightarrow> consume n b = Inr b' \<Longrightarrow>
      wf b' \<and> n \<le> length (bytes_of b) \<and> bytes_of b' = drop n (bytes_of b)"
begin

text \<open>Chunks arrive, and after each one some bytes are consumed.\<close>

fun feed :: "('w list \<times> nat) list \<Rightarrow> 'b \<Rightarrow> 'e + 'b" where
  "feed [] b = Inr b"
| "feed ((bs, n) # chunks) b = res_bind (put bs b) (\<lambda>b1. res_bind (consume n b1) (feed chunks))"

lemma feed_bytes:
  "wf b \<Longrightarrow> feed chunks b = Inr b' \<Longrightarrow>
     wf b' \<and> bytes_of b' = drop (sum_list (map snd chunks)) (bytes_of b @ concat (map fst chunks))"
proof (induction chunks arbitrary: b)
  case (Cons c chunks)
  obtain bs n where c: "c = (bs, n)" by fastforce
  then obtain b1 b2 where b1: "put bs b = Inr b1" and b2: "consume n b1 = Inr b2" and rest: "feed chunks b2 = Inr b'"
    using Cons.prems(2) by (auto simp: res_bind_eq_Inr)
  from put_bytes [OF Cons.prems(1) b1] consume_bytes [OF _ b2]
  have b2: "wf b2" "n \<le> length (bytes_of b @ bs)" "bytes_of b2 = drop n (bytes_of b @ bs)" by auto
  then have "bytes_of b2 @ xs = drop n (bytes_of b @ bs @ xs)" for xs by simp
  with Cons.IH [OF b2(1) rest] show ?case by (simp add: c add.commute del: drop_append)
qed simp

end

end
