(* ===== verification/Base64.thy ===== *)
theory Base64
  imports Interfaces
begin

text \<open>
  Base64 as \<open>zysoft/src/zysoft/string/base64.h\<close> and its \<open>detail/ngx_base64.h\<close> compute
  it.  A source buffer \<open>ngx_str_t\<close> is the list of its bytes, a destination buffer the list
  of bytes written through its pointer; \<open>dst->len\<close> is the length of that list.  Byte
  arithmetic is on \<^typ>\<open>byte\<close>: the code computes in \<open>int\<close> and stores into
  \<open>u_char\<close>, which keeps the same low eight bits.
\<close>

section \<open>Encoding\<close>

definition basis64_enc :: "byte list" where
  "basis64_enc =
     map of_char ''ABCDEFGHIJKLMNOPQRSTUVWXYZabcdefghijklmnopqrstuvwxyz0123456789+/''"

abbreviation pad_char :: byte where "pad_char \<equiv> 61"

definition enc_sym :: "byte \<Rightarrow> byte" where
  "enc_sym i = basis64_enc ! unat i"

text \<open>The loop \<open>while (len > 2)\<close> followed by the tail \<open>if (len)\<close>.\<close>

fun ngx_encode_base64 :: "byte list \<Rightarrow> byte list" where
  "ngx_encode_base64 (s0 # s1 # s2 # s) =
     enc_sym (drop_bit 2 s0 AND 0x3f)
     # enc_sym (push_bit 4 (s0 AND 3) OR drop_bit 4 s1)
     # enc_sym (push_bit 2 (s1 AND 0x0f) OR drop_bit 6 s2)
     # enc_sym (s2 AND 0x3f)
     # ngx_encode_base64 s"
| "ngx_encode_base64 [s0] =
     [enc_sym (drop_bit 2 s0 AND 0x3f), enc_sym (push_bit 4 (s0 AND 3)), pad_char, pad_char]"
| "ngx_encode_base64 [s0, s1] =
     [enc_sym (drop_bit 2 s0 AND 0x3f),
      enc_sym (push_bit 4 (s0 AND 3) OR drop_bit 4 s1),
      enc_sym (push_bit 2 (s1 AND 0x0f)), pad_char]"
| "ngx_encode_base64 [] = []"

section \<open>Decoding\<close>

text \<open>The two reverse tables; 77 marks a byte outside the alphabet.\<close>

definition basis64_dec :: "byte list" where
  "basis64_dec = [
    77, 77, 77, 77, 77, 77, 77, 77, 77, 77, 77, 77, 77, 77, 77, 77,
    77, 77, 77, 77, 77, 77, 77, 77, 77, 77, 77, 77, 77, 77, 77, 77,
    77, 77, 77, 77, 77, 77, 77, 77, 77, 77, 77, 62, 77, 77, 77, 63,
    52, 53, 54, 55, 56, 57, 58, 59, 60, 61, 77, 77, 77, 77, 77, 77,
    77,  0,  1,  2,  3,  4,  5,  6,  7,  8,  9, 10, 11, 12, 13, 14,
    15, 16, 17, 18, 19, 20, 21, 22, 23, 24, 25, 77, 77, 77, 77, 77,
    77, 26, 27, 28, 29, 30, 31, 32, 33, 34, 35, 36, 37, 38, 39, 40,
    41, 42, 43, 44, 45, 46, 47, 48, 49, 50, 51, 77, 77, 77, 77, 77]
    @ replicate 128 77"

definition basis64url_dec :: "byte list" where
  "basis64url_dec = [
    77, 77, 77, 77, 77, 77, 77, 77, 77, 77, 77, 77, 77, 77, 77, 77,
    77, 77, 77, 77, 77, 77, 77, 77, 77, 77, 77, 77, 77, 77, 77, 77,
    77, 77, 77, 77, 77, 77, 77, 77, 77, 77, 77, 77, 77, 62, 77, 77,
    52, 53, 54, 55, 56, 57, 58, 59, 60, 61, 77, 77, 77, 77, 77, 77,
    77,  0,  1,  2,  3,  4,  5,  6,  7,  8,  9, 10, 11, 12, 13, 14,
    15, 16, 17, 18, 19, 20, 21, 22, 23, 24, 25, 77, 77, 77, 77, 63,
    77, 26, 27, 28, 29, 30, 31, 32, 33, 34, 35, 36, 37, 38, 39, 40,
    41, 42, 43, 44, 45, 46, 47, 48, 49, 50, 51, 77, 77, 77, 77, 77]
    @ replicate 128 77"

text \<open>
  The validation loop of \<open>ngx_decode_base64_internal\<close>: the prefix before the first
  \<open>'='\<close>, or \<open>None\<close> (\<open>NGX_ERROR\<close>) at a byte the table marks 77.
\<close>

fun scan_base64 :: "byte list \<Rightarrow> byte list \<Rightarrow> byte list option" where
  "scan_base64 basis [] = Some []"
| "scan_base64 basis (c # s) =
     (if c = pad_char then Some []
      else if basis ! unat c = 77 then None
      else map_option (\<lambda>p. c # p) (scan_base64 basis s))"

text \<open>The loop \<open>while (len > 3)\<close> and the two tail writes.\<close>

fun decode_quads :: "byte list \<Rightarrow> byte list \<Rightarrow> byte list" where
  "decode_quads basis (s0 # s1 # s2 # s3 # s) =
     (let b = (\<lambda>c. basis ! unat c) in
      (push_bit 2 (b s0) OR drop_bit 4 (b s1))
      # (push_bit 4 (b s1) OR drop_bit 2 (b s2))
      # (push_bit 6 (b s2) OR b s3)
      # decode_quads basis s)"
| "decode_quads basis [s0, s1, s2] =
     (let b = (\<lambda>c. basis ! unat c) in
      [push_bit 2 (b s0) OR drop_bit 4 (b s1), push_bit 4 (b s1) OR drop_bit 2 (b s2)])"
| "decode_quads basis [s0, s1] =
     (let b = (\<lambda>c. basis ! unat c) in [push_bit 2 (b s0) OR drop_bit 4 (b s1)])"
| "decode_quads basis [s0] = []"
| "decode_quads basis [] = []"

text \<open>\<open>None\<close> is \<open>NGX_ERROR\<close>, \<open>Some d\<close> is \<open>NGX_OK\<close> with \<open>d\<close> written.\<close>

definition ngx_decode_base64_internal :: "byte list \<Rightarrow> byte list \<Rightarrow> byte list option" where
  "ngx_decode_base64_internal basis src =
     (case scan_base64 basis src of
        None \<Rightarrow> None
      | Some p \<Rightarrow> if length p mod 4 = 1 then None else Some (decode_quads basis p))"

definition ngx_decode_base64 :: "byte list \<Rightarrow> byte list option" where
  "ngx_decode_base64 src = ngx_decode_base64_internal basis64_dec src"

definition ngx_decode_base64url :: "byte list \<Rightarrow> byte list option" where
  "ngx_decode_base64url src = ngx_decode_base64_internal basis64url_dec src"

section \<open>The public interface\<close>

definition encoded_length :: "u64 \<Rightarrow> u64" where
  "encoded_length len = ((len + 2) div 3) * 4"

definition decoded_length :: "u64 \<Rightarrow> u64" where
  "decoded_length len = ((len + 3) div 4) * 3"

text \<open>
  The overload of \<open>Base64Encode\<close> for \<open>std::string\<close>: the string is resized to
  \<open>encoded_length(src_len)\<close>, the encoder writes through its data pointer (past its end,
  undefined behaviour, here \<open>None\<close>, when it writes more), and the string is resized to the
  number of bytes written.
\<close>

definition write_buffer :: "byte list \<Rightarrow> byte list \<Rightarrow> byte list option" where
  "write_buffer buf out =
     (if length buf < length out then None else Some (out @ drop (length out) buf))"

definition Base64Encode :: "byte list \<Rightarrow> byte list option" where
  "Base64Encode src =
     (let buf = replicate (unat (encoded_length (of_nat (length src)))) 0;
          out = ngx_encode_base64 src
      in map_option (take (length out)) (write_buffer buf out))"

definition Base64Decode :: "byte list \<Rightarrow> int \<times> byte list" where
  "Base64Decode src =
     (case ngx_decode_base64 src of None \<Rightarrow> (-1, []) | Some d \<Rightarrow> (0, d))"

text \<open>\<open>std::isalnum\<close> in the C locale.\<close>

definition isalnum :: "byte \<Rightarrow> bool" where
  "isalnum c \<longleftrightarrow> (48 \<le> c \<and> c \<le> 57) \<or> (65 \<le> c \<and> c \<le> 90) \<or> (97 \<le> c \<and> c \<le> 122)"

definition is_base64 :: "byte \<Rightarrow> bool" where
  "is_base64 c \<longleftrightarrow> isalnum c \<or> c = 43 \<or> c = 47"

section \<open>The tables\<close>

lemma basis64_enc_table:
  "map (\<lambda>c. basis64_dec ! unat c) basis64_enc = map of_nat [0..<64]"
  "list_all (\<lambda>c. c \<noteq> pad_char) basis64_enc"
  by (simp_all add: basis64_enc_def basis64_dec_def upt_rec)

lemma basis64_dec_table:
  "map (\<lambda>b. b \<noteq> 77) basis64_dec = map (\<lambda>n. is_base64 (of_nat n)) [0..<256]"
  by code_simp

lemma length_basis64 [simp]: "length basis64_enc = 64" "length basis64_dec = 256"
  by (simp_all add: basis64_enc_def basis64_dec_def)

lemma table_nth: "n < 64 \<Longrightarrow> basis64_dec ! unat (basis64_enc ! n) = of_nat n"
  "n < 64 \<Longrightarrow> basis64_enc ! n \<noteq> pad_char"
  using arg_cong [OF basis64_enc_table(1), of "\<lambda>l. l ! n"] list_all_nth [OF basis64_enc_table(2), of n]
  by auto

lemma enc_sym_dec:
  assumes "i < 64"
  shows "basis64_dec ! unat (enc_sym i) = i" "enc_sym i \<noteq> pad_char"
proof -
  have "unat i < 64" using assms by (simp add: word_less_nat_alt)
  from table_nth [OF this] show "basis64_dec ! unat (enc_sym i) = i" "enc_sym i \<noteq> pad_char"
    by (simp_all add: enc_sym_def)
qed

lemma basis64_dec_valid: "basis64_dec ! unat c \<noteq> 77 \<longleftrightarrow> is_base64 c"
  using arg_cong [OF basis64_dec_table, of "\<lambda>l. l ! unat c"] by simp

section \<open>Round trip\<close>

text \<open>The six-bit groups the encoder forms are below 64, so the table is read in range.\<close>

lemma six_bits:
  fixes a b c :: byte
  shows "drop_bit 2 a AND 0x3f < 64" "push_bit 4 (a AND 3) OR drop_bit 4 b < 64"
    "push_bit 2 (b AND 0x0f) OR drop_bit 6 c < 64" "c AND 0x3f < 64"
    "push_bit 4 (a AND 3) < 64" "push_bit 2 (b AND 0x0f) < 64"
proof -
  have mask: "x AND 63 = x \<Longrightarrow> x < 64" for x :: byte
    using word_and_le1 [of x 63] by (simp add: word_le_nat_alt word_less_nat_alt)
  show "drop_bit 2 a AND 0x3f < 64" "push_bit 4 (a AND 3) OR drop_bit 4 b < 64"
    "push_bit 2 (b AND 0x0f) OR drop_bit 6 c < 64" "c AND 0x3f < 64"
    "push_bit 4 (a AND 3) < 64" "push_bit 2 (b AND 0x0f) < 64"
    by (rule mask, rule byte_eqI; simp add: bit_simps)+
qed

text \<open>The decoder reassembles the three bytes of a group from its four six-bit parts.\<close>

lemma group_bytes:
  fixes a b c :: byte
  shows "push_bit 2 (drop_bit 2 a AND 0x3f) OR
      drop_bit 4 (push_bit 4 (a AND 3) OR drop_bit 4 b) = a"
    "push_bit 4 (push_bit 4 (a AND 3) OR drop_bit 4 b) OR
      drop_bit 2 (push_bit 2 (b AND 0x0f) OR drop_bit 6 c) = b"
    "push_bit 6 (push_bit 2 (b AND 0x0f) OR drop_bit 6 c) OR (c AND 0x3f) = c"
    "push_bit 2 (drop_bit 2 a AND 0x3f) OR drop_bit 4 (push_bit 4 (a AND 3)) = a"
    "push_bit 4 (push_bit 4 (a AND 3) OR drop_bit 4 b) OR
      drop_bit 2 (push_bit 2 (b AND 0x0f)) = b"
  by (rule byte_eqI; simp add: bit_simps)+

lemma sym_valid: "i < 64 \<Longrightarrow> basis64_dec ! unat (enc_sym i) \<noteq> 77"
proof -
  assume i: "i < 64"
  then have "i \<noteq> 77" by auto
  with enc_sym_dec(1) [OF i] show ?thesis by simp
qed

lemma scan_sym: "i < 64 \<Longrightarrow> scan_base64 basis64_dec (enc_sym i # s) =
    map_option (\<lambda>p. enc_sym i # p) (scan_base64 basis64_dec s)"
  using sym_valid [of i] enc_sym_dec(2) [of i] by simp

lemma scan_pad: "scan_base64 basis (pad_char # s) = Some []"
  by simp

lemma quads_sym:
  assumes "i0 < 64" "i1 < 64" "i2 < 64" "i3 < 64"
  shows "decode_quads basis64_dec (enc_sym i0 # enc_sym i1 # enc_sym i2 # enc_sym i3 # s) =
      (push_bit 2 i0 OR drop_bit 4 i1) # (push_bit 4 i1 OR drop_bit 2 i2)
      # (push_bit 6 i2 OR i3) # decode_quads basis64_dec s"
    "decode_quads basis64_dec [enc_sym i0, enc_sym i1, enc_sym i2] =
      [push_bit 2 i0 OR drop_bit 4 i1, push_bit 4 i1 OR drop_bit 2 i2]"
    "decode_quads basis64_dec [enc_sym i0, enc_sym i1] = [push_bit 2 i0 OR drop_bit 4 i1]"
  using assms by (simp_all add: enc_sym_dec Let_def)

lemmas scan_groups = six_bits [THEN scan_sym] scan_pad option.map
lemmas quads_groups = quads_sym(1) [OF six_bits(1,2,3,4)] quads_sym(2) [OF six_bits(1,2,6,6)]
  quads_sym(3) [OF six_bits(1,5,5,5)] group_bytes

lemma encode_decode_parts:
  "\<exists>p. scan_base64 basis64_dec (ngx_encode_base64 xs) = Some p
     \<and> decode_quads basis64_dec p = xs \<and> length p mod 4 \<noteq> 1"
proof (induction xs rule: ngx_encode_base64.induct)
  case (1 s0 s1 s2 s)
  then obtain p where p: "scan_base64 basis64_dec (ngx_encode_base64 s) = Some p"
    "decode_quads basis64_dec p = s" "length p mod 4 \<noteq> 1" by blast
  show ?case
    by (simp only: ngx_encode_base64.simps scan_groups p(1), intro exI conjI, rule refl)
      (simp_all only: quads_groups p(2), use p(3) in simp)
next
  case (2 s0)
  show ?case
    by (simp only: ngx_encode_base64.simps scan_groups, intro exI conjI, rule refl)
      (simp_all only: quads_groups, simp)
next
  case (3 s0 s1)
  show ?case
    by (simp only: ngx_encode_base64.simps scan_groups, intro exI conjI, rule refl)
      (simp_all only: quads_groups, simp)
next
  case 4
  show ?case by simp
qed

lemma ngx_roundtrip: "ngx_decode_base64 (ngx_encode_base64 xs) = Some xs"
  using encode_decode_parts [of xs]
  by (auto simp: ngx_decode_base64_def ngx_decode_base64_internal_def)

interpretation b64: codec "\<lambda>_. True" ngx_encode_base64 ngx_decode_base64
  by unfold_locales (simp add: ngx_roundtrip)

section \<open>Lengths\<close>

lemma length_encode: "length (ngx_encode_base64 xs) = (length xs + 2) div 3 * 4"
  by (induction xs rule: ngx_encode_base64.induct) (simp_all, presburger)

lemma length_decode_quads: "length (decode_quads basis p) = length p * 3 div 4"
  by (induction basis p rule: decode_quads.induct) (auto simp: Let_def)

lemma scan_takeWhile: "scan_base64 basis s = Some p \<Longrightarrow> p = takeWhile (\<lambda>c. c \<noteq> pad_char) s"
  by (induction s arbitrary: p) (auto split: if_splits)

lemma scan_None:
  "scan_base64 basis64_dec s = None \<longleftrightarrow>
     (\<exists>c \<in> set (takeWhile (\<lambda>c. c \<noteq> pad_char) s). \<not> is_base64 c)"
  by (induction s) (auto simp flip: basis64_dec_valid)

lemma unat_encoded_length:
  assumes "n < 2 ^ 62"
  shows "unat (encoded_length (of_nat n)) = (n + 2) div 3 * 4"
proof -
  have "(n + 2) div 3 * 4 < 2 ^ 64" using assms by auto
  moreover have "unat ((of_nat n :: u64) + 2) = n + 2"
    using assms by (simp add: unat_word_ariths unat_of_nat)
  ultimately show ?thesis
    by (simp add: encoded_length_def unat_word_ariths unat_div)
qed

lemma unat_decoded_length:
  assumes "n < 2 ^ 62"
  shows "unat (decoded_length (of_nat n)) = (n + 3) div 4 * 3"
proof -
  have "(n + 3) div 4 * 3 < 2 ^ 64" using assms by auto
  moreover have "unat ((of_nat n :: u64) + 3) = n + 3"
    using assms by (simp add: unat_word_ariths unat_of_nat)
  ultimately show ?thesis
    by (simp add: decoded_length_def unat_word_ariths unat_div)
qed

section \<open>Properties\<close>

text \<open>
  C2. the string overload of the encoder never writes outside the buffer it sized with
  \<open>encoded_length\<close>, and what it leaves in the string decodes to the input with status
  \<open>NGX_OK\<close>, for every input below \<open>2 ^ 62\<close> bytes.
\<close>

theorem base64_roundtrip:
  assumes "length src < 2 ^ 62"
  shows "\<exists>out. Base64Encode src = Some out \<and> Base64Decode out = (0, src)
    \<and> length out = unat (encoded_length (of_nat (length src)))"
proof -
  let ?out = "ngx_encode_base64 src"
  have len: "length ?out = unat (encoded_length (of_nat (length src)))"
    by (simp add: unat_encoded_length [OF assms] length_encode)
  have "Base64Encode src = Some ?out"
    by (simp add: Base64Encode_def write_buffer_def Let_def flip: len)
  moreover have "Base64Decode ?out = (0, src)"
    by (simp add: Base64Decode_def b64.dec_enc)
  ultimately show ?thesis using len by blast
qed

theorem base64_roundtrip_witness:
  "\<exists>out. Base64Encode [77, 97, 110, 255] = Some out \<and> Base64Decode out = (0, [77, 97, 110, 255])
    \<and> length out = unat (encoded_length (of_nat (length [77, 97, 110, 255 :: byte])))"
  by (rule base64_roundtrip) simp

text \<open>
  C3. the decoder fails exactly when a byte before the first padding character is not
  accepted by \<open>is_base64\<close> or their number is one more than a multiple of four; otherwise
  it writes \<open>3/4\<close> of that number, rounded down, which fits \<open>decoded_length\<close>.
\<close>

theorem base64_decode_outcome:
  assumes "length src < 2 ^ 62"
  shows "let p = takeWhile (\<lambda>c. c \<noteq> 61) src; (code, out) = Base64Decode src in
     (code = -1 \<longleftrightarrow> (\<exists>c \<in> set p. \<not> is_base64 c) \<or> length p mod 4 = 1)
     \<and> (code \<noteq> -1 \<longrightarrow> code = 0 \<and> length out = length p * 3 div 4)
     \<and> length out \<le> unat (decoded_length (of_nat (length src)))"
proof -
  let ?p = "takeWhile (\<lambda>c. c \<noteq> 61) src"
  have le: "length ?p * 3 div 4 \<le> (length src + 3) div 4 * 3"
  proof -
    have "length ?p \<le> length src" by (rule length_takeWhile_le)
    then show ?thesis by linarith
  qed
  show ?thesis
  proof (cases "scan_base64 basis64_dec src")
    case None
    with scan_None [of src] show ?thesis
      by (simp add: Base64Decode_def ngx_decode_base64_def ngx_decode_base64_internal_def
          Let_def)
  next
    case (Some q)
    moreover from this have "q = ?p" by (rule scan_takeWhile)
    moreover have "\<not> (\<exists>c \<in> set ?p. \<not> is_base64 c)"
      using scan_None [of src] Some by simp
    ultimately show ?thesis
      using le by (simp add: Base64Decode_def ngx_decode_base64_def
          ngx_decode_base64_internal_def length_decode_quads unat_decoded_length [OF assms] Let_def)
  qed
qed

theorem base64_decode_outcome_witness:
  "let p = takeWhile (\<lambda>c. c \<noteq> 61) [77, 97, 64]; (code, out) = Base64Decode [77, 97, 64] in
     (code = -1 \<longleftrightarrow> (\<exists>c \<in> set p. \<not> is_base64 c) \<or> length p mod 4 = 1)
     \<and> (code \<noteq> -1 \<longrightarrow> code = 0 \<and> length out = length p * 3 div 4)
     \<and> length out \<le> unat (decoded_length (of_nat (length [77, 97, 64 :: byte])))"
  by (rule base64_decode_outcome) simp

end
