(* ===== verification/Md5.thy ===== *)
theory Md5
  imports Interfaces
begin

text \<open>
  The MD5 digest of \<open>zysoft/src/zysoft/string/md5.h\<close> over \<open>string/detail/ngx_md5.h\<close>, in the
  portable variant that reads its words byte by byte.  The context is a record, its buffer a
  list of 64 bytes.  The 64 unrolled \<open>STEP\<close>s are a table; after each step the four registers
  change roles, which is a rotation of the tuple.
\<close>

type_synonym md5_regs = "32 word \<times> 32 word \<times> 32 word \<times> 32 word"

record ngx_md5_t =
  md_bytes :: u64
  md_regs :: md5_regs
  md_buffer :: "byte list"

section \<open>One block\<close>

definition md5_F :: "32 word \<Rightarrow> 32 word \<Rightarrow> 32 word \<Rightarrow> 32 word" where
  "md5_F x y z = z XOR (x AND (y XOR z))"

definition md5_G :: "32 word \<Rightarrow> 32 word \<Rightarrow> 32 word \<Rightarrow> 32 word" where
  "md5_G x y z = y XOR (z AND (x XOR y))"

definition md5_H :: "32 word \<Rightarrow> 32 word \<Rightarrow> 32 word \<Rightarrow> 32 word" where
  "md5_H x y z = x XOR y XOR z"

definition md5_I :: "32 word \<Rightarrow> 32 word \<Rightarrow> 32 word \<Rightarrow> 32 word" where
  "md5_I x y z = y XOR (x OR NOT z)"

type_synonym md5_step = "(32 word \<Rightarrow> 32 word \<Rightarrow> 32 word \<Rightarrow> 32 word) \<times> nat \<times> 32 word \<times> nat"

definition STEP :: "32 word list \<Rightarrow> md5_step \<Rightarrow> md5_regs \<Rightarrow> md5_regs" where
  "STEP block = (\<lambda>(f, n, t, s) (a, b, c, d).
     let a1 = a + (f b c d + block ! n + t);
         a2 = push_bit s a1 OR drop_bit (32 - s) (a1 AND 0xffffffff)
     in (d, a2 + b, b, c))"

definition md5_steps :: "md5_step list" where
  "md5_steps =
    [
     (md5_F, 0, 0xd76aa478, 7), (md5_F, 1, 0xe8c7b756, 12), (md5_F, 2, 0x242070db, 17), (md5_F, 3, 0xc1bdceee, 22),
     (md5_F, 4, 0xf57c0faf, 7), (md5_F, 5, 0x4787c62a, 12), (md5_F, 6, 0xa8304613, 17), (md5_F, 7, 0xfd469501, 22),
     (md5_F, 8, 0x698098d8, 7), (md5_F, 9, 0x8b44f7af, 12), (md5_F, 10, 0xffff5bb1, 17), (md5_F, 11, 0x895cd7be, 22),
     (md5_F, 12, 0x6b901122, 7), (md5_F, 13, 0xfd987193, 12), (md5_F, 14, 0xa679438e, 17), (md5_F, 15, 0x49b40821, 22),
     (md5_G, 1, 0xf61e2562, 5), (md5_G, 6, 0xc040b340, 9), (md5_G, 11, 0x265e5a51, 14), (md5_G, 0, 0xe9b6c7aa, 20),
     (md5_G, 5, 0xd62f105d, 5), (md5_G, 10, 0x02441453, 9), (md5_G, 15, 0xd8a1e681, 14), (md5_G, 4, 0xe7d3fbc8, 20),
     (md5_G, 9, 0x21e1cde6, 5), (md5_G, 14, 0xc33707d6, 9), (md5_G, 3, 0xf4d50d87, 14), (md5_G, 8, 0x455a14ed, 20),
     (md5_G, 13, 0xa9e3e905, 5), (md5_G, 2, 0xfcefa3f8, 9), (md5_G, 7, 0x676f02d9, 14), (md5_G, 12, 0x8d2a4c8a, 20),
     (md5_H, 5, 0xfffa3942, 4), (md5_H, 8, 0x8771f681, 11), (md5_H, 11, 0x6d9d6122, 16), (md5_H, 14, 0xfde5380c, 23),
     (md5_H, 1, 0xa4beea44, 4), (md5_H, 4, 0x4bdecfa9, 11), (md5_H, 7, 0xf6bb4b60, 16), (md5_H, 10, 0xbebfbc70, 23),
     (md5_H, 13, 0x289b7ec6, 4), (md5_H, 0, 0xeaa127fa, 11), (md5_H, 3, 0xd4ef3085, 16), (md5_H, 6, 0x04881d05, 23),
     (md5_H, 9, 0xd9d4d039, 4), (md5_H, 12, 0xe6db99e5, 11), (md5_H, 15, 0x1fa27cf8, 16), (md5_H, 2, 0xc4ac5665, 23),
     (md5_I, 0, 0xf4292244, 6), (md5_I, 7, 0x432aff97, 10), (md5_I, 14, 0xab9423a7, 15), (md5_I, 5, 0xfc93a039, 21),
     (md5_I, 12, 0x655b59c3, 6), (md5_I, 3, 0x8f0ccc92, 10), (md5_I, 10, 0xffeff47d, 15), (md5_I, 1, 0x85845dd1, 21),
     (md5_I, 8, 0x6fa87e4f, 6), (md5_I, 15, 0xfe2ce6e0, 10), (md5_I, 6, 0xa3014314, 15), (md5_I, 13, 0x4e0811a1, 21),
     (md5_I, 4, 0xf7537e82, 6), (md5_I, 11, 0xbd3af235, 10), (md5_I, 2, 0x2ad7d2bb, 15), (md5_I, 9, 0xeb86d391, 21)]"

definition SET :: "byte list \<Rightarrow> nat \<Rightarrow> 32 word" where
  "SET p n = ucast (p ! (n * 4)) OR push_bit 8 (ucast (p ! (n * 4 + 1)))
     OR push_bit 16 (ucast (p ! (n * 4 + 2))) OR push_bit 24 (ucast (p ! (n * 4 + 3)))"

definition md5_block :: "md5_regs \<Rightarrow> byte list \<Rightarrow> md5_regs" where
  "md5_block = (\<lambda>(a, b, c, d) p.
     let block = map (SET p) [0 ..< 16];
         (a1, b1, c1, d1) = fold (STEP block) md5_steps (a, b, c, d)
     in (a1 + a, b1 + b, c1 + c, d1 + d))"

text \<open>
  The \<open>do\<close> loop over the blocks of \<open>data\<close>, whose length the callers make a positive multiple
  of 64.
\<close>

function (sequential) md5_blocks :: "md5_regs \<Rightarrow> byte list \<Rightarrow> md5_regs" where
  "md5_blocks r data =
     (let r' = md5_block r (take 64 data)
      in if length data \<le> 64 then r' else md5_blocks r' (drop 64 data))"
  by pat_completeness auto

termination
  by (relation "measure (\<lambda>(r, data). length data)") auto

declare md5_blocks.simps [simp del]

definition ngx_md5_body :: "ngx_md5_t \<Rightarrow> byte list \<Rightarrow> ngx_md5_t" where
  "ngx_md5_body ctx data = ctx\<lparr>md_regs := md5_blocks (md_regs ctx) data\<rparr>"

section \<open>Init, update, final\<close>

definition md5_init_regs :: md5_regs where
  "md5_init_regs = (0x67452301, 0xefcdab89, 0x98badcfe, 0x10325476)"

text \<open>\<open>ngx_md5_init\<close> leaves the buffer, here \<open>buf\<close>, as it was.\<close>

definition ngx_md5_init :: "byte list \<Rightarrow> ngx_md5_t" where
  "ngx_md5_init buf = \<lparr>md_bytes = 0, md_regs = md5_init_regs, md_buffer = buf\<rparr>"

definition buf_copy :: "nat \<Rightarrow> byte list \<Rightarrow> byte list \<Rightarrow> byte list" where
  "buf_copy off src buf = take off buf @ src @ drop (off + length src) buf"

definition ngx_md5_update :: "ngx_md5_t \<Rightarrow> byte list \<Rightarrow> ngx_md5_t" where
  "ngx_md5_update ctx data =
     (let used = unat (md_bytes ctx AND 0x3f);
          size = length data;
          ctx1 = ctx\<lparr>md_bytes := md_bytes ctx + of_nat size\<rparr>
      in if used \<noteq> 0 \<and> size < 64 - used
         then ctx1\<lparr>md_buffer := buf_copy used data (md_buffer ctx1)\<rparr>
         else
           (let (ctx2, data2) =
                  (if used \<noteq> 0 then
                     (let free = 64 - used;
                          c = ctx1\<lparr>md_buffer := buf_copy used (take free data) (md_buffer ctx1)\<rparr>
                      in (ngx_md5_body c (md_buffer c), drop free data))
                   else (ctx1, data));
                (ctx3, data3) =
                  (if 64 \<le> length data2 then
                     (let whole = length data2 - length data2 mod 64
                      in (ngx_md5_body ctx2 (take whole data2), drop whole data2))
                   else (ctx2, data2))
            in ctx3\<lparr>md_buffer := buf_copy 0 data3 (md_buffer ctx3)\<rparr>))"

definition le_bytes32 :: "32 word \<Rightarrow> byte list" where
  "le_bytes32 w = map (\<lambda>n. ucast (drop_bit (8 * n) w)) [0, 1, 2, 3]"

definition le_bytes64 :: "u64 \<Rightarrow> byte list" where
  "le_bytes64 w = map (\<lambda>n. ucast (drop_bit (8 * n) w)) [0, 1, 2, 3, 4, 5, 6, 7]"

definition md5_output :: "md5_regs \<Rightarrow> byte list" where
  "md5_output = (\<lambda>(a, b, c, d). le_bytes32 a @ le_bytes32 b @ le_bytes32 c @ le_bytes32 d)"

definition ngx_md5_final :: "ngx_md5_t \<Rightarrow> byte list" where
  "ngx_md5_final ctx =
     (let used = unat (md_bytes ctx AND 0x3f);
          buf = buf_copy used [0x80] (md_buffer ctx);
          used1 = used + 1;
          free = 64 - used1;
          (ctx1, used2, free2) =
            (if free < 8 then
               (let c = ctx\<lparr>md_buffer := buf_copy used1 (replicate free 0) buf\<rparr>
                in (ngx_md5_body c (md_buffer c), 0, 64))
             else (ctx\<lparr>md_buffer := buf\<rparr>, used1, free));
          buf2 = buf_copy used2 (replicate (free2 - 8) 0) (md_buffer ctx1);
          bits = push_bit 3 (md_bytes ctx1);
          buf3 = buf_copy 56 (le_bytes64 bits) buf2
      in md5_output (md_regs (ngx_md5_body ctx1 buf3)))"

text \<open>The public functions of \<open>md5.h\<close> pass their arguments on.\<close>

definition MD5_Init :: "byte list \<Rightarrow> ngx_md5_t" where
  "MD5_Init = ngx_md5_init"

definition MD5_Update :: "ngx_md5_t \<Rightarrow> byte list \<Rightarrow> ngx_md5_t" where
  "MD5_Update = ngx_md5_update"

definition MD5_Final :: "ngx_md5_t \<Rightarrow> byte list" where
  "MD5_Final = ngx_md5_final"

section \<open>The digest of RFC 1321\<close>

text \<open>
  The functions and the step order as the RFC states them, with its table \<open>T\<close>: round \<open>r\<close> uses
  the word \<open>k\<close> and the shift \<open>s\<close> given by simple formulas, and a step rotates to the left.
\<close>

definition rfc_T :: "32 word list" where
  "rfc_T =
    [
     0xd76aa478, 0xe8c7b756, 0x242070db, 0xc1bdceee, 0xf57c0faf, 0x4787c62a, 0xa8304613, 0xfd469501,
     0x698098d8, 0x8b44f7af, 0xffff5bb1, 0x895cd7be, 0x6b901122, 0xfd987193, 0xa679438e, 0x49b40821,
     0xf61e2562, 0xc040b340, 0x265e5a51, 0xe9b6c7aa, 0xd62f105d, 0x02441453, 0xd8a1e681, 0xe7d3fbc8,
     0x21e1cde6, 0xc33707d6, 0xf4d50d87, 0x455a14ed, 0xa9e3e905, 0xfcefa3f8, 0x676f02d9, 0x8d2a4c8a,
     0xfffa3942, 0x8771f681, 0x6d9d6122, 0xfde5380c, 0xa4beea44, 0x4bdecfa9, 0xf6bb4b60, 0xbebfbc70,
     0x289b7ec6, 0xeaa127fa, 0xd4ef3085, 0x04881d05, 0xd9d4d039, 0xe6db99e5, 0x1fa27cf8, 0xc4ac5665,
     0xf4292244, 0x432aff97, 0xab9423a7, 0xfc93a039, 0x655b59c3, 0x8f0ccc92, 0xffeff47d, 0x85845dd1,
     0x6fa87e4f, 0xfe2ce6e0, 0xa3014314, 0x4e0811a1, 0xf7537e82, 0xbd3af235, 0x2ad7d2bb, 0xeb86d391]"

definition rfc_fun :: "nat \<Rightarrow> 32 word \<Rightarrow> 32 word \<Rightarrow> 32 word \<Rightarrow> 32 word" where
  "rfc_fun r x y z =
     (if r = 0 then (x AND y) OR (NOT x AND z)
      else if r = 1 then (x AND z) OR (y AND NOT z)
      else if r = 2 then x XOR y XOR z
      else y XOR (x OR NOT z))"

definition rfc_index :: "nat \<Rightarrow> nat" where
  "rfc_index i =
     (if i div 16 = 0 then i mod 16
      else if i div 16 = 1 then (5 * i + 1) mod 16
      else if i div 16 = 2 then (3 * i + 5) mod 16
      else (7 * i) mod 16)"

definition rfc_shift :: "nat \<Rightarrow> nat" where
  "rfc_shift i = [[7, 12, 17, 22], [5, 9, 14, 20], [4, 11, 16, 23], [6, 10, 15, 21]]
     ! (i div 16) ! (i mod 4)"

definition rfc_step :: "32 word list \<Rightarrow> nat \<Rightarrow> md5_regs \<Rightarrow> md5_regs" where
  "rfc_step X i = (\<lambda>(a, b, c, d).
     (d, b + word_rotl (rfc_shift i)
               (a + rfc_fun (i div 16) b c d + X ! rfc_index i + rfc_T ! i), b, c))"

definition rfc_block :: "md5_regs \<Rightarrow> byte list \<Rightarrow> md5_regs" where
  "rfc_block = (\<lambda>(a, b, c, d) p.
     let (a1, b1, c1, d1) = fold (rfc_step (map (SET p) [0 ..< 16])) [0 ..< 64] (a, b, c, d)
     in (a + a1, b + b1, c + c1, d + d1))"

text \<open>The whole blocks of a list, for any function of a block.\<close>

function (sequential) fold_blocks :: "('r \<Rightarrow> byte list \<Rightarrow> 'r) \<Rightarrow> 'r \<Rightarrow> byte list \<Rightarrow> 'r" where
  "fold_blocks f r data =
     (if length data < 64 then r else fold_blocks f (f r (take 64 data)) (drop 64 data))"
  by pat_completeness auto

termination
  by (relation "measure (\<lambda>(f, r, data). length data)") auto

declare fold_blocks.simps [simp del]

definition rfc_blocks :: "md5_regs \<Rightarrow> byte list \<Rightarrow> md5_regs" where
  "rfc_blocks = fold_blocks rfc_block"

text \<open>A 1 bit, zeros up to 56 bytes modulo 64, and the length in bits modulo \<open>2^64\<close>.\<close>

definition rfc_pad :: "byte list \<Rightarrow> byte list" where
  "rfc_pad m = m @ [0x80] @ replicate ((119 - length m mod 64) mod 64) 0
     @ le_bytes64 (of_nat (8 * length m))"

definition rfc_md5 :: "byte list \<Rightarrow> byte list" where
  "rfc_md5 m = md5_output (rfc_blocks md5_init_regs (rfc_pad m))"

section \<open>The unrolled block is the block of the RFC\<close>

lemma md5_funs:
  "md5_F = rfc_fun 0" "md5_G = rfc_fun 1" "md5_H = rfc_fun 2" "md5_I = rfc_fun 3"
  by (intro ext bit_word_eqI;
      auto simp: md5_F_def md5_G_def md5_H_def md5_I_def rfc_fun_def bit_simps)+

lemma shifts_are_rotation:
  assumes "0 < s" "s < 32"
  shows "push_bit s a OR drop_bit (32 - s) (a AND 0xffffffff) = word_rotl s (a :: 32 word)"
proof -
  have ff: "(0xffffffff :: 32 word) = mask 32" by (simp add: mask_eq_exp_minus_1)
  show ?thesis
    unfolding ff
  proof (rule bit_word_eqI)
    fix n assume n: "n < LENGTH(32)"
    show "bit (push_bit s a OR drop_bit (32 - s) (a AND mask 32)) n = bit (word_rotl s a) n"
    proof (cases "n < s")
      case True
      then have "(n + 32 - s) mod 32 = n + 32 - s" using assms by simp
      moreover have "32 + n - s = n + 32 - s" "n + 32 - s < 32" using True by simp_all
      ultimately show ?thesis using True n assms by (simp add: bit_simps bit_word_rotl_iff)
    next
      case False
      then have "(n + 32 - s) mod 32 = n - s"
        using n by (simp add: mod_if)
      then show ?thesis using False n assms
        by (auto simp: bit_simps bit_word_rotl_iff dest: bit_imp_le_length)
    qed
  qed
qed

lemma upt_64: "[0 ..< 64] = [0, 1, 2, 3, 4, 5, 6, 7, 8, 9, 10, 11, 12, 13, 14, 15, 16, 17, 18, 19, 20, 21, 22, 23, 24, 25, 26, 27, 28, 29, 30, 31, 32, 33, 34, 35, 36, 37, 38, 39, 40, 41, 42, 43, 44, 45, 46, 47, 48, 49, 50, 51, 52, 53, 54, 55, 56, 57, 58, 59, 60, 61, 62, 63 :: nat]"
  by code_simp

lemma md5_steps_rfc:
  "md5_steps = map (\<lambda>i. (rfc_fun (i div 16), rfc_index i, rfc_T ! i, rfc_shift i)) [0 ..< 64]"
proof -
  have "map (\<lambda>(f, n, t, s). (n, t, s)) md5_steps =
      map (\<lambda>i. (rfc_index i, rfc_T ! i, rfc_shift i)) [0 ..< 64]"
    by code_simp
  moreover have "map fst md5_steps = map (\<lambda>i. rfc_fun (i div 16)) [0 ..< 64]"
    unfolding upt_64 by (simp add: md5_steps_def md5_funs)
  ultimately have "map (\<lambda>x. (fst x, (\<lambda>(f, n, t, s). (n, t, s)) x)) md5_steps =
      map (\<lambda>i. (rfc_fun (i div 16), rfc_index i, rfc_T ! i, rfc_shift i)) [0 ..< 64]"
    by (simp add: list_eq_iff_nth_eq)
  then show ?thesis by (simp add: split_beta)
qed

lemma rfc_shift_range: "i < 64 \<Longrightarrow> 0 < rfc_shift i \<and> rfc_shift i < 32"
proof -
  have "list_all (\<lambda>i. 0 < rfc_shift i \<and> rfc_shift i < 32) [0 ..< 64]" by code_simp
  then show "i < 64 \<Longrightarrow> 0 < rfc_shift i \<and> rfc_shift i < 32" by (simp add: list_all_iff)
qed

lemma STEP_rfc:
  assumes "i < 64"
  shows "STEP X (rfc_fun (i div 16), rfc_index i, rfc_T ! i, rfc_shift i) = rfc_step X i"
proof (rule ext)
  fix r :: md5_regs
  obtain a b c d where r: "r = (a, b, c, d)" by (cases r)
  show "STEP X (rfc_fun (i div 16), rfc_index i, rfc_T ! i, rfc_shift i) r = rfc_step X i r"
    using shifts_are_rotation [of "rfc_shift i"] rfc_shift_range [OF assms]
    by (simp add: r STEP_def rfc_step_def Let_def ac_simps)
qed

lemma md5_block_rfc: "md5_block = rfc_block"
proof -
  have "fold (STEP X) md5_steps r = fold (rfc_step X) [0 ..< 64] r" for X r
    unfolding md5_steps_rfc fold_map by (rule fold_cong) (auto simp: STEP_rfc)
  then show ?thesis
    by (auto simp: md5_block_def rfc_block_def fun_eq_iff Let_def add.commute split: prod.splits)
qed

section \<open>Blocks\<close>

lemma fold_blocks_short: "length x < 64 \<Longrightarrow> fold_blocks f r x = r"
  by (subst fold_blocks.simps) simp

lemma fold_blocks_one: "length b = 64 \<Longrightarrow> fold_blocks f r (b @ x) = fold_blocks f (f r b) x"
  by (subst fold_blocks.simps) simp

lemma fold_blocks_append:
  "64 dvd length xs \<Longrightarrow> fold_blocks f r (xs @ ys) = fold_blocks f (fold_blocks f r xs) ys"
proof (induction f r xs rule: fold_blocks.induct)
  case (1 f r xs)
  show ?case
  proof (cases "length xs < 64")
    case True
    with 1(2) have "xs = []" by (auto elim!: dvdE)
    then show ?thesis by (simp add: fold_blocks_short)
  next
    case False
    let ?b = "take 64 xs" and ?r = "drop 64 xs"
    have "64 dvd length ?r" using 1(2) False by simp
    with 1(1) [OF False] have "fold_blocks f (f r ?b) (?r @ ys) =
        fold_blocks f (fold_blocks f (f r ?b) ?r) ys" .
    moreover have "fold_blocks f r (?b @ (?r @ ys)) = fold_blocks f (f r ?b) (?r @ ys)"
      "fold_blocks f r (?b @ ?r) = fold_blocks f (f r ?b) ?r"
      using False by (intro fold_blocks_one; simp)+
    ultimately show ?thesis by (simp flip: append_assoc)
  qed
qed

text \<open>The bytes that do not fill a block.\<close>

definition tail64 :: "byte list \<Rightarrow> byte list" where
  "tail64 xs = drop (length xs - length xs mod 64) xs"

lemma length_tail64 [simp]: "length (tail64 xs) = length xs mod 64"
  by (simp add: tail64_def)

lemma whole_blocks:
  obtains ws where "xs = ws @ tail64 xs" "64 dvd length ws"
proof
  show "xs = take (length xs - length xs mod 64) xs @ tail64 xs" by (simp add: tail64_def)
  have "length (take (length xs - length xs mod 64) xs) = length xs - length xs mod 64" by simp
  then show "64 dvd length (take (length xs - length xs mod 64) xs)"
    by (simp only: minus_mod_eq_mult_div dvd_triv_left)
qed

lemma fold_blocks_tail: "fold_blocks f r (xs @ ys) = fold_blocks f (fold_blocks f r xs) (tail64 xs @ ys)"
proof -
  obtain ws where ws: "xs = ws @ tail64 xs" "64 dvd length ws" by (rule whole_blocks)
  have "fold_blocks f r xs = fold_blocks f r ws"
    using fold_blocks_append [OF ws(2), of f r "tail64 xs"] ws(1)
    by (simp add: fold_blocks_short)
  moreover have "fold_blocks f r (xs @ ys) = fold_blocks f (fold_blocks f r ws) (tail64 xs @ ys)"
    using fold_blocks_append [OF ws(2), of f r "tail64 xs @ ys"] ws(1) by (metis append_assoc)
  ultimately show ?thesis by simp
qed

lemmas rfc_blocks_rec = fold_blocks.simps [of rfc_block, folded rfc_blocks_def]
  and rfc_blocks_short = fold_blocks_short [of _ rfc_block, folded rfc_blocks_def]
  and rfc_blocks_append = fold_blocks_append [of _ rfc_block, folded rfc_blocks_def]
  and rfc_blocks_tail = fold_blocks_tail [of rfc_block, folded rfc_blocks_def]

lemma md5_blocks_rfc:
  "64 dvd length data \<Longrightarrow> data \<noteq> [] \<Longrightarrow> md5_blocks r data = rfc_blocks r data"
proof (induction r data rule: md5_blocks.induct)
  case (1 r data)
  from 1(2,3) have len: "64 \<le> length data" by (auto dest: dvd_imp_le)
  show ?case
  proof (cases "length data \<le> 64")
    case True
    with len have "length data = 64" by simp
    then show ?thesis
      by (subst md5_blocks.simps, subst rfc_blocks_rec)
        (simp add: Let_def md5_block_rfc rfc_blocks_short)
  next
    case False
    with 1(2) have "64 dvd length (drop 64 data)" "drop 64 data \<noteq> []" by auto
    with 1(1) [OF refl False] show ?thesis using False
      by (subst md5_blocks.simps, subst rfc_blocks_rec) (simp add: Let_def md5_block_rfc)
  qed
qed

lemma tail64_append: "tail64 (xs @ ys) = tail64 (tail64 xs @ ys)"
proof -
  obtain ws where ws: "xs = ws @ tail64 xs" "64 dvd length ws" by (rule whole_blocks)
  then obtain q where q: "length ws = 64 * q" by (auto elim!: dvdE)
  let ?t = "tail64 xs @ ys"
  have "tail64 (ws @ ?t) = tail64 ?t"
    unfolding tail64_def by (simp add: q)
  then show ?thesis using ws(1) by (metis append_assoc)
qed

text \<open>What a context has absorbed.\<close>

definition md5_absorbed :: "byte list \<Rightarrow> ngx_md5_t \<Rightarrow> bool" where
  "md5_absorbed xs ctx \<longleftrightarrow> md_bytes ctx = of_nat (length xs)
     \<and> md_regs ctx = rfc_blocks md5_init_regs xs
     \<and> length (md_buffer ctx) = 64 \<and> take (length xs mod 64) (md_buffer ctx) = tail64 xs"

lemma used_mod:
  "md_bytes ctx = of_nat n \<Longrightarrow> unat (md_bytes ctx AND 0x3f) = n mod 64"
proof -
  have "(of_nat n :: u64) AND 0x3f = of_nat n AND mask 6" by (simp add: mask_eq_exp_minus_1)
  also have "\<dots> = take_bit 6 (of_nat n)" by (simp add: take_bit_eq_mask)
  also have "unat \<dots> = take_bit 6 (take_bit 64 n)"
    by (simp add: unsigned_take_bit_eq unsigned_of_nat)
  also have "\<dots> = n mod 64"
    by (simp only: take_bit_take_bit) (simp add: take_bit_eq_mod)
  finally show "md_bytes ctx = of_nat n \<Longrightarrow> ?thesis" by simp
qed

lemma tail64_short: "length x < 64 \<Longrightarrow> tail64 x = x"
  by (simp add: tail64_def)

lemma tail64_block: "length b = 64 \<Longrightarrow> tail64 (b @ x) = tail64 x"
  by (simp add: tail64_def)

lemma length_buf_copy: "off + length src \<le> length buf \<Longrightarrow> length (buf_copy off src buf) = length buf"
  by (simp add: buf_copy_def)

lemma take_buf_copy:
  "off + length src \<le> length buf \<Longrightarrow> take (off + length src) (buf_copy off src buf) = take off buf @ src"
  by (simp add: buf_copy_def)

text \<open>The last two steps of an update: the whole blocks, then the rest into the buffer.\<close>

lemma update_whole:
  fixes data :: "byte list"
  assumes "length (md_buffer c) = 64"
  defines "p \<equiv> (if 64 \<le> length data then
      (let whole = length data - length data mod 64
       in (ngx_md5_body c (take whole data), drop whole data)) else (c, data))"
  shows "snd p = tail64 data" "md_regs (fst p) = rfc_blocks (md_regs c) data"
    "md_buffer (fst p) = md_buffer c" "md_bytes (fst p) = md_bytes c"
proof -
  show "snd p = tail64 data" by (simp add: p_def tail64_def Let_def)
  show "md_buffer (fst p) = md_buffer c" "md_bytes (fst p) = md_bytes c"
    by (simp_all add: p_def ngx_md5_body_def Let_def)
  show "md_regs (fst p) = rfc_blocks (md_regs c) data"
  proof (cases "64 \<le> length data")
    case True
    let ?w = "take (length data - length data mod 64) data"
    have len: "length ?w = 64 * (length data div 64)" by (simp add: minus_mod_eq_mult_div)
    with True have "64 dvd length ?w" "?w \<noteq> []" by (simp_all add: div_greater_zero_iff flip: length_greater_0_conv)
    then have "md5_blocks (md_regs c) ?w = rfc_blocks (md_regs c) ?w"
      by (rule md5_blocks_rfc)
    moreover have "rfc_blocks (md_regs c) (?w @ tail64 data) = rfc_blocks (rfc_blocks (md_regs c) ?w) (tail64 data)"
      by (rule rfc_blocks_append) (simp only: len dvd_triv_left)
    moreover have "?w @ tail64 data = data" by (simp add: tail64_def)
    ultimately show ?thesis using True
      by (simp add: p_def ngx_md5_body_def Let_def rfc_blocks_short)
  qed (simp add: p_def rfc_blocks_short)
qed

lemma md5_update_absorbed:
  assumes abs: "md5_absorbed xs ctx"
  shows "md5_absorbed (xs @ data) (ngx_md5_update ctx data)"
proof -
  let ?u = "length xs mod 64" and ?t = "tail64 xs" and ?b = "md_buffer ctx" and ?n = "length data"
  have b: "length ?b = 64" "take ?u ?b = ?t" and bytes: "md_bytes ctx = of_nat (length xs)"
    and regs: "md_regs ctx = rfc_blocks md5_init_regs xs"
    using abs by (simp_all add: md5_absorbed_def)
  note used = used_mod [OF bytes]
  have goal_regs: "rfc_blocks md5_init_regs (xs @ data) = rfc_blocks (md_regs ctx) (?t @ data)"
    unfolding regs by (rule rfc_blocks_tail)
  have goal_tail: "tail64 (xs @ data) = tail64 (?t @ data)" by (rule tail64_append)
  have tl: "length (tail64 (?t @ data)) = length (xs @ data) mod 64"
    by (simp add: mod_add_left_eq)
  define ctx1 where "ctx1 = ctx\<lparr>md_bytes := md_bytes ctx + of_nat ?n\<rparr>"
  show ?thesis
  proof (cases "?u \<noteq> 0 \<and> ?n < 64 - ?u")
    case True
    then have res: "ngx_md5_update ctx data = ctx1\<lparr>md_buffer := buf_copy ?u data ?b\<rparr>"
      by (simp add: ngx_md5_update_def used Let_def ctx1_def)
    have "?u + ?n < 64" using True by linarith
    then have sm: "length (?t @ data) < 64" "length (xs @ data) mod 64 = ?u + ?n"
      by (simp, metis length_append mod_add_left_eq mod_less)
    then show ?thesis
      unfolding md5_absorbed_def res goal_regs goal_tail
      using \<open>?u + ?n < 64\<close> take_buf_copy [of ?u data ?b] b bytes
      by (simp add: ctx1_def length_buf_copy rfc_blocks_short tail64_short)
  next
    case False
    define p where "p = (if ?u \<noteq> 0 then
        (let free = 64 - ?u;
             c = ctx1\<lparr>md_buffer := buf_copy ?u (take free data) (md_buffer ctx1)\<rparr>
         in (ngx_md5_body c (md_buffer c), drop free data)) else (ctx1, data))"
    have p_all: "length (md_buffer (fst p)) = 64 \<and> md_bytes (fst p) = md_bytes ctx1 \<and>
          rfc_blocks (md_regs (fst p)) (snd p) = rfc_blocks (md_regs ctx) (?t @ data) \<and>
          tail64 (snd p) = tail64 (?t @ data)"
    proof (cases "?u = 0")
      case True
      then have "?t = []" by (simp flip: length_0_conv)
      with True b show ?thesis
        by (simp add: p_def ctx1_def)
    next
      case u: False
      let ?d1 = "take (64 - ?u) data" and ?d2 = "drop (64 - ?u) data"
      have d1: "length ?d1 = 64 - ?u" using False u by simp
      have blk: "buf_copy ?u ?d1 ?b = ?t @ ?d1" "length (?t @ ?d1) = 64"
        using b d1 by (simp_all add: buf_copy_def)
      have "?t @ ?d1 \<noteq> []" using blk(2) by auto
      then have md: "md5_blocks (md_regs ctx) (?t @ ?d1) = rfc_blocks (md_regs ctx) (?t @ ?d1)"
        using blk(2) by (intro md5_blocks_rfc) simp_all
      have split: "?t @ data = (?t @ ?d1) @ ?d2" by simp
      have e1: "rfc_blocks (md_regs ctx) (?t @ data) =
          rfc_blocks (rfc_blocks (md_regs ctx) (?t @ ?d1)) ?d2"
        unfolding split using blk(2) by (intro rfc_blocks_append) simp
      have e2: "tail64 (?t @ data) = tail64 ?d2" unfolding split by (rule tail64_block [OF blk(2)])
      have "p = (ngx_md5_body (ctx1\<lparr>md_buffer := ?t @ ?d1\<rparr>) (?t @ ?d1), ?d2)"
        using u by (simp add: p_def Let_def ctx1_def blk(1))
      then show ?thesis
        unfolding e1 e2 using blk(2) md by (simp add: ngx_md5_body_def ctx1_def)
    qed
    then have p: "length (md_buffer (fst p)) = 64" "md_bytes (fst p) = md_bytes ctx1"
      "rfc_blocks (md_regs (fst p)) (snd p) = rfc_blocks (md_regs ctx) (?t @ data)"
      "tail64 (snd p) = tail64 (?t @ data)" by blast+
    define q where "q = (if 64 \<le> length (snd p) then
      (let whole = length (snd p) - length (snd p) mod 64
       in (ngx_md5_body (fst p) (take whole (snd p)), drop whole (snd p))) else (fst p, snd p))"
    note q = update_whole [OF p(1), of "snd p", folded q_def]
    have res: "ngx_md5_update ctx data =
        (fst q)\<lparr>md_buffer := buf_copy 0 (snd q) (md_buffer (fst q))\<rparr>"
      unfolding ngx_md5_update_def used Let_def if_not_P [OF False]
      by (simp add: p_def q_def ctx1_def Let_def split_beta)
    have "length (snd q) < 64" unfolding q(1) by simp
    moreover have "length (snd q) = length (xs @ data) mod 64" unfolding q(1) p(4) tl ..
    ultimately show ?thesis
      unfolding md5_absorbed_def res goal_regs goal_tail
      using q p bytes take_buf_copy [of 0 "snd q" "md_buffer (fst q)"]
      by (simp add: length_buf_copy ctx1_def)
  qed
qed

lemma length_le_bytes64 [simp]: "length (le_bytes64 w) = 8"
  by (simp add: le_bytes64_def)

lemma md5_blocks_one: "length b = 64 \<Longrightarrow> md5_blocks r b = rfc_blocks r b"
  by (rule md5_blocks_rfc) auto

lemma bits_of_bytes: "push_bit 3 (of_nat n :: u64) = of_nat (8 * n)"
  by (simp add: push_bit_eq_mult)

lemma pad_count:
  "u < 56 \<Longrightarrow> (119 - u) mod 64 = 55 - u"
  "56 \<le> u \<Longrightarrow> u < 64 \<Longrightarrow> (119 - u) mod 64 = (63 - u) + (56 :: nat)"
proof -
  assume "u < 56"
  then have "119 - u = (55 - u) + 64" "55 - u < 64" by simp_all
  then show "(119 - u) mod 64 = 55 - u" by (metis mod_add_self2 mod_less)
qed simp

lemma md5_final_absorbed:
  assumes abs: "md5_absorbed xs ctx"
  shows "ngx_md5_final ctx = rfc_md5 xs"
proof -
  let ?u = "length xs mod 64" and ?t = "tail64 xs" and ?b = "md_buffer ctx"
  let ?L = "le_bytes64 (of_nat (8 * length xs))"
  have b: "length ?b = 64" "take ?u ?b = ?t" and bytes: "md_bytes ctx = of_nat (length xs)"
    and regs: "md_regs ctx = rfc_blocks md5_init_regs xs"
    using abs by (simp_all add: md5_absorbed_def)
  note used = used_mod [OF bytes]
  have u: "?u < 64" by simp
  have digest: "rfc_md5 xs = md5_output (rfc_blocks (md_regs ctx)
      (?t @ [0x80] @ replicate ((119 - ?u) mod 64) 0 @ ?L))"
    unfolding rfc_md5_def rfc_pad_def regs by (subst rfc_blocks_tail) (rule refl)
  have buf: "buf_copy ?u [0x80] ?b = (?t @ [0x80]) @ drop (Suc ?u) ?b"
    using b(2) by (simp add: buf_copy_def)
  have bits: "push_bit 3 (md_bytes ctx) = of_nat (8 * length xs)"
    unfolding bytes by (rule bits_of_bytes)
  show ?thesis
  proof (cases "?u < 56")
    case True
    let ?z = "replicate (55 - ?u) 0 :: byte list"
    have nf: "\<not> 64 - (?u + 1) < 8" "64 - (?u + 1) - 8 = 55 - ?u" using True by linarith+
    have z: "(119 - ?u) mod 64 = 55 - ?u"
      by (rule pad_count(1) [OF True])
    have b2: "buf_copy (?u + 1) ?z (buf_copy ?u [0x80] ?b) = (?t @ [0x80] @ ?z) @ drop 56 ?b"
      unfolding buf using b True by (simp add: buf_copy_def drop_Cons')
    have b3: "buf_copy 56 ?L ((?t @ [0x80] @ ?z) @ drop 56 ?b) = ?t @ [0x80] @ ?z @ ?L"
      using b(1) True by (simp add: buf_copy_def take_Cons')
    have "ngx_md5_final ctx = md5_output (md5_blocks (md_regs ctx)
        (buf_copy 56 ?L (buf_copy (?u + 1) ?z (buf_copy ?u [0x80] ?b))))"
      unfolding ngx_md5_final_def used Let_def if_not_P [OF nf(1)] prod.case nf(2)
      by (simp add: ngx_md5_body_def bits)
    also have "md5_blocks (md_regs ctx)
        (buf_copy 56 ?L (buf_copy (?u + 1) ?z (buf_copy ?u [0x80] ?b))) =
        rfc_blocks (md_regs ctx) (?t @ [0x80] @ ?z @ ?L)"
      unfolding b2 b3 by (rule md5_blocks_one) (use True in simp)
    finally show ?thesis unfolding digest z .
  next
    case False
    let ?z1 = "replicate (63 - ?u) 0 :: byte list" and ?z2 = "replicate 56 0 :: byte list"
    have nf: "63 - ?u < 8" "64 - (?u + 1) = 63 - ?u" using False u by linarith+
    have z: "replicate ((119 - ?u) mod 64) (0 :: byte) = ?z1 @ ?z2"
      using pad_count(2) [OF _ u] False by (simp flip: replicate_add)
    have b1: "buf_copy (?u + 1) ?z1 (buf_copy ?u [0x80] ?b) = ?t @ [0x80] @ ?z1"
      unfolding buf using b u by (simp add: buf_copy_def)
    have len1: "length (?t @ [0x80] @ ?z1) = 64" using u by simp
    have b3: "buf_copy 56 ?L (buf_copy 0 ?z2 (?t @ [0x80] @ ?z1)) = ?z2 @ ?L"
      using len1 by (simp add: buf_copy_def)
    have "ngx_md5_final ctx = md5_output (md5_blocks
        (md5_blocks (md_regs ctx) (buf_copy (?u + 1) ?z1 (buf_copy ?u [0x80] ?b)))
        (buf_copy 56 ?L (buf_copy 0 ?z2 (buf_copy (?u + 1) ?z1 (buf_copy ?u [0x80] ?b)))))"
      unfolding ngx_md5_final_def used Let_def nf(2) if_P [OF nf(1)] prod.case
      by (simp add: ngx_md5_body_def bits)
    also have "\<dots> = md5_output (rfc_blocks (rfc_blocks (md_regs ctx) (?t @ [0x80] @ ?z1)) (?z2 @ ?L))"
      unfolding b1 b3 using len1 md5_blocks_one [of "?t @ [0x80] @ ?z1"] md5_blocks_one [of "?z2 @ ?L"]
      by simp
    also have "rfc_blocks (rfc_blocks (md_regs ctx) (?t @ [0x80] @ ?z1)) (?z2 @ ?L) =
        rfc_blocks (md_regs ctx) ((?t @ [0x80] @ ?z1) @ ?z2 @ ?L)"
      by (rule rfc_blocks_append [symmetric]) (simp only: len1 dvd_refl)
    finally show ?thesis unfolding digest z by simp
  qed
qed

text \<open>A fresh context: whatever the 64 bytes of its buffer hold.\<close>

definition md5_started :: "ngx_md5_t \<Rightarrow> bool" where
  "md5_started ctx \<longleftrightarrow> length (md_buffer ctx) = 64 \<and> ctx = MD5_Init (md_buffer ctx)"

lemma md5_started_absorbed:
  assumes "md5_started ctx"
  shows "md5_absorbed [] ctx"
proof -
  obtain buf where "length buf = 64" "ctx = ngx_md5_init buf"
    using assms by (auto simp: md5_started_def MD5_Init_def)
  then show ?thesis
    by (simp add: md5_absorbed_def ngx_md5_init_def rfc_blocks_short tail64_short)
qed

interpretation dg: incremental md5_started MD5_Update md5_absorbed MD5_Final rfc_md5
  by unfold_locales
    (simp_all add: md5_started_absorbed MD5_Update_def MD5_Final_def md5_update_absorbed
      md5_final_absorbed)

text \<open>
  C7.  \<open>MD5_Init\<close>, any sequence of \<open>MD5_Update\<close>s and \<open>MD5_Final\<close> compute the digest of RFC 1321
  of the concatenated input: the optimised functions, the unrolled steps, the buffering
  across calls and the padding are those of the RFC, for every input and every division of
  it into pieces, whatever the context's buffer held before.
\<close>

theorem md5_is_rfc1321:
  assumes "length buf = 64"
  shows "MD5_Final (foldl MD5_Update (MD5_Init buf) pieces) = rfc_md5 (concat pieces)"
  by (rule dg.result_chunks) (simp add: md5_started_def MD5_Init_def ngx_md5_init_def assms)

lemma md5_is_rfc1321_witness:
  "MD5_Final (foldl MD5_Update (MD5_Init (replicate 64 7)) [[97], [98, 99]]) = rfc_md5 [97, 98, 99]"
  using md5_is_rfc1321 [of "replicate 64 7" "[[97], [98, 99]]"] by simp

end
