(* ===== verification/Memory_Text.thy ===== *)
theory Memory_Text
  imports Zylib_Prelude "HOL-Library.Char_ord"
begin

text \<open>
  What several components do with raw memory and text: a vector that is resized, a C string,
  an integer copied to or from bytes (the platforms are little-endian), and decimal digits.
\<close>

section \<open>Memory\<close>

definition vec_resize :: "nat \<Rightarrow> byte list \<Rightarrow> byte list" where
  "vec_resize n v = take n v @ replicate (n - length v) 0"

text \<open>A C string is what precedes the first NUL.\<close>

definition c_string :: "byte list \<Rightarrow> byte list option" where
  "c_string d = (if 0 \<in> set d then Some (takeWhile (\<lambda>b. b \<noteq> 0) d) else None)"

lemma c_string_terminated: "c_string (bs @ [0]) = Some (takeWhile (\<lambda>b. b \<noteq> 0) bs)"
  by (induction bs) (auto simp: c_string_def)

definition le_bytes :: "nat \<Rightarrow> 'a :: len word \<Rightarrow> byte list" where
  "le_bytes n w = map (\<lambda>i. ucast (drop_bit (8 * i) w)) [0 ..< n]"

fun un_le :: "byte list \<Rightarrow> 'a :: len word" where
  "un_le [] = 0"
| "un_le (b # bs) = ucast b OR push_bit 8 (un_le bs)"

lemma length_le_bytes [simp]: "length (le_bytes n w) = n"
  by (simp add: le_bytes_def)

lemma bit_un_le:
  "bit (un_le bs :: 'a :: len word) k \<longleftrightarrow>
     k < LENGTH('a) \<and> k div 8 < length bs \<and> bit (bs ! (k div 8)) (k mod 8)"
proof (induction bs arbitrary: k)
  case Nil
  then show ?case by simp
next
  case (Cons b bs)
  show ?case
  proof (cases "k < 8")
    case True
    then show ?thesis by (auto simp: bit_simps)
  next
    case False
    then have "k div 8 = Suc ((k - 8) div 8)" "k mod 8 = (k - 8) mod 8"
      by (simp_all add: div_if mod_if)
    with False show ?thesis using Cons.IH [of "k - 8"]
      by (auto simp: bit_simps)
  qed
qed

lemma un_le_le_bytes:
  fixes w :: "'a :: len word"
  assumes "LENGTH('a) \<le> 8 * n"
  shows "un_le (le_bytes n w) = w"
proof (rule bit_word_eqI)
  fix k assume k: "k < LENGTH('a)"
  then have "k div 8 < n" using assms by linarith
  with k show "bit (un_le (le_bytes n w) :: 'a word) k = bit w k"
    by (simp add: bit_un_le le_bytes_def bit_simps)
qed

lemma le_bytes_un_le:
  assumes "length bs = n" "LENGTH('a) = 8 * n"
  shows "le_bytes n (un_le bs :: 'a :: len word) = bs"
proof (rule nth_equalityI)
  show "length (le_bytes n (un_le bs :: 'a word)) = length bs" using assms by simp
  fix i assume "i < length (le_bytes n (un_le bs :: 'a word))"
  then have i: "i < n" by simp
  show "le_bytes n (un_le bs :: 'a word) ! i = bs ! i"
  proof (rule bit_word_eqI)
    fix k assume k: "k < LENGTH(8)"
    then have "(8 * i + k) div 8 = i" "(8 * i + k) mod 8 = k" "8 * i + k < 8 * n" using i by auto
    then show "bit (le_bytes n (un_le bs :: 'a word) ! i) k = bit (bs ! i) k"
      using i k assms by (simp add: le_bytes_def bit_simps bit_un_le)
  qed
qed

section \<open>Decimal digits\<close>

definition is_digit :: "char \<Rightarrow> bool" where
  "is_digit c \<longleftrightarrow> 48 \<le> (of_char c :: nat) \<and> (of_char c :: nat) \<le> 57"

fun digits :: "nat \<Rightarrow> string" where
  "digits n = (if n < 10 then [char_of (48 + n)] else digits (n div 10) @ [char_of (48 + n mod 10)])"

declare digits.simps [simp del]

definition decimal :: "string \<Rightarrow> nat" where
  "decimal ds = foldl (\<lambda>a c. 10 * a + (of_char c - 48)) 0 ds"

lemma of_char_digit [simp]: "d < (10 :: nat) \<Longrightarrow> (of_char (char_of (48 + d)) :: nat) = 48 + d"
  by (simp add: of_char_of)

lemma is_digit_char [simp]: "d < (10 :: nat) \<Longrightarrow> is_digit (char_of (48 + d))"
  by (simp add: is_digit_def)

lemma digits_ok: "list_all is_digit (digits n)" "digits n \<noteq> []" "decimal (digits n) = n"
proof (induction n rule: digits.induct)
  case (1 n)
  case 1
  then show ?case using "1.IH"(1) by (subst digits.simps) simp
next
  case (1 n)
  case 2
  then show ?case by (subst digits.simps) simp
next
  case (1 n)
  case 3
  then show ?case using "1.IH"(3)
    by (subst digits.simps) (simp add: decimal_def)
qed

lemma decimal_zeros: "decimal (replicate k (CHR ''0'') @ ds) = decimal ds"
  by (induction k) (simp_all add: decimal_def)

definition digit_string :: "string \<Rightarrow> bool" where
  "digit_string s \<longleftrightarrow> s \<noteq> [] \<and> list_all is_digit s"

lemma takeWhile_digits:
  "digit_string d \<Longrightarrow> \<not> is_digit c \<Longrightarrow> takeWhile is_digit (d @ c # s) = d"
  "digit_string d \<Longrightarrow> \<not> is_digit c \<Longrightarrow> dropWhile is_digit (d @ c # s) = c # s"
  by (auto simp: digit_string_def list_all_iff takeWhile_append dropWhile_append)

section \<open>Numbers of a fixed width\<close>

text \<open>\<open>%0wd\<close> and \<open>%0wld\<close>: the decimal digits of a signed value, filled with zeros to width \<open>w\<close>.\<close>

definition zero_padded :: "nat \<Rightarrow> int \<Rightarrow> string" where
  "zero_padded w i =
     (if i < 0
      then (let ds = digits (nat (- i)) in CHR ''-'' # replicate (w - 1 - length ds) (CHR ''0'') @ ds)
      else (let ds = digits (nat i) in replicate (w - length ds) (CHR ''0'') @ ds))"

lemma zero_padded_ok:
  assumes "0 \<le> i"
  shows "digit_string (zero_padded w i)" "decimal (zero_padded w i) = nat i"
  using assms digits_ok [of "nat i"]
  by (auto simp: zero_padded_def digit_string_def decimal_zeros Let_def is_digit_def list_all_iff)

lemma length_digits: "n < 10 ^ Suc k \<Longrightarrow> length (digits n) \<le> Suc k"
proof (induction k arbitrary: n)
  case 0
  then show ?case by (subst digits.simps) simp
next
  case (Suc k)
  then have "n div 10 < 10 ^ Suc k" by (simp add: less_mult_imp_div_less)
  from Suc.IH [OF this] show ?case by (subst digits.simps) simp
qed

lemma length_zero_padded:
  assumes "0 \<le> i" "i < 10 ^ Suc k" "w \<le> Suc k"
  shows "length (zero_padded w i) \<le> Suc k"
proof -
  have "nat i < 10 ^ Suc k" using assms(1,2) by (simp add: nat_less_iff)
  from length_digits [OF this] assms show ?thesis
    by (simp add: zero_padded_def Let_def)
qed

section \<open>Bytes of a text\<close>

text \<open>The bytes of a text.\<close>

definition ascii :: "string \<Rightarrow> byte list" where
  "ascii s = map (\<lambda>c. of_nat (of_char c)) s"

lemma of_char_byte_inj: "(of_nat (of_char c) :: byte) = of_nat (of_char d) \<longleftrightarrow> c = d"
proof
  have lt: "of_char c < (256 :: nat)" for c using range_nat_of_char by (metis atLeastLessThan_iff rangeI)
  assume "(of_nat (of_char c) :: byte) = of_nat (of_char d)"
  then have "unat (of_nat (of_char c) :: byte) = unat (of_nat (of_char d) :: byte)" by simp
  then have "(of_char c :: nat) = of_char d" using lt [of c] lt [of d] by (simp add: unat_of_nat)
  then show "c = d" by simp
qed simp

lemma ascii_eq_iff: "ascii s = ascii t \<longleftrightarrow> s = t"
proof -
  have "inj (\<lambda>c. of_nat (of_char c) :: byte)" by (rule injI) (simp only: of_char_byte_inj)
  then show ?thesis by (simp add: ascii_def inj_map_eq_map)
qed

lemma digits_eq_iff: "digits m = digits n \<longleftrightarrow> m = n"
  using digits_ok(3) by metis

text \<open>\<open>std::to_string\<close> of an unsigned and of a signed number.\<close>

definition to_string :: "nat \<Rightarrow> byte list" where
  "to_string n = ascii (digits n)"

definition int_text :: "int \<Rightarrow> byte list" where
  "int_text i = (if i < 0 then 45 # to_string (nat (- i)) else to_string (nat i))"

lemma to_string_eq_iff: "to_string m = to_string n \<longleftrightarrow> m = n"
  by (simp add: to_string_def ascii_eq_iff digits_eq_iff)

lemma to_string_nonempty: "to_string n \<noteq> []"
  using digits_ok(2) [of n] by (simp add: to_string_def ascii_def)

end
