(* ===== verification/Md4.thy ===== *)
theory Md4
  imports Md5 Memory_Text
begin

text \<open>
  The MD4 digest of \<open>zylib/temp/MD4.cpp\<close>.  Its \<open>UINT4\<close> is an \<open>unsigned long\<close>, whose width differs between platforms: the words of the
  model have any width.  Lengths are below \<open>2^32 - 63\<close>, so that the index of the loop does not wrap.
\<close>

unbundle bit_operations_syntax

type_synonym 'w md4_regs = "'w \<times> 'w \<times> 'w \<times> 'w"

record 'w md4_ctx =
  md4_state :: "'w md4_regs"
  md4_count :: "'w \<times> 'w"
  md4_buffer :: "byte list"

section \<open>One block\<close>

definition md4_F :: "'a :: len word \<Rightarrow> 'a word \<Rightarrow> 'a word \<Rightarrow> 'a word" where
  "md4_F x y z = (x AND y) OR (NOT x AND z)"

definition md4_G :: "'a :: len word \<Rightarrow> 'a word \<Rightarrow> 'a word \<Rightarrow> 'a word" where
  "md4_G x y z = (x AND y) OR (x AND z) OR (y AND z)"

definition md4_H :: "'a :: len word \<Rightarrow> 'a word \<Rightarrow> 'a word \<Rightarrow> 'a word" where
  "md4_H x y z = x XOR y XOR z"

definition ROTATE_LEFT :: "'a :: len word \<Rightarrow> nat \<Rightarrow> 'a word" where
  "ROTATE_LEFT x n = push_bit n x OR drop_bit (32 - n) x"

definition md4_Decode :: "byte list \<Rightarrow> 'a :: len word list" where
  "md4_Decode input = map (\<lambda>i. ucast (input ! (4 * i)) OR push_bit 8 (ucast (input ! (4 * i + 1))) OR
     push_bit 16 (ucast (input ! (4 * i + 2))) OR push_bit 24 (ucast (input ! (4 * i + 3)))) [0 ..< length input div 4]"

definition md4_Encode :: "'a :: len word list \<Rightarrow> byte list" where
  "md4_Encode input = concat (map (\<lambda>w. [ucast (w AND 0xff), ucast (drop_bit 8 w AND 0xff), ucast (drop_bit 16 w AND 0xff),
     ucast (drop_bit 24 w AND 0xff)]) input)"

text \<open>The macro of a step, the word and the shift; the registers change their places from step to step.\<close>

datatype md4_round = FF | GG | HH

definition md4_step :: "'a :: len word list \<Rightarrow> md4_round \<times> nat \<times> nat \<Rightarrow> 'a word md4_regs \<Rightarrow> 'a word md4_regs" where
  "md4_step x = (\<lambda>(r, k, s) (a, b, c, d).
     let a1 = (case r of FF \<Rightarrow> a + (md4_F b c d + x ! k) | GG \<Rightarrow> a + (md4_G b c d + x ! k + 0x5a827999)
                 | HH \<Rightarrow> a + (md4_H b c d + x ! k + 0x6ed9eba1))
     in (d, ROTATE_LEFT a1 s, b, c))"

definition md4_steps :: "(md4_round \<times> nat \<times> nat) list" where
  "md4_steps =
    [(FF, 0, 3), (FF, 1, 7), (FF, 2, 11), (FF, 3, 19), (FF, 4, 3), (FF, 5, 7), (FF, 6, 11), (FF, 7, 19),
     (FF, 8, 3), (FF, 9, 7), (FF, 10, 11), (FF, 11, 19), (FF, 12, 3), (FF, 13, 7), (FF, 14, 11), (FF, 15, 19),
     (GG, 0, 3), (GG, 4, 5), (GG, 8, 9), (GG, 12, 13), (GG, 1, 3), (GG, 5, 5), (GG, 9, 9), (GG, 13, 13),
     (GG, 2, 3), (GG, 6, 5), (GG, 10, 9), (GG, 14, 13), (GG, 3, 3), (GG, 7, 5), (GG, 11, 9), (GG, 15, 13),
     (HH, 0, 3), (HH, 8, 9), (HH, 4, 11), (HH, 12, 15), (HH, 2, 3), (HH, 10, 9), (HH, 6, 11), (HH, 14, 15),
     (HH, 1, 3), (HH, 9, 9), (HH, 5, 11), (HH, 13, 15), (HH, 3, 3), (HH, 11, 9), (HH, 7, 11), (HH, 15, 15)]"

definition MD4_Transform :: "'a :: len word md4_regs \<Rightarrow> byte list \<Rightarrow> 'a word md4_regs" where
  "MD4_Transform = (\<lambda>(s0, s1, s2, s3) block.
     let (a, b, c, d) = fold (md4_step (md4_Decode block)) md4_steps (s0, s1, s2, s3)
     in (s0 + a, s1 + b, s2 + c, s3 + d))"

section \<open>Init, update, final\<close>

text \<open>\<open>MD4_Init\<close> leaves the buffer as it was.\<close>

definition MD4_Init :: "byte list \<Rightarrow> 'a :: len word md4_ctx" where
  "MD4_Init buf = \<lparr>md4_state = (0x67452301, 0xefcdab89, 0x98badcfe, 0x10325476), md4_count = (0, 0), md4_buffer = buf\<rparr>"

text \<open>The loop from \<open>i\<close> on: the state and the final \<open>i\<close>.\<close>

function MD4_loop :: "byte list \<Rightarrow> nat \<Rightarrow> 'a :: len word md4_regs \<Rightarrow> 'a word md4_regs \<times> nat" where
  "MD4_loop input i st =
     (if i + 63 < length input then MD4_loop input (i + 64) (MD4_Transform st (take 64 (drop i input))) else (st, i))"
  by pat_completeness auto
termination
  by (relation "measure (\<lambda>(input, i, st). length input - i)") auto

declare MD4_loop.simps [simp del]

definition MD4_Update :: "'a :: len word md4_ctx \<Rightarrow> byte list \<Rightarrow> 'a word md4_ctx" where
  "MD4_Update context input =
     (let inputLen = length input;
          index = unat (drop_bit 3 (fst (md4_count context)) AND 0x3F);
          bits = push_bit 3 (of_nat inputLen);
          count0 = fst (md4_count context) + bits;
          count1 = (if count0 < bits then snd (md4_count context) + 1 else snd (md4_count context)) + drop_bit 29 (of_nat inputLen);
          partLen = 64 - index;
          (st, buf, index', i) =
            (if partLen \<le> inputLen
             then (let buf = buf_copy index (take partLen input) (md4_buffer context);
                       (st, i) = MD4_loop input partLen (MD4_Transform (md4_state context) buf)
                   in (st, buf, 0, i))
             else (md4_state context, md4_buffer context, index, 0))
      in \<lparr>md4_state = st, md4_count = (count0, count1), md4_buffer = buf_copy index' (drop i input) buf\<rparr>)"

definition md4_PADDING :: "byte list" where
  "md4_PADDING = 0x80 # replicate 63 0"

definition md4_words :: "'a word md4_regs \<Rightarrow> 'a word list" where
  "md4_words = (\<lambda>(a, b, c, d). [a, b, c, d])"

text \<open>The context after \<open>memset\<close>.\<close>

definition md4_cleared :: "'a :: len word md4_ctx" where
  "md4_cleared = \<lparr>md4_state = (0, 0, 0, 0), md4_count = (0, 0), md4_buffer = replicate 64 0\<rparr>"

text \<open>The digest, and the context that is left.\<close>

definition MD4_Final :: "'a :: len word md4_ctx \<Rightarrow> byte list \<times> 'a word md4_ctx" where
  "MD4_Final context =
     (let bits = md4_Encode [fst (md4_count context), snd (md4_count context)];
          index = unat (drop_bit 3 (fst (md4_count context)) AND 0x3f);
          padLen = (if index < 56 then 56 - index else 120 - index);
          context1 = MD4_Update context (take padLen md4_PADDING);
          context2 = MD4_Update context1 bits
      in (md4_Encode (md4_words (md4_state context2)), md4_cleared))"

text \<open>The words of the array \<open>digest\<close> are read from the 16 bytes written into it; \<open>None\<close> is a value never set.\<close>

definition MD4_BlockChecksum :: "byte list \<Rightarrow> byte list \<Rightarrow> 'a :: len word option" where
  "MD4_BlockChecksum buf data =
     (let digest = fst (MD4_Final (MD4_Update (MD4_Init buf :: 'a word md4_ctx) data));
          n = LENGTH('a) div 8;
          word = (\<lambda>i. if (i + 1) * n \<le> length digest then Some (un_le (take n (drop (i * n) digest)) :: 'a word) else None)
      in Option.bind (word 0) (\<lambda>d0. Option.bind (word 1) (\<lambda>d1. Option.bind (word 2) (\<lambda>d2. Option.bind (word 3) (\<lambda>d3.
           Some (d0 XOR d1 XOR d2 XOR d3))))))"

section \<open>The digest of RFC 1320\<close>

definition rfc4_fun :: "nat \<Rightarrow> 32 word \<Rightarrow> 32 word \<Rightarrow> 32 word \<Rightarrow> 32 word" where
  "rfc4_fun r x y z =
     (if r = 0 then (x AND y) OR (NOT x AND z) else if r = 1 then (x AND y) OR (x AND z) OR (y AND z) else x XOR y XOR z)"

text \<open>The order of the words: as they are, by columns, and by the reversed bits of the number.\<close>

definition rfc4_index :: "nat \<Rightarrow> nat" where
  "rfc4_index i =
     (let j = i mod 16
      in if i div 16 = 0 then j else if i div 16 = 1 then 4 * (j mod 4) + j div 4
         else 8 * (j mod 2) + 4 * (j div 2 mod 2) + 2 * (j div 4 mod 2) + j div 8)"

definition rfc4_shift :: "nat \<Rightarrow> nat" where
  "rfc4_shift i = [[3, 7, 11, 19], [3, 5, 9, 13], [3, 9, 11, 15]] ! (i div 16) ! (i mod 4)"

definition rfc4_step :: "32 word list \<Rightarrow> nat \<Rightarrow> 32 word md4_regs \<Rightarrow> 32 word md4_regs" where
  "rfc4_step X i = (\<lambda>(a, b, c, d).
     (d, word_rotl (rfc4_shift i) (a + rfc4_fun (i div 16) b c d + X ! rfc4_index i + [0, 0x5A827999, 0x6ED9EBA1] ! (i div 16)), b, c))"

definition rfc4_block :: "32 word md4_regs \<Rightarrow> byte list \<Rightarrow> 32 word md4_regs" where
  "rfc4_block = (\<lambda>(a, b, c, d) p.
     let (a1, b1, c1, d1) = fold (rfc4_step (map (\<lambda>i. un_le (take 4 (drop (4 * i) p))) [0 ..< 16])) [0 ..< 48] (a, b, c, d)
     in (a + a1, b + b1, c + c1, d + d1))"

text \<open>The padding is that of MD5.\<close>

definition rfc_md4 :: "byte list \<Rightarrow> byte list" where
  "rfc_md4 m = (let (a, b, c, d) = fold_blocks rfc4_block (0x67452301, 0xefcdab89, 0x98badcfe, 0x10325476) (rfc_pad m)
     in le_bytes 4 a @ le_bytes 4 b @ le_bytes 4 c @ le_bytes 4 d)"



section \<open>What a context has absorbed\<close>

text \<open>At any width of at least 9 bits; \<open>c\<close> is the high word of the count, of which the digest takes the bytes.\<close>

definition md4_init_regs :: "'a :: len word md4_regs" where
  "md4_init_regs = (0x67452301, 0xefcdab89, 0x98badcfe, 0x10325476)"

definition md4_absorbed :: "byte list \<Rightarrow> 'a :: len word md4_ctx \<Rightarrow> bool" where
  "md4_absorbed xs ctx \<longleftrightarrow> fst (md4_count ctx) = of_nat (8 * length xs)
     \<and> md4_state ctx = fold_blocks MD4_Transform md4_init_regs xs
     \<and> length (md4_buffer ctx) = 64 \<and> take (length xs mod 64) (md4_buffer ctx) = tail64 xs"

lemma md4_index:
  assumes "9 \<le> LENGTH('a :: len)"
  shows "unat (drop_bit 3 (of_nat (8 * n) :: 'a word) AND 0x3F) = n mod 64"
proof -
  have "drop_bit 3 (of_nat (8 * n) :: 'a word) AND 0x3F = take_bit 6 (drop_bit 3 (of_nat (8 * n)))"
    by (simp add: take_bit_eq_mask mask_eq_exp_minus_1)
  also have "unat \<dots> = take_bit 6 (drop_bit 3 (take_bit LENGTH('a) (8 * n)))"
    by (simp only: unsigned_take_bit_eq unsigned_drop_bit_eq unsigned_of_nat) simp
  also have "\<dots> = take_bit 6 (drop_bit 3 (8 * n))"
    using assms by (simp add: drop_bit_take_bit)
  also have "drop_bit 3 (8 * n) = n" by (simp add: drop_bit_eq_div)
  finally show ?thesis by (simp add: take_bit_eq_mod)
qed

lemma MD4_loop_blocks:
  "i \<le> length input \<Longrightarrow> MD4_loop input i st =
     (fold_blocks MD4_Transform st (drop i input), length input - (length input - i) mod 64)"
proof (induction input i st rule: MD4_loop.induct)
  case (1 input i st)
  show ?case
  proof (cases "i + 63 < length input")
    case True
    then have "drop i input = take 64 (drop i input) @ drop (i + 64) input"
      by (metis add.commute append_take_drop_id drop_drop)
    moreover have "length (take 64 (drop i input)) = 64" using True by simp
    ultimately have "fold_blocks MD4_Transform st (drop i input) =
        fold_blocks MD4_Transform (MD4_Transform st (take 64 (drop i input))) (drop (i + 64) input)"
      by (metis fold_blocks_one)
    moreover have "(length input - (i + 64)) mod 64 = (length input - i) mod 64"
    proof -
      have "length input - i = (length input - (i + 64)) + 64" using True by simp
      then show ?thesis by (metis mod_add_self2)
    qed
    ultimately show ?thesis using 1(1) [OF True] True by (subst MD4_loop.simps) simp
  next
    case False
    then show ?thesis using 1(2) by (subst MD4_loop.simps) (simp add: fold_blocks_short)
  qed
qed

lemma md4_update_absorbed:
  fixes ctx :: "'a :: len word md4_ctx"
  assumes w: "9 \<le> LENGTH('a)" and abs: "md4_absorbed xs ctx"
  shows "md4_absorbed (xs @ data) (MD4_Update ctx data)"
proof -
  let ?u = "length xs mod 64" and ?t = "tail64 xs" and ?b = "md4_buffer ctx" and ?n = "length data"
  let ?f = "fold_blocks (MD4_Transform :: 'a word md4_regs \<Rightarrow> _)"
  have b: "length ?b = 64" "take ?u ?b = ?t" and count: "fst (md4_count ctx) = of_nat (8 * length xs)"
    and regs: "md4_state ctx = ?f md4_init_regs xs"
    using abs by (simp_all add: md4_absorbed_def)
  have index: "unat (drop_bit 3 (fst (md4_count ctx)) AND 0x3F) = ?u"
    unfolding count by (rule md4_index [OF w])
  have bits: "fst (md4_count ctx) + push_bit 3 (of_nat ?n) = of_nat (8 * length (xs @ data))"
    by (simp add: count push_bit_eq_mult algebra_simps)
  have goal_regs: "?f md4_init_regs (xs @ data) = ?f (md4_state ctx) (?t @ data)"
    unfolding regs by (rule fold_blocks_tail)
  have goal_tail: "tail64 (xs @ data) = tail64 (?t @ data)" by (rule tail64_append)
  show ?thesis
  proof (cases "64 - ?u \<le> ?n")
    case False
    then have "?u + ?n < 64" by linarith
    then have sm: "length (?t @ data) < 64" "length (xs @ data) mod 64 = ?u + ?n"
      by (simp, metis length_append mod_add_left_eq mod_less)
    then show ?thesis
      unfolding md4_absorbed_def goal_regs goal_tail
      using False \<open>?u + ?n < 64\<close> take_buf_copy [of ?u data ?b] b
      by (simp add: MD4_Update_def index bits Let_def length_buf_copy fold_blocks_short tail64_short)
  next
    case True
    let ?p = "64 - ?u"
    let ?d1 = "take ?p data" and ?d2 = "drop ?p data"
    have d1: "length ?d1 = ?p" using True by simp
    have blk: "buf_copy ?u ?d1 ?b = ?t @ ?d1" "length (?t @ ?d1) = 64"
      using b d1 by (simp_all add: buf_copy_def)
    have split: "?t @ data = (?t @ ?d1) @ ?d2" by simp
    have e1: "?f (md4_state ctx) (?t @ data) = ?f (MD4_Transform (md4_state ctx) (?t @ ?d1)) ?d2"
      unfolding split by (rule fold_blocks_one [OF blk(2)])
    have e2: "tail64 (?t @ data) = tail64 ?d2" unfolding split by (rule tail64_block [OF blk(2)])
    have rest: "drop (?n - (?n + ?u - 64) mod 64) data = tail64 ?d2"
      using True by (simp add: tail64_def)
    have len: "length (xs @ data) mod 64 = length (tail64 ?d2)"
      by (metis e2 goal_tail length_tail64)
    have "length (tail64 ?d2) < 64" by simp
    then show ?thesis
      unfolding md4_absorbed_def goal_regs goal_tail e1 e2 len
      using True b blk take_buf_copy [of 0 "tail64 ?d2" "?t @ ?d1"]
      by (simp add: MD4_Update_def index bits Let_def MD4_loop_blocks length_buf_copy rest)
  qed
qed

lemma byte_of_and: "ucast (v AND 0xff) = (ucast v :: byte)"
proof -
  have "v AND 0xff = take_bit 8 v" by (simp add: take_bit_eq_mask mask_eq_exp_minus_1)
  then show ?thesis by (auto intro!: bit_word_eqI simp: bit_simps)
qed

lemma md4_Encode_le_bytes: "md4_Encode (ws :: 'a :: len word list) = concat (map (le_bytes 4) ws)"
proof -
  have "le_bytes 4 = (\<lambda>w :: 'a word. [ucast w, ucast (drop_bit 8 w), ucast (drop_bit 16 w), ucast (drop_bit 24 w)])"
    by (simp add: le_bytes_def upt_rec fun_eq_iff)
  then show ?thesis by (simp add: md4_Encode_def byte_of_and)
qed

text \<open>The padding of \<open>MD4_Final\<close> fills the last block; the count is that of before the padding.\<close>

definition md4_padded :: "byte list \<Rightarrow> 'a :: len word md4_ctx \<Rightarrow> byte list" where
  "md4_padded xs ctx = xs @ [0x80] @ replicate ((119 - length xs mod 64) mod 64) 0
     @ md4_Encode [fst (md4_count ctx), snd (md4_count ctx)]"

lemma length_md4_Encode [simp]: "length (md4_Encode ws) = 4 * length ws"
  by (induction ws) (simp_all add: md4_Encode_def)

lemma md4_final_absorbed:
  fixes ctx :: "'a :: len word md4_ctx"
  assumes w: "9 \<le> LENGTH('a)" and abs: "md4_absorbed xs ctx"
  shows "MD4_Final ctx =
    (md4_Encode (md4_words (fold_blocks MD4_Transform (md4_init_regs :: 'a word md4_regs) (md4_padded xs ctx))), md4_cleared)"
proof -
  let ?u = "length xs mod 64"
  define padLen where "padLen = (if ?u < 56 then 56 - ?u else 120 - ?u)"
  have u: "?u < 64" by simp
  have index: "unat (drop_bit 3 (fst (md4_count ctx)) AND 0x3f) = ?u"
    using abs md4_index [OF w] by (simp add: md4_absorbed_def)
  have "padLen = Suc ((119 - ?u) mod 64) \<and> (119 - ?u) mod 64 \<le> 63"
  proof (cases "?u < 56")
    case True
    then show ?thesis unfolding padLen_def pad_count(1) [OF True] by auto
  next
    case False
    then show ?thesis unfolding padLen_def using pad_count(2) [OF _ u] u by auto
  qed
  then have pad: "take padLen md4_PADDING = [0x80] @ replicate ((119 - ?u) mod 64) 0"
    by (simp add: md4_PADDING_def)
  have "md4_absorbed (md4_padded xs ctx) (MD4_Update (MD4_Update ctx (take padLen md4_PADDING))
      (md4_Encode [fst (md4_count ctx), snd (md4_count ctx)]))"
    using md4_update_absorbed [OF w md4_update_absorbed [OF w abs, of "take padLen md4_PADDING"],
        of "md4_Encode [fst (md4_count ctx), snd (md4_count ctx)]"]
    by (simp only: md4_padded_def pad append_assoc)
  then show ?thesis
    unfolding MD4_Final_def Let_def index padLen_def [symmetric] by (simp add: md4_absorbed_def)
qed

section \<open>32-bit words\<close>

lemma word_and_ff: "(a :: 32 word) AND 0xffffffff = a"
proof -
  have "a AND 0xffffffff = take_bit 32 a" by (simp add: take_bit_eq_mask mask_eq_exp_minus_1)
  also have "\<dots> = a" by (rule bit_word_eqI) (simp add: bit_simps)
  finally show ?thesis .
qed

lemma ROTATE_LEFT_rotl: "0 < s \<Longrightarrow> s < 32 \<Longrightarrow> ROTATE_LEFT a s = word_rotl s (a :: 32 word)"
  using shifts_are_rotation [of s a] by (simp add: ROTATE_LEFT_def word_and_ff)

lemma md4_steps_rfc:
  "md4_steps = map (\<lambda>i. ([FF, GG, HH] ! (i div 16), rfc4_index i, rfc4_shift i)) [0 ..< 48]"
  by code_simp

lemma md4_shift_range: "i < 48 \<Longrightarrow> 0 < rfc4_shift i \<and> rfc4_shift i < 32"
proof -
  have "list_all (\<lambda>i. 0 < rfc4_shift i \<and> rfc4_shift i < 32) [0 ..< 48]" by code_simp
  then show "i < 48 \<Longrightarrow> ?thesis" by (simp add: list_all_iff)
qed

lemma md4_step_rfc:
  assumes "i < 48"
  shows "md4_step X ([FF, GG, HH] ! (i div 16), rfc4_index i, rfc4_shift i) = rfc4_step X i"
proof (rule ext)
  fix r :: "32 word md4_regs"
  obtain a b c d where r: "r = (a, b, c, d)" by (cases r)
  have "i div 16 < 3" using assms by simp
  then have "i div 16 = 0 \<or> i div 16 = 1 \<or> i div 16 = 2" by linarith
  then show "md4_step X ([FF, GG, HH] ! (i div 16), rfc4_index i, rfc4_shift i) r = rfc4_step X i r"
    using md4_shift_range [OF assms]
    by (elim disjE; simp add: r md4_step_def rfc4_step_def rfc4_fun_def md4_F_def md4_G_def md4_H_def
        ROTATE_LEFT_rotl Let_def ac_simps)
qed

lemma take_four: "k + 3 < length b \<Longrightarrow> take 4 (drop k b) = [b ! k, b ! (k + 1), b ! (k + 2), b ! (k + 3)]"
  by (simp add: list_eq_iff_nth_eq less_Suc_eq numeral_eq_Suc All_less_Suc)

lemma Decode_words:
  assumes "length b = 64"
  shows "md4_Decode b = map (\<lambda>i. un_le (take 4 (drop (4 * i) b)) :: 'a :: len word) [0 ..< 16]"
  using assms by (simp add: md4_Decode_def take_four push_bit_or ac_simps)

lemma md4_block_rfc:
  assumes "length b = 64"
  shows "MD4_Transform r b = rfc4_block r b"
proof -
  have "fold (md4_step X) md4_steps r = fold (rfc4_step X) [0 ..< 48] r" for X r
    unfolding md4_steps_rfc fold_map by (rule fold_cong) (auto simp: md4_step_rfc)
  then show ?thesis
    by (auto simp: MD4_Transform_def rfc4_block_def Decode_words [OF assms] split: prod.splits)
qed

lemma fold_blocks_cong:
  "(\<And>r b. length b = 64 \<Longrightarrow> f r b = g r b) \<Longrightarrow> fold_blocks f r xs = fold_blocks g r xs"
proof (induction f r xs rule: fold_blocks.induct)
  case (1 f r xs)
  show ?case
  proof (cases "length xs < 64")
    case True
    then show ?thesis by (simp add: fold_blocks_short)
  next
    case False
    have "fold_blocks f (f r (take 64 xs)) (drop 64 xs) = fold_blocks g (f r (take 64 xs)) (drop 64 xs)"
      by (rule 1(1) [OF False]) (rule 1(2))
    moreover have "f r (take 64 xs) = g r (take 64 xs)" by (rule 1(2)) (use False in simp)
    ultimately show ?thesis using False
      by (subst fold_blocks.simps, subst (2) fold_blocks.simps) simp
  qed
qed

lemma digit_carry: "a < M \<Longrightarrow> b < M \<Longrightarrow> (a + b) div M = (if M \<le> a + b then 1 else 0 :: nat)"
  by (auto intro: div_nat_eqI)

text \<open>A length in bits kept in two words: the carry, the high bits of an addend, and the sum.\<close>

lemma word_carry:
  "(of_nat (x + y) :: 32 word) < of_nat y \<longleftrightarrow> 2 ^ 32 \<le> x mod 2 ^ 32 + y mod 2 ^ 32"
proof -
  have "(of_nat (x + y) :: 32 word) < of_nat y \<longleftrightarrow> (x mod 2 ^ 32 + y mod 2 ^ 32) mod 2 ^ 32 < y mod 2 ^ 32"
    by (simp only: word_less_nat_alt unat_of_nat mod_add_eq) simp
  moreover have "a + b < M \<Longrightarrow> \<not> (a + b) mod M < b" "M \<le> a + b \<Longrightarrow> a < M \<Longrightarrow> b < M \<Longrightarrow> (a + b) mod M < b" for a b M :: nat
    by (auto simp: mod_if)
  ultimately show ?thesis by (metis mod_less_divisor not_le zero_less_numeral zero_less_power)
qed

lemma word_carry_sym: "(x + y < y) = (x + y < (x :: 32 word))"
  using word_carry [of "unat x" "unat y"] word_carry [of "unat y" "unat x"] by (simp add: add.commute)

lemma high_bits:
  assumes "L < 2 ^ 32"
  shows "drop_bit 29 (of_nat L :: 32 word) = of_nat (8 * L div 2 ^ 32)"
proof -
  have "unat (drop_bit 29 (of_nat L :: 32 word)) = drop_bit 29 L"
    using assms by (simp only: unsigned_drop_bit_eq unsigned_of_nat) (simp add: take_bit_nat_eq_self)
  also have "\<dots> = 8 * L div 2 ^ 32" by (simp add: drop_bit_eq_div)
  also have "\<dots> = unat (of_nat (8 * L div 2 ^ 32) :: 32 word)"
  proof -
    have "8 * L div 2 ^ 32 < 2 ^ 32" using assms by simp
    then show ?thesis by (simp only: unsigned_of_nat) (simp add: take_bit_nat_eq_self)
  qed
  finally show ?thesis by (simp only: word_unat_eq_iff)
qed

lemma bit_count_step:
  assumes "L < 2 ^ 32"
  shows "(if (of_nat (8 * n + 8 * L) :: 32 word) < of_nat (8 * L) then of_nat (8 * n div 2 ^ 32) + 1 else of_nat (8 * n div 2 ^ 32))
     + drop_bit 29 (of_nat L) = (of_nat (8 * (n + L) div 2 ^ 32) :: 32 word)"
proof -
  have "(8 * n mod 2 ^ 32 + 8 * L mod 2 ^ 32) div 2 ^ 32 = (if 2 ^ 32 \<le> 8 * n mod 2 ^ 32 + 8 * L mod 2 ^ 32 then 1 else 0)"
    by (rule digit_carry) simp_all
  then have "8 * (n + L) div 2 ^ 32 = 8 * n div 2 ^ 32 + 8 * L div 2 ^ 32 +
      (if 2 ^ 32 \<le> 8 * n mod 2 ^ 32 + 8 * L mod 2 ^ 32 then 1 else 0)"
    using div_add1_eq [of "8 * n" "8 * L" "2 ^ 32"] by (simp only: distrib_left)
  then show ?thesis
    unfolding word_carry high_bits [OF assms] by (simp only: of_nat_add split: if_split) simp
qed

lemma length_in_words:
  "le_bytes 4 (of_nat n :: 32 word) @ le_bytes 4 (of_nat (n div 2 ^ 32) :: 32 word) = le_bytes64 (of_nat n)"
proof -
  have *: "ucast (drop_bit k (of_nat m :: 'a :: len word)) = (word_of_nat (m div 2 ^ k) :: byte)" if "k + 8 \<le> LENGTH('a)" for k m
    using that by (auto intro!: bit_word_eqI simp: bit_simps simp flip: drop_bit_eq_div)
  show ?thesis by (simp add: le_bytes_def le_bytes64_def upt_rec * div_mult2_eq [symmetric] * [of 0, simplified])
qed

lemma md4_count_high:
  fixes ctx :: "32 word md4_ctx"
  assumes "md4_count ctx = (of_nat (8 * n), of_nat (8 * n div 2 ^ 32))" "length data < 2 ^ 32"
  shows "md4_count (MD4_Update ctx data) =
    (of_nat (8 * (n + length data)), of_nat (8 * (n + length data) div 2 ^ 32))"
proof -
  let ?L = "length data"
  define h where "h = (of_nat (8 * n div 2 ^ 32) :: 32 word)"
  define h' where "h' = (of_nat (8 * (n + ?L) div 2 ^ 32) :: 32 word)"
  have "of_nat (8 * n) + push_bit 3 (of_nat ?L) = (of_nat (8 * n + 8 * ?L) :: 32 word)"
    "push_bit 3 (of_nat ?L) = (of_nat (8 * ?L) :: 32 word)"
    by (simp_all add: push_bit_eq_mult algebra_simps)
  then show ?thesis
    unfolding h'_def [symmetric]
    using assms(1) [folded h_def] bit_count_step [OF assms(2), of n, folded h_def h'_def]
    by (simp add: MD4_Update_def Let_def split_beta distrib_left split: if_splits)
qed

lemma md4_blocks_rfc: "fold_blocks MD4_Transform r xs = fold_blocks rfc4_block r xs"
  by (rule fold_blocks_cong) (rule md4_block_rfc)

lemma md4_length_bytes:
  "md4_Encode [of_nat n :: 32 word, of_nat (n div 2 ^ 32)] = le_bytes64 (of_nat n)"
  using length_in_words [of n] by (simp add: md4_Encode_le_bytes)

lemma md4_updates:
  fixes ctx :: "32 word md4_ctx"
  assumes "\<forall>p \<in> set pieces. length p < 2 ^ 32 - 63" "md4_absorbed xs ctx"
    "md4_count ctx = (of_nat (8 * length xs), of_nat (8 * length xs div 2 ^ 32))"
  shows "md4_absorbed (xs @ concat pieces) (foldl MD4_Update ctx pieces) \<and>
    md4_count (foldl MD4_Update ctx pieces) =
      (of_nat (8 * length (xs @ concat pieces)), of_nat (8 * length (xs @ concat pieces) div 2 ^ 32))"
  using assms
proof (induction pieces arbitrary: xs ctx)
  case (Cons p pieces)
  have "md4_absorbed (xs @ p) (MD4_Update ctx p)" by (rule md4_update_absorbed [OF _ Cons.prems(2)]) simp
  moreover have "md4_count (MD4_Update ctx p) = (of_nat (8 * length (xs @ p)), of_nat (8 * length (xs @ p) div 2 ^ 32))"
    using md4_count_high [OF Cons.prems(3), of p] Cons.prems(1) by simp
  ultimately show ?case using Cons.IH [of "xs @ p" "MD4_Update ctx p"] Cons.prems(1) by simp
qed simp

lemma md4_init_absorbed: "length buf = 64 \<Longrightarrow> md4_absorbed [] (MD4_Init buf)"
  by (simp add: md4_absorbed_def MD4_Init_def md4_init_regs_def fold_blocks_short tail64_def)

lemma md4_digest_32:
  fixes ctx :: "32 word md4_ctx"
  assumes "md4_absorbed m ctx" "md4_count ctx = (of_nat (8 * length m), of_nat (8 * length m div 2 ^ 32))"
  shows "MD4_Final ctx = (rfc_md4 m, md4_cleared)"
proof -
  have "md4_padded m ctx = rfc_pad m"
    by (simp only: md4_padded_def rfc_pad_def assms(2) fst_conv snd_conv md4_length_bytes)
  then show ?thesis
    using md4_final_absorbed [OF _ assms(1)]
    by (simp add: md4_blocks_rfc rfc_md4_def md4_init_regs_def md4_words_def md4_Encode_le_bytes split: prod.splits)
qed

section \<open>The empty message, at both widths\<close>

lemma fold_blocks_single: "length b = 64 \<Longrightarrow> fold_blocks f r b = f r b"
  using fold_blocks_one [of b f r "[]"] by (simp add: fold_blocks_short)

text \<open>The only block of the empty message, its words first: they are read once and used in every round.\<close>

definition empty_block :: "byte list" where
  "empty_block = 0x80 # replicate 63 0"

lemma length_empty_block: "length empty_block = 64"
  by (simp add: empty_block_def)

lemma empty_words_32:
  "map (\<lambda>i. un_le (take 4 (drop (4 * i) empty_block))) [0 ..< 16] = (0x80 # replicate 15 0 :: 32 word list)"
  by code_simp

lemma empty_words_64: "md4_Decode empty_block = (0x80 # replicate 15 0 :: 64 word list)"
  by code_simp

lemma empty_rounds_32:
  "fold (rfc4_step (0x80 # replicate 15 0)) [0 ..< 48] (0x67452301, 0xefcdab89, 0x98badcfe, 0x10325476) =
     (0x798ab330, 0x421bbf48, 0x3e9e5fb9, 0xb0576c6a)"
  by code_simp

lemma empty_rounds_64:
  "fold (md4_step (0x80 # replicate 15 0)) md4_steps (0x67452301, 0xefcdab89, 0x98badcfe, 0x10325476 :: 64 word) =
     (0x3e914917be9f693d, 0x4ffeeaf87ffecad8, 0xca5e7b6dde7f7b25, 0x11d60dff5bff3cd4)"
  by code_simp

lemma empty_block_32:
  "rfc4_block (0x67452301, 0xefcdab89, 0x98badcfe, 0x10325476) empty_block = (0xe0cfd631, 0x31e96ad1, 0xd7593cb7, 0xc089c0e0)"
  by (simp only: rfc4_block_def prod.case Let_def empty_words_32 empty_rounds_32) simp

lemma empty_block_64:
  "MD4_Transform (md4_init_regs :: 64 word md4_regs) empty_block =
     (0x3e91491825e48c3e, 0x4ffeeaf96fcc7661, 0xca5e7b6e773a5823, 0x11d60dff6c31914a)"
  by (simp only: MD4_Transform_def md4_init_regs_def prod.case Let_def empty_words_64 empty_rounds_64) simp

lemma rfc_md4_empty:
  "rfc_md4 [] = [0x31, 0xd6, 0xcf, 0xe0, 0xd1, 0x6a, 0xe9, 0x31, 0xb7, 0x3c, 0x59, 0xd7, 0xe0, 0xc0, 0x89, 0xc0]"
proof -
  have "rfc_pad [] = empty_block" by code_simp
  then show ?thesis
    by (simp add: rfc_md4_def fold_blocks_single length_empty_block empty_block_32 le_bytes_def upt_rec)
qed

lemma md4_empty_64:
  assumes "length buf = 64"
  shows "fst (MD4_Final (MD4_Init buf :: 64 word md4_ctx)) \<noteq> rfc_md4 []"
proof -
  have "md4_Encode [0, 0 :: 64 word] = replicate 8 0" by code_simp
  then have "md4_padded [] (MD4_Init buf :: 64 word md4_ctx) = empty_block"
    by (simp add: md4_padded_def MD4_Init_def empty_block_def flip: replicate_add)
  then have "fst (MD4_Final (MD4_Init buf :: 64 word md4_ctx)) =
      md4_Encode (md4_words (MD4_Transform (md4_init_regs :: 64 word md4_regs) empty_block))"
    using md4_final_absorbed [OF _ md4_init_absorbed [OF assms], where 'a = 64]
    by (simp add: fold_blocks_single length_empty_block)
  then show ?thesis
    by (simp add: empty_block_64 md4_words_def md4_Encode_le_bytes rfc_md4_empty le_bytes_def upt_rec)
qed

lemma length_MD4_Final: "length (fst (MD4_Final ctx)) = 16"
  by (simp add: MD4_Final_def Let_def md4_words_def split_beta)

lemma md4_checksum_64: "MD4_BlockChecksum buf data = (None :: 64 word option)"
  by (auto simp: MD4_BlockChecksum_def Let_def length_MD4_Final split: bind_splits)

text \<open>
  C8.  With \<open>UINT4\<close> of 32 bits, \<open>MD4_Init\<close>, any sequence of \<open>MD4_Update\<close>s and \<open>MD4_Final\<close> compute the digest of RFC 1320 of
  the concatenated input, whatever the buffer held before, and leave a cleared context.  With the \<open>unsigned long\<close> of 64 bits of a Unix platform the digest of the
  empty input already differs, and \<open>MD4_BlockChecksum\<close> combines words that were never set.
\<close>

theorem md4_is_rfc1320:
  assumes "length buf = 64" "\<forall>p \<in> set pieces. length p < 2 ^ 32 - 63"
  shows "MD4_Final (foldl MD4_Update (MD4_Init buf :: 32 word md4_ctx) pieces) = (rfc_md4 (concat pieces), md4_cleared) \<and>
    fst (MD4_Final (MD4_Init buf :: 64 word md4_ctx)) \<noteq> rfc_md4 [] \<and> MD4_BlockChecksum buf data = (None :: 64 word option)"
  using md4_updates [OF assms(2) md4_init_absorbed [OF assms(1)]] md4_empty_64 [OF assms(1)]
  by (simp add: MD4_Init_def md4_digest_32 md4_checksum_64)

lemma md4_is_rfc1320_witness:
  "MD4_Final (foldl MD4_Update (MD4_Init (replicate 64 7) :: 32 word md4_ctx) [[97], [98, 99]]) =
    (rfc_md4 [97, 98, 99], md4_cleared)"
  using md4_is_rfc1320 [of "replicate 64 7" "[[97], [98, 99]]"] by simp

end
