(* ===== verification/Byte_Tools.thy ===== *)
theory Byte_Tools
  imports Memory_Text Interfaces
begin

text \<open>
  Byte order, groups of six bits, and text of \<open>zylib/Tools.cpp\<close>.  An integer is a word of its width; a floating-point number and
  the memory behind a pointer are lists of bytes, and \<open>None\<close> means that the code leaves that memory.
\<close>

unbundle bit_operations_syntax

section \<open>Integers\<close>

definition low_byte :: "nat \<Rightarrow> 'a :: len word \<Rightarrow> 'b :: len word" where
  "low_byte n l = ucast (ucast (drop_bit n l AND 255) :: byte)"

text \<open>The signed and the unsigned functions compute the same bits.\<close>

definition Int16Swap :: "16 word \<Rightarrow> 16 word" where
  "Int16Swap l = push_bit 8 (low_byte 0 l) + low_byte 8 l"

definition UInt16Swap :: "16 word \<Rightarrow> 16 word" where
  "UInt16Swap l = push_bit 8 (low_byte 0 l) + low_byte 8 l"

definition Int32Swap :: "32 word \<Rightarrow> 32 word" where
  "Int32Swap l = push_bit 24 (low_byte 0 l) + push_bit 16 (low_byte 8 l) + push_bit 8 (low_byte 16 l) + low_byte 24 l"

definition UInt32Swap :: "32 word \<Rightarrow> 32 word" where
  "UInt32Swap l = push_bit 24 (low_byte 0 l) + push_bit 16 (low_byte 8 l) + push_bit 8 (low_byte 16 l) + low_byte 24 l"

definition Int64Swap :: "u64 \<Rightarrow> u64" where
  "Int64Swap l = push_bit 56 (low_byte 0 l) + push_bit 48 (low_byte 8 l) + push_bit 40 (low_byte 16 l) +
     push_bit 32 (low_byte 24 l) + push_bit 24 (low_byte 32 l) + push_bit 16 (low_byte 40 l) + push_bit 8 (low_byte 48 l) +
     low_byte 56 l"

definition UInt64Swap :: "u64 \<Rightarrow> u64" where
  "UInt64Swap l = push_bit 56 (low_byte 0 l) + push_bit 48 (low_byte 8 l) + push_bit 40 (low_byte 16 l) +
     push_bit 32 (low_byte 24 l) + push_bit 24 (low_byte 32 l) + push_bit 16 (low_byte 40 l) + push_bit 8 (low_byte 48 l) +
     low_byte 56 l"

definition FloatSwap :: "byte list \<Rightarrow> byte list" where
  "FloatSwap f = [f ! 3, f ! 2, f ! 1, f ! 0]"

definition DoubleSwap :: "byte list \<Rightarrow> byte list" where
  "DoubleSwap f = [f ! 7, f ! 6, f ! 5, f ! 4, f ! 3, f ! 2, f ! 1, f ! 0]"

section \<open>Memory\<close>

text \<open>\<open>*p ^= *q; *q ^= *p; *p ^= *q;\<close>\<close>

definition xor_swap :: "int \<Rightarrow> int \<Rightarrow> byte list \<Rightarrow> byte list option" where
  "xor_swap p q bs =
     (if 0 \<le> p \<and> p < int (length bs) \<and> 0 \<le> q \<and> q < int (length bs)
      then let i = nat p; j = nat q; bs1 = bs[i := bs ! i XOR bs ! j]; bs2 = bs1[j := bs1 ! j XOR bs1 ! i]
           in Some (bs2[i := bs2 ! i XOR bs2 ! j])
      else None)"

function rev_element :: "int \<Rightarrow> int \<Rightarrow> byte list \<Rightarrow> (int \<times> byte list) option" where
  "rev_element p q bs =
     (if p < q then (case xor_swap p q bs of None \<Rightarrow> None | Some bs' \<Rightarrow> rev_element (p + 1) (q - 1) bs') else Some (p, bs))"
  by pat_completeness auto

termination
  by (relation "measure (\<lambda>(p, q, bs). nat (q - p))") auto

declare rev_element.simps [simp del]

fun rev_pairs :: "nat \<Rightarrow> int \<Rightarrow> byte list \<Rightarrow> byte list option" where
  "rev_pairs 0 p bs = Some bs"
| "rev_pairs (Suc n) p bs = (case xor_swap p (p + 1) bs of None \<Rightarrow> None | Some bs' \<Rightarrow> rev_pairs n (p + 2) bs')"

fun rev_elements :: "int \<Rightarrow> nat \<Rightarrow> int \<Rightarrow> byte list \<Rightarrow> byte list option" where
  "rev_elements elsize 0 p bs = Some bs"
| "rev_elements elsize (Suc n) p bs = (case rev_element p (p + elsize - 1) bs of
      None \<Rightarrow> None
    | Some (p', bs') \<Rightarrow> rev_elements elsize n (p' + elsize div 2) bs')"

text \<open>A negative count is decremented until it overflows, or the memory is left.\<close>

definition RevBytesSwap :: "int \<Rightarrow> int \<Rightarrow> byte list \<Rightarrow> byte list option" where
  "RevBytesSwap elsize elcount bs =
     (if elcount < 0 then None
      else if elsize = 2 then rev_pairs (nat elcount) 0 bs else rev_elements elsize (nat elcount) 0 bs)"

text \<open>The loop over the bits of one byte, from \<open>i = 7\<close> down to 1.\<close>

definition rev_bit_step :: "byte \<times> byte \<Rightarrow> byte \<times> byte" where
  "rev_bit_step tv = (let t = push_bit 1 (fst tv); v = drop_bit 1 (snd tv) in (t OR (v AND 1), v))"

definition rev_bits :: "byte \<Rightarrow> byte" where
  "rev_bits v = fst ((rev_bit_step ^^ 7) (0, v))"

text \<open>\<open>RevBitFieldSwap\<close>, which is used where \<open>LittleRevBytes\<close> is \<open>RevBytesSwap\<close>.\<close>

definition RevBitFieldSwap :: "int \<Rightarrow> byte list \<Rightarrow> byte list option" where
  "RevBitFieldSwap elsize bs = (case RevBytesSwap elsize 1 bs of
       None \<Rightarrow> None
     | Some bs' \<Rightarrow> if elsize < 0 \<or> int (length bs') < elsize then None
         else Some (map rev_bits (take (nat elsize) bs') @ drop (nat elsize) bs'))"

section \<open>Groups of six bits\<close>

definition SixtetsForIntLittle :: "32 word \<Rightarrow> byte list" where
  "SixtetsForIntLittle src = (let b = le_bytes 4 src in
     [drop_bit 2 (b ! 0 AND 0xfc), push_bit 4 (b ! 0 AND 0x3) + drop_bit 4 (b ! 1 AND 0xf0),
      push_bit 2 (b ! 1 AND 0xf) + drop_bit 6 (b ! 2 AND 0xc0), b ! 2 AND 0x3f])"

definition SixtetsForIntBig :: "32 word \<Rightarrow> byte list" where
  "SixtetsForIntBig src = map (\<lambda>i. ucast (signed_drop_bit (6 * i) src AND 0x3f)) [0..<4]"

definition IntForSixtetsLittle :: "byte list \<Rightarrow> 32 word" where
  "IntForSixtetsLittle inp = un_le
     [push_bit 2 (inp ! 0) OR drop_bit 4 (inp ! 1 AND 0x30), push_bit 4 (inp ! 1 AND 0xf) OR drop_bit 2 (inp ! 2 AND 0x3c),
      push_bit 6 (inp ! 2 AND 0x3) OR inp ! 3, 0]"

definition IntForSixtetsBig :: "byte list \<Rightarrow> 32 word" where
  "IntForSixtetsBig inp = ucast (inp ! 0) OR push_bit 6 (ucast (inp ! 1)) OR push_bit 12 (ucast (inp ! 2)) OR
     push_bit 18 (ucast (inp ! 3))"

section \<open>The order of the host\<close>

record swap_ptrs =
  BigInt16_Ptr :: "16 word \<Rightarrow> 16 word"
  LittleInt16_Ptr :: "16 word \<Rightarrow> 16 word"
  BigInt32_Ptr :: "32 word \<Rightarrow> 32 word"
  LittleInt32_Ptr :: "32 word \<Rightarrow> 32 word"
  BigInt64_Ptr :: "u64 \<Rightarrow> u64"
  LittleInt64_Ptr :: "u64 \<Rightarrow> u64"
  BigUInt16_Ptr :: "16 word \<Rightarrow> 16 word"
  LittleUInt16_Ptr :: "16 word \<Rightarrow> 16 word"
  BigUInt32_Ptr :: "32 word \<Rightarrow> 32 word"
  LittleUInt32_Ptr :: "32 word \<Rightarrow> 32 word"
  BigUInt64_Ptr :: "u64 \<Rightarrow> u64"
  LittleUInt64_Ptr :: "u64 \<Rightarrow> u64"
  BigFloat_Ptr :: "byte list \<Rightarrow> byte list"
  LittleFloat_Ptr :: "byte list \<Rightarrow> byte list"
  BigDouble_Ptr :: "byte list \<Rightarrow> byte list"
  LittleDouble_Ptr :: "byte list \<Rightarrow> byte list"
  BigRevBytes_Ptr :: "int \<Rightarrow> int \<Rightarrow> byte list \<Rightarrow> byte list option"
  LittleRevBytes_Ptr :: "int \<Rightarrow> int \<Rightarrow> byte list \<Rightarrow> byte list option"
  LittleBitField_Ptr :: "int \<Rightarrow> byte list \<Rightarrow> byte list option"
  SixtetsForInt_Ptr :: "32 word \<Rightarrow> byte list"
  IntForSixtets_Ptr :: "byte list \<Rightarrow> 32 word"

definition NoSwap :: "'a \<Rightarrow> 'a" where
  "NoSwap l = l"

definition RevBytesNoSwap :: "int \<Rightarrow> int \<Rightarrow> byte list \<Rightarrow> byte list option" where
  "RevBytesNoSwap elsize elcount bs = Some bs"

definition RevBitFieldNoSwap :: "int \<Rightarrow> byte list \<Rightarrow> byte list option" where
  "RevBitFieldNoSwap elsize bs = Some bs"

text \<open>How the host keeps a number in memory.\<close>

definition host_bytes :: "bool \<Rightarrow> nat \<Rightarrow> 'a :: len word \<Rightarrow> byte list" where
  "host_bytes little n w = (if little then le_bytes n w else rev (le_bytes n w))"

definition host_short :: "bool \<Rightarrow> byte list \<Rightarrow> 16 word" where
  "host_short little bs = un_le (if little then bs else rev bs)"

definition Swap_Init :: "bool \<Rightarrow> swap_ptrs" where
  "Swap_Init little =
     (if host_short little [1, 0] = 1
      then \<lparr>BigInt16_Ptr = Int16Swap, LittleInt16_Ptr = NoSwap, BigInt32_Ptr = Int32Swap, LittleInt32_Ptr = NoSwap,
        BigInt64_Ptr = Int64Swap, LittleInt64_Ptr = NoSwap, BigUInt16_Ptr = UInt16Swap, LittleUInt16_Ptr = NoSwap,
        BigUInt32_Ptr = UInt32Swap, LittleUInt32_Ptr = NoSwap, BigUInt64_Ptr = UInt64Swap, LittleUInt64_Ptr = NoSwap,
        BigFloat_Ptr = FloatSwap, LittleFloat_Ptr = NoSwap, BigDouble_Ptr = DoubleSwap, LittleDouble_Ptr = NoSwap,
        BigRevBytes_Ptr = RevBytesSwap, LittleRevBytes_Ptr = RevBytesNoSwap, LittleBitField_Ptr = RevBitFieldNoSwap,
        SixtetsForInt_Ptr = SixtetsForIntLittle, IntForSixtets_Ptr = IntForSixtetsLittle\<rparr>
      else \<lparr>BigInt16_Ptr = NoSwap, LittleInt16_Ptr = Int16Swap, BigInt32_Ptr = NoSwap, LittleInt32_Ptr = Int32Swap,
        BigInt64_Ptr = NoSwap, LittleInt64_Ptr = Int64Swap, BigUInt16_Ptr = NoSwap, LittleUInt16_Ptr = UInt16Swap,
        BigUInt32_Ptr = NoSwap, LittleUInt32_Ptr = UInt32Swap, BigUInt64_Ptr = NoSwap, LittleUInt64_Ptr = UInt64Swap,
        BigFloat_Ptr = NoSwap, LittleFloat_Ptr = FloatSwap, BigDouble_Ptr = NoSwap, LittleDouble_Ptr = DoubleSwap,
        BigRevBytes_Ptr = RevBytesNoSwap, LittleRevBytes_Ptr = RevBytesSwap, LittleBitField_Ptr = RevBitFieldSwap,
        SixtetsForInt_Ptr = SixtetsForIntBig, IntForSixtets_Ptr = IntForSixtetsBig\<rparr>)"

section \<open>Text\<close>

text \<open>The loop of \<open>std::getline\<close>: it fails at the end of the text, and takes a delimiter with the field before it.\<close>

function StrSplit :: "string \<Rightarrow> char \<Rightarrow> string list" where
  "StrSplit s c =
     (if s = [] then []
      else case snd (std_find c s) of [] \<Rightarrow> [fst (std_find c s)] | _ # r \<Rightarrow> fst (std_find c s) # StrSplit r c)"
  by pat_completeness auto

termination
proof (relation "measure (\<lambda>(s, c). length s)")
  fix s :: string and c x r assume "snd (std_find c s) = x # r"
  then have "s = fst (std_find c s) @ x # r" using std_find_append [of c s "fst (std_find c s)" "x # r"] by (simp add: prod_eq_iff)
  then have "length s = length (fst (std_find c s) @ x # r)" by (rule arg_cong)
  then show "((r, c), (s, c)) \<in> measure (\<lambda>(s, c). length s)" by simp
qed simp

declare StrSplit.simps [simp del]

definition StrReplace :: "string \<Rightarrow> char \<Rightarrow> char \<Rightarrow> nat \<times> string" where
  "StrReplace str src dest = (count_list str src, map (\<lambda>c. if c = src then dest else c) str)"

definition StrRemove :: "string \<Rightarrow> char \<Rightarrow> nat \<times> string" where
  "StrRemove str src = (let kept = filter (\<lambda>c. c \<noteq> src) str in (length str - length kept, kept))"

definition hex_digit :: "nat \<Rightarrow> char" where
  "hex_digit d = (if d < 10 then char_of (48 + d) else char_of (87 + d))"

definition ToHex :: "byte list \<Rightarrow> string" where
  "ToHex data = concat (map (\<lambda>b. [hex_digit (unat b div 16), hex_digit (unat b mod 16)]) data)"

section \<open>Numbers and their bytes\<close>

lemma low_byte_eq: "low_byte n (l :: 'a :: len word) = ucast (ucast (drop_bit n l) :: byte)"
proof -
  have "(ucast (drop_bit n l AND 255) :: byte) = ucast (drop_bit n l)"
  proof (rule bit_word_eqI)
    fix m assume "m < LENGTH(8)"
    have "255 = (mask 8 :: 'a word)" by (simp add: mask_eq_exp_minus_1)
    then have "bit (255 :: 'a word) m \<longleftrightarrow> m < LENGTH('a) \<and> m < 8" by (simp only: bit_mask_iff) auto
    with \<open>m < LENGTH(8)\<close> show "bit (ucast (drop_bit n l AND 255) :: byte) m = bit (ucast (drop_bit n l) :: byte) m"
      by (auto simp: bit_simps dest: bit_imp_le_length)
  qed
  then show ?thesis by (simp add: low_byte_def)
qed

lemma plus_or: "(\<And>n. bit a n \<Longrightarrow> \<not> bit b n) \<Longrightarrow> a + b = (a OR b :: 'a :: len word)"
proof (rule disjunctive_add_eq_or)
  assume "\<And>n. bit a n \<Longrightarrow> \<not> bit b n"
  then show "a AND b = 0" by (intro bit_word_eqI) (auto simp: bit_simps)
qed

lemma plus_un_le:
  "push_bit (8 * length cs) (ucast c) + un_le cs = (un_le (cs @ [c]) :: 'a :: len word)"
proof -
  have "push_bit (8 * length cs) (ucast c) + un_le cs = (push_bit (8 * length cs) (ucast c) OR un_le cs :: 'a word)"
    by (rule plus_or) (auto simp: bit_un_le bit_simps)
  also have "\<dots> = un_le (cs @ [c])"
  proof (rule bit_word_eqI)
    fix n assume "n < LENGTH('a)"
    have "n div 8 = length cs \<longleftrightarrow> 8 * length cs \<le> n \<and> n < 8 * length cs + 8" by auto
    moreover have "n mod 8 = n - 8 * length cs" if "n div 8 = length cs" using that by (simp add: modulo_nat_def)
    ultimately show "bit (push_bit (8 * length cs) (ucast c) OR un_le cs :: 'a word) n = bit (un_le (cs @ [c]) :: 'a word) n"
      using \<open>n < LENGTH('a)\<close> bit_imp_le_length [of c "n - 8 * length cs"]
      by (auto simp: bit_un_le bit_simps nth_append less_Suc_eq)
  qed
  finally show ?thesis .
qed

lemma un_le_one: "ucast c = (un_le [c] :: 'a :: len word)"
  by simp

text \<open>Each function reverses the bytes of the number in memory.\<close>

lemma swap16: "le_bytes 2 (Int16Swap l) = rev (le_bytes 2 l)"
proof -
  have "Int16Swap l = un_le (rev (le_bytes 2 l))"
    using plus_un_le [of "[ucast (drop_bit 8 l)]" "ucast l", where 'a = 16]
    by (simp add: Int16Swap_def low_byte_eq le_bytes_def numeral_2_eq_2)
  then show ?thesis by (simp add: le_bytes_un_le)
qed

lemma swap32: "le_bytes 4 (Int32Swap l) = rev (le_bytes 4 l)"
proof -
  let ?b = "\<lambda>n. ucast (drop_bit n l) :: byte"
  have "Int32Swap l = un_le [?b 24, ?b 16, ?b 8, ?b 0]"
    using plus_un_le [of "[?b 24]" "?b 16", where 'a = 32] plus_un_le [of "[?b 24, ?b 16]" "?b 8", where 'a = 32]
      plus_un_le [of "[?b 24, ?b 16, ?b 8]" "?b 0", where 'a = 32]
    by (simp only: Int32Swap_def low_byte_eq add.assoc un_le_one append.simps list.size) simp
  moreover have "le_bytes 4 l = [?b 0, ?b 8, ?b 16, ?b 24]" by (simp add: le_bytes_def upt_conv_Cons)
  ultimately show ?thesis by (simp add: le_bytes_un_le del: un_le.simps)
qed

lemma swap64: "le_bytes 8 (Int64Swap l) = rev (le_bytes 8 l)"
proof -
  let ?b = "\<lambda>n. ucast (drop_bit n l) :: byte"
  have "Int64Swap l = un_le [?b 56, ?b 48, ?b 40, ?b 32, ?b 24, ?b 16, ?b 8, ?b 0]"
    using plus_un_le [of "[?b 56]" "?b 48", where 'a = 64] plus_un_le [of "[?b 56, ?b 48]" "?b 40", where 'a = 64]
      plus_un_le [of "[?b 56, ?b 48, ?b 40]" "?b 32", where 'a = 64]
      plus_un_le [of "[?b 56, ?b 48, ?b 40, ?b 32]" "?b 24", where 'a = 64]
      plus_un_le [of "[?b 56, ?b 48, ?b 40, ?b 32, ?b 24]" "?b 16", where 'a = 64]
      plus_un_le [of "[?b 56, ?b 48, ?b 40, ?b 32, ?b 24, ?b 16]" "?b 8", where 'a = 64]
      plus_un_le [of "[?b 56, ?b 48, ?b 40, ?b 32, ?b 24, ?b 16, ?b 8]" "?b 0", where 'a = 64]
    by (simp only: Int64Swap_def low_byte_eq add.assoc un_le_one append.simps list.size) simp
  moreover have "le_bytes 8 l = [?b 0, ?b 8, ?b 16, ?b 24, ?b 32, ?b 40, ?b 48, ?b 56]" by (simp add: le_bytes_def upt_conv_Cons)
  ultimately show ?thesis by (simp add: le_bytes_un_le del: un_le.simps)
qed

section \<open>Elements in memory\<close>

fun rev_each :: "nat \<Rightarrow> nat \<Rightarrow> byte list \<Rightarrow> byte list" where
  "rev_each k 0 bs = bs"
| "rev_each k (Suc n) bs = rev (take k bs) @ rev_each k n (drop k bs)"

lemma xor_swap_parts:
  "xor_swap (int (length xs)) (int (length xs) + int (length ms) + 1) (xs @ x # ms @ y # ys) = Some (xs @ y # ms @ x # ys)"
proof -
  let ?bs = "xs @ x # ms @ y # ys" and ?i = "length xs" and ?j = "Suc (length xs + length ms)"
  have idx: "nat (int ?i) = ?i" "nat (int ?i + int (length ms) + 1) = ?j" by simp_all
  have at: "(xs @ a # ms @ b # ys) ! ?i = a" "(xs @ a # ms @ b # ys) ! ?j = b"
    "(xs @ a # ms @ b # ys)[?i := c] = xs @ c # ms @ b # ys" "(xs @ a # ms @ b # ys)[?j := c] = xs @ a # ms @ c # ys" for a b c
    by (simp_all add: nth_append list_update_append)
  have x: "y XOR (x XOR y) = x" "(x XOR y) XOR x = y"
    by (simp add: xor.left_commute) (simp add: xor.commute [of x y] xor.assoc)
  show ?thesis unfolding xor_swap_def idx Let_def at x by simp
qed

lemma rev_element_parts:
  "rev_element (int (length xs)) (int (length xs) + int (length ms) - 1) (xs @ ms @ ys) =
     Some (int (length xs) + int (length ms) div 2, xs @ rev ms @ ys)"
proof (induction ms arbitrary: xs ys rule: length_induct)
  case (1 ms)
  show ?case
  proof (cases ms rule: rev_cases)
    case Nil
    then show ?thesis by (subst rev_element.simps) simp
  next
    case (snoc zs y)
    show ?thesis
    proof (cases zs)
      case Nil
      then show ?thesis by (subst rev_element.simps) (simp add: snoc)
    next
      case (Cons x ws)
      have "xor_swap (int (length xs)) (int (length xs) + int (length ws) + 1) (xs @ x # ws @ y # ys) = Some (xs @ y # ws @ x # ys)"
        by (rule xor_swap_parts)
      moreover have "rev_element (int (length (xs @ [y]))) (int (length (xs @ [y])) + int (length ws) - 1) ((xs @ [y]) @ ws @ x # ys) =
          Some (int (length (xs @ [y])) + int (length ws) div 2, (xs @ [y]) @ rev ws @ x # ys)"
        by (rule "1.IH" [rule_format]) (simp add: snoc Cons)
      ultimately show ?thesis
        by (subst rev_element.simps) (simp add: snoc Cons algebra_simps)
    qed
  qed
qed

lemma rev_elements_even:
  "elsize = int (2 * k) \<Longrightarrow> 2 * k * n \<le> length bs \<Longrightarrow>
     rev_elements elsize n (int (length xs)) (xs @ bs) = Some (xs @ rev_each (2 * k) n bs)"
proof (induction n arbitrary: xs bs)
  case (Suc n)
  let ?e = "take (2 * k) bs" and ?r = "drop (2 * k) bs"
  have len: "length ?e = 2 * k" using Suc.prems(2) by simp
  have "rev_element (int (length xs)) (int (length xs) + int (length ?e) - 1) (xs @ ?e @ ?r) =
      Some (int (length xs) + int (length ?e) div 2, xs @ rev ?e @ ?r)" by (rule rev_element_parts)
  then have "rev_element (int (length xs)) (int (length xs) + elsize - 1) (xs @ bs) = Some (int (length xs) + int k, xs @ rev ?e @ ?r)"
    unfolding len by (simp add: Suc.prems(1))
  moreover have "rev_elements elsize n (int (length (xs @ rev ?e))) ((xs @ rev ?e) @ ?r) = Some ((xs @ rev ?e) @ rev_each (2 * k) n ?r)"
    using Suc.prems by (intro Suc.IH) (simp_all add: algebra_simps)
  ultimately show ?case using len by (simp add: Suc.prems(1) algebra_simps)
qed simp

lemma rev_pairs_each:
  "2 * n \<le> length bs \<Longrightarrow> rev_pairs n (int (length xs)) (xs @ bs) = Some (xs @ rev_each 2 n bs)"
proof (induction n arbitrary: xs bs)
  case (Suc n)
  obtain x y ys where bs: "bs = x # y # ys" using Suc.prems by (cases bs; cases "tl bs") auto
  have "rev_pairs n (int (length (xs @ [y, x]))) ((xs @ [y, x]) @ ys) = Some ((xs @ [y, x]) @ rev_each 2 n ys)"
    using Suc.prems by (intro Suc.IH) (simp add: bs)
  moreover have "xor_swap (int (length xs)) (int (length xs) + 1) (xs @ x # y # ys) = Some (xs @ y # x # ys)"
    using xor_swap_parts [of xs "[]" x y ys] by simp
  ultimately show ?case by (simp add: bs algebra_simps)
qed simp

lemma rev_bits_loop:
  "k < 8 \<Longrightarrow> snd ((rev_bit_step ^^ k) (0, v)) = drop_bit k v \<and>
     (\<forall>n. bit (fst ((rev_bit_step ^^ k) (0, v))) n \<longleftrightarrow> n < k \<and> bit v (k - n))"
proof (induction k)
  case (Suc k)
  let ?tv = "(rev_bit_step ^^ k) (0, v)"
  have tv: "snd ?tv = drop_bit k v" "\<And>n. bit (fst ?tv) n \<longleftrightarrow> n < k \<and> bit v (k - n)" using Suc by simp_all
  have "bit (push_bit 1 (fst ?tv) OR (drop_bit 1 (snd ?tv) AND 1)) n \<longleftrightarrow> n < Suc k \<and> bit v (Suc k - n)" for n
    using Suc.prems by (cases n) (auto simp: bit_simps tv bit_1_iff plus_1_eq_Suc simp del: One_nat_def)
  moreover have "(rev_bit_step ^^ Suc k) (0, v) = (push_bit 1 (fst ?tv) OR (drop_bit 1 (snd ?tv) AND 1), drop_bit 1 (snd ?tv))"
    by (simp only: funpow.simps comp_apply rev_bit_step_def [of ?tv] Let_def)
  ultimately show ?case by (simp only: fst_conv snd_conv tv(1) drop_bit_drop_bit) simp
qed simp

lemma bit_rev_bits: "bit (rev_bits v) n \<longleftrightarrow> n < 7 \<and> bit v (7 - n)"
  using rev_bits_loop [of 7 v] by (simp add: rev_bits_def)

section \<open>Groups of six bits\<close>

lemma sixtet_big_bit:
  "m + 6 \<le> 32 \<Longrightarrow> bit (ucast (signed_drop_bit m src AND 0x3f) :: byte) k \<longleftrightarrow> k < 6 \<and> bit (src :: 32 word) (m + k)"
proof -
  assume m: "m + 6 \<le> 32"
  have "0x3f = (mask 6 :: 32 word)" by (simp add: mask_eq_exp_minus_1)
  then show ?thesis using m
    by (simp only: bit_unsigned_iff bit_and_iff bit_mask_iff bit_signed_drop_bit_iff) (auto split: if_splits)
qed

text \<open>The low 24 bits survive the way there and back, in either order of bytes.\<close>

lemma sixtets_big: "IntForSixtetsBig (SixtetsForIntBig src) = src AND mask 24"
proof (rule bit_word_eqI)
  fix n assume n: "n < LENGTH(32)"
  let ?o = "SixtetsForIntBig src"
  have o: "bit (?o ! i) k \<longleftrightarrow> k < 6 \<and> bit src (6 * i + k)" if "i < 4" for i k
    using that sixtet_big_bit [of "6 * i" src k] by (simp add: SixtetsForIntBig_def)
  have "bit (IntForSixtetsBig ?o) n \<longleftrightarrow> bit (?o ! 0) n \<or> 6 \<le> n \<and> bit (?o ! 1) (n - 6) \<or> 12 \<le> n \<and> bit (?o ! 2) (n - 12) \<or>
      18 \<le> n \<and> bit (?o ! 3) (n - 18)"
    using n by (simp add: IntForSixtetsBig_def bit_or_iff bit_push_bit_iff bit_unsigned_iff less_imp_diff_less)
  also have "\<dots> \<longleftrightarrow> n < 24 \<and> bit src n"
  proof -
    have "bit src (6 * i + (n - 6 * i)) = bit src n" if "6 * i \<le> n" for i using that by simp
    note shift = this [of 1] this [of 2] this [of 3]
    consider "n < 6" | "6 \<le> n" "n < 12" | "12 \<le> n" "n < 18" | "18 \<le> n" "n < 24" | "24 \<le> n" by linarith
    moreover have "n - 6 < 6 \<longleftrightarrow> n < 12" "n - 12 < 6 \<longleftrightarrow> n < 18" "n - 18 < 6 \<longleftrightarrow> n < 24" by auto
    ultimately show ?thesis by cases (use shift in \<open>simp_all add: o\<close>)
  qed
  also have "\<dots> \<longleftrightarrow> bit (src AND mask 24) n" using n by (simp add: bit_and_iff bit_mask_iff conj_commute)
  finally show "bit (IntForSixtetsBig ?o) n = bit (src AND mask 24) n" .
qed

lemma sixtets_little: "IntForSixtetsLittle (SixtetsForIntLittle src) = src AND mask 24"
proof -
  let ?b = "le_bytes 4 src"
  have plus: "push_bit 4 (x AND 0x3) + drop_bit 4 (y AND 0xf0) = push_bit 4 (x AND 0x3) OR drop_bit 4 (y AND 0xf0)"
    "push_bit 2 (x AND 0xf) + drop_bit 6 (y AND 0xc0) = push_bit 2 (x AND 0xf) OR drop_bit 6 (y AND 0xc0)" for x y :: byte
    by (rule plus_or; auto simp: bit_simps dest: bit_imp_le_length)+
  have bytes: "push_bit 2 (drop_bit 2 (x AND 0xfc)) OR drop_bit 4 ((push_bit 4 (x AND 0x3) OR drop_bit 4 (y AND 0xf0)) AND 0x30) = x"
    "push_bit 4 ((push_bit 4 (x AND 0x3) OR drop_bit 4 (y AND 0xf0)) AND 0xf) OR
       drop_bit 2 ((push_bit 2 (y AND 0xf) OR drop_bit 6 (z AND 0xc0)) AND 0x3c) = y"
    "push_bit 6 ((push_bit 2 (y AND 0xf) OR drop_bit 6 (z AND 0xc0)) AND 0x3) OR (z AND 0x3f) = z" for x y z :: byte
    by (rule byte_eqI; simp add: bit_simps del: bit_0)+
  have "IntForSixtetsLittle (SixtetsForIntLittle src) = un_le [?b ! 0, ?b ! 1, ?b ! 2, 0]"
  proof -
    have "IntForSixtetsLittle [s0, s1, s2, s3] = un_le [push_bit 2 s0 OR drop_bit 4 (s1 AND 0x30),
        push_bit 4 (s1 AND 0xf) OR drop_bit 2 (s2 AND 0x3c), push_bit 6 (s2 AND 0x3) OR s3, 0]" for s0 s1 s2 s3
      by (simp add: IntForSixtetsLittle_def)
    then show ?thesis by (simp only: SixtetsForIntLittle_def Let_def plus bytes)
  qed
  also have "\<dots> = src AND mask 24"
  proof (rule bit_word_eqI)
    fix n assume n: "n < LENGTH(32)"
    then have "n div 8 \<in> {0, 1, 2, 3}" by auto
    then show "bit (un_le [?b ! 0, ?b ! 1, ?b ! 2, 0] :: 32 word) n = bit (src AND mask 24) n"
      using n by (auto simp: bit_un_le le_bytes_def bit_simps)
  qed
  finally show ?thesis .
qed

section \<open>Text\<close>

text \<open>Only a delimiter at the very end is lost.\<close>

lemma StrSplit_joined:
  "concat (map (\<lambda>f. f @ [c]) (StrSplit s c)) = (if s = [] \<or> last s = c then s else s @ [c]) \<and>
     (\<forall>f \<in> set (StrSplit s c). c \<notin> set f)"
proof (induction "length s" arbitrary: s rule: less_induct)
  case less
  let ?f = "fst (std_find c s)" and ?r = "snd (std_find c s)"
  have split: "s = ?f @ ?r" and free: "c \<notin> set ?f"
    using std_find_append [of c s ?f ?r] std_find_no_delim [of c s ?f ?r] by simp_all
  show ?case
  proof (cases ?r)
    case Nil
    with split have "s = ?f" by simp
    with free have "s = [] \<or> last s \<noteq> c" using last_in_set by metis
    then show ?thesis using Nil \<open>s = ?f\<close> free by (subst (1 2) StrSplit.simps) auto
  next
    case (Cons x r)
    then have x: "x = c" using std_find_rest [of c s ?f x r] by (simp add: prod_eq_iff)
    with split Cons have s: "s = ?f @ c # r" by simp
    then have "length s = length (?f @ c # r)" by (rule arg_cong)
    then have "length r < length s" by simp
    note IH = less.hyps [OF this]
    have unfold: "StrSplit s c = ?f # StrSplit r c" using s Cons by (subst StrSplit.simps) auto
    have "last s = (if r = [] then c else last r)" by (subst s) simp
    then show ?thesis unfolding unfold using IH free s by (auto split: if_splits)
  qed
qed

lemma StrRemove_count: "fst (StrRemove str src) = count_list str src"
proof -
  have "length (filter (\<lambda>c. c \<noteq> src) str) + count_list str src = length str" by (induction str) auto
  then show ?thesis by (simp add: StrRemove_def Let_def)
qed

definition unhex_digit :: "char \<Rightarrow> nat" where
  "unhex_digit c = (if of_char c < (58 :: nat) then of_char c - 48 else of_char c - 87)"

fun unhex :: "string \<Rightarrow> byte list option" where
  "unhex [] = Some []"
| "unhex (c # d # cs) = map_option (Cons (of_nat (16 * unhex_digit c + unhex_digit d))) (unhex cs)"
| "unhex _ = None"

lemma unhex_hex_digit: "d < 16 \<Longrightarrow> unhex_digit (hex_digit d) = d"
  by (simp add: unhex_digit_def hex_digit_def of_char_of)

interpretation hex: codec "\<lambda>_. True" ToHex unhex
proof
  fix data :: "byte list"
  have "16 * unhex_digit (hex_digit (unat b div 16)) + unhex_digit (hex_digit (unat b mod 16)) = unat b" for b :: byte
    using unat_byte_less [of b] by (simp add: unhex_hex_digit less_mult_imp_div_less)
  then show "unhex (ToHex data) = Some data" by (induction data) (simp_all add: ToHex_def)
qed

section \<open>Either host\<close>

lemma swap_unsigned: "UInt16Swap = Int16Swap" "UInt32Swap = Int32Swap" "UInt64Swap = Int64Swap"
  by (simp_all add: fun_eq_iff UInt16Swap_def Int16Swap_def UInt32Swap_def Int32Swap_def UInt64Swap_def Int64Swap_def)

lemma swap_float: "length f = 4 \<Longrightarrow> FloatSwap f = rev f" "length d = 8 \<Longrightarrow> DoubleSwap d = rev d"
  by (rule nth_equalityI; auto simp: FloatSwap_def DoubleSwap_def rev_nth less_Suc_eq numeral_eq_Suc)+

lemma host_is_little: "host_short little [1, 0] = 1 \<longleftrightarrow> little"
  by (simp add: host_short_def)

lemma host_swaps:
  "host_bytes little 2 (BigInt16_Ptr (Swap_Init little) x) = rev (le_bytes 2 x)"
  "host_bytes little 2 (LittleInt16_Ptr (Swap_Init little) x) = le_bytes 2 x"
  "host_bytes little 4 (BigInt32_Ptr (Swap_Init little) y) = rev (le_bytes 4 y)"
  "host_bytes little 4 (LittleInt32_Ptr (Swap_Init little) y) = le_bytes 4 y"
  "host_bytes little 8 (BigInt64_Ptr (Swap_Init little) z) = rev (le_bytes 8 z)"
  "host_bytes little 8 (LittleInt64_Ptr (Swap_Init little) z) = le_bytes 8 z"
  by (simp_all add: Swap_Init_def host_is_little host_bytes_def NoSwap_def swap16 swap32 swap64)

section \<open>Properties\<close>

text \<open>
  \<open>RevBytesSwap\<close> reverses the bytes of each of \<open>elcount\<close> elements of an even size, or of one element of any size, and
  leaves what follows them, without leaving the memory.  For more elements of an odd size it does not: it
  advances one byte too few.
\<close>

lemma rev_bytes_swap:
  assumes "0 < elsize" "0 \<le> elcount" "even elsize \<or> elcount = 1" "elsize * elcount \<le> int (length bs)"
  shows "RevBytesSwap elsize elcount bs = Some (rev_each (nat elsize) (nat elcount) bs) \<and>
    RevBytesSwap 3 2 [1, 2, 3, 4, 5, 6] = Some [3, 2, 5, 4, 1, 6] \<and> rev_each 3 2 [1, 2, 3, 4, 5, 6] = [3, 2, 1, 6, 5, 4]"
proof (intro conjI)
  have len: "nat elsize * nat elcount \<le> length bs" 
  proof -
    have "int (nat elsize * nat elcount) = elsize * elcount" using assms(1,2) by simp
    with assms(4) show ?thesis by linarith
  qed
  show "RevBytesSwap elsize elcount bs = Some (rev_each (nat elsize) (nat elcount) bs)"
  proof (cases "elsize = 2")
    case True
    with assms(2) len rev_pairs_each [of "nat elcount" bs "[]"] show ?thesis by (simp add: RevBytesSwap_def)
  next
    case False
    show ?thesis
    proof (cases "even elsize")
      case True
      then obtain k where k: "elsize = int (2 * k)" using assms(1) by (metis dvdE zero_less_imp_eq_int int_dvd_int_iff of_nat_numeral)
      then have n: "nat elsize = 2 * k" by simp
      with len have "2 * k * nat elcount \<le> length bs" by simp
      from rev_elements_even [OF k this, of "[]"] assms(2) False show ?thesis by (simp add: RevBytesSwap_def n)
    next
      case odd: False
      with assms have one: "elcount = 1" "nat elsize \<le> length bs" "int (nat elsize) = elsize" by auto
      have "rev_element 0 (0 + int (length (take (nat elsize) bs)) - 1) (take (nat elsize) bs @ drop (nat elsize) bs) =
          Some (0 + int (length (take (nat elsize) bs)) div 2, rev (take (nat elsize) bs) @ drop (nat elsize) bs)"
        using rev_element_parts [of "[]" "take (nat elsize) bs" "drop (nat elsize) bs"] by simp
      then have "rev_element 0 (elsize - 1) bs = Some (elsize div 2, rev (take (nat elsize) bs) @ drop (nat elsize) bs)"
        using one by (simp add: min_absorb2)
      then show ?thesis using False by (simp add: RevBytesSwap_def one(1))
    qed
  qed
  show "RevBytesSwap 3 2 [1, 2, 3, 4, 5, 6] = Some [3, 2, 5, 4, 1, 6]" by code_simp
  show "rev_each 3 2 [1, 2, 3, 4, 5, 6] = [3, 2, 1, 6, 5, 4]" by code_simp
qed

theorem rev_bytes_swap_witness: "RevBytesSwap 4 2 [1, 2, 3, 4, 5, 6, 7, 8, 9] = Some [4, 3, 2, 1, 8, 7, 6, 5, 9]"
  using rev_bytes_swap [of 4 2 "[1, 2, 3, 4, 5, 6, 7, 8, 9]"] by (simp add: numeral_eq_Suc)

text \<open>
  After \<open>Swap_Init\<close>, on a host of either order, a number converted with a \<open>Big\<close> function is in memory with its
  most significant byte first, and with a \<open>Little\<close> function with its least significant byte first, for each width, signed or not;
  and what \<open>SixtetsForInt\<close> splits, \<open>IntForSixtets\<close> joins to the low 24 bits.
\<close>

lemma byte_order_of_host:
  "host_bytes little 2 (BigInt16_Ptr (Swap_Init little) x) = rev (le_bytes 2 x) \<and>
   host_bytes little 2 (LittleInt16_Ptr (Swap_Init little) x) = le_bytes 2 x \<and>
   host_bytes little 4 (BigInt32_Ptr (Swap_Init little) y) = rev (le_bytes 4 y) \<and>
   host_bytes little 4 (LittleInt32_Ptr (Swap_Init little) y) = le_bytes 4 y \<and>
   host_bytes little 8 (BigInt64_Ptr (Swap_Init little) z) = rev (le_bytes 8 z) \<and>
   host_bytes little 8 (LittleInt64_Ptr (Swap_Init little) z) = le_bytes 8 z \<and>
   BigUInt16_Ptr (Swap_Init little) x = BigInt16_Ptr (Swap_Init little) x \<and>
   BigUInt32_Ptr (Swap_Init little) y = BigInt32_Ptr (Swap_Init little) y \<and>
   BigUInt64_Ptr (Swap_Init little) z = BigInt64_Ptr (Swap_Init little) z \<and>
   IntForSixtets_Ptr (Swap_Init little) (SixtetsForInt_Ptr (Swap_Init little) y) = y AND mask 24"
proof -
  have "BigUInt16_Ptr (Swap_Init little) x = BigInt16_Ptr (Swap_Init little) x"
    "BigUInt32_Ptr (Swap_Init little) y = BigInt32_Ptr (Swap_Init little) y"
    "BigUInt64_Ptr (Swap_Init little) z = BigInt64_Ptr (Swap_Init little) z"
    by (simp_all add: Swap_Init_def swap_unsigned)
  moreover have "IntForSixtets_Ptr (Swap_Init little) (SixtetsForInt_Ptr (Swap_Init little) y) = y AND mask 24"
    by (simp add: Swap_Init_def sixtets_big sixtets_little del: mask_numeral)
  ultimately show ?thesis by (simp only: host_swaps)
qed

end
