(* ===== verification/Id_Md5.thy ===== *)
theory Id_Md5
  imports Md4 Byte_Tools
begin

text \<open>
  The MD5 digest of \<open>zylib_experimental/detail/idMD5.cpp\<close> over the byte-order functions of \<open>zylib/Tools.cpp\<close>, on a host of either
  byte order.  \<open>None\<close> means that one of those functions leaves the memory it is given.
\<close>

unbundle bit_operations_syntax

record id_md5_ctx =
  id_state :: md5_regs
  id_bits :: "32 word \<times> 32 word"
  id_in :: "byte list"

section \<open>One block\<close>

definition F1 :: "32 word \<Rightarrow> 32 word \<Rightarrow> 32 word \<Rightarrow> 32 word" where
  "F1 x y z = z XOR (x AND (y XOR z))"

definition F2 :: "32 word \<Rightarrow> 32 word \<Rightarrow> 32 word \<Rightarrow> 32 word" where
  "F2 x y z = F1 z x y"

definition F3 :: "32 word \<Rightarrow> 32 word \<Rightarrow> 32 word \<Rightarrow> 32 word" where
  "F3 x y z = x XOR y XOR z"

definition F4 :: "32 word \<Rightarrow> 32 word \<Rightarrow> 32 word \<Rightarrow> 32 word" where
  "F4 x y z = y XOR (x OR NOT z)"

text \<open>The variables change their places from step to step.\<close>

definition MD5STEP :: "32 word list \<Rightarrow> md5_step \<Rightarrow> md5_regs \<Rightarrow> md5_regs" where
  "MD5STEP inp = (\<lambda>(f, k, t, s) (w, x, y, z).
     let w1 = w + (f x y z + (inp ! k + t));
         w2 = push_bit s w1 OR drop_bit (32 - s) w1
     in (z, w2 + x, x, y))"

definition id_steps :: "md5_step list" where
  "id_steps =
    [(F1, 0, 0xd76aa478, 7), (F1, 1, 0xe8c7b756, 12), (F1, 2, 0x242070db, 17), (F1, 3, 0xc1bdceee, 22),
     (F1, 4, 0xf57c0faf, 7), (F1, 5, 0x4787c62a, 12), (F1, 6, 0xa8304613, 17), (F1, 7, 0xfd469501, 22),
     (F1, 8, 0x698098d8, 7), (F1, 9, 0x8b44f7af, 12), (F1, 10, 0xffff5bb1, 17), (F1, 11, 0x895cd7be, 22),
     (F1, 12, 0x6b901122, 7), (F1, 13, 0xfd987193, 12), (F1, 14, 0xa679438e, 17), (F1, 15, 0x49b40821, 22),
     (F2, 1, 0xf61e2562, 5), (F2, 6, 0xc040b340, 9), (F2, 11, 0x265e5a51, 14), (F2, 0, 0xe9b6c7aa, 20),
     (F2, 5, 0xd62f105d, 5), (F2, 10, 0x02441453, 9), (F2, 15, 0xd8a1e681, 14), (F2, 4, 0xe7d3fbc8, 20),
     (F2, 9, 0x21e1cde6, 5), (F2, 14, 0xc33707d6, 9), (F2, 3, 0xf4d50d87, 14), (F2, 8, 0x455a14ed, 20),
     (F2, 13, 0xa9e3e905, 5), (F2, 2, 0xfcefa3f8, 9), (F2, 7, 0x676f02d9, 14), (F2, 12, 0x8d2a4c8a, 20),
     (F3, 5, 0xfffa3942, 4), (F3, 8, 0x8771f681, 11), (F3, 11, 0x6d9d6122, 16), (F3, 14, 0xfde5380c, 23),
     (F3, 1, 0xa4beea44, 4), (F3, 4, 0x4bdecfa9, 11), (F3, 7, 0xf6bb4b60, 16), (F3, 10, 0xbebfbc70, 23),
     (F3, 13, 0x289b7ec6, 4), (F3, 0, 0xeaa127fa, 11), (F3, 3, 0xd4ef3085, 16), (F3, 6, 0x04881d05, 23),
     (F3, 9, 0xd9d4d039, 4), (F3, 12, 0xe6db99e5, 11), (F3, 15, 0x1fa27cf8, 16), (F3, 2, 0xc4ac5665, 23),
     (F4, 0, 0xf4292244, 6), (F4, 7, 0x432aff97, 10), (F4, 14, 0xab9423a7, 15), (F4, 5, 0xfc93a039, 21),
     (F4, 12, 0x655b59c3, 6), (F4, 3, 0x8f0ccc92, 10), (F4, 10, 0xffeff47d, 15), (F4, 1, 0x85845dd1, 21),
     (F4, 8, 0x6fa87e4f, 6), (F4, 15, 0xfe2ce6e0, 10), (F4, 6, 0xa3014314, 15), (F4, 13, 0x4e0811a1, 21),
     (F4, 4, 0xf7537e82, 6), (F4, 11, 0xbd3af235, 10), (F4, 2, 0x2ad7d2bb, 15), (F4, 9, 0xeb86d391, 21)]"

text \<open>Sixteen integers of the host, read from the memory of the block.\<close>

definition host_words :: "bool \<Rightarrow> byte list \<Rightarrow> 32 word list" where
  "host_words little bs =
     map (\<lambda>i. let w = take 4 (drop (4 * i) bs) in un_le (if little then w else rev w)) [0 ..< 16]"

text \<open>The block is put into the order of the host and back.\<close>

definition MD5_Transform :: "bool \<Rightarrow> md5_regs \<Rightarrow> byte list \<Rightarrow> (md5_regs \<times> byte list) option" where
  "MD5_Transform little = (\<lambda>(s0, s1, s2, s3) inp.
     let rev_bytes = LittleRevBytes_Ptr (Swap_Init little) 4 16
     in Option.bind (rev_bytes inp) (\<lambda>inp1.
          let (a, b, c, d) = fold (MD5STEP (host_words little inp1)) id_steps (s0, s1, s2, s3)
          in Option.bind (rev_bytes inp1) (\<lambda>inp2. Some ((s0 + a, s1 + b, s2 + c, s3 + d), inp2))))"

section \<open>Init, update, final\<close>

definition idMD5_Init :: "byte list \<Rightarrow> id_md5_ctx" where
  "idMD5_Init inp = \<lparr>id_state = (0x67452301, 0xefcdab89, 0x98badcfe, 0x10325476), id_bits = (0, 0), id_in = inp\<rparr>"

text \<open>The loop over whole blocks: state, block and the bytes that are left.\<close>

function id_chunks :: "bool \<Rightarrow> md5_regs \<Rightarrow> byte list \<Rightarrow> byte list \<Rightarrow> (md5_regs \<times> byte list \<times> byte list) option" where
  "id_chunks little st inp buf =
     (if 64 \<le> length buf
      then (case MD5_Transform little st (buf_copy 0 (take 64 buf) inp) of
              None \<Rightarrow> None
            | Some (st', inp') \<Rightarrow> id_chunks little st' inp' (drop 64 buf))
      else Some (st, inp, buf))"
  by pat_completeness auto

termination
  by (relation "measure (\<lambda>(little, st, inp, buf). length buf)") auto

declare id_chunks.simps [simp del]

definition idMD5_Update :: "bool \<Rightarrow> id_md5_ctx \<Rightarrow> byte list \<Rightarrow> id_md5_ctx option" where
  "idMD5_Update little ctx buf =
     (let len = length buf;
          t = fst (id_bits ctx);
          bits0 = t + push_bit 3 (of_nat len);
          bits1 = (if bits0 < t then snd (id_bits ctx) + 1 else snd (id_bits ctx)) + drop_bit 29 (of_nat len);
          ctx1 = ctx\<lparr>id_bits := (bits0, bits1)\<rparr>;
          used = unat (drop_bit 3 t AND 0x3f);
          free = 64 - used
      in if used \<noteq> 0 \<and> len < free then Some (ctx1\<lparr>id_in := buf_copy used buf (id_in ctx1)\<rparr>)
         else
           Option.bind
             (if used \<noteq> 0
              then Option.bind (MD5_Transform little (id_state ctx1) (buf_copy used (take free buf) (id_in ctx1)))
                     (\<lambda>(st, inp). Some (st, inp, drop free buf))
              else Some (id_state ctx1, id_in ctx1, buf))
             (\<lambda>(st, inp, buf1). Option.bind (id_chunks little st inp buf1)
               (\<lambda>(st', inp', buf2). Some (ctx1\<lparr>id_state := st', id_in := buf_copy 0 buf2 inp'\<rparr>))))"

fun idMD5_Updates :: "bool \<Rightarrow> id_md5_ctx \<Rightarrow> byte list list \<Rightarrow> id_md5_ctx option" where
  "idMD5_Updates little ctx [] = Some ctx"
| "idMD5_Updates little ctx (p # ps) = Option.bind (idMD5_Update little ctx p) (\<lambda>ctx'. idMD5_Updates little ctx' ps)"

definition state_bytes :: "bool \<Rightarrow> md5_regs \<Rightarrow> byte list" where
  "state_bytes little = (\<lambda>(a, b, c, d). concat (map (host_bytes little 4) [a, b, c, d]))"

text \<open>\<open>sizeof( ctx )\<close> is the size of a pointer, 4 or 8 bytes: so much of the context is cleared.\<close>

definition clear_context :: "nat \<Rightarrow> id_md5_ctx \<Rightarrow> id_md5_ctx" where
  "clear_context ptr ctx = ctx\<lparr>id_state := (\<lambda>(a, b, c, d). (0, if ptr = 8 then 0 else b, c, d)) (id_state ctx)\<rparr>"

text \<open>The digest, and the context that is left.\<close>

definition idMD5_Final :: "bool \<Rightarrow> nat \<Rightarrow> id_md5_ctx \<Rightarrow> (byte list \<times> id_md5_ctx) option" where
  "idMD5_Final little ptr ctx =
     (let used = unat (drop_bit 3 (fst (id_bits ctx)) AND 0x3F);
          inp = buf_copy used [0x80] (id_in ctx);
          count = 64 - 1 - used;
          int_bytes = (\<lambda>w. host_bytes little 4 (LittleInt32_Ptr (Swap_Init little) w))
      in Option.bind
           (if count < 8
            then Option.bind (MD5_Transform little (id_state ctx) (buf_copy (used + 1) (replicate count 0) inp))
                   (\<lambda>(st, inp1). Some (st, buf_copy 0 (replicate 56 0) inp1))
            else Some (id_state ctx, buf_copy (used + 1) (replicate (count - 8) 0) inp))
           (\<lambda>(st, inp1).
             let inp2 = buf_copy 60 (int_bytes (snd (id_bits ctx))) (buf_copy 56 (int_bytes (fst (id_bits ctx))) inp1)
             in Option.bind (MD5_Transform little st inp2)
                  (\<lambda>(st', inp3). Some (state_bytes little st', clear_context ptr (ctx\<lparr>id_state := st', id_in := inp3\<rparr>)))))"

text \<open>
  \<open>unsigned long\<close> is a word of any width, of which \<open>digest\<close> has four.  The outer \<open>None\<close> is a fault, the inner one a word that was
  not set.
\<close>

definition host_word :: "bool \<Rightarrow> byte list \<Rightarrow> nat \<Rightarrow> 'a :: len word option" where
  "host_word little bs i =
     (let n = LENGTH('a) div 8; w = take n (drop (i * n) bs)
      in if (i + 1) * n \<le> length bs then Some (un_le (if little then w else rev w)) else None)"

definition MD5_BlockChecksum :: "bool \<Rightarrow> nat \<Rightarrow> byte list \<Rightarrow> byte list \<Rightarrow> 'a :: len word option option" where
  "MD5_BlockChecksum little ptr inp data =
     Option.bind (idMD5_Update little (idMD5_Init inp) data) (\<lambda>ctx. Option.bind (idMD5_Final little ptr ctx) (\<lambda>(digest, ctx').
       Some (Option.bind (host_word little digest 0) (\<lambda>d0. Option.bind (host_word little digest 1) (\<lambda>d1.
         Option.bind (host_word little digest 2) (\<lambda>d2. Option.bind (host_word little digest 3) (\<lambda>d3.
           Some (d0 XOR d1 XOR d2 XOR d3))))))))"

section \<open>A block is the block of the RFC\<close>

lemma id_funs: "F1 = md5_F" "F2 = md5_G" "F3 = md5_H" "F4 = md5_I"
  by (intro ext; simp add: F1_def F2_def F3_def F4_def md5_F_def md5_G_def md5_H_def md5_I_def)+

lemma id_steps_eq: "id_steps = md5_steps"
  unfolding id_steps_def md5_steps_def id_funs ..

lemma MD5STEP_eq: "MD5STEP = STEP"
  by (intro ext) (auto simp: MD5STEP_def STEP_def Let_def word_and_ff ac_simps)

lemma length_rev_each: "k * n \<le> length bs \<Longrightarrow> length (rev_each k n bs) = length bs"
  by (induction n arbitrary: bs) auto

lemma rev_each_twice: "k * n \<le> length bs \<Longrightarrow> rev_each k n (rev_each k n bs) = bs"
  by (induction n arbitrary: bs) auto

lemma rev_each_nth:
  "k * n \<le> length bs \<Longrightarrow> i < n \<Longrightarrow> take k (drop (k * i) (rev_each k n bs)) = rev (take k (drop (k * i) bs))"
proof (induction n arbitrary: bs i)
  case (Suc n)
  then show ?case by (cases i) (auto simp: algebra_simps)
qed simp

lemma little_rev_bytes:
  "length b = 64 \<Longrightarrow> LittleRevBytes_Ptr (Swap_Init little) 4 16 b = Some (if little then b else rev_each 4 16 b)"
  using rev_bytes_swap [of 4 16 b] by (simp add: Swap_Init_def host_is_little RevBytesNoSwap_def)

lemma host_words_block:
  assumes "length b = 64"
  shows "host_words little (if little then b else rev_each 4 16 b) = map (SET b) [0 ..< 16]"
proof -
  have "host_words little (if little then b else rev_each 4 16 b) = map (\<lambda>i. un_le (take 4 (drop (4 * i) b))) [0 ..< 16]"
    using rev_each_nth [of 4 16 b] assms by (simp add: host_words_def Let_def)
  also have "\<dots> = map (SET b) [0 ..< 16]"
    using assms by (simp add: take_four SET_def push_bit_or ac_simps)
  finally show ?thesis .
qed

lemma id_transform_rfc:
  assumes "length b = 64"
  shows "MD5_Transform little st b = Some (rfc_block st b, b)"
proof -
  obtain s0 s1 s2 s3 where st: "st = (s0, s1, s2, s3)" by (cases st)
  have "MD5_Transform little st b = Some (md5_block st b, b)"
    using little_rev_bytes [OF assms, of little] host_words_block [OF assms, of little] little_rev_bytes [of "rev_each 4 16 b" little]
      length_rev_each [of 4 16 b] rev_each_twice [of 4 16 b] assms
    by (auto simp: MD5_Transform_def st md5_block_def id_steps_eq MD5STEP_eq Let_def add.commute split: prod.splits)
  then show ?thesis by (simp add: md5_block_rfc)
qed

section \<open>What a context has absorbed\<close>

definition id_absorbed :: "byte list \<Rightarrow> id_md5_ctx \<Rightarrow> bool" where
  "id_absorbed xs ctx \<longleftrightarrow> id_bits ctx = (of_nat (8 * length xs), of_nat (8 * length xs div 2 ^ 32))
     \<and> id_state ctx = rfc_blocks md5_init_regs xs
     \<and> length (id_in ctx) = 64 \<and> take (length xs mod 64) (id_in ctx) = tail64 xs"

lemma id_chunks_rfc:
  "length inp = 64 \<Longrightarrow> \<exists>inp'. id_chunks little st inp buf = Some (rfc_blocks st buf, inp', tail64 buf) \<and> length inp' = 64"
proof (induction little st inp buf rule: id_chunks.induct)
  case (1 little st inp buf)
  show ?case
  proof (cases "64 \<le> length buf")
    case True
    let ?b = "take 64 buf" and ?r = "drop 64 buf"
    have b: "length ?b = 64" "buf_copy 0 ?b inp = ?b" using True 1(2) by (simp_all add: buf_copy_def)
    obtain inp' where "id_chunks little (rfc_block st ?b) ?b ?r = Some (rfc_blocks (rfc_block st ?b) ?r, inp', tail64 ?r)" "length inp' = 64"
      using 1(1) [OF True _ refl b(1), of "rfc_block st ?b"] b by (auto simp: id_transform_rfc)
    moreover have "tail64 (?b @ ?r) = tail64 ?r" by (rule tail64_block [OF b(1)])
    moreover have "rfc_blocks st buf = rfc_blocks (rfc_block st ?b) ?r" using True by (subst rfc_blocks_rec) simp
    moreover have "id_chunks little st inp buf = id_chunks little (rfc_block st ?b) ?b ?r"
      using True by (subst id_chunks.simps) (simp add: b id_transform_rfc)
    ultimately show ?thesis by simp
  next
    case False
    then show ?thesis using 1(2) by (subst id_chunks.simps) (simp add: rfc_blocks_short tail64_short)
  qed
qed

lemma id_update_absorbed:
  assumes abs: "id_absorbed xs ctx" and L: "length data < 2 ^ 32"
  shows "\<exists>ctx'. idMD5_Update little ctx data = Some ctx' \<and> id_absorbed (xs @ data) ctx'"
proof -
  let ?u = "length xs mod 64" and ?t = "tail64 xs" and ?b = "id_in ctx" and ?n = "length data"
  define bits where "bits = (of_nat (8 * length (xs @ data)) :: 32 word, of_nat (8 * length (xs @ data) div 2 ^ 32) :: 32 word)"
  have b: "length ?b = 64" "take ?u ?b = ?t" and count: "id_bits ctx = (of_nat (8 * length xs), of_nat (8 * length xs div 2 ^ 32))"
    and regs: "id_state ctx = rfc_blocks md5_init_regs xs"
    using abs by (simp_all add: id_absorbed_def)
  have index: "unat (drop_bit 3 (fst (id_bits ctx)) AND 0x3f) = ?u"
    unfolding count fst_conv by (rule md4_index) simp
  have s1: "fst (id_bits ctx) + push_bit 3 (of_nat ?n) = fst bits"
    by (simp add: bits_def count push_bit_eq_mult algebra_simps)
  have s2: "(if fst bits < fst (id_bits ctx) then snd (id_bits ctx) + 1 else snd (id_bits ctx)) + drop_bit 29 (of_nat ?n) = snd bits"
  proof -
    have "((of_nat (8 * length xs + 8 * ?n) :: 32 word) < of_nat (8 * length xs)) = (of_nat (8 * length xs + 8 * ?n) < (of_nat (8 * ?n) :: 32 word))"
      unfolding of_nat_add by (rule word_carry_sym [symmetric])
    then show ?thesis
      using bit_count_step [OF L, of "length xs"] by (simp only: bits_def count fst_conv snd_conv length_append distrib_left)
  qed
  define ctx1 where "ctx1 = ctx\<lparr>id_bits := bits\<rparr>"
  have upd: "idMD5_Update little ctx data = (if ?u \<noteq> 0 \<and> ?n < 64 - ?u then Some (ctx1\<lparr>id_in := buf_copy ?u data ?b\<rparr>)
      else Option.bind
        (if ?u \<noteq> 0 then Option.bind (MD5_Transform little (id_state ctx) (buf_copy ?u (take (64 - ?u) data) ?b))
              (\<lambda>(st, inp). Some (st, inp, drop (64 - ?u) data))
         else Some (id_state ctx, ?b, data))
        (\<lambda>(st, inp, buf1). Option.bind (id_chunks little st inp buf1)
          (\<lambda>(st', inp', buf2). Some (ctx1\<lparr>id_state := st', id_in := buf_copy 0 buf2 inp'\<rparr>))))"
    unfolding idMD5_Update_def Let_def index s1 s2 prod.collapse ctx1_def by simp
  have goal_regs: "rfc_blocks md5_init_regs (xs @ data) = rfc_blocks (id_state ctx) (?t @ data)"
    unfolding regs by (rule rfc_blocks_tail)
  have goal_tail: "tail64 (xs @ data) = tail64 (?t @ data)" by (rule tail64_append)
  show ?thesis
  proof (cases "?u \<noteq> 0 \<and> ?n < 64 - ?u")
    case True
    then have "?u + ?n < 64" by linarith
    then have sm: "length (?t @ data) < 64" "length (xs @ data) mod 64 = ?u + ?n"
      by (simp, metis length_append mod_add_left_eq mod_less)
    then show ?thesis
      unfolding id_absorbed_def goal_regs goal_tail
      using True \<open>?u + ?n < 64\<close> take_buf_copy [of ?u data ?b] b
      by (simp add: upd ctx1_def bits_def length_buf_copy rfc_blocks_short tail64_short)
  next
    case False
    let ?p = "64 - ?u"
    define buf where "buf = (if ?u \<noteq> 0 then drop ?p data else data)"
    have "\<exists>st inp. (if ?u \<noteq> 0 then Option.bind (MD5_Transform little (id_state ctx) (buf_copy ?u (take ?p data) ?b))
              (\<lambda>(st, inp). Some (st, inp, drop ?p data)) else Some (id_state ctx, ?b, data)) = Some (st, inp, buf)
        \<and> length inp = 64 \<and> rfc_blocks st buf = rfc_blocks (id_state ctx) (?t @ data) \<and> tail64 buf = tail64 (?t @ data)"
    proof (cases "?u = 0")
      case True
      then have "?t = []" by (simp flip: length_0_conv)
      with True b show ?thesis by (simp add: buf_def)
    next
      case u: False
      let ?d1 = "take ?p data"
      have blk: "buf_copy ?u ?d1 ?b = ?t @ ?d1" "length (?t @ ?d1) = 64"
        using b False u by (simp_all add: buf_copy_def)
      have split: "?t @ data = (?t @ ?d1) @ drop ?p data" by simp
      have "rfc_blocks (id_state ctx) (?t @ data) = rfc_blocks (rfc_block (id_state ctx) (?t @ ?d1)) (drop ?p data)"
        unfolding split rfc_blocks_def by (rule fold_blocks_one [OF blk(2)])
      moreover have "tail64 (?t @ data) = tail64 (drop ?p data)"
        unfolding split by (rule tail64_block [OF blk(2)])
      ultimately show ?thesis using u id_transform_rfc [OF blk(2), of little] blk by (simp add: buf_def)
    qed
    then obtain st inp where first: "length inp = 64" "rfc_blocks st buf = rfc_blocks (id_state ctx) (?t @ data)"
        "tail64 buf = tail64 (?t @ data)"
      and u1: "idMD5_Update little ctx data = Option.bind (id_chunks little st inp buf)
        (\<lambda>(st', inp', buf2). Some (ctx1\<lparr>id_state := st', id_in := buf_copy 0 buf2 inp'\<rparr>))"
      unfolding upd if_not_P [OF False] by fastforce
    obtain inp' where c: "id_chunks little st inp buf = Some (rfc_blocks st buf, inp', tail64 buf)" "length inp' = 64"
      using id_chunks_rfc [OF first(1)] by blast
    have len: "length (xs @ data) mod 64 = length (tail64 buf)"
      unfolding first(3) by (metis goal_tail length_tail64)
    have "length (tail64 buf) < 64" by simp
    then show ?thesis
      unfolding id_absorbed_def goal_regs goal_tail u1 len
      using c take_buf_copy [of 0 "tail64 buf" inp'] first(2,3)
      by (simp add: ctx1_def bits_def length_buf_copy)
  qed
qed

lemma put_length:
  "length X = 64 \<Longrightarrow> length B0 = 4 \<Longrightarrow> length B1 = 4 \<Longrightarrow> buf_copy 60 B1 (buf_copy 56 B0 X) = take 56 X @ B0 @ B1"
  by (simp add: buf_copy_def)

lemma rfc_blocks_single: "length b = 64 \<Longrightarrow> rfc_blocks r b = rfc_block r b"
  unfolding rfc_blocks_def by (rule fold_blocks_single)

lemma id_final_absorbed:
  assumes abs: "id_absorbed xs ctx"
  defines "R \<equiv> rfc_blocks md5_init_regs (rfc_pad xs)"
  shows "\<exists>inp. idMD5_Final little ptr ctx = Some (state_bytes little R, clear_context ptr (ctx\<lparr>id_state := R, id_in := inp\<rparr>))"
proof -
  let ?u = "length xs mod 64" and ?t = "tail64 xs" and ?b = "id_in ctx"
  let ?L0 = "le_bytes 4 (fst (id_bits ctx))" and ?L1 = "le_bytes 4 (snd (id_bits ctx))"
  let ?z = "\<lambda>n. replicate n 0 :: byte list"
  have b: "length ?b = 64" "take ?u ?b = ?t" and count: "id_bits ctx = (of_nat (8 * length xs), of_nat (8 * length xs div 2 ^ 32))"
    and regs: "id_state ctx = rfc_blocks md5_init_regs xs"
    using abs by (simp_all add: id_absorbed_def)
  have index: "unat (drop_bit 3 (fst (id_bits ctx)) AND 0x3F) = ?u"
    unfolding count fst_conv by (rule md4_index) simp
  have u: "?u < 64" by simp
  have L: "?L0 @ ?L1 = le_bytes64 (of_nat (8 * length xs))"
    unfolding count fst_conv snd_conv by (rule length_in_words)
  have R: "R = rfc_blocks (id_state ctx) (?t @ [0x80] @ ?z ((119 - ?u) mod 64) @ ?L0 @ ?L1)"
    unfolding R_def rfc_pad_def regs L by (rule rfc_blocks_tail)
  have buf: "buf_copy ?u [0x80] ?b = (?t @ [0x80]) @ drop (Suc ?u) ?b"
    using b(2) by (simp add: buf_copy_def)
  define last where "last = (\<lambda>(st, inp1). Option.bind (MD5_Transform little st (buf_copy 60 ?L1 (buf_copy 56 ?L0 inp1)))
      (\<lambda>(st', inp3). Some (state_bytes little st', clear_context ptr (ctx\<lparr>id_state := st', id_in := inp3\<rparr>))))"
  have final: "idMD5_Final little ptr ctx = Option.bind
      (if 63 - ?u < 8
       then Option.bind (MD5_Transform little (id_state ctx) (buf_copy (?u + 1) (?z (63 - ?u)) (buf_copy ?u [0x80] ?b)))
              (\<lambda>(st, inp1). Some (st, buf_copy 0 (?z 56) inp1))
       else Some (id_state ctx, buf_copy (?u + 1) (?z (63 - ?u - 8)) (buf_copy ?u [0x80] ?b))) last"
    unfolding idMD5_Final_def Let_def index host_swaps last_def by simp
  have last: "last (st, X) = Some (state_bytes little (rfc_block st B), clear_context ptr (ctx\<lparr>id_state := rfc_block st B, id_in := B\<rparr>))"
    if "length X = 64" "B = take 56 X @ ?L0 @ ?L1" for st X B
    using that id_transform_rfc [of B little st] by (simp add: last_def put_length)
  show ?thesis
  proof (cases "?u < 56")
    case True
    let ?X = "buf_copy (?u + 1) (?z (55 - ?u)) (buf_copy ?u [0x80] ?b)"
    have X: "?X = (?t @ [0x80] @ ?z (55 - ?u)) @ drop 56 ?b"
      unfolding buf using b True by (simp add: buf_copy_def drop_Cons')
    then have take: "take 56 ?X = ?t @ [0x80] @ ?z (55 - ?u)" and len: "length ?X = 64"
      using b True by (simp_all add: take_Cons')
    have nf: "\<not> 63 - ?u < 8" "63 - ?u - 8 = 55 - ?u" using True by linarith+
    have "R = rfc_block (id_state ctx) (take 56 ?X @ ?L0 @ ?L1)"
      unfolding R pad_count(1) [OF True] take using True by (subst rfc_blocks_single) simp_all
    then show ?thesis
      unfolding final if_not_P [OF nf(1)] nf(2) bind.bind_lunit last [OF len refl] by blast
  next
    case False
    let ?B = "?t @ [0x80] @ ?z (63 - ?u)" and ?X = "buf_copy 0 (?z 56) (?t @ [0x80] @ ?z (63 - ?u))"
    have f: "63 - ?u < 8" using False by linarith
    have B: "buf_copy (?u + 1) (?z (63 - ?u)) (buf_copy ?u [0x80] ?b) = ?B" "length ?B = 64"
      unfolding buf using b u by (simp_all add: buf_copy_def)
    have X: "length ?X = 64" "take 56 ?X = ?z 56" using B(2) by (simp_all add: buf_copy_def)
    have z: "?z ((119 - ?u) mod 64) = ?z (63 - ?u) @ ?z 56"
      using pad_count(2) [OF _ u] False by (simp flip: replicate_add)
    have split: "?t @ [0x80] @ (?z (63 - ?u) @ ?z 56) @ ?L0 @ ?L1 = ?B @ ?z 56 @ ?L0 @ ?L1" by simp
    have "R = rfc_blocks (rfc_blocks (id_state ctx) ?B) (?z 56 @ ?L0 @ ?L1)"
      unfolding R z split by (rule rfc_blocks_append) (simp only: B(2) dvd_refl)
    also have "\<dots> = rfc_block (rfc_block (id_state ctx) ?B) (take 56 ?X @ ?L0 @ ?L1)"
      unfolding X(2) rfc_blocks_single [OF B(2)] by (subst rfc_blocks_single) simp_all
    finally have "R = rfc_block (rfc_block (id_state ctx) ?B) (take 56 ?X @ ?L0 @ ?L1)" .
    then show ?thesis
      unfolding final if_P [OF f] B(1) id_transform_rfc [OF B(2)] bind.bind_lunit prod.case last [OF X(1) refl] by blast
  qed
qed

lemma id_init_absorbed: "length inp = 64 \<Longrightarrow> id_absorbed [] (idMD5_Init inp)"
  by (simp add: id_absorbed_def idMD5_Init_def md5_init_regs_def rfc_blocks_short tail64_def)

lemma id_updates_absorbed:
  "\<forall>p \<in> set pieces. length p < 2 ^ 32 \<Longrightarrow> id_absorbed xs ctx \<Longrightarrow>
     \<exists>ctx'. idMD5_Updates little ctx pieces = Some ctx' \<and> id_absorbed (xs @ concat pieces) ctx'"
proof (induction pieces arbitrary: xs ctx)
  case (Cons p ps)
  then obtain c where "idMD5_Update little ctx p = Some c" "id_absorbed (xs @ p) c"
    using id_update_absorbed [of xs ctx p little] by auto
  with Cons.IH [of "xs @ p" c] Cons.prems(1) show ?case by simp
qed simp

lemma state_bytes_little: "state_bytes True r = md5_output r"
  by (cases r) (simp add: state_bytes_def md5_output_def host_bytes_def le_bytes_def le_bytes32_def upt_rec)

lemma state_bytes_big: "rev_each 4 4 (state_bytes False r) = md5_output r"
  by (cases r) (simp add: state_bytes_def md5_output_def host_bytes_def le_bytes_def le_bytes32_def upt_rec numeral_eq_Suc)

lemma length_state_bytes: "length (state_bytes little r) = 16"
  by (cases r) (simp add: state_bytes_def host_bytes_def)

text \<open>What a pointer's worth of zeros leaves of the digest in the context.\<close>

lemma state_bytes_left:
  assumes "ptr = 4 \<or> ptr = 8"
  shows "drop ptr (state_bytes little (id_state (clear_context ptr (ctx\<lparr>id_state := r, id_in := inp\<rparr>)))) = drop ptr (state_bytes little r)"
  using assms by (cases r) (auto simp: clear_context_def state_bytes_def host_bytes_def)

lemma id_checksum_64:
  assumes "length inp = 64" "length data < 2 ^ 32"
  shows "MD5_BlockChecksum little ptr inp data = Some (None :: 64 word option)"
proof -
  obtain ctx where u: "idMD5_Update little (idMD5_Init inp) data = Some ctx" "id_absorbed ([] @ data) ctx"
    using id_update_absorbed [OF id_init_absorbed [OF assms(1)] assms(2)] by blast
  obtain r ctx' where "idMD5_Final little ptr ctx = Some (state_bytes little r, ctx')"
    using id_final_absorbed [OF u(2)] by blast
  then show ?thesis
    by (auto simp: MD5_BlockChecksum_def u(1) host_word_def Let_def length_state_bytes split: bind_splits)
qed

text \<open>
  C9.  On a host of either byte order no byte-order function leaves its memory, and the digest of any sequence of updates is that of RFC
  1321 of the concatenated input, on a big-endian host with the bytes of each of its four words reversed.  \<open>MD5_Final\<close> leaves
  all of the digest but its first \<open>ptr\<close> bytes in the context.  \<open>MD5_BlockChecksum\<close>, where \<open>unsigned long\<close> has 64 bits,
  combines words that were never set.
\<close>

theorem id_md5_is_rfc1321:
  assumes "length inp = 64" "\<forall>p \<in> set pieces. length p < 2 ^ 32" "ptr = 4 \<or> ptr = 8"
  shows "\<exists>ctx digest ctx'. idMD5_Updates little (idMD5_Init inp) pieces = Some ctx \<and> idMD5_Final little ptr ctx = Some (digest, ctx') \<and>
    (if little then digest else rev_each 4 4 digest) = rfc_md5 (concat pieces) \<and>
    drop ptr (state_bytes little (id_state ctx')) = drop ptr digest \<and>
    (\<forall>p \<in> set pieces. MD5_BlockChecksum little ptr inp p = Some (None :: 64 word option))"
proof -
  obtain ctx where u: "idMD5_Updates little (idMD5_Init inp) pieces = Some ctx" "id_absorbed ([] @ concat pieces) ctx"
    using id_updates_absorbed [OF assms(2) id_init_absorbed [OF assms(1)]] by blast
  obtain i where "idMD5_Final little ptr ctx = Some (state_bytes little (rfc_blocks md5_init_regs (rfc_pad (concat pieces))),
      clear_context ptr (ctx\<lparr>id_state := rfc_blocks md5_init_regs (rfc_pad (concat pieces)), id_in := i\<rparr>))"
    using id_final_absorbed [OF u(2), of little ptr] by auto
  then show ?thesis
    using u(1) state_bytes_left [OF assms(3)] id_checksum_64 [OF assms(1)] assms(2)
    by (auto simp: rfc_md5_def state_bytes_little state_bytes_big)
qed

lemma id_md5_is_rfc1321_witness:
  "\<exists>ctx digest ctx'. idMD5_Updates False (idMD5_Init (replicate 64 7)) [[97], [98, 99]] = Some ctx \<and>
     idMD5_Final False 8 ctx = Some (digest, ctx') \<and> rev_each 4 4 digest = rfc_md5 [97, 98, 99]"
  using id_md5_is_rfc1321 [of "replicate 64 7" "[[97], [98, 99]]" 8 False] by auto

end
