(* ===== verification/Crc32.thy ===== *)
theory Crc32
  imports Zylib_Prelude
begin

text \<open>
  The CRC-32 of \<open>zylib_experimental/detail/idCRC32.cpp\<close>.  An \<open>unsigned long\<close> has 64 bits, as on 64-bit Unix.  The table in
  the file is compared with the one that \<open>make_crc_table\<close>, compiled under \<open>CREATE_CRC_TABLE\<close>, computes, and the
  checksum with the shift register that the comment of the file describes.
\<close>

unbundle bit_operations_syntax

section \<open>The code\<close>

definition crc_poly :: u64 where
  "crc_poly = fold (\<lambda>p poly. poly OR push_bit (31 - p) 1) [0, 1, 2, 4, 5, 7, 8, 10, 11, 12, 16, 22, 23, 26] 0"

definition crc_shift :: "u64 \<Rightarrow> u64" where
  "crc_shift c = (if c AND 1 \<noteq> 0 then crc_poly XOR drop_bit 1 c else drop_bit 1 c)"

definition make_crc_table :: "u64 list" where
  "make_crc_table = map (\<lambda>i. (crc_shift ^^ 8) (of_nat i)) [0..<256]"

definition crctable :: "u64 list" where
  "crctable = [
   0x00000000, 0x77073096, 0xee0e612c, 0x990951ba, 0x076dc419, 0x706af48f,
   0xe963a535, 0x9e6495a3, 0x0edb8832, 0x79dcb8a4, 0xe0d5e91e, 0x97d2d988,
   0x09b64c2b, 0x7eb17cbd, 0xe7b82d07, 0x90bf1d91, 0x1db71064, 0x6ab020f2,
   0xf3b97148, 0x84be41de, 0x1adad47d, 0x6ddde4eb, 0xf4d4b551, 0x83d385c7,
   0x136c9856, 0x646ba8c0, 0xfd62f97a, 0x8a65c9ec, 0x14015c4f, 0x63066cd9,
   0xfa0f3d63, 0x8d080df5, 0x3b6e20c8, 0x4c69105e, 0xd56041e4, 0xa2677172,
   0x3c03e4d1, 0x4b04d447, 0xd20d85fd, 0xa50ab56b, 0x35b5a8fa, 0x42b2986c,
   0xdbbbc9d6, 0xacbcf940, 0x32d86ce3, 0x45df5c75, 0xdcd60dcf, 0xabd13d59,
   0x26d930ac, 0x51de003a, 0xc8d75180, 0xbfd06116, 0x21b4f4b5, 0x56b3c423,
   0xcfba9599, 0xb8bda50f, 0x2802b89e, 0x5f058808, 0xc60cd9b2, 0xb10be924,
   0x2f6f7c87, 0x58684c11, 0xc1611dab, 0xb6662d3d, 0x76dc4190, 0x01db7106,
   0x98d220bc, 0xefd5102a, 0x71b18589, 0x06b6b51f, 0x9fbfe4a5, 0xe8b8d433,
   0x7807c9a2, 0x0f00f934, 0x9609a88e, 0xe10e9818, 0x7f6a0dbb, 0x086d3d2d,
   0x91646c97, 0xe6635c01, 0x6b6b51f4, 0x1c6c6162, 0x856530d8, 0xf262004e,
   0x6c0695ed, 0x1b01a57b, 0x8208f4c1, 0xf50fc457, 0x65b0d9c6, 0x12b7e950,
   0x8bbeb8ea, 0xfcb9887c, 0x62dd1ddf, 0x15da2d49, 0x8cd37cf3, 0xfbd44c65,
   0x4db26158, 0x3ab551ce, 0xa3bc0074, 0xd4bb30e2, 0x4adfa541, 0x3dd895d7,
   0xa4d1c46d, 0xd3d6f4fb, 0x4369e96a, 0x346ed9fc, 0xad678846, 0xda60b8d0,
   0x44042d73, 0x33031de5, 0xaa0a4c5f, 0xdd0d7cc9, 0x5005713c, 0x270241aa,
   0xbe0b1010, 0xc90c2086, 0x5768b525, 0x206f85b3, 0xb966d409, 0xce61e49f,
   0x5edef90e, 0x29d9c998, 0xb0d09822, 0xc7d7a8b4, 0x59b33d17, 0x2eb40d81,
   0xb7bd5c3b, 0xc0ba6cad, 0xedb88320, 0x9abfb3b6, 0x03b6e20c, 0x74b1d29a,
   0xead54739, 0x9dd277af, 0x04db2615, 0x73dc1683, 0xe3630b12, 0x94643b84,
   0x0d6d6a3e, 0x7a6a5aa8, 0xe40ecf0b, 0x9309ff9d, 0x0a00ae27, 0x7d079eb1,
   0xf00f9344, 0x8708a3d2, 0x1e01f268, 0x6906c2fe, 0xf762575d, 0x806567cb,
   0x196c3671, 0x6e6b06e7, 0xfed41b76, 0x89d32be0, 0x10da7a5a, 0x67dd4acc,
   0xf9b9df6f, 0x8ebeeff9, 0x17b7be43, 0x60b08ed5, 0xd6d6a3e8, 0xa1d1937e,
   0x38d8c2c4, 0x4fdff252, 0xd1bb67f1, 0xa6bc5767, 0x3fb506dd, 0x48b2364b,
   0xd80d2bda, 0xaf0a1b4c, 0x36034af6, 0x41047a60, 0xdf60efc3, 0xa867df55,
   0x316e8eef, 0x4669be79, 0xcb61b38c, 0xbc66831a, 0x256fd2a0, 0x5268e236,
   0xcc0c7795, 0xbb0b4703, 0x220216b9, 0x5505262f, 0xc5ba3bbe, 0xb2bd0b28,
   0x2bb45a92, 0x5cb36a04, 0xc2d7ffa7, 0xb5d0cf31, 0x2cd99e8b, 0x5bdeae1d,
   0x9b64c2b0, 0xec63f226, 0x756aa39c, 0x026d930a, 0x9c0906a9, 0xeb0e363f,
   0x72076785, 0x05005713, 0x95bf4a82, 0xe2b87a14, 0x7bb12bae, 0x0cb61b38,
   0x92d28e9b, 0xe5d5be0d, 0x7cdcefb7, 0x0bdbdf21, 0x86d3d2d4, 0xf1d4e242,
   0x68ddb3f8, 0x1fda836e, 0x81be16cd, 0xf6b9265b, 0x6fb077e1, 0x18b74777,
   0x88085ae6, 0xff0f6a70, 0x66063bca, 0x11010b5c, 0x8f659eff, 0xf862ae69,
   0x616bffd3, 0x166ccf45, 0xa00ae278, 0xd70dd2ee, 0x4e048354, 0x3903b3c2,
   0xa7672661, 0xd06016f7, 0x4969474d, 0x3e6e77db, 0xaed16a4a, 0xd9d65adc,
   0x40df0b66, 0x37d83bf0, 0xa9bcae53, 0xdebb9ec5, 0x47b2cf7f, 0x30b5ffe9,
   0xbdbdf21c, 0xcabac28a, 0x53b39330, 0x24b4a3a6, 0xbad03605, 0xcdd70693,
   0x54de5729, 0x23d967bf, 0xb3667a2e, 0xc4614ab8, 0x5d681b02, 0x2a6f2b94,
   0xb40bbe37, 0xc30c8ea1, 0x5a05df1b, 0x2d02ef8d]"

definition CRC32_InitChecksum :: u64 where
  "CRC32_InitChecksum = 0xffffffff"

definition CRC32_Update :: "u64 \<Rightarrow> byte \<Rightarrow> u64" where
  "CRC32_Update crcvalue data = crctable ! unat ((crcvalue XOR ucast data) AND 0xff) XOR drop_bit 8 crcvalue"

text \<open>
  The loop of \<open>CRC32_UpdateChecksum\<close> over the bytes that follow \<open>data\<close>: \<open>None\<close> if it reads past them, or decrements the
  least \<open>int\<close>.
\<close>

fun CRC32_UpdateChecksum :: "u64 \<Rightarrow> byte list \<Rightarrow> int \<Rightarrow> u64 option" where
  "CRC32_UpdateChecksum crc data count =
     (if count = 0 then Some crc
      else if count = - (2 ^ 31) then None
      else case data of
          [] \<Rightarrow> None
        | b # buf \<Rightarrow>
            CRC32_UpdateChecksum (crctable ! unat ((crc XOR ucast b) AND 0xff) XOR drop_bit 8 crc) buf (count - 1))"

declare CRC32_UpdateChecksum.simps [simp del]

definition CRC32_FinishChecksum :: "u64 \<Rightarrow> u64" where
  "CRC32_FinishChecksum crcvalue = crcvalue XOR 0xffffffff"

definition CRC32_BlockChecksum :: "byte list \<Rightarrow> int \<Rightarrow> u64 option" where
  "CRC32_BlockChecksum data count =
     map_option CRC32_FinishChecksum (CRC32_UpdateChecksum CRC32_InitChecksum data count)"

section \<open>The shift register\<close>

text \<open>A shift of a register of any width that holds a remainder modulo the polynomial \<open>p\<close>.\<close>

definition lin_shift :: "'a :: len word \<Rightarrow> 'a word \<Rightarrow> 'a word" where
  "lin_shift p c = (if bit c 0 then p XOR drop_bit 1 c else drop_bit 1 c)"

text \<open>One bit enters the register.\<close>

definition shift_in :: "bool \<Rightarrow> 32 word \<Rightarrow> 32 word" where
  "shift_in b c = lin_shift 0xedb88320 (c XOR of_bool b)"

definition byte_bits :: "byte \<Rightarrow> bool list" where
  "byte_bits b = map (bit b) [0..<8]"

definition message_bits :: "byte list \<Rightarrow> bool list" where
  "message_bits bs = concat (map byte_bits bs)"

definition register :: "bool list \<Rightarrow> 32 word" where
  "register bits = fold shift_in bits (NOT 0)"

definition crc32 :: "byte list \<Rightarrow> 32 word" where
  "crc32 bs = NOT (register (message_bits bs))"

definition bits_word :: "bool list \<Rightarrow> 32 word" where
  "bits_word bs = horner_sum of_bool 2 bs"

lemma lin_shift_xor: "lin_shift p (a XOR b) = lin_shift p a XOR lin_shift p b"
  by (rule bit_word_eqI) (auto simp: lin_shift_def bit_simps)

lemma pow_shift_xor: "(lin_shift p ^^ n) (a XOR b) = (lin_shift p ^^ n) a XOR (lin_shift p ^^ n) b"
  by (induction n) (simp_all add: lin_shift_xor)

lemma lin_shift_eq_zero:
  assumes "bit p (LENGTH('a) - 1)" "lin_shift p c = 0"
  shows "c = (0 :: 'a :: len word)"
proof (rule bit_word_eqI)
  fix n assume n: "n < LENGTH('a)"
  have b: "bit (lin_shift p c) m = False" for m using assms(2) by simp
  have "\<not> bit c 0" using b [of "LENGTH('a) - 1"] assms(1) by (auto simp: lin_shift_def bit_simps split: if_splits)
  with b [of "n - 1"] n show "bit c n = bit 0 n"
    by (cases n) (auto simp: lin_shift_def bit_simps)
qed

lemma pow_shift_eq_zero: "bit p (LENGTH('a) - 1) \<Longrightarrow> (lin_shift p ^^ n) c = 0 \<Longrightarrow> c = (0 :: 'a :: len word)"
proof (induction n)
  case (Suc n)
  then show ?case using lin_shift_eq_zero [OF Suc.prems(1), of "(lin_shift p ^^ n) c"] by simp
qed simp

lemma crc_poly_eq: "crc_poly = 0xedb88320" by (simp add: crc_poly_def)

lemma crc_shift_eq: "crc_shift = lin_shift 0xedb88320"
  by (auto simp: fun_eq_iff crc_shift_def lin_shift_def crc_poly_eq and_one_eq odd_iff_mod_2_eq_one bit_0)

lemma of_nat_high_bit:
  assumes "i < 2 ^ k"
  shows "of_nat (2 ^ k + i) = (2 ^ k XOR of_nat i :: u64)"
proof -
  have "\<not> bit i n" if "k \<le> n" for n
    using assms that by (metis bit_take_bit_iff not_le take_bit_nat_eq_self)
  then have "(2::nat) ^ k AND i = 0" by (intro bit_eqI) (auto simp: bit_and_iff bit_exp_iff)
  then have "2 ^ k + i = (2 ^ k XOR i :: nat)" by (rule disjunctive_add_eq_xor)
  then show ?thesis by (simp add: of_nat_xor_eq)
qed

definition table_of :: "nat \<Rightarrow> u64 list" where
  "table_of n = map (\<lambda>i. (lin_shift 0xedb88320 ^^ 8) (of_nat i)) [0..<n]"

lemma table_double: "table_of (2 ^ Suc k) = table_of (2 ^ k) @ map (\<lambda>c. (lin_shift 0xedb88320 ^^ 8) (2 ^ k) XOR c) (table_of (2 ^ k))"
proof -
  have split: "[0..<2 ^ Suc k] = [0..<2 ^ k] @ map (\<lambda>i. 2 ^ k + i) [0..<2 ^ k]"
    by (rule nth_equalityI) (auto simp: nth_append)
  have eq: "(lin_shift 0xedb88320 ^^ 8) (of_nat (2 ^ k + i)) =
      (lin_shift 0xedb88320 ^^ 8) (2 ^ k) XOR (lin_shift 0xedb88320 ^^ 8) (of_nat i :: u64)" if "i < 2 ^ k" for i
    unfolding of_nat_high_bit [OF that] by (rule pow_shift_xor)
  show ?thesis
    unfolding table_of_def split map_append map_map comp_def append_same_eq same_append_eq
    by (rule map_cong [OF refl]) (rule eq, simp)
qed
lemma pow8: "(f ^^ 8) x = f (f (f (f (f (f (f (f x)))))))" by (simp add: numeral_eq_Suc)

lemma tables:
  "table_of (Suc 0) = [0]" "table_of 2 = table_of (Suc 0) @ map ((XOR) 0x77073096) (table_of (Suc 0))"
  "table_of 4 = table_of 2 @ map ((XOR) 0xee0e612c) (table_of 2)"
  "table_of 8 = table_of 4 @ map ((XOR) 0x076dc419) (table_of 4)"
  "table_of 16 = table_of 8 @ map ((XOR) 0x0edb8832) (table_of 8)"
  "table_of 32 = table_of 16 @ map ((XOR) 0x1db71064) (table_of 16)"
  "table_of 64 = table_of 32 @ map ((XOR) 0x3b6e20c8) (table_of 32)"
  "table_of 128 = table_of 64 @ map ((XOR) 0x76dc4190) (table_of 64)"
  "table_of 256 = table_of 128 @ map ((XOR) 0xedb88320) (table_of 128)"
  using table_double [of 0] table_double [of 1] table_double [of 2] table_double [of 3]
    table_double [of 4] table_double [of 5] table_double [of 6] table_double [of 7]
  by (simp_all add: pow8 lin_shift_def bit_0 table_of_def [of "Suc 0"])
lemma crctable_eq: "crctable = make_crc_table" 
proof -
  have "make_crc_table = table_of 256" by (simp add: make_crc_table_def table_of_def crc_shift_eq)
  also have "table_of 256 = crctable" by (simp add: crctable_def tables)
  finally show ?thesis by (rule sym)
qed

lemma lin_shift_push: "\<not> bit w (LENGTH('a) - 1) \<Longrightarrow> lin_shift p (push_bit 1 w) = (w :: 'a :: len word)"
proof (rule bit_word_eqI)
  fix n assume "\<not> bit w (LENGTH('a) - 1)" "n < LENGTH('a)"
  then show "bit (lin_shift p (push_bit 1 w)) n = bit w n"
    by (cases "n = LENGTH('a) - 1") (auto simp: lin_shift_def bit_simps simp del: One_nat_def)
qed

lemma pow_shift_push:
  "(\<And>k. bit w k \<Longrightarrow> k + n < LENGTH('a)) \<Longrightarrow> (lin_shift p ^^ n) (push_bit n w) = (w :: 'a :: len word)"
proof (induction n)
  case (Suc n)
  have "\<not> bit (push_bit n w) (LENGTH('a) - 1)" using Suc.prems [of "LENGTH('a) - 1 - n"] by (auto simp: bit_simps)
  then have "lin_shift p (push_bit (Suc n) w) = push_bit n w"
    using lin_shift_push [of "push_bit n w" p] by (simp add: push_bit_push_bit)
  moreover have "(lin_shift p ^^ n) (push_bit n w) = w" using Suc.prems by (intro Suc.IH) fastforce
  ultimately show ?case by (simp add: funpow_swap1)
qed simp

lemma bit_bits_word: "bit (bits_word bs) n \<longleftrightarrow> n < 32 \<and> n < length bs \<and> bs ! n"
  by (simp add: bits_word_def bit_horner_sum_bit_word_iff)

lemma bits_word_Cons: "bits_word (b # bs) = of_bool b XOR push_bit 1 (bits_word bs)"
  by (rule bit_word_eqI) (auto simp: bit_bits_word bit_simps nth_Cons' simp del: One_nat_def)

text \<open>Up to 32 bits enter the register as one word would.\<close>

lemma fold_shift_in:
  "length bs \<le> 32 \<Longrightarrow> fold shift_in bs c = (lin_shift 0xedb88320 ^^ length bs) (c XOR bits_word bs)"
proof (induction bs arbitrary: c)
  case Nil
  then show ?case by (simp add: bits_word_def)
next
  case (Cons b bs)
  have "\<not> bit (bits_word bs) 31" using Cons.prems by (auto simp: bit_bits_word)
  then have "lin_shift 0xedb88320 (push_bit 1 (bits_word bs)) = bits_word bs" using lin_shift_push [of "bits_word bs"] by simp
  then have "lin_shift 0xedb88320 (c XOR bits_word (b # bs)) = shift_in b c XOR bits_word bs"
    by (simp add: bits_word_Cons shift_in_def lin_shift_xor xor.assoc)
  with Cons show ?case by (simp add: funpow_swap1)
qed

lemma byte_bits_word: "bits_word (byte_bits b) = ucast b" "length (byte_bits b) = 8"
proof -
  have "n < 8" if "bit b n" for n using bit_imp_le_length [OF that] by simp
  then show "bits_word (byte_bits b) = ucast b" by (intro bit_word_eqI) (auto simp: bit_bits_word byte_bits_def bit_simps)
qed (simp add: byte_bits_def)

lemma ucast_pow_shift:
  "(lin_shift 0xedb88320 ^^ n) (ucast c :: u64) = ucast ((lin_shift 0xedb88320 ^^ n) (c :: 32 word))"
proof (induction n)
  case (Suc n)
  have "lin_shift 0xedb88320 (ucast d :: u64) = ucast (lin_shift 0xedb88320 (d :: 32 word))" for d
  proof -
    have "drop_bit 1 (ucast d :: u64) = ucast (drop_bit 1 d)"
      by (rule bit_word_eqI) (auto simp: bit_simps simp del: One_nat_def dest: bit_imp_le_length)
    then show ?thesis by (simp add: lin_shift_def unsigned_xor_eq bit_unsigned_iff del: bit_0)
  qed
  with Suc show ?case by simp
qed simp

section \<open>A byte at a time\<close>

lemma table_step:
  "crctable ! unat ((x :: u64) AND 0xff) XOR drop_bit 8 x = (lin_shift 0xedb88320 ^^ 8) x"
proof -
  let ?S = "lin_shift 0xedb88320 ^^ 8 :: u64 \<Rightarrow> u64"
  have small: "unat (x AND 0xff) < 256"
  proof -
    have "x AND 0xff \<le> 0xff" by (rule word_and_le1)
    then show ?thesis by (simp add: word_le_nat_alt)
  qed
  have "crctable ! unat (x AND 0xff) = ?S (x AND 0xff)"
    using small by (simp add: crctable_eq make_crc_table_def crc_shift_eq)
  moreover have "?S (push_bit 8 (drop_bit 8 x)) = drop_bit 8 x"
    by (rule pow_shift_push) (auto simp: bit_simps dest: bit_imp_le_length)
  moreover have "(x AND mask 8) XOR push_bit 8 (drop_bit 8 x) = x"
    by (rule bit_word_eqI) (auto simp: bit_simps)
  ultimately show ?thesis using pow_shift_xor [of 8 "0xedb88320" "x AND 0xff" "push_bit 8 (drop_bit 8 x)"]
    by (simp add: mask_eq_exp_minus_1)
qed

lemma byte_step: "CRC32_Update (ucast c) b = (ucast (fold shift_in (byte_bits b) c) :: u64)"
proof -
  have high: "drop_bit 8 (ucast c :: u64) = drop_bit 8 (ucast c XOR ucast b)"
    by (rule bit_word_eqI) (auto simp: bit_simps dest: bit_imp_le_length)
  have "ucast c XOR ucast b = (ucast (c XOR ucast b) :: u64)"
    by (rule bit_word_eqI) (auto simp: bit_simps dest: bit_imp_le_length)
  then show ?thesis
    by (simp add: CRC32_Update_def high table_step fold_shift_in byte_bits_word ucast_pow_shift)
qed

lemma update_checksum:
  "CRC32_UpdateChecksum (ucast c) data count =
     (if 0 \<le> count \<and> nat count \<le> length data
      then Some (ucast (fold shift_in (message_bits (take (nat count) data)) c)) else None)"
proof (induction data arbitrary: c count)
  case Nil
  then show ?case by (subst CRC32_UpdateChecksum.simps) (simp add: message_bits_def)
next
  case (Cons b data)
  have step: "crctable ! unat ((ucast c XOR ucast b :: u64) AND 0xff) XOR drop_bit 8 (ucast c) =
      (ucast (fold shift_in (byte_bits b) c) :: u64)"
    using byte_step [of c b] by (simp add: CRC32_Update_def)
  have count: "nat count = Suc (nat (count - 1))" if "0 < count" using that by simp
  show ?case
    by (subst CRC32_UpdateChecksum.simps) (auto simp: step Cons.IH message_bits_def count)
qed

lemma block_checksum:
  "CRC32_BlockChecksum data count =
     (if 0 \<le> count \<and> nat count \<le> length data then Some (ucast (crc32 (take (nat count) data))) else None)"
proof -
  have ones: "CRC32_InitChecksum = ucast (NOT 0 :: 32 word)"
  proof -
    have "(mask 32 :: u64) = ucast (NOT 0 :: 32 word)"
      by (rule bit_word_eqI) (auto simp: bit_simps dest: bit_imp_le_length)
    then show ?thesis by (simp add: CRC32_InitChecksum_def mask_eq_exp_minus_1)
  qed
  have "ucast w XOR 0xffffffff = (ucast (NOT w) :: u64)" for w :: "32 word"
  proof -
    have "ucast w XOR (mask 32 :: u64) = ucast (NOT w)"
      by (rule bit_word_eqI) (auto simp: bit_simps dest: bit_imp_le_length)
    then show ?thesis by (simp add: mask_eq_exp_minus_1)
  qed
  then show ?thesis
    by (simp add: CRC32_BlockChecksum_def ones update_checksum CRC32_FinishChecksum_def crc32_def register_def)
qed

section \<open>Properties\<close>

text \<open>
  C10. The table in the file is the one \<open>make_crc_table\<close> computes, and \<open>CRC32_BlockChecksum\<close> of a block returns what the 32-bit shift
  register of the polynomial, fed with the bits of the block one at a time, returns; the upper half of the 64-bit
  \<open>unsigned long\<close> stays 0.  With a length that is negative or larger than the block it reads out of bounds.
\<close>

theorem crc32_is_shift_register:
  "crctable = make_crc_table \<and>
   CRC32_BlockChecksum data count =
     (if 0 \<le> count \<and> nat count \<le> length data then Some (ucast (crc32 (take (nat count) data))) else None)"
  using crctable_eq block_checksum by blast

lemma lin_shift_inj: "bit p (LENGTH('a) - 1) \<Longrightarrow> (lin_shift p ^^ n) a = (lin_shift p ^^ n) b \<Longrightarrow> a = (b :: 'a :: len word)"
proof -
  assume "bit p (LENGTH('a) - 1)" "(lin_shift p ^^ n) a = (lin_shift p ^^ n) b"
  then have "a XOR b = 0" using pow_shift_eq_zero [of p n "a XOR b"] by (simp add: pow_shift_xor)
  then have "(a XOR b) XOR b = b" by simp
  then show "a = b" by (simp add: xor.assoc)
qed

lemma crc_top: "bit (0xedb88320 :: 32 word) (LENGTH(32) - 1)"
  by simp

lemma shift_in_inj: "fold shift_in bs c = fold shift_in bs d \<Longrightarrow> c = d"
proof (induction bs arbitrary: c d)
  case (Cons b bs)
  have "shift_in b c = shift_in b d" by (rule Cons.IH) (use Cons.prems in simp)
  then have "(lin_shift 0xedb88320 ^^ 1) (c XOR of_bool b) = (lin_shift 0xedb88320 ^^ 1) (d XOR of_bool b)"
    by (simp add: shift_in_def)
  from lin_shift_inj [OF crc_top this] have "(c XOR of_bool b) XOR of_bool b = (d XOR of_bool b) XOR of_bool b" by (rule arg_cong)
  then show ?case by (simp only: xor.assoc xor_self_eq xor.right_neutral)
qed simp

lemma bits_word_inj:
  assumes "bits_word us = bits_word vs" "length us = length vs" "length us \<le> 32"
  shows "us = vs"
proof (rule nth_equalityI)
  fix i assume "i < length us"
  moreover have "bit (bits_word us) i = bit (bits_word vs) i" by (simp add: assms(1))
  ultimately show "us ! i = vs ! i" using assms(2,3) by (simp add: bit_bits_word)
qed (rule assms(2))

lemma burst_detected:
  assumes "length us = length vs" "length us \<le> 32" "us \<noteq> vs"
  shows "register (ps @ us @ ss) \<noteq> register (ps @ vs @ ss)"
proof
  assume "register (ps @ us @ ss) = register (ps @ vs @ ss)"
  then have "fold shift_in us (register ps) = fold shift_in vs (register ps)"
    by (auto simp: register_def dest: shift_in_inj)
  then have "(lin_shift 0xedb88320 ^^ length us) (register ps XOR bits_word us) =
      (lin_shift 0xedb88320 ^^ length us) (register ps XOR bits_word vs)"
    using assms(1,2) by (simp add: fold_shift_in)
  from lin_shift_inj [OF crc_top this]
  have "register ps XOR (register ps XOR bits_word us) = register ps XOR (register ps XOR bits_word vs)" by simp
  then have "bits_word us = bits_word vs" by (simp add: xor.assoc [symmetric])
  with assms bits_word_inj show False by blast
qed

text \<open>
  C11. The checksum detects every burst of errors of up to 32 bits: two blocks of equal length whose bits differ only within 32 adjacent
  bits, which need not start at a byte, have different checksums.
\<close>

theorem crc32_detects_bursts:
  assumes "message_bits m = ps @ us @ ss" "message_bits m' = ps @ vs @ ss"
    "length us = length vs" "length us \<le> 32" "us \<noteq> vs"
  shows "CRC32_BlockChecksum m (int (length m)) \<noteq> CRC32_BlockChecksum m' (int (length m'))"
proof -
  have "crc32 m \<noteq> crc32 m'" using burst_detected [OF assms(3-5), of ps ss] by (simp add: crc32_def assms(1,2))
  moreover have "a = b" if "(ucast a :: u64) = ucast b" for a b :: "32 word"
  proof (rule bit_word_eqI)
    fix n assume "n < LENGTH(32)"
    moreover have "bit (ucast a :: u64) n = bit (ucast b :: u64) n" by (simp only: that)
    ultimately show "bit a n = bit b n" by (simp add: bit_simps)
  qed
  ultimately show ?thesis by (auto simp: block_checksum)
qed

lemma two_blocks:
  "message_bits [0x31, 0x32] = [True, False, False, False, True, True, False] @ [False, False] @
     [True, False, False, True, True, False, False]"
  "message_bits [0xb1, 0x33] = [True, False, False, False, True, True, False] @ [True, True] @
     [True, False, False, True, True, False, False]"
  by (simp_all add: message_bits_def byte_bits_def upt_conv_Cons bit_0)

theorem crc32_detects_bursts_witness:
  "CRC32_BlockChecksum [0x31, 0x32] 2 \<noteq> CRC32_BlockChecksum [0xb1, 0x33] 2"
  using crc32_detects_bursts [OF two_blocks] by simp

end
