(* ===== verification/Timing_Wheel.thy ===== *)
theory Timing_Wheel
  imports Zylib_Prelude "HOL-Library.Multiset"
begin

text \<open>
  The timer wheel \<open>zysoft/src/zysoft/timer/timing_wheel.h\<close>.  Entries are shared objects:
  the wheel, the set of immediate entries and the set of all entries hold pointers to them,
  and a timer handle is a weak pointer.  The model gives every entry an identity and keeps
  the objects in a heap; a handle locks while one of the containers still holds it.

  A slot, a \<open>multimap\<close> from ticks to entries, is its list of pairs in the map's order (by
  tick, equal ticks in order of insertion).  The \<open>unordered_set\<close> of immediate entries is a
  duplicate-free list in insertion order, one of the orders the standard allows; no
  property depends on it.  Ticks are 64-bit words.  \<open>ndebug\<close> says whether the build
  defines \<open>NDEBUG\<close>, which removes the assertions.
\<close>

section \<open>State\<close>

record 'v tw_entry =
  e_tick :: u64
  e_duration :: u64
  e_value :: 'v

type_synonym slot = "(u64 \<times> nat) list"

record 'v timing_wheel =
  wheel :: "slot list"
  immediate_entries :: "nat list"
  all_entries :: "nat list"
  current_tick :: u64
  entry_heap :: "nat \<Rightarrow> 'v tw_entry option"
  next_entry :: nat

datatype tw_fault = Assert_failed | Erase_end

definition tw_assert :: "bool \<Rightarrow> bool \<Rightarrow> tw_fault + 'a \<Rightarrow> tw_fault + 'a" where
  "tw_assert ndebug c k = (if ndebug \<or> c then k else Inl Assert_failed)"

definition new_timing_wheel :: "nat \<Rightarrow> 'v timing_wheel" where
  "new_timing_wheel N =
     \<lparr>wheel = replicate N [], immediate_entries = [], all_entries = [], current_tick = 0,
      entry_heap = Map.empty, next_entry = 0\<rparr>"

definition static_capacity :: "'v timing_wheel \<Rightarrow> nat" where
  "static_capacity tw = length (wheel tw)"

definition wheel_entries_count :: "'v timing_wheel \<Rightarrow> nat" where
  "wheel_entries_count tw = sum_list (map length (wheel tw))"

definition sizes_agree :: "'v timing_wheel \<Rightarrow> bool" where
  "sizes_agree tw \<longleftrightarrow>
     length (all_entries tw) = wheel_entries_count tw + length (immediate_entries tw)"

definition current_index :: "'v timing_wheel \<Rightarrow> nat" where
  "current_index tw = unat (current_tick tw) mod static_capacity tw"

definition slot_index :: "'v timing_wheel \<Rightarrow> u64 \<Rightarrow> nat" where
  "slot_index tw k = unat k mod static_capacity tw"

definition entry_of :: "'v timing_wheel \<Rightarrow> nat \<Rightarrow> 'v tw_entry" where
  "entry_of tw i = the (entry_heap tw i)"

section \<open>Operations\<close>

definition tick :: "'v timing_wheel \<Rightarrow> 'v timing_wheel" where
  "tick tw = tw\<lparr>current_tick := current_tick tw + 1\<rparr>"

text \<open>\<open>multimap::insert\<close> puts the pair behind those with the same key.\<close>

definition slot_insert :: "u64 \<Rightarrow> nat \<Rightarrow> slot \<Rightarrow> slot" where
  "slot_insert k i s = takeWhile (\<lambda>p. fst p \<le> k) s @ (k, i) # dropWhile (\<lambda>p. fst p \<le> k) s"

definition set_slot :: "nat \<Rightarrow> slot \<Rightarrow> 'v timing_wheel \<Rightarrow> 'v timing_wheel" where
  "set_slot j s tw = tw\<lparr>wheel := (wheel tw)[j := s]\<rparr>"

definition add :: "bool \<Rightarrow> 'v \<Rightarrow> u64 \<Rightarrow> 'v timing_wheel \<Rightarrow> tw_fault + nat \<times> 'v timing_wheel" where
  "add ndebug v duration tw =
     tw_assert ndebug (sizes_agree tw)
      (let i = next_entry tw in
       if duration = 0 then
         (let e = \<lparr>e_tick = current_tick tw, e_duration = duration, e_value = v\<rparr> in
          Inr (i, tw\<lparr>immediate_entries := immediate_entries tw @ [i],
                     all_entries := all_entries tw @ [i],
                     entry_heap := (entry_heap tw)(i \<mapsto> e), next_entry := Suc i\<rparr>))
       else
         (let new_tick = duration + current_tick tw;
              j = slot_index tw (duration + current_tick tw);
              e = \<lparr>e_tick = new_tick, e_duration = duration, e_value = v\<rparr>;
              tw' = tw\<lparr>wheel := (wheel tw)[j := slot_insert new_tick i (wheel tw ! j)],
                       all_entries := all_entries tw @ [i],
                       entry_heap := (entry_heap tw)(i \<mapsto> e), next_entry := Suc i\<rparr>
          in tw_assert ndebug (sizes_agree tw') (Inr (i, tw'))))"

text \<open>
  \<open>get_expired(t, expired)\<close>: every immediate entry, then the entries of the current slot up
  to \<open>upper_bound(t)\<close>, each erased from the containers and reported with its duration.
\<close>

definition get_expired_at ::
    "bool \<Rightarrow> u64 \<Rightarrow> 'v timing_wheel \<Rightarrow> tw_fault + ('v \<times> u64) list \<times> 'v timing_wheel" where
  "get_expired_at ndebug t tw =
     tw_assert ndebug (sizes_agree tw)
      (let report = (\<lambda>i. (e_value (entry_of tw i), e_duration (entry_of tw i)));
           imm = immediate_entries tw;
           idx = current_index tw;
           s = wheel tw ! idx;
           due = map snd (takeWhile (\<lambda>p. fst p \<le> t) s);
           tw' = tw\<lparr>immediate_entries := [],
                    all_entries := filter (\<lambda>i. i \<notin> set imm \<and> i \<notin> set due) (all_entries tw),
                    wheel := (wheel tw)[idx := dropWhile (\<lambda>p. fst p \<le> t) s]\<rparr>
       in tw_assert ndebug (sizes_agree tw') (Inr (map report (imm @ due), tw')))"

definition get_expired ::
    "bool \<Rightarrow> 'v timing_wheel \<Rightarrow> tw_fault + ('v \<times> u64) list \<times> 'v timing_wheel" where
  "get_expired ndebug tw = get_expired_at ndebug (current_tick tw) tw"

text \<open>A weak handle locks while a container holds the entry.\<close>

definition locks :: "'v timing_wheel \<Rightarrow> nat \<Rightarrow> bool" where
  "locks tw h \<longleftrightarrow> h \<in> set (immediate_entries tw) \<or> h \<in> set (all_entries tw)
     \<or> (\<exists>s \<in> set (wheel tw). h \<in> snd ` set s)"

text \<open>
  \<open>slot_remove_entry\<close>: the pair is looked up in the range of its tick and erased; erasing
  the end iterator is undefined (\<open>None\<close>).  The code returns a null pointer, here \<open>False\<close>,
  when the erased pair was the last of the slot.
\<close>

definition slot_remove_entry :: "slot \<Rightarrow> u64 \<Rightarrow> nat \<Rightarrow> (slot \<times> bool) option" where
  "slot_remove_entry s k i =
     (case dropWhile (\<lambda>p. p \<noteq> (k, i)) s of
        [] \<Rightarrow> None
      | _ # rest \<Rightarrow> Some (takeWhile (\<lambda>p. p \<noteq> (k, i)) s @ rest, rest \<noteq> []))"

definition cancel :: "bool \<Rightarrow> nat \<Rightarrow> 'v timing_wheel \<Rightarrow> tw_fault + 'v timing_wheel" where
  "cancel ndebug h tw =
     (if \<not> locks tw h then Inr tw
      else tw_assert ndebug (sizes_agree tw)
       (if h \<in> set (all_entries tw) then
          (let k = e_tick (entry_of tw h); j = slot_index tw k in
           case slot_remove_entry (wheel tw ! j) k h of
             None \<Rightarrow> Inl Erase_end
           | Some (s, ret) \<Rightarrow>
               tw_assert ndebug ret
                (let tw' = (set_slot j s tw)\<lparr>all_entries := removeAll h (all_entries tw)\<rparr>
                 in tw_assert ndebug (sizes_agree tw') (Inr tw')))
        else Inr tw))"

definition reset :: "bool \<Rightarrow> nat \<Rightarrow> 'v timing_wheel \<Rightarrow> tw_fault + 'v timing_wheel" where
  "reset ndebug h tw =
     (if \<not> locks tw h \<or> e_duration (entry_of tw h) = 0 then Inr tw
      else tw_assert ndebug (sizes_agree tw)
       (if h \<in> set (all_entries tw) then
          (let e = entry_of tw h; k = e_tick e; new_tick = e_duration e + current_tick tw in
           if k = new_tick then Inr tw
           else
             (let j = slot_index tw k in
              case slot_remove_entry (wheel tw ! j) k h of
                None \<Rightarrow> Inl Erase_end
              | Some (s, ret) \<Rightarrow>
                  tw_assert ndebug ret
                   (let tw1 = (set_slot j s tw)
                               \<lparr>entry_heap := (entry_heap tw)(h \<mapsto> e\<lparr>e_tick := new_tick\<rparr>)\<rparr>;
                        j' = slot_index tw new_tick;
                        tw' = set_slot j' (slot_insert new_tick h (wheel tw1 ! j')) tw1
                    in tw_assert ndebug (sizes_agree tw') (Inr tw'))))
        else Inr tw))"

definition clear :: "bool \<Rightarrow> 'v timing_wheel \<Rightarrow> tw_fault + 'v timing_wheel" where
  "clear ndebug tw =
     tw_assert ndebug (sizes_agree tw)
      (let tw' = tw\<lparr>wheel := map (\<lambda>_. []) (wheel tw), immediate_entries := [],
                    all_entries := [], current_tick := 0\<rparr>
       in tw_assert ndebug (sizes_agree tw') (Inr tw'))"

definition tw_size :: "bool \<Rightarrow> 'v timing_wheel \<Rightarrow> tw_fault + nat" where
  "tw_size ndebug tw = tw_assert ndebug (sizes_agree tw) (Inr (length (all_entries tw)))"

text \<open>The loop of a client that collects at every tick.\<close>

fun run_ticks :: "bool \<Rightarrow> nat \<Rightarrow> 'v timing_wheel \<Rightarrow>
    tw_fault + ('v \<times> u64) list list \<times> 'v timing_wheel" where
  "run_ticks ndebug 0 tw = Inr ([], tw)"
| "run_ticks ndebug (Suc n) tw =
     res_bind (get_expired ndebug (tick tw)) (\<lambda>(out, tw').
     res_bind (run_ticks ndebug n tw') (\<lambda>(outs, tw''). Inr (out # outs, tw'')))"

section \<open>Invariant\<close>

definition slot_ok :: "'v timing_wheel \<Rightarrow> nat \<Rightarrow> slot \<Rightarrow> bool" where
  "slot_ok tw j s \<longleftrightarrow> sorted (map fst s) \<and> distinct (map snd s) \<and>
     (\<forall>(k, i) \<in> set s. slot_index tw k = j \<and>
        (\<exists>e. entry_heap tw i = Some e \<and> e_tick e = k \<and> e_duration e \<noteq> 0))"

definition scheduled :: "'v timing_wheel \<Rightarrow> (u64 \<times> nat) set" where
  "scheduled tw = (\<Union>s \<in> set (wheel tw). set s)"

definition tw_inv :: "'v timing_wheel \<Rightarrow> bool" where
  "tw_inv tw \<longleftrightarrow> 0 < static_capacity tw
     \<and> (\<forall>j < static_capacity tw. slot_ok tw j (wheel tw ! j))
     \<and> distinct (immediate_entries tw)
     \<and> (\<forall>i \<in> set (immediate_entries tw). \<exists>e. entry_heap tw i = Some e \<and> e_duration e = 0)
     \<and> distinct (all_entries tw)
     \<and> set (all_entries tw) = set (immediate_entries tw) \<union> snd ` scheduled tw
     \<and> (\<forall>i \<in> set (all_entries tw). i < next_entry tw)"

text \<open>Every scheduled entry is still ahead: what collecting at every tick maintains.\<close>

definition on_time :: "'v timing_wheel \<Rightarrow> bool" where
  "on_time tw \<longleftrightarrow> (\<forall>(k, i) \<in> scheduled tw. current_tick tw < k)"

section \<open>Slots\<close>

lemma slot_insert_split:
  obtains xs ys where "s = xs @ ys" "slot_insert k i s = xs @ (k, i) # ys"
  using that [of "takeWhile (\<lambda>p. fst p \<le> k) s" "dropWhile (\<lambda>p. fst p \<le> k) s"]
  by (simp add: slot_insert_def)

lemma set_slot_insert: "set (slot_insert k i s) = insert (k, i) (set s)"
  by (rule slot_insert_split [of s k i]) auto

lemma length_slot_insert [simp]: "length (slot_insert k i s) = Suc (length s)"
  by (rule slot_insert_split [of s k i]) auto

lemma distinct_slot_insert:
  "distinct (map snd s) \<Longrightarrow> i \<notin> snd ` set s \<Longrightarrow> distinct (map snd (slot_insert k i s))"
  by (rule slot_insert_split [of s k i]) (auto simp: image_Un)

lemma sorted_dropWhile_le:
  assumes "sorted (map fst s)" "p \<in> set (dropWhile (\<lambda>p. fst p \<le> k) s)"
  shows "(k :: u64) < fst p"
  using assms by (induction s) (auto split: if_splits)

lemma sorted_between:
  assumes "sorted (map fst xs)" "sorted (map fst ys)"
    "\<And>p. p \<in> set xs \<Longrightarrow> fst p \<le> k" "\<And>p. p \<in> set ys \<Longrightarrow> k \<le> fst p"
  shows "sorted (map fst (xs @ (k :: 'a :: linorder, i) # ys))"
proof -
  have "fst p \<le> fst q" if "p \<in> set xs" "q \<in> set ys" for p q
    using assms(3) [OF that(1)] assms(4) [OF that(2)] by (rule order_trans)
  then show ?thesis using assms by (simp add: sorted_append ball_Un)
qed

lemma sorted_slot_insert:
  assumes "sorted (map fst s)"
  shows "sorted (map fst (slot_insert k i s))"
proof -
  let ?xs = "takeWhile (\<lambda>p. fst p \<le> k) s" and ?ys = "dropWhile (\<lambda>p. fst p \<le> k) s"
  have "sorted (map fst (?xs @ ?ys))" using assms by simp
  then have "sorted (map fst ?xs)" "sorted (map fst ?ys)"
    unfolding map_append sorted_append by simp_all
  then show ?thesis unfolding slot_insert_def
    by (rule sorted_between)
      (auto dest: set_takeWhileD sorted_dropWhile_le [OF assms] intro: less_imp_le)
qed

lemma takeWhile_sorted_due:
  assumes "sorted (map fst s)"
  shows "set (takeWhile (\<lambda>p. fst p \<le> (t :: u64)) s) = {p \<in> set s. fst p \<le> t}"
proof -
  have "set s = set (takeWhile (\<lambda>p. fst p \<le> t) s) \<union> set (dropWhile (\<lambda>p. fst p \<le> t) s)"
    by (metis set_append takeWhile_dropWhile_id)
  then show ?thesis
    using sorted_dropWhile_le [OF assms, of _ t] by (fastforce dest: set_takeWhileD)
qed

lemma dropWhile_sorted_due:
  assumes "sorted (map fst s)"
  shows "set (dropWhile (\<lambda>p. fst p \<le> (t :: u64)) s) = {p \<in> set s. t < fst p}"
proof -
  have "set s = set (takeWhile (\<lambda>p. fst p \<le> t) s) \<union> set (dropWhile (\<lambda>p. fst p \<le> t) s)"
    by (metis set_append takeWhile_dropWhile_id)
  then show ?thesis
    using sorted_dropWhile_le [OF assms, of _ t] by (fastforce dest: set_takeWhileD)
qed

lemma slot_remove_entry_cases:
  assumes "(k, i) \<in> set s"
  obtains xs ys where "s = xs @ (k, i) # ys" "(k, i) \<notin> set xs"
    "slot_remove_entry s k i = Some (xs @ ys, ys \<noteq> [])"
proof -
  obtain xs ys where s: "s = xs @ (k, i) # ys" "(k, i) \<notin> set xs"
    using assms by (meson split_list_first)
  then have "takeWhile (\<lambda>p. p \<noteq> (k, i)) s = xs" "dropWhile (\<lambda>p. p \<noteq> (k, i)) s = (k, i) # ys"
    by (auto simp: takeWhile_append dropWhile_append)
  then have "slot_remove_entry s k i = Some (xs @ ys, ys \<noteq> [])"
    by (simp add: slot_remove_entry_def)
  with s that show ?thesis by blast
qed

lemma slot_remove_entry_absent:
  assumes "(k, i) \<notin> set s"
  shows "slot_remove_entry s k i = None"
proof -
  have "dropWhile (\<lambda>p. p \<noteq> (k, i)) s = []"
    unfolding dropWhile_eq_Nil_conv using assms by metis
  then show ?thesis unfolding slot_remove_entry_def by (simp only: list.case)
qed

section \<open>Consequences of the invariant\<close>

lemma scheduled_iff: "p \<in> scheduled tw \<longleftrightarrow> (\<exists>j < static_capacity tw. p \<in> set (wheel tw ! j))"
  by (auto simp: scheduled_def static_capacity_def set_conv_nth [of "wheel tw"])

lemma tw_inv_slots:
  "tw_inv tw \<Longrightarrow> j < static_capacity tw \<Longrightarrow> slot_ok tw j (wheel tw ! j)"
  by (simp add: tw_inv_def)

lemma slot_okD:
  assumes "slot_ok tw j s" "(k, i) \<in> set s"
  shows "slot_index tw k = j" "\<exists>e. entry_heap tw i = Some e \<and> e_tick e = k \<and> e_duration e \<noteq> 0"
  using assms by (auto simp: slot_ok_def)

lemma slot_index_less: "tw_inv tw \<Longrightarrow> slot_index tw k < static_capacity tw"
  by (simp add: tw_inv_def slot_index_def)

lemma scheduled_slot:
  assumes "tw_inv tw"
  shows "(k, i) \<in> scheduled tw \<longleftrightarrow> (k, i) \<in> set (wheel tw ! slot_index tw k)"
proof
  assume "(k, i) \<in> scheduled tw"
  then obtain j where j: "j < static_capacity tw" "(k, i) \<in> set (wheel tw ! j)"
    by (auto simp: scheduled_iff)
  with slot_okD(1) [OF tw_inv_slots [OF assms j(1)] j(2)]
  show "(k, i) \<in> set (wheel tw ! slot_index tw k)" by simp
next
  assume "(k, i) \<in> set (wheel tw ! slot_index tw k)"
  then show "(k, i) \<in> scheduled tw"
    using slot_index_less [OF assms] by (auto simp: scheduled_iff)
qed

lemma scheduled_entry:
  assumes "tw_inv tw" "(k, i) \<in> scheduled tw"
  shows "\<exists>e. entry_heap tw i = Some e \<and> e_tick e = k \<and> e_duration e \<noteq> 0"
proof -
  obtain j where j: "j < static_capacity tw" "(k, i) \<in> set (wheel tw ! j)"
    using assms(2) by (auto simp: scheduled_iff)
  show ?thesis by (rule slot_okD(2) [OF tw_inv_slots [OF assms(1) j(1)] j(2)])
qed

lemma scheduled_functional:
  assumes "tw_inv tw" "(k, i) \<in> scheduled tw" "(k', i) \<in> scheduled tw"
  shows "k = k'"
  using scheduled_entry [OF assms(1,2)] scheduled_entry [OF assms(1,3)] by auto

lemma tw_inv_sets:
  assumes "tw_inv tw"
  shows "set (all_entries tw) = set (immediate_entries tw) \<union> snd ` scheduled tw"
    "distinct (all_entries tw)" "distinct (immediate_entries tw)"
    "\<And>i. i \<in> set (all_entries tw) \<Longrightarrow> i < next_entry tw"
    "\<And>i. i \<in> set (immediate_entries tw) \<Longrightarrow>
       \<exists>e. entry_heap tw i = Some e \<and> e_duration e = 0"
  using assms by (auto simp: tw_inv_def)

lemma immediate_not_scheduled:
  assumes "tw_inv tw" "i \<in> set (immediate_entries tw)"
  shows "(k, i) \<notin> scheduled tw"
  using tw_inv_sets(5) [OF assms] scheduled_entry [OF assms(1), of k i] by auto

lemma in_image_snd: "i \<in> snd ` S \<longleftrightarrow> (\<exists>k. (k, i) \<in> S)"
  by force

lemma immediate_scheduled_disjoint:
  "tw_inv tw \<Longrightarrow> set (immediate_entries tw) \<inter> snd ` scheduled tw = {}"
  using immediate_not_scheduled [of tw] by (auto simp: in_image_snd)

lemma locks_all: "tw_inv tw \<Longrightarrow> locks tw i \<longleftrightarrow> i \<in> set (all_entries tw)"
  by (auto simp: locks_def tw_inv_def scheduled_def)

lemma finite_scheduled: "finite (scheduled tw)"
  by (simp add: scheduled_def)

lemma slots_disjoint:
  assumes "tw_inv tw" "j < static_capacity tw" "j' < static_capacity tw" "j \<noteq> j'"
  shows "set (wheel tw ! j) \<inter> set (wheel tw ! j') = {}"
proof -
  have False if "p \<in> set (wheel tw ! j)" "p \<in> set (wheel tw ! j')" for p
  proof (cases p)
    case (Pair k i)
    with that slot_okD(1) [OF tw_inv_slots [OF assms(1,2)]]
      slot_okD(1) [OF tw_inv_slots [OF assms(1,3)]] assms(4)
    show ?thesis by metis
  qed
  then show ?thesis by blast
qed

lemma wheel_entries_count_card:
  assumes "tw_inv tw"
  shows "wheel_entries_count tw = card (scheduled tw)"
proof -
  let ?S = "\<lambda>j. set (wheel tw ! j)"
  have "length (wheel tw ! j) = card (?S j)" if "j < static_capacity tw" for j
    using tw_inv_slots [OF assms that]
    by (simp add: slot_ok_def distinct_card distinct_map)
  then have "wheel_entries_count tw = (\<Sum>j < static_capacity tw. card (?S j))"
    by (simp add: wheel_entries_count_def static_capacity_def sum_list_sum_nth lessThan_atLeast0)
  also have "\<dots> = card (\<Union>j \<in> {..< static_capacity tw}. ?S j)"
    by (subst card_UN_disjoint) (auto dest: slots_disjoint [OF assms])
  also have "(\<Union>j \<in> {..< static_capacity tw}. ?S j) = scheduled tw"
    by (auto simp: scheduled_iff)
  finally show ?thesis .
qed

lemma tw_inv_sizes_agree:
  assumes "tw_inv tw"
  shows "sizes_agree tw"
proof -
  have "inj_on snd (scheduled tw)"
    by (rule inj_onI) (auto dest: scheduled_functional [OF assms])
  then have "card (snd ` scheduled tw) = wheel_entries_count tw"
    by (simp add: card_image wheel_entries_count_card [OF assms])
  moreover have "set (immediate_entries tw) \<inter> snd ` scheduled tw = {}"
    by (rule immediate_scheduled_disjoint [OF assms])
  ultimately have "card (set (all_entries tw)) =
      card (set (immediate_entries tw)) + wheel_entries_count tw"
    using tw_inv_sets(1) [OF assms] by (simp add: card_Un_disjoint finite_scheduled)
  then show ?thesis
    using tw_inv_sets(2,3) [OF assms] by (simp add: sizes_agree_def distinct_card)
qed

lemma tw_assert_ok [simp]: "c \<Longrightarrow> tw_assert ndebug c k = k"
  by (simp add: tw_assert_def)

lemma tw_inv_new: "0 < N \<Longrightarrow> tw_inv (new_timing_wheel N)"
  by (auto simp: tw_inv_def new_timing_wheel_def static_capacity_def slot_ok_def
      scheduled_def in_set_replicate)

lemma tw_inv_tick: "tw_inv tw \<Longrightarrow> tw_inv (tick tw)"
  by (simp add: tw_inv_def tick_def static_capacity_def slot_ok_def scheduled_def slot_index_def)

section \<open>Replacing one slot\<close>

lemma scheduled_update:
  assumes inv: "tw_inv tw" and j: "j < static_capacity tw" and s: "wheel tw' = (wheel tw)[j := s]"
    and slot: "\<And>k i. (k, i) \<in> set s \<Longrightarrow> slot_index tw k = j"
  shows "(k, i) \<in> scheduled tw' \<longleftrightarrow>
    (if slot_index tw k = j then (k, i) \<in> set s else (k, i) \<in> scheduled tw)"
proof -
  have cap: "static_capacity tw' = static_capacity tw" by (simp add: static_capacity_def s)
  have nth: "wheel tw' ! j' = (if j' = j then s else wheel tw ! j')"
    if "j' < static_capacity tw" for j'
    using that j by (simp add: s static_capacity_def nth_list_update)
  have idx: "slot_index tw k = j'"
    if "j' < static_capacity tw" "(k, i) \<in> set (wheel tw' ! j')" for j'
  proof (cases "j' = j")
    case True
    with that(2) nth [OF that(1)] show ?thesis by (simp add: slot)
  next
    case False
    with that(2) nth [OF that(1)] have "(k, i) \<in> set (wheel tw ! j')" by simp
    then show ?thesis by (rule slot_okD(1) [OF tw_inv_slots [OF inv that(1)]])
  qed
  have "(k, i) \<in> scheduled tw' \<longleftrightarrow> (k, i) \<in> set (wheel tw' ! slot_index tw k)"
    unfolding scheduled_iff cap using idx slot_index_less [OF inv, of k] by auto
  then show ?thesis
    using nth [OF slot_index_less [OF inv, of k]] scheduled_slot [OF inv, of k i] by simp
qed

lemma tw_inv_update:
  assumes inv: "tw_inv tw" and j: "j < static_capacity tw" and s: "wheel tw' = (wheel tw)[j := s]"
    and sorted: "sorted (map fst s)" "distinct (map snd s)"
    and slot: "\<And>k i. (k, i) \<in> set s \<Longrightarrow> slot_index tw k = j"
      "\<And>k i. (k, i) \<in> set s \<Longrightarrow> \<exists>e. entry_heap tw' i = Some e \<and> e_tick e = k \<and> e_duration e \<noteq> 0"
    and heap: "\<And>k i. (k, i) \<in> scheduled tw \<Longrightarrow> slot_index tw k \<noteq> j \<Longrightarrow>
      entry_heap tw' i = entry_heap tw i"
    and imm: "distinct (immediate_entries tw')"
      "\<And>i. i \<in> set (immediate_entries tw') \<Longrightarrow> \<exists>e. entry_heap tw' i = Some e \<and> e_duration e = 0"
    and all: "distinct (all_entries tw')"
      "set (all_entries tw') = set (immediate_entries tw') \<union> snd ` scheduled tw'"
      "\<And>i. i \<in> set (all_entries tw') \<Longrightarrow> i < next_entry tw'"
  shows "tw_inv tw'"
proof -
  have cap: "static_capacity tw' = static_capacity tw" by (simp add: static_capacity_def s)
  have idx: "slot_index tw' k = slot_index tw k" for k by (simp add: slot_index_def cap)
  have "slot_ok tw' j' (wheel tw' ! j')" if j': "j' < static_capacity tw" for j'
  proof (cases "j' = j")
    case True
    then show ?thesis using j sorted slot
      by (auto simp: slot_ok_def s static_capacity_def idx)
  next
    case False
    have ok: "slot_ok tw j' (wheel tw ! j')" by (rule tw_inv_slots [OF inv j'])
    have "entry_heap tw' i = entry_heap tw i" if p: "(k, i) \<in> set (wheel tw ! j')" for k i
      using heap [of k i] p j' False slot_okD(1) [OF ok p] by (auto simp: scheduled_iff)
    then show ?thesis using ok False by (fastforce simp: slot_ok_def s idx)
  qed
  then show ?thesis
    using inv imm all unfolding tw_inv_def cap by simp
qed

section \<open>Each operation under the invariant\<close>

lemma scheduled_fresh:
  assumes "tw_inv tw"
  shows "(k, next_entry tw) \<notin> scheduled tw" "next_entry tw \<notin> set (immediate_entries tw)"
    "next_entry tw \<notin> set (all_entries tw)"
proof -
  show all: "next_entry tw \<notin> set (all_entries tw)"
    using tw_inv_sets(4) [OF assms, of "next_entry tw"] by blast
  show "(k, next_entry tw) \<notin> scheduled tw" "next_entry tw \<notin> set (immediate_entries tw)"
    using all tw_inv_sets(1) [OF assms] by force+
qed

lemma scheduled_less: "tw_inv tw \<Longrightarrow> (k, i) \<in> scheduled tw \<Longrightarrow> i < next_entry tw"
  using tw_inv_sets(1,4) [of tw] by force

lemma slot_entry_alive:
  assumes "tw_inv tw" "j < static_capacity tw" "(k, i) \<in> set (wheel tw ! j)"
  shows "(k, i) \<in> scheduled tw" "slot_index tw k = j"
    "\<exists>e. entry_heap tw i = Some e \<and> e_tick e = k \<and> e_duration e \<noteq> 0"
proof -
  show "(k, i) \<in> scheduled tw" using assms by (auto simp: scheduled_iff)
  then show "\<exists>e. entry_heap tw i = Some e \<and> e_tick e = k \<and> e_duration e \<noteq> 0"
    by (rule scheduled_entry [OF assms(1)])
  show "slot_index tw k = j" by (rule slot_okD(1) [OF tw_inv_slots [OF assms(1,2)] assms(3)])
qed

lemma slot_shape:
  assumes "tw_inv tw" "j < static_capacity tw"
  shows "sorted (map fst (wheel tw ! j))" "distinct (map snd (wheel tw ! j))"
  using tw_inv_slots [OF assms] by (simp_all add: slot_ok_def)

lemma add_immediate:
  fixes v :: 'v and tw :: "'v timing_wheel"
  assumes inv: "tw_inv tw"
  defines "e \<equiv> \<lparr>e_tick = current_tick tw, e_duration = 0, e_value = v\<rparr>"
  defines "tw' \<equiv> tw\<lparr>immediate_entries := immediate_entries tw @ [next_entry tw],
     all_entries := all_entries tw @ [next_entry tw],
     entry_heap := (entry_heap tw)(next_entry tw \<mapsto> e), next_entry := Suc (next_entry tw)\<rparr>"
  shows "add ndebug v 0 tw = Inr (next_entry tw, tw')" "tw_inv tw'"
    "scheduled tw' = scheduled tw"
proof -
  show "add ndebug v 0 tw = Inr (next_entry tw, tw')"
    by (simp add: add_def tw_inv_sizes_agree [OF inv] tw'_def e_def Let_def)
  show sch: "scheduled tw' = scheduled tw" by (simp add: tw'_def scheduled_def)
  have cap: "0 < static_capacity tw" using inv by (simp add: tw_inv_def)
  show "tw_inv tw'"
  proof (rule tw_inv_update [OF inv cap, where s = "wheel tw ! 0"])
    fix k i assume "(k, i) \<in> set (wheel tw ! 0)"
    note p = slot_entry_alive [OF inv cap this]
    show "slot_index tw k = 0" by (rule p)
    show "\<exists>e. entry_heap tw' i = Some e \<and> e_tick e = k \<and> e_duration e \<noteq> 0"
      using p(1,3) scheduled_fresh(1) [OF inv] by (auto simp: tw'_def)
  qed (use slot_shape [OF inv cap] scheduled_fresh [OF inv] tw_inv_sets [OF inv] sch in
      \<open>auto simp: tw'_def e_def less_Suc_eq dest: scheduled_less [OF inv]\<close>)
qed

lemma add_scheduled:
  fixes v :: 'v and tw :: "'v timing_wheel" and d :: u64
  assumes inv: "tw_inv tw" and d: "d \<noteq> 0"
  defines "k0 \<equiv> d + current_tick tw"
  defines "e \<equiv> \<lparr>e_tick = k0, e_duration = d, e_value = v\<rparr>"
  defines "tw' \<equiv> tw\<lparr>wheel := (wheel tw)[slot_index tw k0 :=
       slot_insert k0 (next_entry tw) (wheel tw ! slot_index tw k0)],
     all_entries := all_entries tw @ [next_entry tw],
     entry_heap := (entry_heap tw)(next_entry tw \<mapsto> e), next_entry := Suc (next_entry tw)\<rparr>"
  shows "add ndebug v d tw = Inr (next_entry tw, tw')" "tw_inv tw'"
    "scheduled tw' = insert (k0, next_entry tw) (scheduled tw)"
proof -
  let ?j = "slot_index tw k0"
  let ?s = "slot_insert k0 (next_entry tw) (wheel tw ! ?j)"
  have j: "?j < static_capacity tw" by (rule slot_index_less [OF inv])
  have w: "wheel tw' = (wheel tw)[?j := ?s]" by (simp add: tw'_def)
  have slot: "slot_index tw k = ?j" if "(k, i) \<in> set ?s" for k i
    using that slot_entry_alive(2) [OF inv j] by (auto simp: set_slot_insert)
  have "(k, i) \<in> scheduled tw' \<longleftrightarrow>
      (if slot_index tw k = ?j then (k, i) \<in> set ?s else (k, i) \<in> scheduled tw)" for k i
    by (rule scheduled_update [OF inv j w slot])
  then have "(k, i) \<in> scheduled tw' \<longleftrightarrow> (k, i) \<in> insert (k0, next_entry tw) (scheduled tw)" for k i
    using scheduled_slot [OF inv, of k i]
    by (auto simp: set_slot_insert split: if_splits)
  then show sch: "scheduled tw' = insert (k0, next_entry tw) (scheduled tw)" by auto
  have fresh: "next_entry tw \<notin> snd ` set (wheel tw ! ?j)"
    using scheduled_fresh(1) [OF inv] slot_entry_alive(1) [OF inv j] by force
  show inv': "tw_inv tw'"
  proof (rule tw_inv_update [OF inv j w])
    fix k i assume k: "(k, i) \<in> set ?s"
    show "\<exists>e. entry_heap tw' i = Some e \<and> e_tick e = k \<and> e_duration e \<noteq> 0"
    proof (cases "(k, i) \<in> set (wheel tw ! ?j)")
      case True
      from slot_entry_alive [OF inv j this] show ?thesis
        using scheduled_fresh(1) [OF inv] by (auto simp: tw'_def)
    next
      case False
      with k show ?thesis using d by (simp add: set_slot_insert tw'_def e_def)
    qed
  next
    show "set (all_entries tw') = set (immediate_entries tw') \<union> snd ` scheduled tw'"
      unfolding sch using tw_inv_sets(1) [OF inv] by (auto simp: tw'_def)
  qed (use slot slot_shape [OF inv j] scheduled_fresh [OF inv] tw_inv_sets [OF inv] fresh in
      \<open>auto simp: tw'_def e_def less_Suc_eq sorted_slot_insert distinct_slot_insert
        dest: scheduled_less [OF inv]\<close>)
  show "add ndebug v d tw = Inr (next_entry tw, tw')"
    using d tw_inv_sizes_agree [OF inv] tw_inv_sizes_agree [OF inv']
    by (simp add: add_def Let_def k0_def e_def tw'_def)
qed

definition report :: "'v timing_wheel \<Rightarrow> nat \<Rightarrow> 'v \<times> u64" where
  "report tw i = (e_value (entry_of tw i), e_duration (entry_of tw i))"

definition due_ids :: "'v timing_wheel \<Rightarrow> u64 \<Rightarrow> nat list" where
  "due_ids tw t = map snd (takeWhile (\<lambda>p. fst p \<le> t) (wheel tw ! current_index tw))"

lemma current_index_slot: "current_index tw = slot_index tw (current_tick tw)"
  by (simp add: current_index_def slot_index_def)

lemma set_due_ids:
  assumes "tw_inv tw"
  shows "set (due_ids tw t) =
    {i. \<exists>k. (k, i) \<in> scheduled tw \<and> slot_index tw k = current_index tw \<and> k \<le> t}"
proof -
  have c: "current_index tw < static_capacity tw"
    unfolding current_index_slot by (rule slot_index_less [OF assms])
  have mem: "(k, i) \<in> set (wheel tw ! current_index tw) \<longleftrightarrow>
      (k, i) \<in> scheduled tw \<and> slot_index tw k = current_index tw" for k i
    using slot_entry_alive(1,2) [OF assms c] scheduled_slot [OF assms, of k i] by auto
  have "set (due_ids tw t) = snd ` {p \<in> set (wheel tw ! current_index tw). fst p \<le> t}"
    by (simp only: due_ids_def set_map takeWhile_sorted_due [OF slot_shape(1) [OF assms c]])
  then have "i \<in> set (due_ids tw t) \<longleftrightarrow>
      (\<exists>k. (k, i) \<in> set (wheel tw ! current_index tw) \<and> k \<le> t)" for i
    by (auto simp: image_iff)
  then show ?thesis unfolding mem by blast
qed

lemma distinct_due_ids: "tw_inv tw \<Longrightarrow> distinct (due_ids tw t)"
  by (simp add: due_ids_def current_index_slot distinct_map_takeWhile slot_shape slot_index_less)

definition collected :: "u64 \<Rightarrow> 'v timing_wheel \<Rightarrow> 'v timing_wheel" where
  "collected t tw = tw\<lparr>immediate_entries := [],
     all_entries := filter (\<lambda>i. i \<notin> set (immediate_entries tw) \<and> i \<notin> set (due_ids tw t))
       (all_entries tw),
     wheel := (wheel tw)[current_index tw :=
       dropWhile (\<lambda>p. fst p \<le> t) (wheel tw ! current_index tw)]\<rparr>"

lemma get_expired_at_outcome:
  fixes tw :: "'v timing_wheel" and t :: u64
  assumes inv: "tw_inv tw"
  defines "tw' \<equiv> collected t tw"
  shows "get_expired_at ndebug t tw =
      Inr (map (report tw) (immediate_entries tw @ due_ids tw t), tw')"
    "tw_inv tw'"
    "scheduled tw' =
      {(k, i) \<in> scheduled tw. \<not> (slot_index tw k = current_index tw \<and> k \<le> t)}"
proof -
  let ?j = "current_index tw"
  let ?s = "dropWhile (\<lambda>p. fst p \<le> t) (wheel tw ! ?j)"
  have j: "?j < static_capacity tw"
    unfolding current_index_slot by (rule slot_index_less [OF inv])
  have w: "wheel tw' = (wheel tw)[?j := ?s]" by (simp add: tw'_def collected_def)
  have s: "set ?s = {p \<in> set (wheel tw ! ?j). t < fst p}"
    by (rule dropWhile_sorted_due [OF slot_shape(1) [OF inv j]])
  have slot: "slot_index tw k = ?j" if "(k, i) \<in> set ?s" for k i
    using that slot_entry_alive(2) [OF inv j] by (auto simp: s)
  have "(k, i) \<in> scheduled tw' \<longleftrightarrow>
      (if slot_index tw k = ?j then (k, i) \<in> set ?s else (k, i) \<in> scheduled tw)" for k i
    by (rule scheduled_update [OF inv j w slot])
  then have sch_iff: "(k, i) \<in> scheduled tw' \<longleftrightarrow>
      (k, i) \<in> scheduled tw \<and> \<not> (slot_index tw k = ?j \<and> k \<le> t)" for k i
    using scheduled_slot [OF inv, of k i] by (auto simp: s)
  then show sch: "scheduled tw' =
      {(k, i) \<in> scheduled tw. \<not> (slot_index tw k = ?j \<and> k \<le> t)}" by auto
  have sub: "sorted (map fst ?s) \<and> distinct (map snd ?s)"
    using slot_shape [OF inv j] by (simp add: distinct_map_dropWhile sorted_map_dropWhile)
  show inv': "tw_inv tw'"
  proof (rule tw_inv_update [OF inv j w])
    fix k i assume "(k, i) \<in> set ?s"
    then show "\<exists>e. entry_heap tw' i = Some e \<and> e_tick e = k \<and> e_duration e \<noteq> 0"
      using slot_entry_alive(3) [OF inv j] by (auto simp: s tw'_def collected_def)
  next
    have "i \<in> snd ` scheduled tw' \<longleftrightarrow> i \<in> snd ` scheduled tw \<and> i \<notin> set (due_ids tw t)" for i
    proof -
      have "(k, i) \<in> scheduled tw \<Longrightarrow> i \<in> set (due_ids tw t) \<longleftrightarrow> slot_index tw k = ?j \<and> k \<le> t" for k
        unfolding set_due_ids [OF inv] using scheduled_functional [OF inv] by blast
      then show ?thesis unfolding in_image_snd sch_iff by blast
    qed
    then have "snd ` scheduled tw' = snd ` scheduled tw - set (due_ids tw t)" by blast
    moreover have "set (all_entries tw') =
        set (all_entries tw) - set (immediate_entries tw) - set (due_ids tw t)"
      by (auto simp: tw'_def collected_def)
    ultimately show "set (all_entries tw') = set (immediate_entries tw') \<union> snd ` scheduled tw'"
      unfolding tw_inv_sets(1) [OF inv] using immediate_scheduled_disjoint [OF inv]
      by (auto simp: tw'_def collected_def)
  qed (use slot sub tw_inv_sets [OF inv] in
      \<open>auto simp: tw'_def collected_def dest: scheduled_less [OF inv]\<close>)
  show "get_expired_at ndebug t tw =
      Inr (map (report tw) (immediate_entries tw @ due_ids tw t), tw')"
    using tw_inv_sizes_agree [OF inv] tw_inv_sizes_agree [OF inv']
    unfolding get_expired_at_def by (simp add: Let_def tw'_def collected_def report_def due_ids_def)
qed

lemma clear_outcome:
  fixes tw :: "'v timing_wheel"
  assumes inv: "tw_inv tw"
  defines "tw' \<equiv> tw\<lparr>wheel := map (\<lambda>_. []) (wheel tw), immediate_entries := [],
     all_entries := [], current_tick := 0\<rparr>"
  shows "clear ndebug tw = Inr tw'" "tw_inv tw'" "scheduled tw' = {}"
proof -
  show sch: "scheduled tw' = {}" by (auto simp: scheduled_def tw'_def)
  show inv': "tw_inv tw'"
    using inv sch by (simp add: tw_inv_def tw'_def slot_ok_def static_capacity_def)
  show "clear ndebug tw = Inr tw'"
    using tw_inv_sizes_agree [OF inv] tw_inv_sizes_agree [OF inv']
    by (simp add: clear_def Let_def tw'_def)
qed

text \<open>
  Cancelling and re-arming first take the pair out of its slot; \<open>last_of_slot\<close> is the case
  in which \<open>slot_remove_entry\<close> returns a null pointer although it removed the pair.
\<close>

definition home_slot :: "'v timing_wheel \<Rightarrow> nat \<Rightarrow> slot" where
  "home_slot tw h = wheel tw ! slot_index tw (e_tick (entry_of tw h))"

definition last_of_slot :: "'v timing_wheel \<Rightarrow> nat \<Rightarrow> bool" where
  "last_of_slot tw h \<longleftrightarrow> snd (last (home_slot tw h)) = h"

lemma scheduled_home:
  assumes "tw_inv tw" "(k, h) \<in> scheduled tw"
  shows "e_tick (entry_of tw h) = k" "e_duration (entry_of tw h) \<noteq> 0"
    "(k, h) \<in> set (home_slot tw h)" "h \<in> set (all_entries tw)"
    "h \<notin> set (immediate_entries tw)"
    "slot_remove_entry (home_slot tw h) k h =
       Some (removeAll (k, h) (home_slot tw h), \<not> last_of_slot tw h)"
proof -
  obtain e where e: "entry_heap tw h = Some e" "e_tick e = k" "e_duration e \<noteq> 0"
    using scheduled_entry [OF assms] by blast
  then show k: "e_tick (entry_of tw h) = k" "e_duration (entry_of tw h) \<noteq> 0"
    by (simp_all add: entry_of_def)
  show home: "(k, h) \<in> set (home_slot tw h)"
    using assms(2) scheduled_slot [OF assms(1), of k h] by (simp add: home_slot_def k)
  show "h \<in> set (all_entries tw)" using tw_inv_sets(1) [OF assms(1)] assms(2) by force
  show "h \<notin> set (immediate_entries tw)" using immediate_not_scheduled assms by blast
  obtain xs ys where s: "home_slot tw h = xs @ (k, h) # ys" "(k, h) \<notin> set xs"
    "slot_remove_entry (home_slot tw h) k h = Some (xs @ ys, ys \<noteq> [])"
    using slot_remove_entry_cases [OF home] by blast
  have "distinct (map snd (home_slot tw h))"
    unfolding home_slot_def by (rule slot_shape(2) [OF assms(1) slot_index_less [OF assms(1)]])
  then have "h \<notin> snd ` set ys" "(k, h) \<notin> set ys" by (force simp: s(1))+
  then have "removeAll (k, h) (home_slot tw h) = xs @ ys" "last_of_slot tw h \<longleftrightarrow> ys = []"
    using s(1,2) by (auto simp: last_of_slot_def)
  with s(3) show "slot_remove_entry (home_slot tw h) k h =
      Some (removeAll (k, h) (home_slot tw h), \<not> last_of_slot tw h)" by simp
qed

lemma immediate_home:
  assumes "tw_inv tw" "h \<in> set (immediate_entries tw)"
  shows "slot_remove_entry (home_slot tw h) (e_tick (entry_of tw h)) h = None"
  using immediate_not_scheduled [OF assms] scheduled_slot [OF assms(1)]
  by (simp add: home_slot_def slot_remove_entry_absent)

lemma sorted_map_filter_removeAll: "sorted (map f s) \<Longrightarrow> sorted (map f (removeAll x s))"
  by (simp add: removeAll_filter_not_eq sorted_filter)

lemma distinct_map_removeAll: "distinct (map f s) \<Longrightarrow> distinct (map f (removeAll x s))"
  by (simp add: removeAll_filter_not_eq distinct_map_filter)

definition unscheduled :: "nat \<Rightarrow> 'v timing_wheel \<Rightarrow> 'v timing_wheel" where
  "unscheduled h tw =
     (let k = e_tick (entry_of tw h) in
      (set_slot (slot_index tw k) (removeAll (k, h) (home_slot tw h)) tw)
        \<lparr>all_entries := removeAll h (all_entries tw)\<rparr>)"

lemma unscheduled:
  assumes inv: "tw_inv tw" and h: "(k, h) \<in> scheduled tw"
  shows "tw_inv (unscheduled h tw)" "scheduled (unscheduled h tw) = scheduled tw - {(k, h)}"
proof -
  let ?tw = "unscheduled h tw" and ?j = "slot_index tw k" and ?s = "removeAll (k, h) (home_slot tw h)"
  note home = scheduled_home [OF inv h]
  have j: "?j < static_capacity tw" by (rule slot_index_less [OF inv])
  have hs: "home_slot tw h = wheel tw ! ?j" by (simp add: home_slot_def home)
  have w: "wheel ?tw = (wheel tw)[?j := ?s]"
    by (simp add: unscheduled_def Let_def home set_slot_def)
  have slot: "slot_index tw k' = ?j" if "(k', i) \<in> set ?s" for k' i
    using that slot_entry_alive(2) [OF inv j] by (auto simp: hs)
  have sch_iff: "(k', i) \<in> scheduled ?tw \<longleftrightarrow>
      (if slot_index tw k' = ?j then (k', i) \<in> set ?s else (k', i) \<in> scheduled tw)" for k' i
    by (rule scheduled_update [OF inv j w slot])
  show sch: "scheduled ?tw = scheduled tw - {(k, h)}"
    using sch_iff scheduled_slot [OF inv] by (auto simp: hs split: if_splits)
  show "tw_inv ?tw"
  proof (rule tw_inv_update [OF inv j w])
    show "sorted (map fst ?s)" "distinct (map snd ?s)"
      using slot_shape [OF inv j]
      by (simp_all add: hs sorted_map_filter_removeAll distinct_map_removeAll)
    fix k' i assume "(k', i) \<in> set ?s"
    then show "\<exists>e. entry_heap ?tw i = Some e \<and> e_tick e = k' \<and> e_duration e \<noteq> 0"
      using slot_entry_alive(3) [OF inv j]
      by (simp add: hs unscheduled_def Let_def set_slot_def)
  next
    have "snd ` (scheduled tw - {(k, h)}) = snd ` scheduled tw - {h}"
      using scheduled_functional [OF inv h] by (force simp: in_image_snd)
    then show "set (all_entries ?tw) = set (immediate_entries ?tw) \<union> snd ` scheduled ?tw"
      unfolding sch using tw_inv_sets(1) [OF inv] home(5)
      by (auto simp: unscheduled_def Let_def set_slot_def)
  qed (use slot tw_inv_sets [OF inv] in \<open>auto simp: unscheduled_def Let_def set_slot_def
        distinct_removeAll dest: scheduled_less [OF inv]\<close>)
qed

definition rearmed :: "nat \<Rightarrow> 'v timing_wheel \<Rightarrow> 'v timing_wheel" where
  "rearmed h tw =
     (let e = entry_of tw h; k = e_tick e; new_tick = e_duration e + current_tick tw;
          tw1 = (set_slot (slot_index tw k) (removeAll (k, h) (home_slot tw h)) tw)
                 \<lparr>entry_heap := (entry_heap tw)(h \<mapsto> e\<lparr>e_tick := new_tick\<rparr>)\<rparr>;
          j = slot_index tw new_tick
      in set_slot j (slot_insert new_tick h (wheel tw1 ! j)) tw1)"

lemma rearmed:
  fixes tw :: "'v timing_wheel"
  assumes inv: "tw_inv tw" and h: "(k, h) \<in> scheduled tw"
  defines "n \<equiv> e_duration (entry_of tw h) + current_tick tw"
  shows "tw_inv (rearmed h tw)"
    "scheduled (rearmed h tw) = insert (n, h) (scheduled tw - {(k, h)})"
proof -
  let ?tw = "rearmed h tw" and ?t0 = "unscheduled h tw"
  note home = scheduled_home [OF inv h]
  note inv0 = unscheduled(1) [OF inv h] and sch0 = unscheduled(2) [OF inv h]
  let ?j = "slot_index ?t0 n" and ?s = "slot_insert n h (wheel ?t0 ! slot_index ?t0 n)"
  have idx: "slot_index ?t0 x = slot_index tw x" for x
    by (simp add: slot_index_def static_capacity_def unscheduled_def Let_def set_slot_def)
  have j: "?j < static_capacity ?t0" by (rule slot_index_less [OF inv0])
  have w: "wheel ?tw = (wheel ?t0)[?j := ?s]"
    unfolding idx by (simp add: rearmed_def unscheduled_def Let_def set_slot_def n_def)
  have hp: "entry_heap ?tw = (entry_heap ?t0)(h \<mapsto> (entry_of tw h)\<lparr>e_tick := n\<rparr>)"
    by (simp add: rearmed_def unscheduled_def Let_def set_slot_def n_def)
  have same: "immediate_entries ?tw = immediate_entries tw" "all_entries ?tw = all_entries tw"
    "next_entry ?tw = next_entry tw"
    "immediate_entries ?t0 = immediate_entries tw" "entry_heap ?t0 = entry_heap tw"
    by (simp_all add: rearmed_def unscheduled_def Let_def set_slot_def)
  have gone: "(k', h) \<notin> scheduled ?t0" for k'
    using scheduled_functional [OF inv h] by (auto simp: sch0)
  then have fresh: "h \<notin> snd ` set (wheel ?t0 ! ?j)"
    using slot_entry_alive(1) [OF inv0 j] by (auto simp: in_image_snd)
  have slot: "slot_index ?t0 k' = ?j" if "(k', i) \<in> set ?s" for k' i
    using that slot_entry_alive(2) [OF inv0 j] by (auto simp: set_slot_insert)
  have "(k', i) \<in> scheduled ?tw \<longleftrightarrow>
      (if slot_index ?t0 k' = ?j then (k', i) \<in> set ?s else (k', i) \<in> scheduled ?t0)" for k' i
    by (rule scheduled_update [OF inv0 j w slot])
  then have "(k', i) \<in> scheduled ?tw \<longleftrightarrow> (k', i) \<in> insert (n, h) (scheduled ?t0)" for k' i
    using scheduled_slot [OF inv0, of k' i] by (auto simp: set_slot_insert split: if_splits)
  then show sch: "scheduled ?tw = insert (n, h) (scheduled tw - {(k, h)})" by (auto simp: sch0)
  show "tw_inv ?tw"
  proof (rule tw_inv_update [OF inv0 j w])
    show "sorted (map fst ?s)" "distinct (map snd ?s)"
      using slot_shape [OF inv0 j] fresh by (simp_all add: sorted_slot_insert distinct_slot_insert)
    fix k' i assume k': "(k', i) \<in> set ?s"
    show "\<exists>e. entry_heap ?tw i = Some e \<and> e_tick e = k' \<and> e_duration e \<noteq> 0"
    proof (cases "(k', i) \<in> set (wheel ?t0 ! ?j)")
      case True
      from slot_entry_alive [OF inv0 j this] show ?thesis using gone by (auto simp: hp)
    next
      case False
      with k' show ?thesis using home(2) by (simp add: set_slot_insert hp)
    qed
  next
    show "set (all_entries ?tw) = set (immediate_entries ?tw) \<union> snd ` scheduled ?tw"
      using tw_inv_sets(1) [OF inv] h unfolding sch same by force
    fix i assume i: "i \<in> set (immediate_entries ?tw)"
    then have "i \<noteq> h" using home(5) by (auto simp: same)
    with i show "\<exists>e. entry_heap ?tw i = Some e \<and> e_duration e = 0"
      using tw_inv_sets(5) [OF inv] by (simp add: same hp)
  qed (use slot gone tw_inv_sets [OF inv] in \<open>auto simp: same hp dest: scheduled_less [OF inv]\<close>)
qed

lemma cancel_cases:
  assumes inv: "tw_inv tw"
  shows "h \<notin> set (all_entries tw) \<Longrightarrow> cancel ndebug h tw = Inr tw"
    "h \<in> set (immediate_entries tw) \<Longrightarrow> cancel ndebug h tw = Inl Erase_end"
    "(k, h) \<in> scheduled tw \<Longrightarrow> cancel ndebug h tw =
       (if \<not> ndebug \<and> last_of_slot tw h then Inl Assert_failed else Inr (unscheduled h tw))"
proof -
  show "cancel ndebug h tw = Inr tw" if "h \<notin> set (all_entries tw)"
    using that by (simp add: cancel_def locks_all [OF inv])
  show "cancel ndebug h tw = Inl Erase_end" if imm: "h \<in> set (immediate_entries tw)"
    using immediate_home [OF inv imm] imm tw_inv_sets(1) [OF inv] tw_inv_sizes_agree [OF inv]
    by (simp add: cancel_def locks_all [OF inv] Let_def home_slot_def)
  show "cancel ndebug h tw =
      (if \<not> ndebug \<and> last_of_slot tw h then Inl Assert_failed else Inr (unscheduled h tw))"
    if h: "(k, h) \<in> scheduled tw"
    using scheduled_home [OF inv h] tw_inv_sizes_agree [OF inv]
      tw_inv_sizes_agree [OF unscheduled(1) [OF inv h]]
    by (auto simp: cancel_def locks_all [OF inv] Let_def home_slot_def unscheduled_def
        tw_assert_def)
qed

lemma reset_cases:
  assumes inv: "tw_inv tw"
  shows "h \<notin> set (all_entries tw) \<Longrightarrow> reset ndebug h tw = Inr tw"
    "h \<in> set (immediate_entries tw) \<Longrightarrow> reset ndebug h tw = Inr tw"
    "(k, h) \<in> scheduled tw \<Longrightarrow> reset ndebug h tw =
       (if k = e_duration (entry_of tw h) + current_tick tw then Inr tw
        else if \<not> ndebug \<and> last_of_slot tw h then Inl Assert_failed else Inr (rearmed h tw))"
proof -
  show "reset ndebug h tw = Inr tw" if "h \<notin> set (all_entries tw)"
    using that by (simp add: reset_def locks_all [OF inv])
  show "reset ndebug h tw = Inr tw" if imm: "h \<in> set (immediate_entries tw)"
    using tw_inv_sets(5) [OF inv imm] by (auto simp: reset_def entry_of_def)
  show "reset ndebug h tw =
      (if k = e_duration (entry_of tw h) + current_tick tw then Inr tw
       else if \<not> ndebug \<and> last_of_slot tw h then Inl Assert_failed else Inr (rearmed h tw))"
    if h: "(k, h) \<in> scheduled tw"
    using scheduled_home [OF inv h] tw_inv_sizes_agree [OF inv]
      tw_inv_sizes_agree [OF rearmed(1) [OF inv h]]
    by (auto simp: reset_def locks_all [OF inv] Let_def home_slot_def rearmed_def
        tw_assert_def)
qed

section \<open>Reachable wheels\<close>

text \<open>The public operations as the steps of a client; a fault ends the run.\<close>

datatype 'v tw_op = Add 'v u64 | Tick | Get_expired u64 | Reset nat | Cancel nat | Clear

fun tw_apply :: "bool \<Rightarrow> 'v tw_op \<Rightarrow> 'v timing_wheel \<Rightarrow> tw_fault + 'v timing_wheel" where
  "tw_apply ndebug (Add v d) tw = map_sum id snd (add ndebug v d tw)"
| "tw_apply ndebug Tick tw = Inr (tick tw)"
| "tw_apply ndebug (Get_expired t) tw = map_sum id snd (get_expired_at ndebug t tw)"
| "tw_apply ndebug (Reset h) tw = reset ndebug h tw"
| "tw_apply ndebug (Cancel h) tw = cancel ndebug h tw"
| "tw_apply ndebug Clear tw = clear ndebug tw"

inductive tw_reachable :: "bool \<Rightarrow> nat \<Rightarrow> 'v timing_wheel \<Rightarrow> bool" for ndebug N where
  start: "tw_reachable ndebug N (new_timing_wheel N)"
| step: "tw_reachable ndebug N tw \<Longrightarrow> tw_apply ndebug op tw = Inr tw' \<Longrightarrow>
    tw_reachable ndebug N tw'"

text \<open>The handles of live entries split into immediate and scheduled ones.\<close>

lemma handle_cases:
  assumes "tw_inv tw"
  obtains "h \<notin> set (all_entries tw)" | "h \<in> set (immediate_entries tw)"
  | k where "(k, h) \<in> scheduled tw"
  using tw_inv_sets(1) [OF assms] by (auto simp: in_image_snd)

lemma tw_apply_cases:
  assumes inv: "tw_inv tw"
  shows "(\<exists>tw'. tw_apply ndebug op tw = Inr tw' \<and> tw_inv tw') \<or>
    tw_apply ndebug op tw = Inl Erase_end \<and> (\<exists>h \<in> set (immediate_entries tw). op = Cancel h) \<or>
    tw_apply ndebug op tw = Inl Assert_failed \<and> \<not> ndebug \<and>
      (\<exists>h \<in> snd ` scheduled tw. last_of_slot tw h \<and> (op = Cancel h \<or> op = Reset h))"
proof (cases op)
  case (Add v d)
  then show ?thesis
    using add_immediate(1) [OF inv, where ndebug = ndebug and v = v]
      add_immediate(2) [OF inv, where v = v]
      add_scheduled(1) [OF inv, where d = d and ndebug = ndebug and v = v]
      add_scheduled(2) [OF inv, where d = d and v = v]
    by (cases "d = 0") simp_all
next
  case (Get_expired t)
  then show ?thesis using get_expired_at_outcome(1) [OF inv, where ndebug = ndebug and t = t]
      get_expired_at_outcome(2) [OF inv, where t = t] by simp
next
  case (Reset h)
  show ?thesis
  proof (cases rule: handle_cases [OF inv, of h])
    case (3 k)
    have h: "\<exists>h' \<in> snd ` scheduled tw. last_of_slot tw h' \<and> h = h'" if "last_of_slot tw h"
      using that 3 by (intro bexI [of _ h]) (auto simp: in_image_snd)
    show ?thesis
      using reset_cases(3) [OF inv 3, of ndebug] rearmed(1) [OF inv 3] inv h
      unfolding Reset tw_apply.simps by (simp split: if_splits)
  qed (use Reset reset_cases [OF inv] inv in auto)
next
  case (Cancel h)
  show ?thesis
  proof (cases rule: handle_cases [OF inv, of h])
    case (3 k)
    have h: "\<exists>h' \<in> snd ` scheduled tw. last_of_slot tw h' \<and> h = h'" if "last_of_slot tw h"
      using that 3 by (intro bexI [of _ h]) (auto simp: in_image_snd)
    show ?thesis
      using cancel_cases(3) [OF inv 3, of ndebug] unscheduled(1) [OF inv 3] h
      unfolding Cancel tw_apply.simps by (simp split: if_splits)
  qed (use Cancel cancel_cases [OF inv] inv in auto)
next
  case Clear
  then show ?thesis using clear_outcome(1,2) [OF inv] by simp
qed (use tw_inv_tick [OF inv] in simp)

lemma tw_reachable_inv:
  assumes "tw_reachable ndebug N tw" "0 < N"
  shows "tw_inv tw"
  using assms
proof induction
  case start
  then show ?case by (rule tw_inv_new)
next
  case (step tw op tw')
  then show ?case using tw_apply_cases [of tw ndebug op] by auto
qed

text \<open>The steps of the reachable wheel of a witness, one operation at a time.\<close>

lemma tw_reachable_run:
  "tw_reachable ndebug N tw \<Longrightarrow>
     fold (\<lambda>op r. res_bind r (tw_apply ndebug op)) ops (Inr tw) = Inr tw' \<Longrightarrow>
     tw_reachable ndebug N tw'"
proof (induction ops arbitrary: tw)
  case Nil
  then show ?case by simp
next
  case (Cons op ops)
  have stuck: "fold (\<lambda>op r. res_bind r (tw_apply ndebug op)) ops (Inl e) = Inl e" for e
    by (induction ops) simp_all
  show ?case
  proof (cases "tw_apply ndebug op tw")
    case (Inl e)
    with Cons.prems(2) show ?thesis by (simp add: stuck)
  next
    case (Inr tw1)
    with Cons show ?thesis by (auto intro: tw_reachable.step)
  qed
qed

text \<open>
  C6.  On every wheel a client can reach, in a debug or a release build, an operation
  returns, keeps the invariant and passes every size assertion, with two exceptions, which
  are the only faults: \<open>cancel\<close> of a live zero-duration entry erases the end iterator of a
  slot, and, in a debug build, \<open>cancel\<close> or \<open>reset\<close> of an entry that is the last of its slot
  fails the assertion on the result of \<open>slot_remove_entry\<close>.
\<close>

theorem tw_faults:
  assumes "tw_reachable ndebug N tw" "0 < N"
  shows "(\<exists>tw'. tw_apply ndebug op tw = Inr tw' \<and> tw_inv tw' \<and> sizes_agree tw') \<or>
    tw_apply ndebug op tw = Inl Erase_end \<and> (\<exists>h \<in> set (immediate_entries tw). op = Cancel h) \<or>
    tw_apply ndebug op tw = Inl Assert_failed \<and> \<not> ndebug \<and>
      (\<exists>h \<in> snd ` scheduled tw. last_of_slot tw h \<and> (op = Cancel h \<or> op = Reset h))"
  using tw_apply_cases [OF tw_reachable_inv [OF assms], of ndebug op] tw_inv_sizes_agree by blast

definition tw_sample :: "string timing_wheel" where
  "tw_sample = projr (fold (\<lambda>op r. res_bind r (tw_apply False op))
     [Add ''a'' 2, Tick, Add ''b'' 5, Add ''c'' 0] (Inr (new_timing_wheel 4)))"

lemma tw_sample_eq:
  "fold (\<lambda>op r. res_bind r (tw_apply False op))
     [Add ''a'' 2, Tick, Add ''b'' 5, Add ''c'' 0] (Inr (new_timing_wheel 4)) = Inr tw_sample"
proof -
  have "\<not> isl (fold (\<lambda>op r. res_bind r (tw_apply False op))
     [Add ''a'' 2, Tick, Add ''b'' 5, Add ''c'' 0]
     (Inr (new_timing_wheel 4) :: tw_fault + string timing_wheel))"
    by code_simp
  then show ?thesis unfolding tw_sample_def by (rule sum.collapse(2) [symmetric])
qed

lemma tw_sample_reachable: "tw_reachable False 4 tw_sample"
  by (rule tw_reachable_run [OF tw_reachable.start tw_sample_eq])

lemma tw_faults_witness:
  "tw_apply False (Cancel 2) tw_sample = Inl Erase_end \<and>
   tw_apply False (Cancel 1) tw_sample = Inl Assert_failed"
proof -
  have "isl (tw_apply False (Cancel 2) tw_sample)" "isl (tw_apply False (Cancel 1) tw_sample)"
    and "projl (tw_apply False (Cancel 2) tw_sample) = Erase_end"
    and "1 \<notin> set (immediate_entries tw_sample)"
    by code_simp+
  then show ?thesis
    using tw_faults [OF tw_sample_reachable, of "Cancel 1"]
    by (auto simp: isl_def)
qed

section \<open>The wheel as a set of deadlines\<close>

text \<open>
  What the class promises, without slots: the tick and, for every live handle, its deadline,
  duration and value.  An entry leaves when it is cancelled or collected; collecting at tick
  \<open>t\<close> takes the zero-duration entries and those that are due and share the residue of the
  current tick modulo the capacity \<open>N\<close>.
\<close>

type_synonym 'v deadlines = "u64 \<times> (nat \<Rightarrow> (u64 \<times> u64 \<times> 'v) option) \<times> nat"

definition tw_abs :: "'v timing_wheel \<Rightarrow> 'v deadlines" where
  "tw_abs tw = (current_tick tw,
     (\<lambda>i. if i \<in> set (all_entries tw)
          then map_option (\<lambda>e. (if e_duration e = 0 then 0 else e_tick e, e_duration e, e_value e))
                 (entry_heap tw i)
          else None),
     next_entry tw)"

fun deadlines_apply :: "nat \<Rightarrow> 'v tw_op \<Rightarrow> 'v deadlines \<Rightarrow> 'v deadlines" where
  "deadlines_apply N (Add v d) (now, live, n) =
     (now, live(n \<mapsto> (if d = 0 then 0 else d + now, d, v)), Suc n)"
| "deadlines_apply N Tick (now, live, n) = (now + 1, live, n)"
| "deadlines_apply N (Get_expired t) (now, live, n) =
     (now, (\<lambda>i. case live i of
         None \<Rightarrow> None
       | Some (k, d, v) \<Rightarrow>
           if d = 0 \<or> k \<le> t \<and> unat k mod N = unat now mod N then None else Some (k, d, v)), n)"
| "deadlines_apply N (Reset h) (now, live, n) =
     (now, (case live h of
         None \<Rightarrow> live
       | Some (k, d, v) \<Rightarrow> if d = 0 then live else live(h \<mapsto> (d + now, d, v))), n)"
| "deadlines_apply N (Cancel h) (now, live, n) = (now, live(h := None), n)"
| "deadlines_apply N Clear (now, live, n) = (0, Map.empty, n)"

lemma live_cases:
  assumes "tw_inv tw"
  shows "i \<in> set (immediate_entries tw) \<Longrightarrow> i \<in> set (all_entries tw) \<and>
      (\<exists>e. entry_heap tw i = Some e \<and> e_duration e = 0)"
    "(k, i) \<in> scheduled tw \<Longrightarrow> i \<in> set (all_entries tw) \<and>
      (\<exists>e. entry_heap tw i = Some e \<and> e_duration e \<noteq> 0 \<and> e_tick e = k)"
  using tw_inv_sets(1) [OF assms] tw_inv_sets(5) [OF assms, of i] scheduled_entry [OF assms, of k i]
  by (auto simp: in_image_snd)

lemma live_entry: "tw_inv tw \<Longrightarrow> i \<in> set (all_entries tw) \<Longrightarrow> \<exists>e. entry_heap tw i = Some e"
  by (cases rule: handle_cases [of tw i]) (use live_cases [of tw] in blast)+

lemma refine_collect:
  assumes inv: "tw_inv tw"
  shows "tw_abs (collected t tw) = deadlines_apply (static_capacity tw) (Get_expired t) (tw_abs tw)"
proof -
  have "(i \<in> set (immediate_entries tw) \<or> i \<in> set (due_ids tw t)) \<longleftrightarrow>
      e_duration e = 0 \<or> e_tick e \<le> t \<and>
        unat (e_tick e) mod static_capacity tw = unat (current_tick tw) mod static_capacity tw"
    if "i \<in> set (all_entries tw)" "entry_heap tw i = Some e" for i e
  proof (cases rule: handle_cases [OF inv, of i])
    case 1
    with that show ?thesis by simp
  next
    case 2
    with live_cases(1) [OF inv 2] that show ?thesis by auto
  next
    case (3 k)
    then have "e_tick e = k" "e_duration e \<noteq> 0" using live_cases(2) [OF inv 3] that by auto
    moreover have "i \<in> set (due_ids tw t) \<longleftrightarrow> slot_index tw k = current_index tw \<and> k \<le> t"
      unfolding set_due_ids [OF inv] using scheduled_functional [OF inv 3] 3 by blast
    moreover have "i \<notin> set (immediate_entries tw)" using 3 immediate_not_scheduled [OF inv] by blast
    ultimately show ?thesis by (auto simp: slot_index_def current_index_def)
  qed
  moreover have "\<exists>e. entry_heap tw i = Some e" if "i \<in> set (all_entries tw)" for i
    by (rule live_entry [OF inv that])
  ultimately show ?thesis
    by (fastforce simp: tw_abs_def collected_def fun_eq_iff split: option.splits)
qed

lemma tw_abs_live:
  assumes "tw_inv tw" "tw_abs tw = (now, live, n)"
  shows "now = current_tick tw" "n = next_entry tw"
    "h \<notin> set (all_entries tw) \<Longrightarrow> live h = None"
    "h \<in> set (immediate_entries tw) \<Longrightarrow> live h = Some (0, 0, e_value (entry_of tw h))"
    "(k, h) \<in> scheduled tw \<Longrightarrow>
       live h = Some (k, e_duration (entry_of tw h), e_value (entry_of tw h))"
  using assms(2) live_cases(1) [OF assms(1), of h] live_cases(2) [OF assms(1), of k h]
  by (auto simp: tw_abs_def entry_of_def)

lemma refine_reset:
  assumes inv: "tw_inv tw" and h: "(k, h) \<in> scheduled tw"
  shows "tw_abs (rearmed h tw) = deadlines_apply N (Reset h) (tw_abs tw)"
proof -
  obtain e where e: "entry_heap tw h = Some e" "e_duration e \<noteq> 0" "e_tick e = k"
    "h \<in> set (all_entries tw)"
    using live_cases(2) [OF inv h] by blast
  then show ?thesis
    by (auto simp: tw_abs_def rearmed_def Let_def set_slot_def entry_of_def fun_eq_iff)
qed

lemma refine_cancel:
  "tw_abs (unscheduled h tw) = deadlines_apply N (Cancel h) (tw_abs tw)"
  by (auto simp: tw_abs_def unscheduled_def Let_def set_slot_def fun_eq_iff)

lemma reset_unchanged:
  assumes inv: "tw_inv tw"
    and h: "h \<notin> set (all_entries tw) \<or> h \<in> set (immediate_entries tw) \<or>
      (k, h) \<in> scheduled tw \<and> k = e_duration (entry_of tw h) + current_tick tw"
  shows "deadlines_apply N (Reset h) (tw_abs tw) = tw_abs tw"
proof (cases "tw_abs tw")
  case (fields now live n)
  then show ?thesis using h tw_abs_live(1) [OF inv fields] tw_abs_live(3,4) [OF inv fields, of h]
      tw_abs_live(5) [OF inv fields, of k h] by (auto simp: fun_upd_idem)
qed

lemma refine_new_entry:
  assumes "set (all_entries tw') = insert (next_entry tw) (set (all_entries tw))"
    "entry_heap tw' = (entry_heap tw)(next_entry tw \<mapsto> e)" "e_duration e = d" "e_value e = v"
    "d \<noteq> 0 \<Longrightarrow> e_tick e = d + current_tick tw" "current_tick tw' = current_tick tw"
    "next_entry tw' = Suc (next_entry tw)"
  shows "tw_abs tw' = deadlines_apply N (Add v d) (tw_abs tw)"
proof -
  have "snd (snd (tw_abs tw')) = snd (snd (deadlines_apply N (Add v d) (tw_abs tw)))"
    "fst (tw_abs tw') = fst (deadlines_apply N (Add v d) (tw_abs tw))"
    using assms(6,7) by (simp_all add: tw_abs_def)
  moreover have "fst (snd (tw_abs tw')) i =
      fst (snd (deadlines_apply N (Add v d) (tw_abs tw))) i" for i
    using assms(1-5) by (cases "i = next_entry tw") (auto simp: tw_abs_def)
  ultimately show ?thesis by (simp add: prod_eq_iff fun_eq_iff)
qed

lemma refine_add:
  assumes inv: "tw_inv tw" and r: "add ndebug v d tw = Inr (h, tw')"
  shows "tw_abs tw' = deadlines_apply N (Add v d) (tw_abs tw)"
proof (cases "d = 0")
  case True
  with r add_immediate(1) [OF inv, where ndebug = ndebug and v = v] show ?thesis
    by (intro refine_new_entry) auto
next
  case False
  with r add_scheduled(1) [OF inv False, where ndebug = ndebug and v = v] show ?thesis
    by (intro refine_new_entry) auto
qed

lemma refine_apply:
  assumes inv: "tw_inv tw" and r: "tw_apply ndebug op tw = Inr tw'"
  shows "tw_abs tw' = deadlines_apply (static_capacity tw) op (tw_abs tw)"
proof (cases op)
  case (Add v d)
  then show ?thesis using r refine_add [OF inv]
    by (auto simp: map_sum_def split: sum.splits)
next
  case Tick
  then show ?thesis using r by (auto simp: tw_abs_def tick_def fun_eq_iff)
next
  case (Get_expired t)
  then show ?thesis
    using r get_expired_at_outcome(1) [OF inv, where ndebug = ndebug and t = t]
      refine_collect [OF inv, of t] by auto
next
  case (Reset h)
  show ?thesis
  proof (cases rule: handle_cases [OF inv, of h])
    case (3 k)
    then show ?thesis
      using r reset_cases(3) [OF inv 3, of ndebug] reset_unchanged [OF inv, of h k]
        refine_reset [OF inv 3]
      unfolding Reset tw_apply.simps by (simp split: if_splits)
  qed (use r Reset reset_cases(1,2) [OF inv, of h ndebug] reset_unchanged [OF inv, of h] in auto)
next
  case (Cancel h)
  show ?thesis
  proof (cases rule: handle_cases [OF inv, of h])
    case 1
    then have "tw_abs tw = deadlines_apply (static_capacity tw) (Cancel h) (tw_abs tw)"
      by (auto simp: tw_abs_def fun_eq_iff)
    then show ?thesis using 1 r cancel_cases(1) [OF inv, of h ndebug] Cancel by auto
  next
    case (3 k)
    then show ?thesis
      using r cancel_cases(3) [OF inv 3, of ndebug] refine_cancel [of h tw]
      unfolding Cancel tw_apply.simps by (simp split: if_splits)
  qed (use r Cancel cancel_cases(2) [OF inv, of h ndebug] in auto)
next
  case Clear
  then show ?thesis using r clear_outcome(1) [OF inv, where ndebug = ndebug]
    by (auto simp: tw_abs_def fun_eq_iff)
qed

lemma length_wheel_apply:
  "tw_apply ndebug op tw = Inr tw' \<Longrightarrow> static_capacity tw' = static_capacity tw"
  by (cases op)
    (auto simp: static_capacity_def tick_def add_def get_expired_at_def reset_def cancel_def
      clear_def set_slot_def tw_assert_def Let_def split: if_splits option.splits prod.splits)

lemma tw_reachable_capacity: "tw_reachable ndebug N tw \<Longrightarrow> static_capacity tw = N"
  by (induction rule: tw_reachable.induct)
    (simp_all add: length_wheel_apply, simp add: static_capacity_def new_timing_wheel_def)

text \<open>
  C5.  The wheel implements the set of deadlines: on a reachable wheel every operation that
  returns has the effect of the abstract operation, whatever the slots contain.
\<close>

theorem tw_refines_deadlines:
  assumes "tw_reachable ndebug N tw" "0 < N" "tw_apply ndebug op tw = Inr tw'"
  shows "tw_abs tw' = deadlines_apply N op (tw_abs tw)"
  using refine_apply [OF tw_reachable_inv [OF assms(1,2)] assms(3)]
    tw_reachable_capacity [OF assms(1)] by simp

lemma tw_refines_deadlines_witness:
  "fst (snd (tw_abs (projr (tw_apply False (Reset 0) tw_sample)))) 0 = Some (3, 2, ''a'')"
proof -
  have "\<not> isl (tw_apply False (Reset 0) tw_sample)" by code_simp
  then have "tw_apply False (Reset 0) tw_sample = Inr (projr (tw_apply False (Reset 0) tw_sample))"
    by (rule sum.collapse(2) [symmetric])
  moreover have "fst (tw_abs tw_sample) = 1" "fst (snd (tw_abs tw_sample)) 0 = Some (2, 2, ''a'')"
    by code_simp+
  ultimately show ?thesis
    using tw_refines_deadlines [OF tw_sample_reachable, of "Reset 0"]
    by (cases "tw_abs tw_sample") simp
qed

section \<open>Collecting at every tick\<close>

text \<open>The handles a collection at tick \<open>t\<close> has to report.\<close>

definition due_at :: "'v timing_wheel \<Rightarrow> u64 \<Rightarrow> nat set" where
  "due_at tw t = {i. (t, i) \<in> scheduled tw}"

lemma unat_word_add_nat:
  assumes "unat (w :: u64) + m < 2 ^ 64"
  shows "unat (w + of_nat m) = unat w + m"
proof -
  have "w + of_nat m = of_nat (unat w + m)" by simp
  also have "unat \<dots> = unat w + m" using assms by (simp add: unat_of_nat del: of_nat_add)
  finally show ?thesis .
qed

lemma collect_next:
  fixes tw :: "'v timing_wheel"
  assumes inv: "tw_inv tw" and time: "on_time tw" and lim: "unat (current_tick tw) + 1 < 2 ^ 64"
  obtains ids tw' where
    "get_expired ndebug (tick tw) = Inr (map (report tw) (immediate_entries tw @ ids), tw')"
    "distinct (immediate_entries tw @ ids)" "set ids = due_at tw (current_tick tw + 1)"
    "tw_inv tw'" "on_time tw'" "current_tick tw' = current_tick tw + 1"
    "entry_heap tw' = entry_heap tw" "immediate_entries tw' = []"
    "scheduled tw' = {(k, i) \<in> scheduled tw. current_tick tw + 1 < k}"
proof -
  let ?t = "current_tick tw + 1" and ?tk = "tick tw"
  have tk: "current_tick ?tk = ?t" "scheduled ?tk = scheduled tw" "report ?tk = report tw"
    "immediate_entries ?tk = immediate_entries tw" "entry_heap ?tk = entry_heap tw"
    by (simp_all add: tick_def scheduled_def report_def entry_of_def fun_eq_iff)
  have inv': "tw_inv ?tk" by (rule tw_inv_tick [OF inv])
  have ge: "?t \<le> k" if "(k, i) \<in> scheduled tw" for k i
  proof -
    have "current_tick tw < k" using time that by (auto simp: on_time_def)
    then show ?thesis by (rule inc_le)
  qed
  let ?ids = "due_ids ?tk ?t" and ?tw' = "collected ?t ?tk"
  note out = get_expired_at_outcome [OF inv', where t = ?t, unfolded tk]
  have same: "slot_index ?tk ?t = current_index ?tk"
    by (simp add: current_index_slot tk)
  have sch: "scheduled ?tw' = {(k, i) \<in> scheduled tw. ?t < k}"
    unfolding out(3) using ge same by (fastforce simp: not_less dest: order.antisym)
  have ids: "set ?ids = due_at tw ?t"
    unfolding set_due_ids [OF inv'] tk due_at_def using ge same by (fastforce dest: order.antisym)
  have cur: "current_tick ?tw' = ?t" "entry_heap ?tw' = entry_heap tw"
      "immediate_entries ?tw' = []"
    by (simp_all add: collected_def tk)
  show thesis
  proof (rule that)
    show "get_expired ndebug ?tk = Inr (map (report tw) (immediate_entries tw @ ?ids), ?tw')"
      unfolding get_expired_def tk(1) by (rule out(1))
    have "set (immediate_entries tw) \<inter> set ?ids = {}"
      unfolding ids due_at_def using immediate_not_scheduled [OF inv] by blast
    then show "distinct (immediate_entries tw @ ?ids)"
      using tw_inv_sets(3) [OF inv] distinct_due_ids [OF inv'] by simp
    show "on_time ?tw'" by (auto simp: on_time_def sch cur)
  qed (use ids out(2) cur sch in simp_all)
qed

lemma map_report_mset:
  assumes "distinct is" "set is = I"
  shows "mset (map (report tw) is) = image_mset (report tw) (mset_set I)"
  using mset_set_set [OF assms(1)] assms(2) by (simp flip: mset_map)

lemma run_ticks_quiet:
  assumes "tw_inv tw" "on_time tw" "unat (current_tick tw) + n < 2 ^ 64"
  shows "\<exists>outs tw'. run_ticks ndebug n tw = Inr (outs, tw') \<and> length outs = n
    \<and> tw_inv tw' \<and> on_time tw' \<and> current_tick tw' = current_tick tw + of_nat n
    \<and> (\<forall>m < n. mset (outs ! m) = image_mset (report tw)
        (mset_set ((if m = 0 then set (immediate_entries tw) else {})
                   \<union> due_at tw (current_tick tw + of_nat (Suc m)))))"
  using assms
proof (induction n arbitrary: tw)
  case 0
  then show ?case by simp
next
  case (Suc n)
  let ?c = "current_tick tw"
  have "unat ?c + 1 < 2 ^ 64" using Suc.prems(3) by simp
  from collect_next [OF Suc.prems(1,2) this, of ndebug] obtain ids tw1 where
    out: "get_expired ndebug (tick tw) = Inr (map (report tw) (immediate_entries tw @ ids), tw1)"
    and dist: "distinct (immediate_entries tw @ ids)" and ids: "set ids = due_at tw (?c + 1)"
    and inv: "tw_inv tw1" "on_time tw1" and cur: "current_tick tw1 = ?c + 1"
    and hp: "entry_heap tw1 = entry_heap tw" and imm: "immediate_entries tw1 = []"
    and sch: "scheduled tw1 = {(k, i) \<in> scheduled tw. ?c + 1 < k}" .
  have cur1: "unat (current_tick tw1) = Suc (unat ?c)"
    using unat_word_add_nat [of ?c 1] Suc.prems(3) by (simp add: cur)
  with Suc.prems(3) have "unat (current_tick tw1) + n < 2 ^ 64" by simp
  from Suc.IH [OF inv this] obtain outs tw' where
    run: "run_ticks ndebug n tw1 = Inr (outs, tw')" "length outs = n" "tw_inv tw'" "on_time tw'"
      "current_tick tw' = current_tick tw1 + of_nat n"
    and del: "\<And>m. m < n \<Longrightarrow> mset (outs ! m) = image_mset (report tw1)
        (mset_set ((if m = 0 then set (immediate_entries tw1) else {})
                   \<union> due_at tw1 (current_tick tw1 + of_nat (Suc m))))"
    by blast
  have rep: "report tw1 = report tw" by (simp add: report_def entry_of_def hp fun_eq_iff)
  have late: "due_at tw1 (current_tick tw1 + of_nat (Suc m)) = due_at tw (?c + of_nat (Suc (Suc m)))"
    if "m < n" for m
  proof -
    have "unat (current_tick tw1 + of_nat (Suc m)) = unat (current_tick tw1) + Suc m"
      by (rule unat_word_add_nat) (use that Suc.prems(3) cur1 in simp)
    then have "?c + 1 < current_tick tw1 + of_nat (Suc m)"
      using cur by (simp add: word_less_nat_alt)
    then show ?thesis by (auto simp: due_at_def sch cur algebra_simps)
  qed
  have "mset ((map (report tw) (immediate_entries tw @ ids) # outs) ! m) = image_mset (report tw)
      (mset_set ((if m = 0 then set (immediate_entries tw) else {})
                 \<union> due_at tw (?c + of_nat (Suc m))))" if "m < Suc n" for m
  proof (cases m)
    case 0
    then show ?thesis
      using map_report_mset [OF dist, of _ tw] ids by simp
  next
    case (Suc m')
    with that have m': "m' < n" by simp
    show ?thesis using del [OF m'] late [OF m'] by (simp add: Suc rep imm)
  qed
  then show ?case
    using out run by (auto simp: cur algebra_simps)
qed

text \<open>
  C4.  A client that collects at every tick gets every entry exactly once, at its deadline:
  from a reachable wheel whose entries all lie ahead, the \<open>m\<close>-th of the next \<open>n\<close>
  collections reports exactly the entries due at tick \<open>now + m + 1\<close>, the first one the
  zero-duration entries as well, in either build and without a fault, until the 64-bit tick
  wraps around.
\<close>

theorem tw_delivers_at_deadline:
  assumes "tw_reachable ndebug N tw" "0 < N" "on_time tw" "unat (current_tick tw) + n < 2 ^ 64"
  shows "\<exists>outs tw'. run_ticks ndebug n tw = Inr (outs, tw') \<and> length outs = n
    \<and> tw_inv tw' \<and> on_time tw' \<and> current_tick tw' = current_tick tw + of_nat n
    \<and> (\<forall>m < n. mset (outs ! m) = image_mset (report tw)
        (mset_set ((if m = 0 then set (immediate_entries tw) else {})
                   \<union> due_at tw (current_tick tw + of_nat (Suc m)))))"
  by (rule run_ticks_quiet [OF tw_reachable_inv [OF assms(1,2)] assms(3,4)])

lemma tw_delivers_at_deadline_witness:
  "\<exists>outs tw'. run_ticks False 5 tw_sample = Inr (outs, tw') \<and> mset (outs ! 4) = {#(''b'', 5)#}"
proof -
  have smp: "on_time tw_sample" "current_tick tw_sample = 1"
    "scheduled tw_sample = {(2, 0), (6, 1)}" "report tw_sample 1 = (''b'', 5)"
    by code_simp+
  then have lim: "unat (current_tick tw_sample) + 5 < 2 ^ 64" by simp
  have "mset_set (due_at tw_sample (current_tick tw_sample + of_nat 5)) = {#1#}"
    using smp by (simp add: due_at_def)
  moreover obtain outs tw' where run: "run_ticks False 5 tw_sample = Inr (outs, tw')"
    and out: "\<forall>m < 5. mset (outs ! m) = image_mset (report tw_sample)
       (mset_set ((if m = 0 then set (immediate_entries tw_sample) else {})
                  \<union> due_at tw_sample (current_tick tw_sample + of_nat (Suc m))))"
    using tw_delivers_at_deadline [OF tw_sample_reachable zero_less_numeral smp(1) lim] by blast
  ultimately have "mset (outs ! 4) = image_mset (report tw_sample) {#1#}"
    using out [rule_format, of 4] by simp
  then show ?thesis using run smp(4) by simp
qed

end
