(* ===== verification/Message_Codec.thy ===== *)
theory Message_Codec
  imports Interfaces
begin

text \<open>
  Messages on the wire, \<open>zysoft/src/network\<close>: the byte buffer of \<open>Buffer.h\<close>, messages
  (\<open>Message.h\<close>) and the default encoder and decoder (\<open>MessageDecoder.h\<close>).  A \<open>FlatBuffer\<close>
  is the list of its bytes and a message is its buffer; lengths read from outside are 64-bit
  words.  \<open>memcpy\<close> of a \<open>MessageHead\<close> is the little-endian layout of its four \<open>int32_t\<close>.
  \<open>ndebug\<close> says whether the build defines \<open>NDEBUG\<close>: \<open>NETWORK_ASSERT\<close> is \<open>assert\<close>, so its
  argument, the call of \<open>Consume\<close>, is then not evaluated.
\<close>

section \<open>FlatBuffer\<close>

type_synonym flat_buffer = "byte list"

definition fb_append :: "byte list \<Rightarrow> flat_buffer \<Rightarrow> flat_buffer" where
  "fb_append data b = (if data = [] then b else b @ data)"

definition fb_consume :: "u64 \<Rightarrow> flat_buffer \<Rightarrow> bool \<times> flat_buffer" where
  "fb_consume n b = (if length b < unat n then (False, b) else (True, drop (unat n) b))"

definition fb_resize :: "u64 \<Rightarrow> flat_buffer \<Rightarrow> flat_buffer" where
  "fb_resize n b = take (unat n) b @ replicate (unat n - length b) 0"

definition fb_clear :: "flat_buffer \<Rightarrow> flat_buffer" where
  "fb_clear b = []"

section \<open>Messages\<close>

type_synonym int32 = "32 word"

record MessageHead =
  m_body_length :: int32
  m_unknown_0 :: int32
  m_unknown_1 :: int32
  m_unknown_2 :: int32

type_synonym message = flat_buffer

abbreviation (input) HEAD_LENGTH :: nat where
  "HEAD_LENGTH \<equiv> 16"

definition le32 :: "int32 \<Rightarrow> byte list" where
  "le32 w = map (\<lambda>n. ucast (drop_bit (8 * n) w)) [0, 1, 2, 3]"

definition un_le32 :: "byte list \<Rightarrow> int32" where
  "un_le32 bs = (case bs of
      b0 # b1 # b2 # b3 # _ \<Rightarrow>
        ucast b0 OR push_bit 8 (ucast b1) OR push_bit 16 (ucast b2) OR push_bit 24 (ucast b3)
    | _ \<Rightarrow> 0)"

definition head_bytes :: "MessageHead \<Rightarrow> byte list" where
  "head_bytes h = le32 (m_body_length h) @ le32 (m_unknown_0 h) @ le32 (m_unknown_1 h)
     @ le32 (m_unknown_2 h)"

definition read_head :: "byte list \<Rightarrow> MessageHead" where
  "read_head bs = \<lparr>m_body_length = un_le32 (take 4 bs), m_unknown_0 = un_le32 (take 4 (drop 4 bs)),
     m_unknown_1 = un_le32 (take 4 (drop 8 bs)), m_unknown_2 = un_le32 (take 4 (drop 12 bs))\<rparr>"

text \<open>
  \<open>GetHead(head)\<close> copies 16 bytes over its own parameter, the 8-byte pointer \<open>head\<close>, and
  beyond it: undefined (\<open>None\<close>) whenever it gets that far.
\<close>

definition GetHead :: "message \<Rightarrow> bool option" where
  "GetHead msg = (if length msg < HEAD_LENGTH then Some False else None)"

definition BodyLength :: "message \<Rightarrow> nat" where
  "BodyLength msg = (if length msg < HEAD_LENGTH then 0 else length msg - HEAD_LENGTH)"

definition BodyPtr :: "message \<Rightarrow> byte list" where
  "BodyPtr msg = drop HEAD_LENGTH msg"

section \<open>The default encoder and decoder\<close>

definition Encode :: "byte list \<Rightarrow> message \<Rightarrow> message" where
  "Encode data out =
     (let head = \<lparr>m_body_length = of_nat (length data), m_unknown_0 = 0, m_unknown_1 = 0,
                  m_unknown_2 = 0\<rparr>
      in fb_append data (fb_append (head_bytes head) out))"

text \<open>
  The length of the frame: an \<open>int\<close> sum of the constant 16 and the length field, converted
  to \<open>size_t\<close>, which extends its sign.  (A field above \<open>INT_MAX - 16\<close> overflows; the
  model wraps around.)
\<close>

definition msg_length :: "MessageHead \<Rightarrow> u64" where
  "msg_length head = scast (16 + m_body_length head)"

definition DecodeOnce :: "bool \<Rightarrow> flat_buffer \<Rightarrow> message \<Rightarrow> (message \<times> flat_buffer) option" where
  "DecodeOnce ndebug b msg =
     (if length b < HEAD_LENGTH then None
      else
        (let n = msg_length (read_head (take HEAD_LENGTH b)) in
         if length b < unat n then None
         else Some (fb_append (take (unat n) b) msg,
                    if ndebug then b else snd (fb_consume n b))))"

text \<open>The \<open>while (1)\<close> loop of \<open>Decode\<close>: \<open>None\<close> when it does not end.\<close>

partial_function (option) Decode ::
    "bool \<Rightarrow> flat_buffer \<Rightarrow> message list \<Rightarrow> (message list \<times> flat_buffer) option" where
  "Decode ndebug b vec =
     (case DecodeOnce ndebug b [] of
        None \<Rightarrow> Some (vec, b)
      | Some (msg, b') \<Rightarrow> Decode ndebug b' (vec @ [msg]))"

declare Decode.simps [code]

section \<open>Layout of the head\<close>

lemma length_le32 [simp]: "length (le32 w) = 4"
  by (simp add: le32_def)

lemma length_head_bytes [simp]: "length (head_bytes h) = HEAD_LENGTH"
  by (simp add: head_bytes_def)

lemma un_le32_le32 [simp]: "un_le32 (le32 w @ x) = w"
proof (rule bit_word_eqI)
  fix n assume "n < LENGTH(32)"
  then show "bit (un_le32 (le32 w @ x)) n = bit w n"
    by (cases "n < 8"; cases "n < 16"; cases "n < 24")
      (auto simp: un_le32_def le32_def bit_simps not_less)
qed

lemma read_head_bytes [simp]: "read_head (head_bytes h @ x) = h"
  using un_le32_le32 [of _ "[]"] by (simp add: read_head_def head_bytes_def)

section \<open>Frames\<close>

definition frame :: "byte list \<Rightarrow> message" where
  "frame p = Encode p []"

text \<open>Payloads whose frame length the decoder computes without overflow.\<close>

definition payload_ok :: "byte list \<Rightarrow> bool" where
  "payload_ok p \<longleftrightarrow> length p < 2 ^ 31 - HEAD_LENGTH"

lemma frame_bytes:
  "frame p = head_bytes \<lparr>m_body_length = of_nat (length p), m_unknown_0 = 0, m_unknown_1 = 0,
     m_unknown_2 = 0\<rparr> @ p"
proof -
  have "head_bytes h \<noteq> []" for h by (metis length_head_bytes list.size(3) zero_neq_numeral)
  then show ?thesis by (simp add: frame_def Encode_def fb_append_def Let_def)
qed

lemma length_frame [simp]: "length (frame p) = HEAD_LENGTH + length p"
  by (simp add: frame_bytes)

lemma BodyPtr_frame [simp]: "BodyPtr (frame p) = p" "BodyLength (frame p) = length p"
  by (simp_all add: frame_bytes BodyPtr_def BodyLength_def)

lemma unat_msg_length:
  assumes "payload_ok p" "m_body_length h = of_nat (length p)"
  shows "unat (msg_length h) = HEAD_LENGTH + length p"
proof -
  have lim: "HEAD_LENGTH + length p < 2 ^ 31" using assms(1) by (simp add: payload_ok_def)
  have "16 + m_body_length h = (of_nat (HEAD_LENGTH + length p) :: int32)"
    by (simp add: assms(2))
  moreover have "sint (of_nat (HEAD_LENGTH + length p) :: int32) = int (HEAD_LENGTH + length p)"
    using lim by (simp add: sint_uint unat_of_nat signed_take_bit_int_eq_self uint_nat
        del: of_nat_add)
  ultimately have "msg_length h = word_of_int (int (HEAD_LENGTH + length p))"
    unfolding msg_length_def by (metis scast_eq)
  also have "\<dots> = of_nat (HEAD_LENGTH + length p)" by simp
  finally show ?thesis using lim by (simp add: unat_of_nat del: of_nat_add)
qed

lemma DecodeOnce_frame:
  assumes "payload_ok p"
  shows "DecodeOnce False (frame p @ x) [] = Some (frame p, x)"
proof -
  let ?h = "\<lparr>m_body_length = of_nat (length p), m_unknown_0 = 0, m_unknown_1 = 0,
     m_unknown_2 = 0\<rparr> :: MessageHead"
  have "take HEAD_LENGTH (frame p @ x) = head_bytes ?h" by (simp add: frame_bytes)
  moreover have "read_head (head_bytes ?h) = ?h" using read_head_bytes [of ?h "[]"] by simp
  moreover have "unat (msg_length ?h) = HEAD_LENGTH + length p"
    by (rule unat_msg_length [OF assms]) simp
  moreover have "frame p \<noteq> []" using length_frame [of p] by fastforce
  ultimately show ?thesis
    by (simp add: DecodeOnce_def Let_def fb_append_def fb_consume_def)
qed

lemma DecodeOnce_stable:
  assumes "DecodeOnce ndebug b [] = Some (m, r)"
  shows "DecodeOnce ndebug (b @ x) [] = Some (m, r @ x)"
  using assms
  by (auto simp: DecodeOnce_def Let_def fb_consume_def split: if_splits)

lemma DecodeOnce_incomplete:
  assumes "payload_ok p" "\<not> HEAD_LENGTH + length p \<le> length b" "b @ x = frame p @ y"
  shows "DecodeOnce False b [] = None"
proof (rule ccontr)
  assume "DecodeOnce False b [] \<noteq> None"
  then obtain m r where "DecodeOnce False b [] = Some (m, r)" by auto
  moreover from DecodeOnce_stable [OF this, of x] have "m = frame p" "r @ x = y"
    using DecodeOnce_frame [OF assms(1), of y] by (simp_all add: assms(3))
  moreover have "b \<noteq> []" using calculation(1) by (auto simp: DecodeOnce_def)
  ultimately show False using assms(2,3) by auto
qed

text \<open>The buffers of an honest stream: prefixes of a sequence of encoded payloads.\<close>

definition honest :: "flat_buffer \<Rightarrow> bool" where
  "honest b \<longleftrightarrow> (\<exists>ps x. list_all payload_ok ps \<and> b @ x = concat (map frame ps))"

lemma honest_step:
  assumes "honest b" "DecodeOnce False b [] = Some (m, r)"
  shows "length r < length b \<and> honest r"
proof -
  obtain ps x where ps: "list_all payload_ok ps" "b @ x = concat (map frame ps)"
    using assms(1) by (auto simp: honest_def)
  have "b \<noteq> []" using assms(2) by (auto simp: DecodeOnce_def)
  then obtain p qs where p: "ps = p # qs" using ps(2) by (cases ps) auto
  let ?y = "concat (map frame qs)"
  have ok: "payload_ok p" and eq: "b @ x = frame p @ ?y" using ps p by simp_all
  have len: "HEAD_LENGTH + length p \<le> length b"
    using DecodeOnce_incomplete [OF ok _ eq] assms(2) by fastforce
  define b' where "b' = drop (length (frame p)) b"
  have "take (length (frame p)) b = take (length (frame p)) (b @ x)" using len by simp
  also have "\<dots> = frame p" unfolding eq by simp
  finally have fr: "b = frame p @ b'"
    unfolding b'_def by (metis append_take_drop_id)
  with eq have b: "b = frame p @ b'" "b' @ x = ?y" by simp_all
  then have "r = b'" using DecodeOnce_frame [OF ok, of b'] assms(2) by simp
  moreover have "honest b'" unfolding honest_def using b(2) ps(1) p by auto
  ultimately show ?thesis by (simp add: b(1))
qed

interpretation md: frame_decoder "\<lambda>b. DecodeOnce ndebug b []" for ndebug
  by unfold_locales (rule DecodeOnce_stable)

interpretation hd: progressing_decoder "\<lambda>b. DecodeOnce False b []" honest
  by unfold_locales (rule honest_step)

section \<open>The decoding loop\<close>

lemma Decode_drain: "md.drain ndebug b ms r \<Longrightarrow> Decode ndebug b vec = Some (vec @ ms, r)"
proof (induction arbitrary: vec rule: md.drain.induct)
  case (stop b)
  then show ?case by (subst Decode.simps) simp
next
  case (more b m b' ms r)
  then show ?case by (subst Decode.simps) simp
qed

lemma Decode_result_drain:
  assumes "Decode ndebug b vec = Some y"
  shows "\<exists>ms. fst y = vec @ ms \<and> md.drain ndebug b ms (snd y)"
proof (rule Decode.raw_induct
    [where P = "\<lambda>nd b vec y. \<exists>ms. fst y = vec @ ms \<and> md.drain nd b ms (snd y)", OF _ assms])
  fix D ndebug b vec and y :: "message list \<times> flat_buffer"
  assume IH: "\<And>nd b vec y. D nd b vec = Some y \<Longrightarrow>
      \<exists>ms. fst y = vec @ ms \<and> md.drain nd b ms (snd y)"
    and y: "(case DecodeOnce ndebug b [] of None \<Rightarrow> Some (vec, b)
      | Some (msg, b') \<Rightarrow> D ndebug b' (vec @ [msg])) = Some y"
  show "\<exists>ms. fst y = vec @ ms \<and> md.drain ndebug b ms (snd y)"
  proof (cases "DecodeOnce ndebug b []")
    case None
    then have "md.drain ndebug b [] b" by (rule md.drain.stop)
    with None y show ?thesis by auto
  next
    case (Some p)
    obtain m b' where p: "p = (m, b')" by (cases p)
    with Some y have "D ndebug b' (vec @ [m]) = Some y" by simp
    then obtain ms where "fst y = (vec @ [m]) @ ms" "md.drain ndebug b' ms (snd y)"
      using IH by blast
    then show ?thesis using Some p by (auto intro: md.drain.more)
  qed
qed

lemma Decode_Some_drain:
  "Decode ndebug b vec = Some (v, r) \<Longrightarrow> \<exists>ms. v = vec @ ms \<and> md.drain ndebug b ms r"
  using Decode_result_drain [of ndebug b vec "(v, r)"] by simp

lemma Decode_iff: "Decode ndebug b [] = Some (ms, r) \<longleftrightarrow> md.drain ndebug b ms r"
  using Decode_drain [of ndebug b ms r "[]"] Decode_Some_drain [of ndebug b "[]" ms r] by auto

text \<open>A step that consumes nothing is repeated for ever.\<close>

lemma Decode_stuck:
  assumes "DecodeOnce ndebug b [] = Some (m, b)"
  shows "Decode ndebug b vec = None"
proof (rule ccontr)
  assume "Decode ndebug b vec \<noteq> None"
  then obtain v r where "Decode ndebug b vec = Some (v, r)" by auto
  then obtain ms where "md.drain ndebug b ms r" using Decode_Some_drain by blast
  moreover have "\<not> md.drain ndebug b' ms r" if "b' = b" for b' ms r
  proof
    assume "md.drain ndebug b' ms r"
    then show False using that
      by (induction rule: md.drain.induct) (use assms in auto)
  qed
  ultimately show False by blast
qed

section \<open>Receiving a stream\<close>

text \<open>
  One completed read of \<open>Channel::DoRead\<close>: the bytes are appended to the read buffer and
  \<open>TryDecode\<close> passes on the messages that are complete.
\<close>

definition receive ::
    "bool \<Rightarrow> byte list \<Rightarrow> flat_buffer \<times> message list \<Rightarrow> (flat_buffer \<times> message list) option" where
  "receive ndebug chunk = (\<lambda>(buf, out).
     case Decode ndebug (fb_append chunk buf) [] of
       None \<Rightarrow> None
     | Some (ms, buf') \<Rightarrow> Some (buf', out @ ms))"

fun receive_all ::
    "bool \<Rightarrow> byte list list \<Rightarrow> flat_buffer \<times> message list \<Rightarrow> (flat_buffer \<times> message list) option" where
  "receive_all ndebug [] st = Some st"
| "receive_all ndebug (c # cs) st = (case receive ndebug c st of
      None \<Rightarrow> None
    | Some st' \<Rightarrow> receive_all ndebug cs st')"

lemma fb_append_eq [simp]: "fb_append c b = b @ c"
  by (simp add: fb_append_def)

lemma honest_append_rest:
  assumes "md.drain False b ms r" "honest (b @ x)"
  shows "honest (r @ x)"
  using assms
proof (induction rule: md.drain.induct)
  case (more b m b' ms r)
  from more.prems DecodeOnce_stable [OF more.hyps(1), of x] have "honest (b' @ x)"
    using honest_step by blast
  then show ?case by (rule more.IH)
qed simp

lemma honest_prefix: "honest (b @ x) \<Longrightarrow> honest b"
  unfolding honest_def by (metis append_assoc)

lemma receive_all_drain:
  assumes "md.drain False done out buf" "honest (done @ concat cs)"
  shows "\<exists>out' buf'. receive_all False cs (buf, out) = Some (buf', out')
    \<and> md.drain False (done @ concat cs) out' buf'"
  using assms
proof (induction cs arbitrary: "done" out buf)
  case Nil
  then show ?case by simp
next
  case (Cons c cs)
  have "honest (done @ c)" using Cons.prems(2) honest_prefix [of "done @ c" "concat cs"] by simp
  then have "honest (buf @ c)" by (rule honest_append_rest [OF Cons.prems(1)])
  then obtain ms r where d: "md.drain False (buf @ c) ms r" using hd.drain_total by blast
  have "md.drain False (done @ c) (out @ ms) r" by (rule md.drain_chunks [OF Cons.prems(1) d])
  moreover have "receive False c (buf, out) = Some (r, out @ ms)"
    using d by (simp add: receive_def flip: Decode_iff)
  ultimately show ?case
    using Cons.IH [of "done @ c" "out @ ms" r] Cons.prems(2) by simp
qed

lemma drain_frames:
  "list_all payload_ok ps \<Longrightarrow> md.drain False (concat (map frame ps)) (map frame ps) []"
proof (induction ps)
  case Nil
  have "DecodeOnce False [] [] = None" by (simp add: DecodeOnce_def)
  then show ?case by (auto intro: md.drain.stop)
next
  case (Cons p ps)
  then show ?case using DecodeOnce_frame [of p "concat (map frame ps)"]
    by (auto intro: md.drain.more)
qed

text \<open>
  C13.  Delivery over a byte stream: however the network cuts the encoding of a sequence of
  payloads into reads, the loop of the debug build ends at every read and hands on exactly
  the frames of these payloads, in order, with nothing left in the buffer; the body of each
  is its payload.
\<close>

theorem stream_delivery:
  assumes "list_all payload_ok ps" "concat chunks = concat (map (\<lambda>p. Encode p []) ps)"
  shows "\<exists>out. receive_all False chunks ([], []) = Some ([], out)
    \<and> out = map (\<lambda>p. Encode p []) ps \<and> map BodyPtr out = ps \<and> map BodyLength out = map length ps"
proof -
  have fr: "(\<lambda>p. Encode p []) = frame" by (simp add: frame_def fun_eq_iff)
  have whole: "honest (concat chunks)"
    unfolding honest_def using assms by (metis append_Nil2 fr)
  have "md.drain False [] [] []" using drain_frames [of "[]"] by simp
  from receive_all_drain [OF this, of chunks] whole obtain out buf where
    out: "receive_all False chunks ([], []) = Some (buf, out)"
      "md.drain False (concat chunks) out buf" by auto
  have "md.drain False (concat chunks) (map frame ps) []"
    using drain_frames [OF assms(1)] assms(2) by (simp add: fr)
  then have "out = map frame ps" "buf = []"
    using md.drain_deterministic [OF out(2)] by blast+
  moreover have "map BodyPtr (map frame ps) = ps" "map BodyLength (map frame ps) = map length ps"
    by (simp_all add: comp_def)
  ultimately show ?thesis using out(1) by (simp add: fr)
qed

lemma stream_delivery_witness:
  "receive_all False [[3, 0, 0], [0, 0, 0, 0, 0, 0, 0, 0, 0, 0, 0, 0, 0, 97, 98],
     [99, 0, 0, 0, 0, 0, 0, 0, 0, 0, 0, 0, 0, 0, 0, 0, 0]] ([], [])
   = Some ([], [Encode [97, 98, 99] [], Encode [] []])"
proof -
  have "list_all payload_ok [[97, 98, 99], []]" by (simp add: payload_ok_def)
  moreover have "concat [[3, 0, 0], [0, 0, 0, 0, 0, 0, 0, 0, 0, 0, 0, 0, 0, 97, 98],
     [99, 0, 0, 0, 0, 0, 0, 0, 0, 0, 0, 0, 0, 0, 0, 0, 0]] =
     concat (map (\<lambda>p. Encode p []) [[97, 98, 99], [] :: byte list])"
    by code_simp
  ultimately obtain out where
    "receive_all False [[3, 0, 0], [0, 0, 0, 0, 0, 0, 0, 0, 0, 0, 0, 0, 0, 97, 98],
      [99, 0, 0, 0, 0, 0, 0, 0, 0, 0, 0, 0, 0, 0, 0, 0, 0]] ([], []) = Some ([], out)"
    "out = map (\<lambda>p. Encode p []) [[97, 98, 99], []]"
    using stream_delivery by blast
  then show ?thesis by (simp only: list.map)
qed

text \<open>
  C14.  When the decoding loop ends.  It never ends on a buffer that starts with a complete
  frame in a build with \<open>NDEBUG\<close>, where the call of \<open>Consume\<close> is compiled away with its
  assertion, nor, in any build, on a buffer that starts with a head whose length field is
  -16, which a peer can send; in the debug build it ends on every honest stream.
\<close>

theorem decode_loop_ends:
  shows "(DecodeOnce True b [] \<noteq> None \<longrightarrow> Decode True b vec = None)
    \<and> (HEAD_LENGTH \<le> length b \<longrightarrow> m_body_length (read_head (take HEAD_LENGTH b)) = - 16 \<longrightarrow>
       Decode ndebug b vec = None)
    \<and> (honest b \<longrightarrow> (\<exists>ms r. Decode False b vec = Some (vec @ ms, r) \<and> DecodeOnce False r [] = None))"
proof -
  have part1: "Decode True b vec = None" if "DecodeOnce True b [] \<noteq> None"
    by (rule Decode_stuck [where m = "fst (the (DecodeOnce True b []))"])
      (use that in \<open>auto simp: DecodeOnce_def Let_def split: if_splits\<close>)
  have part2: "Decode ndebug b vec = None"
    if "HEAD_LENGTH \<le> length b" "m_body_length (read_head (take HEAD_LENGTH b)) = - 16"
  proof -
    have "msg_length (read_head (take HEAD_LENGTH b)) = 0" by (simp add: msg_length_def that)
    then have "DecodeOnce ndebug b [] = Some ([], b)"
      using that(1) by (simp add: DecodeOnce_def fb_consume_def)
    then show ?thesis by (rule Decode_stuck)
  qed
  have part3: "\<exists>ms r. Decode False b vec = Some (vec @ ms, r) \<and> DecodeOnce False r [] = None"
    if "honest b"
    using hd.drain_total [OF that] Decode_drain md.drain_rest_incomplete by blast
  show ?thesis using part1 part2 part3 by blast
qed

lemma decode_loop_ends_witness:
  "Decode True (Encode [1] []) [] = None \<and>
   Decode False ([240, 255, 255, 255] @ replicate 12 0) [] = None \<and>
   (\<exists>ms r. Decode False [1, 0] [] = Some ([] @ ms, r) \<and> DecodeOnce False r [] = None)"
proof (intro conjI)
  have "DecodeOnce True (Encode [1] []) [] \<noteq> None" by code_simp
  then show "Decode True (Encode [1] []) [] = None"
    using decode_loop_ends [of "Encode [1] []" "[]"] by blast
  have "m_body_length (read_head (take HEAD_LENGTH ([240, 255, 255, 255] @ replicate 12 0))) = - 16"
    by code_simp
  then show "Decode False ([240, 255, 255, 255] @ replicate 12 0) [] = None"
    using decode_loop_ends [of "[240, 255, 255, 255] @ replicate 12 0" "[]" False] by simp
  have "honest [1, 0]" unfolding honest_def
    by (intro exI [of _ "[[7]]"] exI [of _ "drop 2 (frame [7])"] conjI) (simp add: payload_ok_def, code_simp)
  then show "\<exists>ms r. Decode False [1, 0] [] = Some ([] @ ms, r) \<and> DecodeOnce False r [] = None"
    using decode_loop_ends [of "[1, 0]" "[]"] by blast
qed

end
