(* ===== verification/Channel.thy ===== *)
theory Channel
  imports Message_Codec
begin

text \<open>
  A connection, \<open>zysoft/src/network/Channel.h\<close>.  All handlers of a channel run on one
  \<open>io_context\<close> thread, so a channel is a state machine whose steps are the calls of its
  client, one posted handler (in the order of posting), or the completion of one
  outstanding asynchronous operation, in any order and with any result.  The model keeps,
  beside the members of the class, what Boost.Asio keeps for it: the posted handlers, the
  outstanding operations, and which timers have expired or were cancelled.  A callback of
  the client is an event of the trace; what it calls on the channel is a later step, since
  \<open>SendMsg\<close> and \<open>Shutdown\<close> only post.  An error code is 0 when there is no error.  The
  decoder is the virtual interface, an argument of the model; \<open>None\<close> says it does not return.
\<close>

section \<open>State\<close>

datatype ECloseType = Active | Read_error | Write_error | ReadTimeout | WriteTimeout

datatype net_event =
    OnClosed ECloseType
  | OnRead nat nat
  | OnWrite nat nat message
  | OnReceivedMessage "message list"

datatype posted = Post_send message | Post_close

datatype async_op = Async_write "nat option" | Async_read "nat option" | Async_timer nat bool

record channel =
  m_read_timeout_seconds :: "32 word"
  m_write_timeout_seconds :: "32 word"
  m_socket :: bool
  m_opened :: bool
  m_write_buffer :: "message list"
  m_read_buffer :: flat_buffer
  posts :: "posted list"
  ops :: "async_op list"
  expired :: "nat list"
  cancelled :: "nat list"
  next_timer :: nat
  shut :: bool
  trace :: "net_event list"

datatype ch_fault = Not_enabled | Undefined | Diverges

definition READ_BUFFER :: nat where
  "READ_BUFFER = 1024 * 16"

definition new_channel :: "32 word \<Rightarrow> 32 word \<Rightarrow> channel" where
  "new_channel rt wt = \<lparr>m_read_timeout_seconds = rt, m_write_timeout_seconds = wt,
     m_socket = False, m_opened = False, m_write_buffer = [], m_read_buffer = [], posts = [],
     ops = [], expired = [], cancelled = [], next_timer = 0, shut = False, trace = []\<rparr>"

section \<open>Operations and handlers\<close>

definition emit :: "net_event \<Rightarrow> channel \<Rightarrow> channel" where
  "emit e ch = ch\<lparr>trace := trace ch @ [e]\<rparr>"

definition CreateTimer :: "32 word \<Rightarrow> bool \<Rightarrow> channel \<Rightarrow> nat option \<times> channel" where
  "CreateTimer seconds read ch =
     (if seconds = 0 then (None, ch)
      else (Some (next_timer ch),
            ch\<lparr>ops := ops ch @ [Async_timer (next_timer ch) read],
               next_timer := Suc (next_timer ch)\<rparr>))"

definition TimerCancel :: "nat option \<Rightarrow> channel \<Rightarrow> channel" where
  "TimerCancel timer ch = (case timer of None \<Rightarrow> ch | Some t \<Rightarrow> ch\<lparr>cancelled := cancelled ch @ [t]\<rparr>)"

definition DoClosed :: "ECloseType \<Rightarrow> channel \<Rightarrow> channel" where
  "DoClosed type ch =
     (if \<not> m_opened ch then ch else emit (OnClosed type) (ch\<lparr>m_opened := False, shut := True\<rparr>))"

definition DoWrite :: "channel \<Rightarrow> channel" where
  "DoWrite ch = (let (timer, ch') = CreateTimer (m_write_timeout_seconds ch) False ch
     in ch'\<lparr>ops := ops ch' @ [Async_write timer]\<rparr>)"

definition DoRead :: "channel \<Rightarrow> channel" where
  "DoRead ch = (let (timer, ch') = CreateTimer (m_read_timeout_seconds ch) True ch
     in ch'\<lparr>ops := ops ch' @ [Async_read timer]\<rparr>)"

definition Init :: "channel \<Rightarrow> channel" where
  "Init ch = DoRead (ch\<lparr>m_opened := True, m_socket := True\<rparr>)"

definition SendMsg :: "message \<Rightarrow> channel \<Rightarrow> channel" where
  "SendMsg msg ch = (if \<not> m_socket ch then ch else ch\<lparr>posts := posts ch @ [Post_send msg]\<rparr>)"

text \<open>The decoder, if the channel has one, is given by its \<open>Encode\<close>.\<close>

definition SendMsg_data :: "(byte list \<Rightarrow> message \<Rightarrow> message) option \<Rightarrow> byte list \<Rightarrow> channel \<Rightarrow> channel" where
  "SendMsg_data m_decoder data ch = (case m_decoder of
       None \<Rightarrow> ch
     | Some encode \<Rightarrow> SendMsg (encode data []) ch)"

definition Shutdown :: "channel \<Rightarrow> channel" where
  "Shutdown ch = (if \<not> m_socket ch then ch else ch\<lparr>posts := posts ch @ [Post_close]\<rparr>)"

fun run_post :: "posted \<Rightarrow> channel \<Rightarrow> channel" where
  "run_post (Post_send msg) ch =
     (let wait_write = m_write_buffer ch \<noteq> [];
          ch' = ch\<lparr>m_write_buffer := m_write_buffer ch @ [msg]\<rparr>
      in if \<not> wait_write then DoWrite ch' else ch')"
| "run_post Post_close ch = DoClosed Active ch"

text \<open>The handler of \<open>async_write\<close>; the front message is moved out of the queue first.\<close>

definition write_done :: "nat option \<Rightarrow> nat \<Rightarrow> nat \<Rightarrow> channel \<Rightarrow> ch_fault + channel" where
  "write_done timer ec n ch =
     (let ch1 = TimerCancel timer ch in
      case m_write_buffer ch1 of
        [] \<Rightarrow> Inl Undefined
      | msg # rest \<Rightarrow>
          if ec \<noteq> 0 then
            Inr (DoClosed Write_error
                  (emit (OnWrite ec n msg) (ch1\<lparr>m_write_buffer := [] # rest\<rparr>)))
          else
            (let ch2 = (emit (OnWrite ec n msg) ch1)\<lparr>m_write_buffer := rest\<rparr>
             in Inr (if rest \<noteq> [] then DoWrite ch2 else ch2)))"

definition TryDecode ::
    "(flat_buffer \<Rightarrow> (message list \<times> flat_buffer) option) \<Rightarrow> channel \<Rightarrow> ch_fault + channel" where
  "TryDecode dec ch = (case dec (m_read_buffer ch) of
      None \<Rightarrow> Inl Diverges
    | Some (out, rest) \<Rightarrow>
        (let ch' = ch\<lparr>m_read_buffer := rest\<rparr>
         in Inr (if out = [] then ch' else emit (OnReceivedMessage out) ch')))"

definition read_done ::
    "(flat_buffer \<Rightarrow> (message list \<times> flat_buffer) option) \<Rightarrow> nat option \<Rightarrow> nat \<Rightarrow> nat \<Rightarrow> byte list \<Rightarrow>
     channel \<Rightarrow> ch_fault + channel" where
  "read_done dec timer ec n data ch =
     (let ch1 = TimerCancel timer ch in
      if ec \<noteq> 0 then Inr (DoClosed Read_error (emit (OnRead ec n) ch1))
      else
        res_bind
          (TryDecode dec (emit (OnRead ec n)
             (ch1\<lparr>m_read_buffer := fb_append data (m_read_buffer ch1)\<rparr>)))
          (\<lambda>ch2. Inr (DoRead ch2)))"

definition timer_done :: "bool \<Rightarrow> nat \<Rightarrow> channel \<Rightarrow> channel" where
  "timer_done read ec ch =
     (if ec = 0 then DoClosed (if read then ReadTimeout else WriteTimeout) ch else ch)"

section \<open>Steps\<close>

datatype ch_label =
    Call_init
  | Call_send message
  | Call_shutdown
  | Run_post
  | Expire nat
  | Complete nat nat nat "byte list"

text \<open>
  \<open>Complete i ec n data\<close> runs the handler of the \<open>i\<close>-th outstanding operation: a read that
  succeeds got \<open>data\<close>, \<open>n\<close> bytes, at most \<open>READ_BUFFER\<close>; a timer's handler gets no error
  exactly when the timer had expired before it was cancelled.
\<close>

fun ch_apply ::
    "(flat_buffer \<Rightarrow> (message list \<times> flat_buffer) option) \<Rightarrow> ch_label \<Rightarrow> channel \<Rightarrow>
     ch_fault + channel" where
  "ch_apply dec Call_init ch = (if m_socket ch then Inl Not_enabled else Inr (Init ch))"
| "ch_apply dec (Call_send msg) ch = Inr (SendMsg msg ch)"
| "ch_apply dec Call_shutdown ch = Inr (Shutdown ch)"
| "ch_apply dec Run_post ch = (case posts ch of
      [] \<Rightarrow> Inl Not_enabled
    | p # ps \<Rightarrow> Inr (run_post p (ch\<lparr>posts := ps\<rparr>)))"
| "ch_apply dec (Expire t) ch =
     (if (Async_timer t True \<in> set (ops ch) \<or> Async_timer t False \<in> set (ops ch))
         \<and> t \<notin> set (cancelled ch) \<and> t \<notin> set (expired ch)
      then Inr (ch\<lparr>expired := expired ch @ [t]\<rparr>) else Inl Not_enabled)"
| "ch_apply dec (Complete i ec n data) ch =
     (if length (ops ch) \<le> i then Inl Not_enabled
      else
        (let ch' = ch\<lparr>ops := take i (ops ch) @ drop (Suc i) (ops ch)\<rparr> in
         case ops ch ! i of
           Async_write timer \<Rightarrow> write_done timer ec n ch'
         | Async_read timer \<Rightarrow>
             if ec = 0 \<and> (n \<noteq> length data \<or> READ_BUFFER < n) then Inl Not_enabled
             else read_done dec timer ec n data ch'
         | Async_timer t read \<Rightarrow>
             if t \<in> set (expired ch) \<and> ec = 0 \<or> t \<notin> set (expired ch) \<and> t \<in> set (cancelled ch) \<and> ec \<noteq> 0
             then Inr (timer_done read ec ch') else Inl Not_enabled))"

text \<open>
  The runs of a channel, with what the client handed to \<open>SendMsg\<close> once there was a socket
  and what the successful reads delivered.
\<close>

fun sent_by :: "ch_label \<Rightarrow> channel \<Rightarrow> message list" where
  "sent_by (Call_send msg) ch = (if m_socket ch then [msg] else [])"
| "sent_by _ ch = []"

fun read_by :: "ch_label \<Rightarrow> channel \<Rightarrow> byte list" where
  "read_by (Complete i ec n data) ch =
     (case ops ch ! i of Async_read _ \<Rightarrow> if ec = 0 then data else [] | _ \<Rightarrow> [])"
| "read_by _ ch = []"

inductive ch_run ::
    "(flat_buffer \<Rightarrow> (message list \<times> flat_buffer) option) \<Rightarrow> message list \<Rightarrow> byte list \<Rightarrow> channel \<Rightarrow> bool"
  for dec where
  start: "ch_run dec [] [] (new_channel rt wt)"
| step: "ch_run dec sent got ch \<Longrightarrow> ch_apply dec lab ch = Inr ch' \<Longrightarrow>
    ch_run dec (sent @ sent_by lab ch) (got @ read_by lab ch) ch'"

section \<open>What a run has done\<close>

definition is_write :: "async_op \<Rightarrow> bool" where
  "is_write op = (case op of Async_write _ \<Rightarrow> True | _ \<Rightarrow> False)"

definition is_read :: "async_op \<Rightarrow> bool" where
  "is_read op = (case op of Async_read _ \<Rightarrow> True | _ \<Rightarrow> False)"

definition is_closed :: "net_event \<Rightarrow> bool" where
  "is_closed e = (case e of OnClosed _ \<Rightarrow> True | _ \<Rightarrow> False)"

definition is_failure :: "net_event \<Rightarrow> bool" where
  "is_failure e = (case e of OnWrite ec _ _ \<Rightarrow> ec \<noteq> 0 | _ \<Rightarrow> False)"

definition writes :: "channel \<Rightarrow> nat" where
  "writes ch = length (filter is_write (ops ch))"

definition reads :: "channel \<Rightarrow> nat" where
  "reads ch = length (filter is_read (ops ch))"

definition closes :: "channel \<Rightarrow> nat" where
  "closes ch = length (filter is_closed (trace ch))"

definition write_failed :: "channel \<Rightarrow> bool" where
  "write_failed ch = list_ex is_failure (trace ch)"

text \<open>The messages handed to \<open>OnWrite\<close>, received, and posted but not yet queued.\<close>

definition written :: "channel \<Rightarrow> message list" where
  "written ch = concat (map (\<lambda>e. case e of OnWrite _ _ m \<Rightarrow> [m] | _ \<Rightarrow> []) (trace ch))"

definition received :: "channel \<Rightarrow> message list" where
  "received ch = concat (map (\<lambda>e. case e of OnReceivedMessage ms \<Rightarrow> ms | _ \<Rightarrow> []) (trace ch))"

definition posted_msgs :: "channel \<Rightarrow> message list" where
  "posted_msgs ch = concat (map (\<lambda>p. case p of Post_send m \<Rightarrow> [m] | Post_close \<Rightarrow> []) (posts ch))"

text \<open>The queue without the message that a failed write has moved out.\<close>

definition unsent :: "channel \<Rightarrow> message list" where
  "unsent ch = (if write_failed ch then tl (m_write_buffer ch) else m_write_buffer ch)"

named_theorems ch_view

lemmas ch_views = writes_def reads_def closes_def write_failed_def written_def received_def
  posted_msgs_def is_write_def is_read_def is_closed_def is_failure_def

lemma view_emit [ch_view]:
  "writes (emit e ch) = writes ch" "reads (emit e ch) = reads ch"
  "closes (emit e ch) = closes ch + (if is_closed e then 1 else 0)"
  "write_failed (emit e ch) \<longleftrightarrow> write_failed ch \<or> is_failure e"
  "written (emit e ch) = written ch @ (case e of OnWrite _ _ m \<Rightarrow> [m] | _ \<Rightarrow> [])"
  "received (emit e ch) = received ch @ (case e of OnReceivedMessage ms \<Rightarrow> ms | _ \<Rightarrow> [])"
  "posted_msgs (emit e ch) = posted_msgs ch"
  "m_socket (emit e ch) = m_socket ch" "m_opened (emit e ch) = m_opened ch"
  "m_write_buffer (emit e ch) = m_write_buffer ch" "m_read_buffer (emit e ch) = m_read_buffer ch"
  "posts (emit e ch) = posts ch" "shut (emit e ch) = shut ch" "ops (emit e ch) = ops ch"
  by (simp_all add: ch_views emit_def)

lemma view_DoWrite [ch_view]:
  "writes (DoWrite ch) = Suc (writes ch)" "reads (DoWrite ch) = reads ch"
  "closes (DoWrite ch) = closes ch" "write_failed (DoWrite ch) = write_failed ch"
  "written (DoWrite ch) = written ch" "received (DoWrite ch) = received ch"
  "posted_msgs (DoWrite ch) = posted_msgs ch" "m_socket (DoWrite ch) = m_socket ch"
  "m_opened (DoWrite ch) = m_opened ch" "m_write_buffer (DoWrite ch) = m_write_buffer ch"
  "m_read_buffer (DoWrite ch) = m_read_buffer ch" "posts (DoWrite ch) = posts ch"
  "shut (DoWrite ch) = shut ch" "ops (DoWrite ch) \<noteq> []"
  by (auto simp: ch_views DoWrite_def CreateTimer_def Let_def)

lemma view_DoRead [ch_view]:
  "writes (DoRead ch) = writes ch" "reads (DoRead ch) = Suc (reads ch)"
  "closes (DoRead ch) = closes ch" "write_failed (DoRead ch) = write_failed ch"
  "written (DoRead ch) = written ch" "received (DoRead ch) = received ch"
  "posted_msgs (DoRead ch) = posted_msgs ch" "m_socket (DoRead ch) = m_socket ch"
  "m_opened (DoRead ch) = m_opened ch" "m_write_buffer (DoRead ch) = m_write_buffer ch"
  "m_read_buffer (DoRead ch) = m_read_buffer ch" "posts (DoRead ch) = posts ch"
  "shut (DoRead ch) = shut ch" "ops (DoRead ch) \<noteq> []"
  by (auto simp: ch_views DoRead_def CreateTimer_def Let_def)

lemma view_TimerCancel [ch_view]:
  "writes (TimerCancel t ch) = writes ch" "reads (TimerCancel t ch) = reads ch"
  "closes (TimerCancel t ch) = closes ch" "write_failed (TimerCancel t ch) = write_failed ch"
  "written (TimerCancel t ch) = written ch" "received (TimerCancel t ch) = received ch"
  "posted_msgs (TimerCancel t ch) = posted_msgs ch" "m_socket (TimerCancel t ch) = m_socket ch"
  "m_opened (TimerCancel t ch) = m_opened ch"
  "m_write_buffer (TimerCancel t ch) = m_write_buffer ch"
  "m_read_buffer (TimerCancel t ch) = m_read_buffer ch" "posts (TimerCancel t ch) = posts ch"
  "shut (TimerCancel t ch) = shut ch" "ops (TimerCancel t ch) = ops ch"
  by (auto simp: ch_views TimerCancel_def split: option.splits)

lemma view_update [ch_view]:
  "writes (ch\<lparr>m_write_buffer := b\<rparr>) = writes ch" "reads (ch\<lparr>m_write_buffer := b\<rparr>) = reads ch"
  "closes (ch\<lparr>m_write_buffer := b\<rparr>) = closes ch"
  "write_failed (ch\<lparr>m_write_buffer := b\<rparr>) = write_failed ch"
  "written (ch\<lparr>m_write_buffer := b\<rparr>) = written ch"
  "received (ch\<lparr>m_write_buffer := b\<rparr>) = received ch"
  "posted_msgs (ch\<lparr>m_write_buffer := b\<rparr>) = posted_msgs ch"
  "writes (ch\<lparr>m_read_buffer := r\<rparr>) = writes ch" "reads (ch\<lparr>m_read_buffer := r\<rparr>) = reads ch"
  "closes (ch\<lparr>m_read_buffer := r\<rparr>) = closes ch"
  "write_failed (ch\<lparr>m_read_buffer := r\<rparr>) = write_failed ch"
  "written (ch\<lparr>m_read_buffer := r\<rparr>) = written ch"
  "received (ch\<lparr>m_read_buffer := r\<rparr>) = received ch"
  "posted_msgs (ch\<lparr>m_read_buffer := r\<rparr>) = posted_msgs ch"
  by (simp_all add: ch_views)

lemma view_DoClosed [ch_view]:
  "writes (DoClosed c ch) = writes ch" "reads (DoClosed c ch) = reads ch"
  "closes (DoClosed c ch) = closes ch + (if m_opened ch then 1 else 0)"
  "write_failed (DoClosed c ch) = write_failed ch"
  "written (DoClosed c ch) = written ch" "received (DoClosed c ch) = received ch"
  "posted_msgs (DoClosed c ch) = posted_msgs ch" "m_socket (DoClosed c ch) = m_socket ch"
  "m_opened (DoClosed c ch) = False" "m_write_buffer (DoClosed c ch) = m_write_buffer ch"
  "m_read_buffer (DoClosed c ch) = m_read_buffer ch" "posts (DoClosed c ch) = posts ch"
  "shut (DoClosed c ch) = (shut ch \<or> m_opened ch)" "ops (DoClosed c ch) = ops ch"
  by (simp_all add: ch_views DoClosed_def emit_def)

section \<open>Invariant\<close>

text \<open>
  At most one write and one read are outstanding, a write exactly while messages are queued
  and none has failed; \<open>OnClosed\<close> is called exactly when an open channel closes; and every
  message accepted is, in order, handed to \<open>OnWrite\<close>, queued or posted.
\<close>

definition ch_inv :: "message list \<Rightarrow> channel \<Rightarrow> bool" where
  "ch_inv sent ch \<longleftrightarrow>
     writes ch = (if write_failed ch \<or> m_write_buffer ch = [] then 0 else 1)
   \<and> (write_failed ch \<longrightarrow> m_write_buffer ch \<noteq> [])
   \<and> reads ch \<le> 1
   \<and> closes ch = (if m_socket ch \<and> \<not> m_opened ch then 1 else 0)
   \<and> (m_opened ch \<longrightarrow> m_socket ch) \<and> shut ch = (m_socket ch \<and> \<not> m_opened ch)
   \<and> (\<not> m_socket ch \<longrightarrow> ops ch = [] \<and> posts ch = [] \<and> m_write_buffer ch = [])
   \<and> written ch @ unsent ch @ posted_msgs ch = sent"

lemma ch_inv_new: "ch_inv [] (new_channel rt wt)"
  by (simp add: ch_inv_def unsent_def new_channel_def ch_views)

text \<open>Taking one operation out of the outstanding ones.\<close>

lemma length_filter_remove_nth:
  "i < length xs \<Longrightarrow> length (filter P xs) =
     length (filter P (take i xs @ drop (Suc i) xs)) + (if P (xs ! i) then 1 else 0)"
  by (subst id_take_nth_drop [of i xs], assumption) simp

lemma view_remove:
  assumes "i < length (ops ch)"
  shows "writes ch = writes (ch\<lparr>ops := take i (ops ch) @ drop (Suc i) (ops ch)\<rparr>)
      + (if is_write (ops ch ! i) then 1 else 0)"
    "reads ch = reads (ch\<lparr>ops := take i (ops ch) @ drop (Suc i) (ops ch)\<rparr>)
      + (if is_read (ops ch ! i) then 1 else 0)"
  using length_filter_remove_nth [OF assms] by (simp_all add: writes_def reads_def)

lemma view_ops [ch_view]:
  "closes (ch\<lparr>ops := x\<rparr>) = closes ch" "write_failed (ch\<lparr>ops := x\<rparr>) = write_failed ch"
  "written (ch\<lparr>ops := x\<rparr>) = written ch" "received (ch\<lparr>ops := x\<rparr>) = received ch"
  "posted_msgs (ch\<lparr>ops := x\<rparr>) = posted_msgs ch"
  by (simp_all add: ch_views)

lemma view_flags [ch_view]:
  "writes (ch\<lparr>m_opened := o', m_socket := sk\<rparr>) = writes ch"
  "reads (ch\<lparr>m_opened := o', m_socket := sk\<rparr>) = reads ch"
  "closes (ch\<lparr>m_opened := o', m_socket := sk\<rparr>) = closes ch"
  "write_failed (ch\<lparr>m_opened := o', m_socket := sk\<rparr>) = write_failed ch"
  "written (ch\<lparr>m_opened := o', m_socket := sk\<rparr>) = written ch"
  "received (ch\<lparr>m_opened := o', m_socket := sk\<rparr>) = received ch"
  "posted_msgs (ch\<lparr>m_opened := o', m_socket := sk\<rparr>) = posted_msgs ch"
  "writes (ch\<lparr>expired := ex\<rparr>) = writes ch" "reads (ch\<lparr>expired := ex\<rparr>) = reads ch"
  "closes (ch\<lparr>expired := ex\<rparr>) = closes ch"
  "write_failed (ch\<lparr>expired := ex\<rparr>) = write_failed ch"
  "written (ch\<lparr>expired := ex\<rparr>) = written ch" "received (ch\<lparr>expired := ex\<rparr>) = received ch"
  "posted_msgs (ch\<lparr>expired := ex\<rparr>) = posted_msgs ch"
  by (simp_all add: ch_views)

lemma view_posts [ch_view]:
  "writes (ch\<lparr>posts := p\<rparr>) = writes ch" "reads (ch\<lparr>posts := p\<rparr>) = reads ch"
  "closes (ch\<lparr>posts := p\<rparr>) = closes ch" "write_failed (ch\<lparr>posts := p\<rparr>) = write_failed ch"
  "written (ch\<lparr>posts := p\<rparr>) = written ch" "received (ch\<lparr>posts := p\<rparr>) = received ch"
  by (simp_all add: ch_views)

lemma posted_msgs_simps [ch_view]:
  "posted_msgs (ch\<lparr>posts := []\<rparr>) = []"
  "posted_msgs (ch\<lparr>posts := Post_send m # ps\<rparr>) = m # posted_msgs (ch\<lparr>posts := ps\<rparr>)"
  "posted_msgs (ch\<lparr>posts := Post_close # ps\<rparr>) = posted_msgs (ch\<lparr>posts := ps\<rparr>)"
  "posted_msgs (ch\<lparr>posts := ps @ [Post_send m]\<rparr>) = posted_msgs (ch\<lparr>posts := ps\<rparr>) @ [m]"
  "posted_msgs (ch\<lparr>posts := ps @ [Post_close]\<rparr>) = posted_msgs (ch\<lparr>posts := ps\<rparr>)"
  "posted_msgs (ch\<lparr>posts := posts ch\<rparr>) = posted_msgs ch"
  by (simp_all add: posted_msgs_def)

lemma no_ops: "ops ch = [] \<Longrightarrow> reads ch = 0"
  by (simp add: reads_def)

lemma Init_inv: "ch_inv sent ch \<Longrightarrow> \<not> m_socket ch \<Longrightarrow> ch_inv sent (Init ch)"
  using no_ops [of ch] by (auto simp: ch_inv_def unsent_def Init_def ch_view)

lemma SendMsg_inv:
  "ch_inv sent ch \<Longrightarrow> ch_inv (sent @ (if m_socket ch then [m] else [])) (SendMsg m ch)"
  by (auto simp: ch_inv_def unsent_def SendMsg_def ch_view)

lemma Shutdown_inv: "ch_inv sent ch \<Longrightarrow> ch_inv sent (Shutdown ch)"
  by (auto simp: ch_inv_def unsent_def Shutdown_def ch_view)

lemma posted_msgs_Cons:
  "posts ch = p # ps \<Longrightarrow> posted_msgs ch =
     (case p of Post_send m \<Rightarrow> [m] | Post_close \<Rightarrow> []) @ posted_msgs (ch\<lparr>posts := ps\<rparr>)"
  by (simp add: posted_msgs_def)

lemma run_post_inv:
  assumes inv: "ch_inv sent ch" and p: "posts ch = p # ps"
  shows "ch_inv sent (run_post p (ch\<lparr>posts := ps\<rparr>))"
proof (cases p)
  case (Post_send m)
  with inv p posted_msgs_Cons [OF p] show ?thesis
    by (auto simp: ch_inv_def unsent_def ch_view Let_def tl_append split: list.splits)
next
  case Post_close
  with inv p posted_msgs_Cons [OF p] show ?thesis
    by (auto simp: ch_inv_def unsent_def ch_view)
qed

lemma write_done_inv:
  assumes inv: "ch_inv sent ch" and i: "i < length (ops ch)" "ops ch ! i = Async_write timer"
    and r: "write_done timer ec n (ch\<lparr>ops := take i (ops ch) @ drop (Suc i) (ops ch)\<rparr>) = Inr ch'"
  shows "ch_inv sent ch'"
proof -
  let ?c = "ch\<lparr>ops := take i (ops ch) @ drop (Suc i) (ops ch)\<rparr>"
  have w: "writes ch = Suc (writes ?c)" "reads ch = reads ?c"
    using view_remove [OF i(1)] by (simp_all add: i(2) is_write_def is_read_def)
  with inv have c: "writes ?c = 0" "\<not> write_failed ch" "m_write_buffer ch \<noteq> []" "m_socket ch"
    by (auto simp: ch_inv_def split: if_splits)
  then obtain m rest where b: "m_write_buffer ch = m # rest" by (cases "m_write_buffer ch") auto
  have sent: "sent = written ch @ m # rest @ posted_msgs ch"
    using inv c b by (simp add: ch_inv_def unsent_def)
  have c1: "m_write_buffer (TimerCancel timer ?c) = m # rest" by (simp add: ch_view b)
  show ?thesis
  proof (cases "ec = 0")
    case True
    let ?c2 = "emit (OnWrite ec n m) (TimerCancel timer ?c)\<lparr>m_write_buffer := rest\<rparr>"
    have "ch' = (if rest \<noteq> [] then DoWrite ?c2 else ?c2)"
      using r True unfolding write_done_def Let_def c1 by simp
    then show ?thesis
      using inv w c unfolding ch_inv_def unsent_def sent
      by (cases "rest = []") (simp_all add: ch_view is_closed_def is_failure_def True)
  next
    case False
    have "ch' = DoClosed Write_error (emit (OnWrite ec n m)
        (TimerCancel timer ?c\<lparr>m_write_buffer := [] # rest\<rparr>))"
      using r False unfolding write_done_def Let_def c1 by simp
    then show ?thesis
      using inv w c unfolding ch_inv_def unsent_def sent
      by (cases "m_opened ch") (simp_all add: ch_view is_closed_def is_failure_def False)
  qed
qed

lemma read_done_inv:
  assumes inv: "ch_inv sent ch" and i: "i < length (ops ch)" "ops ch ! i = Async_read timer"
    and r: "read_done dec timer ec n data (ch\<lparr>ops := take i (ops ch) @ drop (Suc i) (ops ch)\<rparr>) = Inr ch'"
  shows "ch_inv sent ch'"
proof -
  let ?c = "ch\<lparr>ops := take i (ops ch) @ drop (Suc i) (ops ch)\<rparr>"
  have w: "writes ch = writes ?c" "reads ch = Suc (reads ?c)"
    using view_remove [OF i(1)] by (simp_all add: i(2) is_write_def is_read_def)
  have "m_socket ch" using inv i(1) by (auto simp: ch_inv_def)
  moreover have "reads ?c = 0" using inv w by (simp add: ch_inv_def)
  ultimately have c: "reads ?c = 0" "m_socket ch" by simp_all
  show ?thesis
  proof (cases "ec = 0")
    case True
    let ?c1 = "TimerCancel timer ?c"
    let ?c2 = "emit (OnRead ec n) (?c1\<lparr>m_read_buffer := fb_append data (m_read_buffer ?c1)\<rparr>)"
    have dec: "res_bind (TryDecode dec ?c2) (\<lambda>c. Inr (DoRead c)) = Inr ch'"
      using r True unfolding read_done_def Let_def by (simp only: if_False simp_thms)
    then obtain c3 where c3: "TryDecode dec ?c2 = Inr c3" "ch' = DoRead c3"
      by (auto simp only: res_bind_eq_Inr sum.inject)
    then obtain out rest where "c3 = (if out = [] then ?c2\<lparr>m_read_buffer := rest\<rparr>
        else emit (OnReceivedMessage out) (?c2\<lparr>m_read_buffer := rest\<rparr>))"
      unfolding TryDecode_def Let_def by (cases "dec (m_read_buffer ?c2)") (auto simp only: option.case
          prod.case sum.distinct sum.inject split: prod.splits)
    then have "ch' = DoRead (if out = [] then ?c2\<lparr>m_read_buffer := rest\<rparr>
        else emit (OnReceivedMessage out) (?c2\<lparr>m_read_buffer := rest\<rparr>))" using c3 by simp
    then show ?thesis
      using inv w c unfolding ch_inv_def unsent_def
      by (cases "out = []"; cases "write_failed ch") (simp_all add: ch_view is_closed_def is_failure_def)
  next
    case False
    then have "ch' = DoClosed Read_error (emit (OnRead ec n) (TimerCancel timer ?c))"
      using r unfolding read_done_def Let_def by simp
    then show ?thesis
      using inv w c unfolding ch_inv_def unsent_def
      by (cases "m_opened ch"; cases "write_failed ch")
        (simp_all add: ch_view is_closed_def is_failure_def)
  qed
qed

lemma timer_done_inv:
  assumes inv: "ch_inv sent ch" and i: "i < length (ops ch)" "ops ch ! i = Async_timer t b"
  shows "ch_inv sent (timer_done b ec (ch\<lparr>ops := take i (ops ch) @ drop (Suc i) (ops ch)\<rparr>))"
proof -
  let ?c = "ch\<lparr>ops := take i (ops ch) @ drop (Suc i) (ops ch)\<rparr>"
  have w: "writes ch = writes ?c" "reads ch = reads ?c"
    using view_remove [OF i(1)] by (simp_all add: i(2) is_write_def is_read_def)
  show ?thesis
    using inv w by (auto simp: timer_done_def ch_inv_def unsent_def ch_view split: if_splits)
qed

lemma ch_apply_inv:
  assumes inv: "ch_inv sent ch" and r: "ch_apply dec lab ch = Inr ch'"
  shows "ch_inv (sent @ sent_by lab ch) ch'"
proof (cases lab)
  case (Complete i ec n data)
  with r have i: "i < length (ops ch)" by (simp split: if_splits)
  show ?thesis
  proof (cases "ops ch ! i")
    case (Async_write timer)
    with Complete r i show ?thesis using write_done_inv [OF inv i Async_write] by simp
  next
    case (Async_read timer)
    with Complete r i show ?thesis
      using read_done_inv [OF inv i Async_read] by (simp split: if_splits)
  next
    case (Async_timer t b)
    with Complete r i show ?thesis
      using timer_done_inv [OF inv i Async_timer] by (auto split: if_splits)
  qed
next
  case (Expire t)
  with r have "ch' = ch\<lparr>expired := expired ch @ [t]\<rparr>" by (simp split: if_splits)
  with inv Expire show ?thesis
    by (cases "write_failed ch") (simp_all add: ch_inv_def unsent_def ch_view)
next
  case Run_post
  with r obtain p ps where "posts ch = p # ps" by (cases "posts ch") simp_all
  with Run_post r run_post_inv [OF inv this] show ?thesis by simp
next
  case Call_init
  with r Init_inv [OF inv] show ?thesis by (simp split: if_splits)
next
  case (Call_send m)
  with r SendMsg_inv [OF inv, of m] show ?thesis by simp
next
  case Call_shutdown
  with r Shutdown_inv [OF inv] show ?thesis by simp
qed

lemma ch_run_inv: "ch_run dec sent got ch \<Longrightarrow> ch_inv sent ch"
  by (induction rule: ch_run.induct) (auto intro: ch_inv_new ch_apply_inv)

section \<open>Properties\<close>

text \<open>A run given by its labels, for concrete runs.\<close>

fun ch_exec ::
    "(flat_buffer \<Rightarrow> (message list \<times> flat_buffer) option) \<Rightarrow> ch_label list \<Rightarrow>
     message list \<times> byte list \<times> channel \<Rightarrow> (message list \<times> byte list \<times> channel) option" where
  "ch_exec dec [] st = Some st"
| "ch_exec dec (l # ls) (sent, got, ch) = (case ch_apply dec l ch of
      Inl _ \<Rightarrow> None
    | Inr ch' \<Rightarrow> ch_exec dec ls (sent @ sent_by l ch, got @ read_by l ch, ch'))"

lemma ch_exec_run:
  "ch_exec dec ls (sent, got, ch) = Some (sent', got', ch') \<Longrightarrow> ch_run dec sent got ch \<Longrightarrow>
     ch_run dec sent' got' ch'"
proof (induction ls arbitrary: sent got ch)
  case Nil
  then show ?case by simp
next
  case (Cons l ls)
  then show ?case by (auto split: sum.splits intro: ch_run.step)
qed

lemma write_front_exists:
  assumes "ch_inv sent ch"
  shows "ch_apply dec lab ch \<noteq> Inl Undefined"
proof
  assume u: "ch_apply dec lab ch = Inl Undefined"
  then obtain i ec n data where lab: "lab = Complete i ec n data"
    by (cases lab) (auto split: if_splits list.splits)
  with u have i: "i < length (ops ch)" by (simp split: if_splits)
  from u lab i obtain timer where w: "ops ch ! i = Async_write timer"
    by (cases "ops ch ! i")
      (auto simp: read_done_def TryDecode_def res_bind_eq_Inl Let_def
        split: if_splits option.splits)
  then have "writes ch \<noteq> 0" using view_remove(1) [OF i] by (simp add: is_write_def)
  then have "m_write_buffer ch \<noteq> []" using assms by (auto simp: ch_inv_def split: if_splits)
  then obtain m rest where "m_write_buffer ch = m # rest" by (cases "m_write_buffer ch") auto
  then show False using u lab i w by (simp add: write_done_def ch_view Let_def split: if_splits)
qed

text \<open>
  C16.  In every run of a channel, whatever the order of completions and whatever their
  results, with any decoder: at most one write and one read are outstanding, so that two
  \<open>async_write\<close>s never interleave their bytes; the front of the queue exists whenever a
  write completes; and \<open>OnClosed\<close> is called at most once, exactly when the socket is shut.
\<close>

theorem channel_one_at_a_time:
  assumes "ch_run dec sent got ch"
  shows "writes ch \<le> 1 \<and> reads ch \<le> 1 \<and> closes ch = (if shut ch then 1 else 0)
    \<and> ch_apply dec lab ch \<noteq> Inl Undefined"
  using ch_run_inv [OF assms] write_front_exists [OF ch_run_inv [OF assms]]
  by (simp add: ch_inv_def)

text \<open>
  C15.  Messages leave in the order of the calls to \<open>SendMsg\<close>, none lost, none doubled: those
  handed to \<open>OnWrite\<close>, those queued behind and those only posted are together exactly the
  messages that were sent.
\<close>

theorem channel_fifo:
  assumes "ch_run dec sent got ch"
  shows "written ch @ unsent ch @ posted_msgs ch = sent"
  using ch_run_inv [OF assms] by (simp add: ch_inv_def)

definition sample_labels :: "ch_label list" where
  "sample_labels = [Call_send [1], Call_init, Call_send [2], Call_send [3], Run_post,
     Complete 0 0 20 ([3, 0, 0, 0] @ replicate 12 0 @ [7, 8, 9, 4]),
     Run_post, Complete 0 0 1 [], Call_shutdown, Run_post, Complete 1 32 0 [], Call_send [4]]"

definition sample_run :: "message list \<times> byte list \<times> channel" where
  "sample_run = the (ch_exec (\<lambda>b. Decode False b []) sample_labels ([], [], new_channel 0 0))"

lemma sample_exec:
  "ch_exec (\<lambda>b. Decode False b []) sample_labels ([], [], new_channel 0 0) = Some sample_run"
proof -
  have "ch_exec (\<lambda>b. Decode False b []) sample_labels ([], [], new_channel 0 0) \<noteq> None"
    by code_simp
  then show ?thesis by (auto simp: sample_run_def)
qed

lemma sample_run_ok:
  "ch_run (\<lambda>b. Decode False b []) (fst sample_run) (fst (snd sample_run)) (snd (snd sample_run))"
proof -
  obtain sent got ch where s: "sample_run = (sent, got, ch)" by (cases sample_run)
  show ?thesis using ch_exec_run [OF sample_exec [unfolded s] ch_run.start] by (simp add: s)
qed

lemma channel_one_at_a_time_witness:
  "closes (snd (snd sample_run)) = 1 \<and> writes (snd (snd sample_run)) \<le> 1"
proof -
  have "shut (snd (snd sample_run))" by code_simp
  then show ?thesis using channel_one_at_a_time [OF sample_run_ok] by simp
qed

lemma channel_fifo_witness:
  "written (snd (snd sample_run)) @ unsent (snd (snd sample_run))
     @ posted_msgs (snd (snd sample_run)) = [[2], [3], [4]]"
proof -
  have "fst sample_run = [[2], [3], [4]]" by code_simp
  then show ?thesis using channel_fifo [OF sample_run_ok] by simp
qed

text \<open>Reading: only a successful read changes the read buffer and what was received.\<close>

lemma view_Init:
  "received (Init ch) = received ch" "m_read_buffer (Init ch) = m_read_buffer ch"
  by (simp_all add: Init_def ch_view)

lemma view_run_post:
  "received (run_post p ch) = received ch" "m_read_buffer (run_post p ch) = m_read_buffer ch"
  by (cases p; simp add: ch_view Let_def)+

lemma view_write_done:
  assumes "write_done t ec n ch = Inr ch'"
  shows "received ch' = received ch \<and> m_read_buffer ch' = m_read_buffer ch"
proof (cases "m_write_buffer (TimerCancel t ch)")
  case Nil
  with assms show ?thesis by (simp add: write_done_def)
next
  case (Cons m rest)
  with assms show ?thesis
    by (auto simp: write_done_def Let_def ch_view split: if_splits)
qed

lemma view_timer_done:
  "received (timer_done b ec ch) = received ch" "m_read_buffer (timer_done b ec ch) = m_read_buffer ch"
  by (simp_all add: timer_done_def ch_view)

lemma view_read_done:
  assumes "read_done dec t ec n data ch = Inr ch'"
  shows "if ec = 0 then \<exists>out. dec (m_read_buffer ch @ data) = Some (out, m_read_buffer ch')
           \<and> received ch' = received ch @ out
         else received ch' = received ch \<and> m_read_buffer ch' = m_read_buffer ch"
proof (cases "ec = 0")
  case False
  with assms show ?thesis by (auto simp: read_done_def Let_def ch_view)
next
  case True
  let ?c = "emit (OnRead 0 n) (TimerCancel t ch\<lparr>m_read_buffer := m_read_buffer ch @ data\<rparr>)"
  from assms True obtain c3 where c3: "TryDecode dec ?c = Inr c3" "ch' = DoRead c3"
    by (auto simp: read_done_def Let_def res_bind_eq_Inr ch_view)
  have b: "m_read_buffer ?c = m_read_buffer ch @ data" by (simp add: ch_view)
  from c3(1) obtain out rest where "dec (m_read_buffer ch @ data) = Some (out, rest)"
    "c3 = (if out = [] then ?c\<lparr>m_read_buffer := rest\<rparr>
           else emit (OnReceivedMessage out) (?c\<lparr>m_read_buffer := rest\<rparr>))"
    unfolding TryDecode_def b by (cases "dec (m_read_buffer ch @ data)") (auto simp: Let_def)
  then show ?thesis using True c3(2) by (simp add: ch_view)
qed

lemma ch_apply_received:
  assumes "ch_apply dec lab ch = Inr ch'"
  shows "read_by lab ch = [] \<and> received ch' = received ch \<and> m_read_buffer ch' = m_read_buffer ch \<or>
    (\<exists>out. dec (m_read_buffer ch @ read_by lab ch) = Some (out, m_read_buffer ch')
       \<and> received ch' = received ch @ out)"
proof (cases lab)
  case (Complete i ec n data)
  let ?c = "ch\<lparr>ops := take i (ops ch) @ drop (Suc i) (ops ch)\<rparr>"
  have c: "received ?c = received ch" "m_read_buffer ?c = m_read_buffer ch"
    by (simp_all add: ch_view)
  show ?thesis
  proof (cases "ops ch ! i")
    case (Async_write t)
    with Complete assms show ?thesis
      using view_write_done [of t ec n ?c ch'] c by (simp split: if_splits)
  next
    case (Async_read t)
    with Complete assms show ?thesis
      using view_read_done [of dec t ec n data ?c ch'] c by (simp split: if_splits)
  next
    case (Async_timer t b)
    with Complete assms show ?thesis
      using c by (auto simp: view_timer_done split: if_splits)
  qed
qed (use assms in \<open>auto simp: view_Init view_run_post SendMsg_def Shutdown_def ch_view
      split: if_splits list.splits\<close>)

text \<open>
   What a channel with the default decoder has received is the decoding of the bytes its
  reads have delivered, in whatever pieces they came, and the read buffer holds the rest.
\<close>

lemma channel_receives_stream:
  assumes "ch_run (\<lambda>b. Decode ndebug b []) sent got ch"
  shows "Decode ndebug got [] = Some (received ch, m_read_buffer ch)"
  using assms
proof (induction rule: ch_run.induct)
  case (start rt wt)
  have "DecodeOnce ndebug [] [] = None" by (simp add: DecodeOnce_def)
  then show ?case
    by (subst Decode.simps) (simp add: received_def new_channel_def)
next
  case (step sent got ch lab ch')
  from ch_apply_received [OF step.hyps(2)] show ?case
  proof
    assume "\<exists>out. Decode ndebug (m_read_buffer ch @ read_by lab ch) [] =
        Some (out, m_read_buffer ch') \<and> received ch' = received ch @ out"
    then show ?thesis using step.IH md.drain_chunks by (auto simp: Decode_iff)
  qed (use step.IH in simp)
qed

lemma channel_receives_stream_witness:
  "Decode False ([3, 0, 0, 0] @ replicate 12 0 @ [7, 8, 9, 4]) [] = Some ([frame [7, 8, 9]], [4])"
proof -
  have "fst (snd sample_run) = [3, 0, 0, 0] @ replicate 12 0 @ [7, 8, 9, 4]"
    and "received (snd (snd sample_run)) = [frame [7, 8, 9]]"
    and "m_read_buffer (snd (snd sample_run)) = [4]"
    by code_simp+
  then show ?thesis using channel_receives_stream [OF sample_run_ok] by simp
qed

end
