(* ===== verification/Net_Server.thy ===== *)
theory Net_Server
  imports Channel
begin

text \<open>
  The objects around a channel in \<open>zysoft/src/network\<close>: the pool of \<open>io_context\<close>s that are
  handed out in turn (\<open>IOContextPool.h\<close>), the accept loop of \<open>TcpServer.h\<close>, and the connector
  of \<open>TcpConnector.h\<close> with the client that makes it (\<open>TcpClient.h\<close>).  An \<open>io_context\<close> is
  its index.  Whether opening, binding or connecting succeeds is decided outside: an argument.
\<close>

section \<open>IOContextPool\<close>

record io_pool =
  m_next_index :: u64
  m_ioc_vec :: "nat list"

definition new_io_pool :: io_pool where
  "new_io_pool = \<lparr>m_next_index = 0, m_ioc_vec = []\<rparr>"

definition pool_Init :: "int \<Rightarrow> io_pool \<Rightarrow> io_pool" where
  "pool_Init count p =
     (let count' = (if count \<le> 0 then 1 else count)
      in p\<lparr>m_ioc_vec := m_ioc_vec p @ [0 ..< nat count']\<rparr>)"

definition pool_Stop :: "io_pool \<Rightarrow> io_pool" where
  "pool_Stop p = p\<lparr>m_ioc_vec := []\<rparr>"

definition NextIOContext :: "io_pool \<Rightarrow> nat option \<times> io_pool" where
  "NextIOContext p =
     (if m_ioc_vec p = [] then (None, p)
      else
        (let next = m_next_index p + 1; idx = unat next mod length (m_ioc_vec p)
         in (Some (m_ioc_vec p ! idx), p\<lparr>m_next_index := next\<rparr>)))"

fun take_contexts :: "nat \<Rightarrow> io_pool \<Rightarrow> nat option list \<times> io_pool" where
  "take_contexts 0 p = ([], p)"
| "take_contexts (Suc n) p =
     (let (c, p') = NextIOContext p; (cs, p'') = take_contexts n p' in (c # cs, p''))"

lemma take_contexts_nth:
  assumes "m_ioc_vec p \<noteq> []" "unat (m_next_index p) + n < 2 ^ 64"
  shows "fst (take_contexts n p) =
    map (\<lambda>k. Some (m_ioc_vec p ! ((unat (m_next_index p) + k) mod length (m_ioc_vec p)))) [1 ..< Suc n]"
  using assms
proof (induction n arbitrary: p)
  case 0
  then show ?case by simp
next
  case (Suc n)
  define p' where "p' = p\<lparr>m_next_index := m_next_index p + 1\<rparr>"
  have nxt: "unat (m_next_index p') = Suc (unat (m_next_index p))"
  proof -
    have "unat (m_next_index p + 1) = (unat (m_next_index p) + 1) mod 2 ^ 64"
      by (simp add: unat_word_ariths)
    then show ?thesis using Suc.prems(2) by (simp add: p'_def)
  qed
  have one: "NextIOContext p =
      (Some (m_ioc_vec p ! (Suc (unat (m_next_index p)) mod length (m_ioc_vec p))), p')"
    using Suc.prems(1) nxt by (simp add: NextIOContext_def Let_def p'_def)
  have vec: "m_ioc_vec p' = m_ioc_vec p" by (simp add: p'_def)
  have "fst (take_contexts n p') =
      map (\<lambda>k. Some (m_ioc_vec p ! ((unat (m_next_index p') + k) mod length (m_ioc_vec p)))) [1 ..< Suc n]"
    using Suc.IH [of p'] Suc.prems nxt by (simp add: vec)
  also have "\<dots> = map (\<lambda>k. Some (m_ioc_vec p ! ((unat (m_next_index p) + k) mod length (m_ioc_vec p))))
      (map Suc [1 ..< Suc n])"
    by (simp add: nxt)
  also have "map Suc [1 ..< Suc n] = [2 ..< Suc (Suc n)]" by (simp add: map_Suc_upt numeral_2_eq_2)
  finally show ?case
    by (simp add: one split_beta upt_conv_Cons numeral_2_eq_2 del: upt_Suc)
qed

lemma mod_window:
  assumes "0 < (n :: nat)"
  shows "(\<lambda>k. (a + k) mod n) ` {1 ..< Suc n} = {0 ..< n}"
proof -
  have "inj_on (\<lambda>k. (a + k) mod n) {1 ..< Suc n}"
  proof (rule linorder_inj_onI)
    fix x y assume "x < y" "x \<in> {1 ..< Suc n}" "y \<in> {1 ..< Suc n}"
    then have "0 < y - x" "y - x < n" by auto
    show "(a + x) mod n \<noteq> (a + y) mod n"
    proof
      assume "(a + x) mod n = (a + y) mod n"
      then have "n dvd (a + y) - (a + x)" using mod_eq_dvd_iff_nat [of "a + x" "a + y" n] \<open>x < y\<close> by simp
      then show False using \<open>0 < y - x\<close> \<open>y - x < n\<close> by (auto dest: nat_dvd_not_less)
    qed
  qed auto
  then have "card ((\<lambda>k. (a + k) mod n) ` {1 ..< Suc n}) = n" by (simp add: card_image)
  moreover have "(\<lambda>k. (a + k) mod n) ` {1 ..< Suc n} \<subseteq> {0 ..< n}" using assms by auto
  ultimately show ?thesis by (simp add: card_subset_eq)
qed

text \<open>
   The pool deals its contexts fairly: any as many consecutive requests as there are
  contexts get each context exactly once, from every value of the counter, until the 64-bit
  counter wraps around.
\<close>

lemma contexts_round_robin:
  assumes "0 < count" "count < 2 ^ 31" "p = (pool_Init count new_io_pool)\<lparr>m_next_index := i\<rparr>"
    "unat i + nat count < 2 ^ 64"
  shows "length (fst (take_contexts (nat count) p)) = nat count
    \<and> set (fst (take_contexts (nat count) p)) = Some ` {0 ..< nat count}"
proof -
  have vec: "m_ioc_vec p = [0 ..< nat count]" "m_next_index p = i"
    using assms(1,3) by (simp_all add: pool_Init_def new_io_pool_def Let_def)
  have n: "0 < nat count" using assms(1) by simp
  have out: "fst (take_contexts (nat count) p) =
      map (\<lambda>k. Some ([0 ..< nat count] ! ((unat i + k) mod nat count))) [1 ..< Suc (nat count)]"
    using take_contexts_nth [of p "nat count"] assms(4) n by (simp add: vec del: upt_Suc)
  also have "\<dots> = map (\<lambda>k. Some ((unat i + k) mod nat count)) [1 ..< Suc (nat count)]"
    using n by (intro map_cong) simp_all
  finally have out: "fst (take_contexts (nat count) p) =
      map (\<lambda>k. Some ((unat i + k) mod nat count)) [1 ..< Suc (nat count)]" .
  have "set (fst (take_contexts (nat count) p)) =
      Some ` ((\<lambda>k. (unat i + k) mod nat count) ` {1 ..< Suc (nat count)})"
    unfolding out by (simp add: image_image del: upt_Suc)
  then show ?thesis unfolding mod_window [OF n] by (simp add: out del: upt_Suc)
qed

lemma contexts_round_robin_witness:
  "set (fst (take_contexts 3 ((pool_Init 3 new_io_pool)\<lparr>m_next_index := 10\<rparr>))) = {Some 0, Some 1, Some 2}"
proof -
  have "unat (10 :: u64) + nat 3 < 2 ^ 64" by simp
  from contexts_round_robin [OF _ _ refl this] show ?thesis
    by (simp add: atLeast0LessThan lessThan_nat_numeral lessThan_Suc insert_commute)
qed

section \<open>TcpServer\<close>

record ServerOption =
  m_max_connection :: u64
  so_read_timeout :: "32 word"
  so_write_timeout :: "32 word"

datatype server_event = OnAccept nat channel

record tcp_server =
  m_option :: ServerOption
  m_listening :: bool
  m_accept_pool :: io_pool
  m_io_pool :: io_pool
  m_acceptor :: "bool option"
  accepts :: "(nat option \<times> channel) list"
  accepted :: "channel list"
  server_events :: "server_event list"

definition new_server :: "ServerOption \<Rightarrow> tcp_server" where
  "new_server opt = \<lparr>m_option = opt, m_listening = False, m_accept_pool = new_io_pool,
     m_io_pool = new_io_pool, m_acceptor = None, accepts = [], accepted = [], server_events = []\<rparr>"

text \<open>
  \<open>m_acceptor\<close> is \<open>Some\<close> once it is made, with whether it is open; \<open>accepts\<close> are the
  outstanding calls of \<open>async_accept\<close>, each with the context and the channel it would use.
\<close>

definition InitAcceptor :: "bool \<Rightarrow> tcp_server \<Rightarrow> bool \<times> tcp_server" where
  "InitAcceptor bind_ok sv =
     (let (_, p) = NextIOContext (m_accept_pool sv); sv1 = sv\<lparr>m_accept_pool := p\<rparr>
      in if bind_ok then (True, sv1\<lparr>m_acceptor := Some True\<rparr>) else (False, sv1))"

definition DoAccept :: "tcp_server \<Rightarrow> tcp_server" where
  "DoAccept sv =
     (let (ioc, p) = NextIOContext (m_io_pool sv);
          ch = new_channel (so_read_timeout (m_option sv)) (so_write_timeout (m_option sv))
      in sv\<lparr>m_io_pool := p, accepts := accepts sv @ [(ioc, ch)]\<rparr>)"

definition server_Init :: "int \<Rightarrow> bool \<Rightarrow> tcp_server \<Rightarrow> bool \<times> tcp_server" where
  "server_Init n bind_ok sv =
     (let sv1 = sv\<lparr>m_accept_pool := pool_Init 1 (m_accept_pool sv),
                   m_io_pool := pool_Init n (m_io_pool sv)\<rparr>;
          (ok, sv2) = InitAcceptor bind_ok sv1
      in if \<not> ok then (False, sv2) else (True, DoAccept (sv2\<lparr>m_listening := True\<rparr>)))"

definition StopAccept :: "tcp_server \<Rightarrow> tcp_server" where
  "StopAccept sv =
     (case m_acceptor sv of
        None \<Rightarrow> sv
      | Some _ \<Rightarrow>
          if \<not> m_listening sv then sv
          else sv\<lparr>m_listening := False, m_acceptor := Some False\<rparr>)"

text \<open>The handler of the \<open>i\<close>-th outstanding \<open>async_accept\<close> with error code \<open>ec\<close>.\<close>

definition accept_done :: "nat \<Rightarrow> nat \<Rightarrow> tcp_server \<Rightarrow> tcp_server" where
  "accept_done i ec sv =
     (let (ioc, ch) = accepts sv ! i;
          sv1 = sv\<lparr>accepts := take i (accepts sv) @ drop (Suc i) (accepts sv)\<rparr>;
          sv2 = (if ec \<noteq> 0 then sv1\<lparr>server_events := server_events sv @ [OnAccept ec ch]\<rparr>
                 else (let ch' = Init ch in
                       sv1\<lparr>accepted := accepted sv @ [ch'],
                           server_events := server_events sv @ [OnAccept ec ch']\<rparr>))
      in if m_listening sv2 then DoAccept sv2 else sv2)"

text \<open>
  A server's life: initialised once, then accepts complete and it may be stopped, in any
  order.
\<close>

inductive server_run :: "tcp_server \<Rightarrow> bool" where
  init: "server_Init n True (new_server opt) = (True, sv) \<Longrightarrow> server_run sv"
| stop: "server_run sv \<Longrightarrow> server_run (StopAccept sv)"
| accept: "server_run sv \<Longrightarrow> i < length (accepts sv) \<Longrightarrow> server_run (accept_done i ec sv)"

definition server_inv :: "tcp_server \<Rightarrow> bool" where
  "server_inv sv \<longleftrightarrow> length (accepts sv) \<le> 1
     \<and> (m_listening sv \<longrightarrow> length (accepts sv) = 1)
     \<and> m_acceptor sv = Some (m_listening sv)
     \<and> m_ioc_vec (m_io_pool sv) \<noteq> []
     \<and> (\<forall>(ioc, ch) \<in> set (accepts sv). ioc \<in> Some ` set (m_ioc_vec (m_io_pool sv))
          \<and> (\<exists>rt wt. ch = new_channel rt wt))
     \<and> (\<forall>ch \<in> set (accepted sv). \<exists>rt wt. ch = Init (new_channel rt wt))
     \<and> accepted sv = concat (map (\<lambda>e. case e of OnAccept ec ch \<Rightarrow> if ec = 0 then [ch] else [])
          (server_events sv))"

lemma NextIOContext_some:
  assumes "m_ioc_vec p \<noteq> []"
  shows "fst (NextIOContext p) \<in> Some ` set (m_ioc_vec p)"
    "m_ioc_vec (snd (NextIOContext p)) = m_ioc_vec p"
  using assms by (simp_all add: NextIOContext_def Let_def)

lemma DoAccept_view:
  "accepts (DoAccept sv) = accepts sv @ [(fst (NextIOContext (m_io_pool sv)),
     new_channel (so_read_timeout (m_option sv)) (so_write_timeout (m_option sv)))]"
  "m_listening (DoAccept sv) = m_listening sv" "m_acceptor (DoAccept sv) = m_acceptor sv"
  "m_io_pool (DoAccept sv) = snd (NextIOContext (m_io_pool sv))"
  "accepted (DoAccept sv) = accepted sv" "server_events (DoAccept sv) = server_events sv"
  by (simp_all add: DoAccept_def Let_def split_beta)

lemma DoAccept_inv:
  assumes "accepts sv = []" "m_listening sv" "m_acceptor sv = Some True"
    "m_ioc_vec (m_io_pool sv) \<noteq> []"
    "\<forall>ch \<in> set (accepted sv). \<exists>rt wt. ch = Init (new_channel rt wt)"
    "accepted sv = concat (map (\<lambda>e. case e of OnAccept ec ch \<Rightarrow> if ec = 0 then [ch] else [])
          (server_events sv))"
  shows "server_inv (DoAccept sv)"
  unfolding server_inv_def DoAccept_view
  using assms NextIOContext_some [OF assms(4)] by (auto simp: image_iff)

lemma server_Init_inv:
  assumes "server_Init n True (new_server opt) = (True, sv)"
  shows "server_inv sv"
proof -
  let ?sv = "(snd (InitAcceptor True ((new_server opt)\<lparr>
     m_accept_pool := pool_Init 1 (m_accept_pool (new_server opt)),
     m_io_pool := pool_Init n (m_io_pool (new_server opt))\<rparr>)))\<lparr>m_listening := True\<rparr>"
  have "sv = DoAccept ?sv"
    using assms by (auto simp: server_Init_def InitAcceptor_def Let_def split_beta)
  moreover have "server_inv (DoAccept ?sv)"
    by (rule DoAccept_inv)
      (auto simp: InitAcceptor_def new_server_def pool_Init_def new_io_pool_def Let_def split_beta)
  ultimately show ?thesis by simp
qed

lemma accept_done_inv:
  assumes inv: "server_inv sv" and i: "i < length (accepts sv)"
  shows "server_inv (accept_done i ec sv)"
proof -
  from inv i have i0: "i = 0" by (auto simp: server_inv_def)
  with inv i obtain ioc rt wt where acc: "accepts sv = [(ioc, new_channel rt wt)]"
    by (cases "accepts sv") (auto simp: server_inv_def)
  define sv2 where "sv2 = (if ec \<noteq> 0
      then sv\<lparr>accepts := [], server_events := server_events sv @ [OnAccept ec (new_channel rt wt)]\<rparr>
      else sv\<lparr>accepts := [], accepted := accepted sv @ [Init (new_channel rt wt)],
              server_events := server_events sv @ [OnAccept ec (Init (new_channel rt wt))]\<rparr>)"
  have dn: "accept_done i ec sv = (if m_listening sv then DoAccept sv2 else sv2)"
    by (auto simp: accept_done_def i0 acc Let_def sv2_def)
  have v: "accepts sv2 = []" "m_listening sv2 = m_listening sv" "m_acceptor sv2 = m_acceptor sv"
    "m_io_pool sv2 = m_io_pool sv"
    "\<forall>ch \<in> set (accepted sv2). \<exists>rt wt. ch = Init (new_channel rt wt)"
    "accepted sv2 = concat (map (\<lambda>e. case e of OnAccept ec ch \<Rightarrow> if ec = 0 then [ch] else [])
          (server_events sv2))"
    using inv by (auto simp: sv2_def server_inv_def)
  show ?thesis
  proof (cases "m_listening sv")
    case True
    have "server_inv (DoAccept sv2)"
      by (rule DoAccept_inv) (use v True inv in \<open>simp_all add: server_inv_def\<close>)
    then show ?thesis by (simp add: dn True)
  next
    case False
    then show ?thesis using v inv unfolding dn by (auto simp: server_inv_def)
  qed
qed

lemma server_run_inv: "server_run sv \<Longrightarrow> server_inv sv"
proof (induction rule: server_run.induct)
  case (stop sv)
  then show ?case by (auto simp: server_inv_def StopAccept_def split: option.splits)
qed (simp_all add: server_Init_inv accept_done_inv)

text \<open>
   The accept loop: in every run of an initialised server one accept is outstanding while
  it listens and at most one otherwise, on one of its contexts; stopping closes the acceptor
  and from then on a completion starts no further accept; and the channels reported to
  \<open>OnAccept\<close> without an error are exactly those accepted, each of them opened with a read
  outstanding.
\<close>

lemma server_accept_loop:
  assumes "server_run sv"
  shows "length (accepts sv) \<le> 1 \<and> (m_listening sv \<longrightarrow> length (accepts sv) = 1)
    \<and> m_acceptor sv = Some (m_listening sv)
    \<and> (\<not> m_listening sv \<longrightarrow> accepts (accept_done 0 ec sv) = [])
    \<and> accepted sv = concat (map (\<lambda>e. case e of OnAccept ec ch \<Rightarrow> if ec = 0 then [ch] else [])
          (server_events sv))
    \<and> (\<forall>ch \<in> set (accepted sv). m_opened ch \<and> reads ch = 1)"
proof -
  have inv: "server_inv sv" by (rule server_run_inv [OF assms])
  have "reads (Init (new_channel rt wt)) = 1 \<and> m_opened (Init (new_channel rt wt))" for rt wt
    using no_ops [of "new_channel rt wt"]
    by (simp add: Init_def ch_view) (simp add: new_channel_def)
  moreover have "accepts (accept_done 0 ec sv) = []" if "\<not> m_listening sv"
    using inv that by (auto simp: server_inv_def accept_done_def Let_def split_beta length_Suc_conv
        le_Suc_eq)
  ultimately show ?thesis using inv by (fastforce simp: server_inv_def)
qed

definition sample_server :: tcp_server where
  "sample_server = accept_done 0 24 (accept_done 0 0
     (snd (server_Init 2 True (new_server \<lparr>m_max_connection = 1, so_read_timeout = 0,
        so_write_timeout = 0\<rparr>))))"

lemma server_accept_loop_witness:
  "length (accepts (accept_done 0 0 (StopAccept sample_server))) = 0
   \<and> length (accepted sample_server) = 1"
proof -
  let ?s0 = "snd (server_Init 2 True (new_server \<lparr>m_max_connection = 1, so_read_timeout = 0,
        so_write_timeout = 0\<rparr>))"
  have "server_run ?s0"
    by (rule server_run.init) (simp add: server_Init_def InitAcceptor_def Let_def split_beta)
  moreover have "length (accepts ?s0) = 1" "length (accepts (accept_done 0 0 ?s0)) = 1"
    by code_simp+
  ultimately have "server_run sample_server"
    unfolding sample_server_def by (intro server_run.accept) simp_all
  then have "server_run (StopAccept sample_server)" by (rule server_run.stop)
  moreover have "\<not> m_listening (StopAccept sample_server)" "length (accepted sample_server) = 1"
    by code_simp+
  ultimately show ?thesis using server_accept_loop [of "StopAccept sample_server" 0] by simp
qed

section \<open>TcpConnector and TcpClient\<close>

text \<open>
  A pending connect is one of \<open>AsyncConnect\<close> or of \<open>SyncConnectWaitFor\<close>, which sets a
  promise.  \<open>connect_events\<close> are the calls of \<open>OnConnect\<close>.
\<close>

datatype pending_connect = Connect_async | Connect_wait

record tcp_connector =
  m_channel :: channel
  connects :: "pending_connect list"
  promise :: "int option"
  connect_events :: "int list"
  sock_shut :: bool

definition new_connector :: "channel \<Rightarrow> tcp_connector" where
  "new_connector ch = \<lparr>m_channel = ch, connects = [], promise = None, connect_events = [],
     sock_shut = False\<rparr>"

definition CreateConnector :: "io_pool \<Rightarrow> (nat option \<times> tcp_connector) \<times> io_pool" where
  "CreateConnector p = (let (ioc, p') = NextIOContext p
     in ((ioc, new_connector (new_channel 0 0)), p'))"

definition Connected :: "tcp_connector \<Rightarrow> bool" where
  "Connected c = m_opened (m_channel c)"

definition AsyncConnect :: "tcp_connector \<Rightarrow> tcp_connector" where
  "AsyncConnect c = c\<lparr>connects := connects c @ [Connect_async]\<rparr>"

definition SyncConnect :: "int \<Rightarrow> tcp_connector \<Rightarrow> bool \<times> tcp_connector" where
  "SyncConnect ec c = (if ec \<noteq> 0 then (False, c) else (True, c\<lparr>m_channel := Init (m_channel c)\<rparr>))"

text \<open>
  \<open>SyncConnectWaitFor\<close> with \<open>sec \<noteq> 0\<close>: the call starts a connect and blocks; what happens
  while it waits are steps of the connector; then it returns with the promise ready, or
  with a time-out after shutting the socket down.
\<close>

definition wait_start :: "tcp_connector \<Rightarrow> tcp_connector" where
  "wait_start c = c\<lparr>connects := connects c @ [Connect_wait], promise := None\<rparr>"

definition wait_return :: "tcp_connector \<Rightarrow> bool \<times> tcp_connector" where
  "wait_return c = (case promise c of
      Some v \<Rightarrow> (v = 0, c)
    | None \<Rightarrow> (False, c\<lparr>sock_shut := True\<rparr>))"

definition connect_done :: "nat \<Rightarrow> int \<Rightarrow> tcp_connector \<Rightarrow> tcp_connector" where
  "connect_done i ec c =
     (let c1 = c\<lparr>connects := take i (connects c) @ drop (Suc i) (connects c)\<rparr> in
      case connects c ! i of
        Connect_async \<Rightarrow>
          if ec \<noteq> 0 then c1\<lparr>connect_events := connect_events c @ [ec]\<rparr>
          else c1\<lparr>m_channel := Init (m_channel c), connect_events := connect_events c @ [ec]\<rparr>
      | Connect_wait \<Rightarrow>
          if ec \<noteq> 0 then c1\<lparr>promise := Some ec\<rparr>
          else c1\<lparr>promise := Some 0, m_channel := Init (m_channel c)\<rparr>)"

text \<open>
   What the result of \<open>SyncConnectWaitFor\<close> says of the connection.  When the connect
  completes in time the result is whether the channel is open.  When it does not, the call
  returns false but the connect stays pending: if it then succeeds, the channel opens after
  all.
\<close>

lemma connect_wait_result:
  assumes "connects c = []" "\<not> Connected c"
  shows "(fst (wait_return (connect_done 0 ec (wait_start c)))
      = Connected (snd (wait_return (connect_done 0 ec (wait_start c)))))
    \<and> (fst (wait_return (wait_start c)) = False)
    \<and> (Connected (connect_done 0 0 (snd (wait_return (wait_start c)))))"
  using assms
  by (simp_all add: wait_start_def wait_return_def connect_done_def Connected_def Init_def
      ch_view Let_def)

lemma connect_wait_result_witness:
  "Connected (connect_done 0 0 (snd (wait_return (wait_start (new_connector (new_channel 0 0))))))"
  by (rule connect_wait_result [THEN conjunct2, THEN conjunct2]) (simp_all add: new_connector_def Connected_def new_channel_def)

end
