(* ===== verification/Net_Buffer.thy ===== *)
theory Net_Buffer
  imports Interfaces
begin

text \<open>
  The buffer of \<open>zysoft/experimental/net/Buffer.h\<close> and the searches of \<open>Utility.h\<close>: a vector of bytes with a read and a write position
  behind 8 reserved bytes.  Positions are natural numbers; where the code computes with \<open>std::size_t\<close> the
  wrap-around is written out.  A vector holds at most \<open>2^63 - 1\<close> bytes and throws when it should hold more.
\<close>

record net_buffer =
  buffer :: "byte list"
  read_pos :: nat
  write_pos :: nat

datatype nb_fault = Assertion | Length_error | Out_of_bounds

definition PrependBytes :: nat where
  "PrependBytes = 8"

definition max_size :: nat where
  "max_size = 2 ^ 63 - 1"

definition size_sub :: "nat \<Rightarrow> nat \<Rightarrow> nat" where
  "size_sub a b = (a + 2 ^ 64 - b) mod 2 ^ 64"

definition size_add :: "nat \<Rightarrow> nat \<Rightarrow> nat" where
  "size_add a b = (a + b) mod 2 ^ 64"

definition vector_resize :: "nat \<Rightarrow> byte list \<Rightarrow> nb_fault + byte list" where
  "vector_resize n xs = (if max_size < n then Inl Length_error else Inr (take n xs @ replicate (n - length xs) 0))"

definition ReadableBytes :: "net_buffer \<Rightarrow> nat" where
  "ReadableBytes b = size_sub (write_pos b) (read_pos b)"

definition WritableBytes :: "net_buffer \<Rightarrow> nat" where
  "WritableBytes b = size_sub (length (buffer b)) (write_pos b)"

definition nb_new :: "nat \<Rightarrow> nb_fault + net_buffer" where
  "nb_new n = res_bind (vector_resize (size_add PrependBytes n) []) (\<lambda>v.
     let b = \<lparr>buffer = v, read_pos = PrependBytes, write_pos = PrependBytes\<rparr>
     in if ReadableBytes b = 0 \<and> WritableBytes b = n then Inr b else Inl Assertion)"

text \<open>The moved-from buffer keeps its positions and loses its vector.\<close>

definition nb_move :: "net_buffer \<Rightarrow> net_buffer \<times> net_buffer" where
  "nb_move b = (b, b\<lparr>buffer := []\<rparr>)"

definition nb_Empty :: "net_buffer \<Rightarrow> bool" where
  "nb_Empty b \<longleftrightarrow> read_pos b = write_pos b"

definition nb_Clear :: "net_buffer \<Rightarrow> net_buffer" where
  "nb_Clear b = b\<lparr>read_pos := PrependBytes, write_pos := PrependBytes\<rparr>"

text \<open>What \<open>ReadablePtr()\<close> points to, with its length \<open>ReadableBytes()\<close>.\<close>

definition readable :: "net_buffer \<Rightarrow> byte list" where
  "readable b = take (ReadableBytes b) (drop (read_pos b) (buffer b))"

definition Consume :: "nat \<Rightarrow> net_buffer \<Rightarrow> nb_fault + net_buffer" where
  "Consume len b =
     (if \<not> len \<le> ReadableBytes b then Inl Assertion
      else if len < ReadableBytes b then Inr (b\<lparr>read_pos := size_add (read_pos b) len\<rparr>)
      else Inr (nb_Clear b))"

text \<open>\<open>std::copy\<close> inside one block copies one element after the other.\<close>

fun copy_within :: "nat \<Rightarrow> nat \<Rightarrow> nat \<Rightarrow> byte list \<Rightarrow> byte list" where
  "copy_within 0 src dest xs = xs"
| "copy_within (Suc n) src dest xs = copy_within n (Suc src) (Suc dest) (xs[dest := xs ! src])"

definition copy_to_front :: "net_buffer \<Rightarrow> nb_fault + byte list" where
  "copy_to_front b =
     (let n = ReadableBytes b in
      if read_pos b + n \<le> length (buffer b) \<and> PrependBytes + n \<le> length (buffer b)
      then Inr (copy_within n (read_pos b) PrependBytes (buffer b)) else Inl Out_of_bounds)"

definition MakeSpace :: "nat \<Rightarrow> net_buffer \<Rightarrow> nb_fault + net_buffer" where
  "MakeSpace len b =
     (if size_add (size_sub (read_pos b) PrependBytes) (WritableBytes b) < len
      then res_bind (vector_resize (size_add (write_pos b) len) (buffer b)) (\<lambda>v. Inr (b\<lparr>buffer := v\<rparr>))
      else res_bind (copy_to_front b) (\<lambda>v. Inr (b\<lparr>buffer := v, read_pos := PrependBytes,
             write_pos := size_add PrependBytes (ReadableBytes b)\<rparr>)))"

definition PrepareWritableBytes :: "nat \<Rightarrow> net_buffer \<Rightarrow> nb_fault + net_buffer" where
  "PrepareWritableBytes len b =
     res_bind (if WritableBytes b < len then MakeSpace len b else Inr b) (\<lambda>b1.
       if len \<le> WritableBytes b1 then Inr b1 else Inl Assertion)"

definition nb_Append :: "byte list \<Rightarrow> net_buffer \<Rightarrow> nb_fault + net_buffer" where
  "nb_Append data b =
     (if data = [] then Inr b
      else res_bind (PrepareWritableBytes (length data) b) (\<lambda>b1.
        if write_pos b1 + length data \<le> length (buffer b1)
        then Inr (b1\<lparr>buffer := take (write_pos b1) (buffer b1) @ data @ drop (write_pos b1 + length data) (buffer b1),
               write_pos := size_add (write_pos b1) (length data)\<rparr>)
        else Inl Out_of_bounds))"

definition Shrink :: "net_buffer \<Rightarrow> nb_fault + net_buffer" where
  "Shrink b = res_bind (copy_to_front b) (\<lambda>v.
     let w = size_add PrependBytes (ReadableBytes b)
     in res_bind (vector_resize w v) (\<lambda>v'. Inr \<lparr>buffer = v', read_pos = PrependBytes, write_pos = w\<rparr>))"

definition nb_Swap :: "net_buffer \<Rightarrow> net_buffer \<Rightarrow> net_buffer \<times> net_buffer" where
  "nb_Swap b rhs = (b\<lparr>buffer := buffer rhs, read_pos := read_pos rhs, write_pos := write_pos rhs\<rparr>,
     rhs\<lparr>buffer := buffer b, read_pos := read_pos b, write_pos := write_pos b\<rparr>)"

text \<open>\<open>std::search\<close>: the place of the first occurrence, or the end.\<close>

fun std_search :: "byte list \<Rightarrow> byte list \<Rightarrow> nat" where
  "std_search p [] = 0"
| "std_search p (c # cs) = (if take (length p) (c # cs) = p then 0 else Suc (std_search p cs))"

definition nb_Find :: "byte list \<Rightarrow> byte list \<Rightarrow> nat option" where
  "nb_Find b p = (let it = std_search p b in if it = length b then None else Some it)"

definition FindCRLF :: "net_buffer \<Rightarrow> nat option" where
  "FindCRLF b = nb_Find (readable b) [13, 10]"

definition FindEOL :: "net_buffer \<Rightarrow> nat option" where
  "FindEOL b = nb_Find (readable b) [10]"

lemma std_search_first:
  "std_search p b \<le> length b" "std_search p b < length b \<Longrightarrow> take (length p) (drop (std_search p b) b) = p"
  "j < std_search p b \<Longrightarrow> take (length p) (drop j b) \<noteq> p"
  by (induction b arbitrary: j) (auto split: if_splits simp: less_Suc_eq_0_disj)

text \<open>\<open>Find\<close> returns the first occurrence, and a null pointer when there is none.\<close>

lemma nb_Find_first:
  "nb_Find b p = Some i \<longleftrightarrow> i < length b \<and> take (length p) (drop i b) = p \<and> (\<forall>j < i. take (length p) (drop j b) \<noteq> p)"
proof -
  have "std_search p b = i" if "i < length b" "take (length p) (drop i b) = p" "\<forall>j < i. take (length p) (drop j b) \<noteq> p"
  proof (rule linorder_cases)
    assume "std_search p b < i"
    moreover from this that(1) have "std_search p b < length b" by simp
    ultimately show ?thesis using std_search_first(2) that(3) by blast
  next
    assume "i < std_search p b"
    with std_search_first(3) that(2) show ?thesis by blast
  qed
  then show ?thesis using std_search_first(1) [of p b] std_search_first(2,3) by (auto simp: nb_Find_def Let_def le_less)
qed

section \<open>A queue of bytes\<close>

definition nb_inv :: "net_buffer \<Rightarrow> bool" where
  "nb_inv b \<longleftrightarrow> PrependBytes \<le> read_pos b \<and> read_pos b \<le> write_pos b \<and> write_pos b \<le> length (buffer b) \<and>
     length (buffer b) \<le> max_size"

lemma size_sub_le [simp]: "b \<le> a \<Longrightarrow> a \<le> max_size \<Longrightarrow> size_sub a b = a - b"
proof -
  assume "b \<le> a" "a \<le> max_size"
  then have "a + 2 ^ 64 - b = (a - b) + 2 ^ 64" "a - b < 2 ^ 64" by (simp_all add: max_size_def)
  then show ?thesis by (simp only: size_sub_def mod_add_self2 mod_less)
qed

lemma size_add_le [simp]: "a + b \<le> 2 * max_size \<Longrightarrow> size_add a b = a + b"
  by (simp add: size_add_def max_size_def)

lemma length_copy_within [simp]: "length (copy_within n src dest xs) = length xs"
  by (induction n src dest xs rule: copy_within.induct) simp_all

lemma nth_copy_within:
  "dest \<le> src \<Longrightarrow> src + n \<le> length xs \<Longrightarrow>
     copy_within n src dest xs ! k = (if dest \<le> k \<and> k < dest + n then xs ! (src + (k - dest)) else xs ! k)"
proof (induction n src dest xs arbitrary: k rule: copy_within.induct)
  case (2 n src dest xs)
  let ?ys = "xs[dest := xs ! src]"
  have step: "copy_within n (Suc src) (Suc dest) ?ys ! k =
      (if Suc dest \<le> k \<and> k < Suc dest + n then ?ys ! (Suc src + (k - Suc dest)) else ?ys ! k)"
    using 2 by simp
  have later: "?ys ! (Suc src + (k - Suc dest)) = xs ! (src + (k - dest))" if "Suc dest \<le> k"
    using 2(2) that by (simp add: Suc_diff_Suc)
  have first: "?ys ! dest = xs ! src" using 2(2,3) by simp
  show ?case
  proof (cases "k = dest")
    case True
    with step first show ?thesis by simp
  next
    case False
    with step later show ?thesis by auto
  qed
qed auto

lemma copy_within_front:
  assumes "dest \<le> src" "src + n \<le> length xs"
  shows "take n (drop dest (copy_within n src dest xs)) = take n (drop src xs)"
  by (rule nth_equalityI) (use assms in \<open>auto simp: nth_copy_within\<close>)

lemma nb_sizes:
  assumes "nb_inv b"
  shows "ReadableBytes b = write_pos b - read_pos b" "WritableBytes b = length (buffer b) - write_pos b"
    "readable b = take (write_pos b - read_pos b) (drop (read_pos b) (buffer b))"
    "length (readable b) = write_pos b - read_pos b"
  using assms by (auto simp: nb_inv_def ReadableBytes_def WritableBytes_def readable_def min_def)

lemma copy_to_front_inv:
  assumes "nb_inv b"
  obtains v where "copy_to_front b = Inr v" "length v = length (buffer b)"
    "take (write_pos b - read_pos b) (drop PrependBytes v) = readable b"
proof
  have fits: "read_pos b + (write_pos b - read_pos b) \<le> length (buffer b)"
    "PrependBytes + (write_pos b - read_pos b) \<le> length (buffer b)" using assms by (auto simp: nb_inv_def)
  then show "copy_to_front b = Inr (copy_within (write_pos b - read_pos b) (read_pos b) PrependBytes (buffer b))"
    by (simp add: copy_to_front_def nb_sizes(1) [OF assms] Let_def)
  show "take (write_pos b - read_pos b) (drop PrependBytes
      (copy_within (write_pos b - read_pos b) (read_pos b) PrependBytes (buffer b))) = readable b"
    using copy_within_front [OF _ fits(1)] assms by (simp add: nb_sizes(3)) (simp add: nb_inv_def)
qed simp

text \<open>The room that an append of \<open>len\<close> bytes needs is there, after a copy or a reallocation.\<close>

lemma prepare_writable:
  assumes "nb_inv b" "len \<le> max_size"
  shows "if length (buffer b) < PrependBytes + length (readable b) + len \<and> max_size < write_pos b + len
    then PrepareWritableBytes len b = Inl Length_error
    else \<exists>b'. PrepareWritableBytes len b = Inr b' \<and> nb_inv b' \<and> readable b' = readable b \<and>
      write_pos b' + len \<le> length (buffer b') \<and>
      (PrependBytes + length (readable b) + len \<le> length (buffer b) \<longrightarrow> length (buffer b') = length (buffer b)) \<and>
      length (buffer b') \<le> length (buffer b) + len"
proof -
  note inv = assms(1) [unfolded nb_inv_def]
  let ?w = "write_pos b" and ?r = "read_pos b" and ?L = "length (buffer b)"
  have front: "size_add (size_sub ?r PrependBytes) (WritableBytes b) = ?r - PrependBytes + (?L - ?w)"
  proof -
    have "?r - PrependBytes + (?L - ?w) \<le> 2 * max_size" using inv by linarith
    moreover have "size_sub ?r PrependBytes = ?r - PrependBytes" using inv by (intro size_sub_le) auto
    ultimately show ?thesis by (simp only: nb_sizes(2) [OF assms(1)] size_add_le)
  qed
  consider (room) "len \<le> ?L - ?w" | (grow) "?L - ?w < len" "?r - PrependBytes + (?L - ?w) < len"
    | (copy) "?L - ?w < len" "len \<le> ?r - PrependBytes + (?L - ?w)" by linarith
  then show ?thesis
  proof cases
    case room
    then show ?thesis using inv assms by (auto simp: PrepareWritableBytes_def nb_sizes)
  next
    case grow
    show ?thesis
    proof (cases "max_size < ?w + len")
      case True
      then show ?thesis using grow inv assms front
        by (auto simp: PrepareWritableBytes_def MakeSpace_def vector_resize_def nb_sizes)
    next
      case False
      let ?b = "b\<lparr>buffer := buffer b @ replicate (?w + len - ?L) 0\<rparr>"
      have "nb_inv ?b" "readable ?b = readable b" using grow(1) inv False by (auto simp: nb_inv_def readable_def ReadableBytes_def)
      moreover have "PrepareWritableBytes len b = Inr ?b"
        using grow inv assms front False \<open>nb_inv ?b\<close>
        by (simp add: PrepareWritableBytes_def MakeSpace_def vector_resize_def nb_sizes)
      ultimately show ?thesis using grow inv False by (auto simp: nb_sizes assms(1))
    qed
  next
    case copy
    obtain v where v: "copy_to_front b = Inr v" "length v = ?L" "take (?w - ?r) (drop PrependBytes v) = readable b"
      using copy_to_front_inv [OF assms(1)] .
    let ?b = "b\<lparr>buffer := v, read_pos := PrependBytes, write_pos := PrependBytes + (?w - ?r)\<rparr>"
    have b: "nb_inv ?b" using inv v(2) by (auto simp: nb_inv_def)
    then have "readable ?b = readable b" using v(3) by (simp add: nb_sizes)
    moreover have "PrepareWritableBytes len b = Inr ?b"
    proof -
      have "PrependBytes + (?w - ?r) \<le> 2 * max_size" using inv by linarith
      moreover have "WritableBytes ?b = ?L - (PrependBytes + (?w - ?r))" using nb_sizes(2) [OF b] v(2) by simp
      ultimately show ?thesis using copy inv front v(1)
        by (simp only: PrepareWritableBytes_def MakeSpace_def nb_sizes(1,2) [OF assms(1)] front size_add_le) auto
    qed
    ultimately show ?thesis using copy inv v(2) b by (auto simp: nb_sizes assms(1))
  qed
qed

lemma append_bytes:
  assumes "nb_inv b" "length data \<le> max_size"
  shows "if data \<noteq> [] \<and> length (buffer b) < PrependBytes + length (readable b) + length data \<and>
      max_size < write_pos b + length data
    then nb_Append data b = Inl Length_error
    else \<exists>b'. nb_Append data b = Inr b' \<and> nb_inv b' \<and> readable b' = readable b @ data \<and>
      (PrependBytes + length (readable b) + length data \<le> length (buffer b) \<longrightarrow> length (buffer b') = length (buffer b)) \<and>
      length (buffer b') \<le> length (buffer b) + length data"
proof (cases "data = []")
  case True
  then show ?thesis using assms by (simp add: nb_Append_def)
next
  case False
  note prep = prepare_writable [OF assms]
  show ?thesis
  proof (cases "length (buffer b) < PrependBytes + length (readable b) + length data \<and> max_size < write_pos b + length data")
    case True
    then show ?thesis using prep False by (simp add: nb_Append_def)
  next
    case fits: False
    then obtain b1 where b1: "PrepareWritableBytes (length data) b = Inr b1" "nb_inv b1" "readable b1 = readable b"
      "write_pos b1 + length data \<le> length (buffer b1)"
      "PrependBytes + length (readable b) + length data \<le> length (buffer b) \<longrightarrow> length (buffer b1) = length (buffer b)"
      "length (buffer b1) \<le> length (buffer b) + length data"
      using prep by (metis (no_types, lifting))
    let ?b = "b1\<lparr>buffer := take (write_pos b1) (buffer b1) @ data @ drop (write_pos b1 + length data) (buffer b1),
      write_pos := write_pos b1 + length data\<rparr>"
    have inv: "nb_inv ?b" using b1(2,4) by (auto simp: nb_inv_def)
    have "write_pos b1 + length data \<le> 2 * max_size" using b1(2,4) by (auto simp: nb_inv_def)
    then have "nb_Append data b = Inr ?b" using False b1(1,4) by (simp add: nb_Append_def)
    moreover have "readable ?b = readable b1 @ data"
      using b1(2,4) by (simp add: nb_sizes(3) inv) (auto simp: nb_inv_def drop_take)
    moreover have "length (buffer ?b) = length (buffer b1)" using b1(4) by simp
    ultimately show ?thesis using inv fits b1(3,5,6) by auto
  qed
qed

lemma append_huge:
  assumes "nb_inv b" "max_size < length data"
  shows "nb_Append data b \<noteq> Inr b'"
proof
  assume "nb_Append data b = Inr b'"
  moreover have "data \<noteq> []" using assms(2) by auto
  ultimately obtain b1 where b1: "PrepareWritableBytes (length data) b = Inr b1" "length data \<le> length (buffer b1)"
    by (auto simp: nb_Append_def res_bind_eq_Inr split: if_splits)
  have "length v \<le> max_size" if "copy_to_front b = Inr v" for v
    using that assms(1) by (auto simp: copy_to_front_def Let_def nb_inv_def split: if_splits)
  with b1 assms have "length (buffer b1) \<le> max_size"
    by (auto simp: PrepareWritableBytes_def MakeSpace_def vector_resize_def res_bind_eq_Inr nb_inv_def split: if_splits)
  with b1(2) assms(2) show False by simp
qed

lemma consume_bytes:
  assumes "nb_inv b"
  shows "if length (readable b) < n then Consume n b = Inl Assertion
    else \<exists>b'. Consume n b = Inr b' \<and> nb_inv b' \<and> readable b' = drop n (readable b) \<and> length (buffer b') = length (buffer b)"
proof (cases "n < length (readable b)")
  case True
  let ?b = "b\<lparr>read_pos := read_pos b + n\<rparr>"
  have inv: "nb_inv ?b" and "read_pos b + n \<le> 2 * max_size"
    using True assms by (auto simp: nb_inv_def nb_sizes(4))
  then have "Consume n b = Inr ?b" using True by (simp add: Consume_def nb_sizes(1,4) [OF assms])
  moreover have "readable ?b = drop n (readable b)"
    unfolding nb_sizes(3) [OF inv] nb_sizes(3) [OF assms] by (simp add: drop_take add.commute)
  ultimately show ?thesis using True inv by auto
next
  case False
  have inv: "nb_inv (nb_Clear b)" "readable (nb_Clear b) = []"
    using assms by (auto simp: nb_inv_def nb_Clear_def readable_def ReadableBytes_def)
  with False show ?thesis by (auto simp: Consume_def nb_sizes(1,4) [OF assms] nb_Clear_def)
qed

interpretation net_queue: byte_queue nb_inv readable nb_Append Consume
proof
  fix b b' :: net_buffer and bs assume "nb_inv b" "nb_Append bs b = Inr b'"
  with append_bytes [of b bs] append_huge [of b bs b'] show "nb_inv b' \<and> readable b' = readable b @ bs"
    by (cases "length bs \<le> max_size") (auto split: if_splits)
next
  fix b b' :: net_buffer and n assume "nb_inv b" "Consume n b = Inr b'"
  with consume_bytes [of b n] show "nb_inv b' \<and> n \<le> length (readable b) \<and> readable b' = drop n (readable b)"
    by (auto split: if_splits)
qed

lemma shrink_bytes:
  assumes "nb_inv b"
  shows "\<exists>b'. Shrink b = Inr b' \<and> nb_inv b' \<and> readable b' = readable b \<and> length (buffer b') \<le> length (buffer b)"
proof -
  obtain v where v: "copy_to_front b = Inr v" "length v = length (buffer b)"
    "take (write_pos b - read_pos b) (drop PrependBytes v) = readable b" using copy_to_front_inv [OF assms] .
  let ?w = "PrependBytes + (write_pos b - read_pos b)"
  let ?b = "\<lparr>buffer = take ?w v, read_pos = PrependBytes, write_pos = ?w\<rparr>"
  have w: "?w \<le> length (buffer b)" "?w \<le> max_size" using assms by (auto simp: nb_inv_def)
  then have inv: "nb_inv ?b" by (simp add: nb_inv_def v(2))
  have "Shrink b = Inr ?b"
    using w by (simp add: Shrink_def v(1,2) nb_sizes(1) [OF assms] vector_resize_def Let_def)
  moreover have "readable ?b = readable b" unfolding nb_sizes(3) [OF inv] v(3) [symmetric] by (simp add: drop_take)
  ultimately show ?thesis using inv w by (simp add: v(2))
qed

lemma new_bytes:
  assumes "PrependBytes + n \<le> max_size"
  shows "\<exists>b. nb_new n = Inr b \<and> nb_inv b \<and> readable b = [] \<and> length (buffer b) = PrependBytes + n"
proof -
  have "PrependBytes + n \<le> 2 * max_size" using assms by simp
  then have "size_add PrependBytes n = PrependBytes + n" by (rule size_add_le)
  with assms show ?thesis
    by (auto simp: nb_new_def vector_resize_def ReadableBytes_def WritableBytes_def Let_def nb_inv_def readable_def)
qed

lemma moved_from:
  assumes "nb_inv b" "data \<noteq> []" "length data \<le> max_size"
  shows "nb_Append data (snd (nb_move b)) = Inl Out_of_bounds"
proof -
  have w: "0 < write_pos b" "write_pos b \<le> max_size" using assms(1) by (auto simp: nb_inv_def PrependBytes_def)
  then have "WritableBytes (snd (nb_move b)) = 2 ^ 64 - write_pos b" by (simp add: nb_move_def WritableBytes_def size_sub_def)
  moreover have "length data \<le> 2 ^ 64 - write_pos b" using w(2) assms(3) by (simp add: max_size_def)
  ultimately have "PrepareWritableBytes (length data) (snd (nb_move b)) = Inr (snd (nb_move b))"
    by (simp add: PrepareWritableBytes_def)
  with assms(2) w(1) show ?thesis by (simp add: nb_Append_def) (simp add: nb_move_def)
qed

section \<open>Properties\<close>

datatype nb_op = Append_op "byte list" | Consume_op nat | Clear_op | Shrink_op

fun nb_run :: "nb_op \<Rightarrow> net_buffer \<Rightarrow> nb_fault + net_buffer" where
  "nb_run (Append_op bs) b = nb_Append bs b"
| "nb_run (Consume_op n) b = Consume n b"
| "nb_run Clear_op b = Inr (nb_Clear b)"
| "nb_run Shrink_op b = Shrink b"

fun nb_runs :: "nb_op list \<Rightarrow> net_buffer \<Rightarrow> nb_fault + net_buffer" where
  "nb_runs [] b = Inr b"
| "nb_runs (p # ps) b = res_bind (nb_run p b) (nb_runs ps)"

fun queue_run :: "nb_op \<Rightarrow> byte list \<Rightarrow> byte list option" where
  "queue_run (Append_op bs) q = Some (q @ bs)"
| "queue_run (Consume_op n) q = (if n \<le> length q then Some (drop n q) else None)"
| "queue_run Clear_op q = Some []"
| "queue_run Shrink_op q = Some q"

fun queue_runs :: "nb_op list \<Rightarrow> byte list \<Rightarrow> byte list option" where
  "queue_runs [] q = Some q"
| "queue_runs (p # ps) q = (case queue_run p q of None \<Rightarrow> None | Some q' \<Rightarrow> queue_runs ps q')"

fun appended :: "nb_op list \<Rightarrow> nat" where
  "appended [] = 0"
| "appended (Append_op bs # ps) = length bs + appended ps"
| "appended (p # ps) = appended ps"

lemma nb_run_refines:
  assumes "nb_inv b" "length (buffer b) + appended [p] \<le> max_size"
  shows "case queue_run p (readable b) of
      None \<Rightarrow> nb_run p b = Inl Assertion
    | Some q \<Rightarrow> \<exists>b'. nb_run p b = Inr b' \<and> nb_inv b' \<and> readable b' = q \<and> length (buffer b') \<le> length (buffer b) + appended [p]"
proof (cases p)
  case (Append_op bs)
  have w: "write_pos b + length bs \<le> max_size" using assms Append_op by (auto simp: nb_inv_def)
  then show ?thesis using append_bytes [OF assms(1), of bs] assms(2) Append_op by auto
next
  case (Consume_op n)
  then show ?thesis using consume_bytes [OF assms(1), of n] by (auto split: if_splits)
next
  case Clear_op
  then show ?thesis using consume_bytes [OF assms(1), of "length (readable b)"] assms(1)
    by (auto simp: nb_Clear_def nb_inv_def readable_def ReadableBytes_def)
next
  case Shrink_op
  then show ?thesis using shrink_bytes [OF assms(1)] by auto
qed

lemma nb_runs_refine:
  "nb_inv b \<Longrightarrow> length (buffer b) + appended ps \<le> max_size \<Longrightarrow>
    case queue_runs ps (readable b) of
      None \<Rightarrow> nb_runs ps b = Inl Assertion
    | Some q \<Rightarrow> \<exists>b'. nb_runs ps b = Inr b' \<and> nb_inv b' \<and> readable b' = q"
proof (induction ps arbitrary: b)
  case (Cons p ps)
  have "appended (p # ps) = appended [p] + appended ps" by (cases p) simp_all
  with Cons.prems have fits: "length (buffer b) + appended [p] + appended ps \<le> max_size" by simp
  note run = nb_run_refines [OF Cons.prems(1), of p]
  show ?case
  proof (cases "queue_run p (readable b)")
    case None
    with run fits show ?thesis by simp
  next
    case (Some q)
    with run fits obtain b' where b': "nb_run p b = Inr b'" "nb_inv b'" "readable b' = q"
      "length (buffer b') \<le> length (buffer b) + appended [p]" by auto
    with fits Cons.IH [of b'] Some show ?thesis by (simp split: option.splits)
  qed
qed simp

text \<open>
  C17. A buffer is a queue of bytes: from its constructor, whatever is appended, consumed, cleared and shrunk, what is readable is what a
  list would hold, and the only failure is the assertion when more is consumed than there is, as long as all bytes ever
  appended fit into one vector.  A buffer that was moved from is not empty: an append to it writes out of bounds.
\<close>

theorem net_buffer_is_queue:
  assumes "PrependBytes + n + appended ps \<le> max_size"
  shows "case queue_runs ps [] of
      None \<Rightarrow> res_bind (nb_new n) (nb_runs ps) = Inl Assertion
    | Some q \<Rightarrow> \<exists>b. res_bind (nb_new n) (nb_runs ps) = Inr b \<and> readable b = q \<and>
        (\<forall>data. data \<noteq> [] \<and> length data \<le> max_size \<longrightarrow> nb_Append data (snd (nb_move b)) = Inl Out_of_bounds)"
proof -
  obtain b where b: "nb_new n = Inr b" "nb_inv b" "readable b = []" "length (buffer b) = PrependBytes + n"
    using new_bytes [of n] assms by auto
  with nb_runs_refine [OF b(2), of ps] assms moved_from show ?thesis by (auto split: option.splits)
qed

theorem net_buffer_is_queue_witness:
  "\<exists>b. res_bind (nb_new 2) (nb_runs [Append_op [1, 2, 3], Consume_op 2, Append_op [4, 5, 6], Shrink_op]) = Inr b \<and>
     readable b = [3, 4, 5, 6]"
  using net_buffer_is_queue [of 2 "[Append_op [1, 2, 3], Consume_op 2, Append_op [4, 5, 6], Shrink_op]"]
  by (auto simp: PrependBytes_def max_size_def)

end
