(* ===== verification/Net_Connection.thy ===== *)
theory Net_Connection
  imports Net_Buffer
begin

text \<open>
  Connections and the server of \<open>zysoft/experimental/net\<close>: \<open>TcpConnection.h\<close>, \<open>TcpServer.h\<close>, \<open>Acceptor.h\<close> and
  \<open>EventLoop.h\<close>.  A \<open>TcpServer\<close> has no way to set the number of threads of its pool, so one loop runs everything: what is
  posted runs in order, completions of reads and writes come between.  A connection is its place in the list of
  all that were ever made; it is freed when no shared pointer to it is left, which only the acceptor, the map of the server and
  bound tasks hold.  The handlers of reads and writes and the tasks of \<open>Shutdown\<close>, \<open>ForceClose\<close> and \<open>Send\<close> hold the bare
  pointer.  A \<open>Buffer\<close> is the list of its readable bytes, as \<open>Net_Buffer\<close> shows.
\<close>

section \<open>A connection\<close>

datatype EState = Closed | Connecting | Established | CloseWait

datatype EFlag = OptShutdown | OptForceClose | OptDoNotMessageCallback

text \<open>
  An asynchronous operation of the socket: a cancelled one may still complete as if it was not, when its result was already
  there.  That a second one of the same kind was started while one was under way is remembered in \<open>overlapped\<close>.
\<close>

datatype aio = Idle | Waiting | Cancelled

datatype error_code = Operation_aborted | Eof | Other_error

record net_conn =
  conn_name :: int
  state :: EState
  flag :: "EFlag set"
  input_buffer :: "byte list"
  output_buffer :: "byte list list"
  handle_error :: bool
  read_op :: aio
  write_op :: aio
  overlapped :: bool
  alive :: bool

definition new_TcpConnection :: "int \<Rightarrow> net_conn" where
  "new_TcpConnection name = \<lparr>conn_name = name, state = Closed, flag = {}, input_buffer = [], output_buffer = [],
     handle_error = False, read_op = Idle, write_op = Idle, overlapped = False, alive = True\<rparr>"

fun cancel_op :: "aio \<Rightarrow> aio" where
  "cancel_op Idle = Idle"
| "cancel_op _ = Cancelled"

definition cancel :: "net_conn \<Rightarrow> net_conn" where
  "cancel c = c\<lparr>read_op := cancel_op (read_op c), write_op := cancel_op (write_op c)\<rparr>"

definition ConnectDestroy :: "net_conn \<Rightarrow> net_conn" where
  "ConnectDestroy c = (if state c = Closed then c else cancel (c\<lparr>state := Closed\<rparr>))"

definition AsyncRead :: "net_conn \<Rightarrow> net_conn" where
  "AsyncRead c = c\<lparr>read_op := Waiting, overlapped := overlapped c \<or> read_op c \<noteq> Idle\<rparr>"

definition AsyncWrite :: "net_conn \<Rightarrow> net_conn" where
  "AsyncWrite c = c\<lparr>write_op := Waiting, overlapped := overlapped c \<or> write_op c \<noteq> Idle\<rparr>"

definition NeedMessageCallback :: "net_conn \<Rightarrow> bool" where
  "NeedMessageCallback c \<longleftrightarrow> OptDoNotMessageCallback \<notin> flag c"

definition ShutdownInLoop :: "net_conn \<Rightarrow> net_conn" where
  "ShutdownInLoop c =
     (if state c = Closed \<or> state c = CloseWait then c
      else let c1 = c\<lparr>state := CloseWait\<rparr> in if output_buffer c1 = [] then cancel c1 else c1)"

definition ForceCloseInLoop :: "net_conn \<Rightarrow> net_conn" where
  "ForceCloseInLoop c =
     (if state c = Closed then c else cancel (if state c \<noteq> CloseWait then c\<lparr>state := CloseWait\<rparr> else c))"

section \<open>The loop and the server\<close>

datatype net_task = Establish nat | Destroy nat | Remove nat | Shut nat | Force nat | Send_task nat "byte list"

text \<open>What can be seen: calls of the application, messages taken for sending, and messages written.\<close>

datatype net_act = Connection_cb | Message_cb "byte list" | Write_complete | Close_cb | Error_cb error_code
  | Queued "byte list" | Written "byte list"

record net_server =
  conns :: "net_conn list"
  connections :: "int \<rightharpoonup> nat"
  nextConnId :: int
  accepting :: nat
  posted :: "net_task list"
  acts :: "(nat \<times> net_act) list"

datatype net_fault = Use_after_free | Null_pointer | Assertion_failed | Overflow | Empty_front

definition upd :: "nat \<Rightarrow> (net_conn \<Rightarrow> net_conn) \<Rightarrow> net_server \<Rightarrow> net_server" where
  "upd i f s = s\<lparr>conns := (conns s)[i := f (conns s ! i)]\<rparr>"

definition RunInLoop :: "net_task \<Rightarrow> net_server \<Rightarrow> net_server" where
  "RunInLoop t s = s\<lparr>posted := posted s @ [t]\<rparr>"

definition act :: "nat \<Rightarrow> net_act \<Rightarrow> net_server \<Rightarrow> net_server" where
  "act i a s = s\<lparr>acts := acts s @ [(i, a)]\<rparr>"

definition SendInLoop :: "nat \<Rightarrow> byte list \<Rightarrow> net_server \<Rightarrow> net_server" where
  "SendInLoop i msg s =
     (if state (conns s ! i) = CloseWait \<or> state (conns s ! i) = Closed then s
      else let wait_write = output_buffer (conns s ! i) \<noteq> [];
               s1 = act i (Queued msg) (upd i (\<lambda>c. c\<lparr>output_buffer := output_buffer c @ [msg]\<rparr>) s)
           in if \<not> wait_write then upd i AsyncWrite s1 else s1)"

definition Shutdown :: "nat \<Rightarrow> bool \<Rightarrow> net_server \<Rightarrow> net_server" where
  "Shutdown i callback s =
     (if OptShutdown \<in> flag (conns s ! i) \<or> OptForceClose \<in> flag (conns s ! i) then s
      else RunInLoop (Shut i) (upd i (\<lambda>c. c\<lparr>flag := flag c \<union> {OptShutdown} \<union>
             (if callback then {} else {OptDoNotMessageCallback})\<rparr>) s))"

definition ForceClose :: "nat \<Rightarrow> net_server \<Rightarrow> net_server" where
  "ForceClose i s =
     (if OptForceClose \<in> flag (conns s ! i) then s
      else RunInLoop (Force i) (upd i (\<lambda>c. c\<lparr>flag := flag c \<union> {OptForceClose, OptDoNotMessageCallback}\<rparr>) s))"

text \<open>What a callback of the application calls, in the thread of the loop.\<close>

datatype app_call = Call_Send "byte list" | Call_Shutdown bool | Call_ForceClose

fun run_call :: "nat \<Rightarrow> app_call \<Rightarrow> net_server \<Rightarrow> net_server" where
  "run_call i (Call_Send msg) s = SendInLoop i msg s"
| "run_call i (Call_Shutdown callback) s = Shutdown i callback s"
| "run_call i Call_ForceClose s = ForceClose i s"

text \<open>The same calls in another thread.\<close>

fun post_call :: "nat \<Rightarrow> app_call \<Rightarrow> net_server \<Rightarrow> net_server" where
  "post_call i (Call_Send msg) s = RunInLoop (Send_task i msg) s"
| "post_call i (Call_Shutdown callback) s = Shutdown i callback s"
| "post_call i Call_ForceClose s = ForceClose i s"

definition ConnectEstablised :: "nat \<Rightarrow> app_call list \<Rightarrow> net_server \<Rightarrow> net_server" where
  "ConnectEstablised i calls s =
     fold (run_call i) calls (act i Connection_cb (upd i (\<lambda>c. AsyncRead (c\<lparr>state := Established\<rparr>)) s))"

definition OnErrorEx :: "nat \<Rightarrow> error_code \<Rightarrow> bool \<Rightarrow> net_server \<Rightarrow> net_server" where
  "OnErrorEx i ec app_cb s =
     RunInLoop (Remove i) (if app_cb then act i (if ec = Eof then Close_cb else Error_cb ec) s else s)"

definition HandleError :: "nat \<Rightarrow> error_code \<Rightarrow> net_server \<Rightarrow> net_server" where
  "HandleError i ec s =
     (let s1 = upd i (\<lambda>c. if state c \<noteq> Closed \<and> state c \<noteq> CloseWait then c\<lparr>state := CloseWait\<rparr> else c) s in
      if handle_error (conns s1 ! i) then s1
      else OnErrorEx i ec (NeedMessageCallback (conns s1 ! i)) (upd i (\<lambda>c. c\<lparr>handle_error := True\<rparr>) s1))"

text \<open>\<open>HandleRead\<close>: the callback consumes \<open>n\<close> bytes of the input and makes the calls.\<close>

definition HandleRead :: "nat \<Rightarrow> error_code + byte list \<Rightarrow> nat \<Rightarrow> app_call list \<Rightarrow> net_server \<Rightarrow> net_server" where
  "HandleRead i res n calls s0 =
     (let s = upd i (\<lambda>c. c\<lparr>read_op := Idle\<rparr>) s0 in
      case res of
        Inl ec \<Rightarrow> HandleError i ec s
      | Inr bytes \<Rightarrow>
          (let s1 = upd i (\<lambda>c. c\<lparr>input_buffer := input_buffer c @ bytes\<rparr>) s;
               s2 = (if NeedMessageCallback (conns s1 ! i)
                     then fold (run_call i) calls (upd i (\<lambda>c. c\<lparr>input_buffer := drop n (input_buffer c)\<rparr>)
                            (act i (Message_cb (input_buffer (conns s1 ! i))) s1))
                     else upd i (\<lambda>c. c\<lparr>input_buffer := []\<rparr>) s1)
           in upd i AsyncRead s2))"

definition after_write :: "net_conn \<Rightarrow> net_conn" where
  "after_write c =
     (if state c = Closed then c
      else if state c = CloseWait then
        if OptForceClose \<in> flag c then c
        else if OptShutdown \<in> flag c then (if output_buffer c = [] then cancel c else AsyncWrite c)
        else c
      else if output_buffer c \<noteq> [] then AsyncWrite c else c)"

definition HandleWrite :: "nat \<Rightarrow> error_code option \<Rightarrow> app_call list \<Rightarrow> net_server \<Rightarrow> net_fault + net_server" where
  "HandleWrite i ec calls s0 =
     (let s = upd i (\<lambda>c. c\<lparr>write_op := Idle\<rparr>) s0 in
      case output_buffer (conns s ! i) of
        [] \<Rightarrow> Inl Empty_front
      | msg # _ \<Rightarrow>
          (case ec of
             Some e \<Rightarrow> Inr (HandleError i e s)
           | None \<Rightarrow>
               (let s1 = fold (run_call i) calls (act i Write_complete (act i (Written msg) s));
                    s2 = upd i (\<lambda>c. c\<lparr>output_buffer := tl (output_buffer c)\<rparr>) s1
                in Inr (upd i after_write s2))))"

definition StartAccept :: "net_server \<Rightarrow> net_fault + net_server" where
  "StartAccept s =
     (if nextConnId s = 2 ^ 31 - 1 then Inl Overflow
      else Inr (s\<lparr>conns := conns s @ [new_TcpConnection (nextConnId s)], nextConnId := nextConnId s + 1,
                  accepting := length (conns s)\<rparr>))"

text \<open>\<open>NewConnection\<close>: after an error it waits with a null pointer, whose socket is then used.\<close>

definition NewConnection :: "error_code option \<Rightarrow> net_server \<Rightarrow> net_fault + net_server" where
  "NewConnection ec s = (case ec of
       Some _ \<Rightarrow> Inl Null_pointer
     | None \<Rightarrow>
         (let i = accepting s; s1 = upd i (\<lambda>c. c\<lparr>state := Connecting\<rparr>) s;
              s2 = s1\<lparr>connections := (connections s1)(conn_name (conns s1 ! i) \<mapsto> i)\<rparr>
          in StartAccept (RunInLoop (Establish i) s2)))"

definition RemoveConnection :: "nat \<Rightarrow> net_server \<Rightarrow> net_fault + net_server" where
  "RemoveConnection i s =
     (let name = conn_name (conns s ! i) in
      if connections s name = None then Inl Assertion_failed
      else Inr (RunInLoop (Destroy i) (s\<lparr>connections := (connections s)(name := None)\<rparr>)))"

text \<open>The tasks that hold a shared pointer.\<close>

fun owns :: "net_task \<Rightarrow> nat option" where
  "owns (Establish i) = Some i"
| "owns (Destroy i) = Some i"
| "owns (Remove i) = Some i"
| "owns _ = None"

definition owned :: "net_server \<Rightarrow> nat \<Rightarrow> bool" where
  "owned s i \<longleftrightarrow> accepting s = i \<or> connections s (conn_name (conns s ! i)) = Some i \<or> Some i \<in> owns ` set (posted s)"

definition collect :: "net_server \<Rightarrow> net_server" where
  "collect s = s\<lparr>conns := map (\<lambda>i. let c = conns s ! i in
     if alive c \<and> \<not> owned s i then (ConnectDestroy c)\<lparr>alive := False\<rparr> else c) [0..<length (conns s)]\<rparr>"

fun run_net_task :: "net_task \<Rightarrow> app_call list \<Rightarrow> net_server \<Rightarrow> net_fault + net_server" where
  "run_net_task (Establish i) calls s = Inr (ConnectEstablised i calls s)"
| "run_net_task (Destroy i) calls s = Inr (upd i ConnectDestroy s)"
| "run_net_task (Remove i) calls s = RemoveConnection i s"
| "run_net_task (Shut i) calls s = (if alive (conns s ! i) then Inr (upd i ShutdownInLoop s) else Inl Use_after_free)"
| "run_net_task (Force i) calls s = (if alive (conns s ! i) then Inr (upd i ForceCloseInLoop s) else Inl Use_after_free)"
| "run_net_task (Send_task i msg) calls s = (if alive (conns s ! i) then Inr (SendInLoop i msg s) else Inl Use_after_free)"

text \<open>\<open>TcpServer\<close> started: one connection waits to be accepted.\<close>

definition new_TcpServer :: net_server where
  "new_TcpServer = \<lparr>conns = [new_TcpConnection 1], connections = Map.empty, nextConnId = 2, accepting = 0, posted = [], acts = []\<rparr>"

definition guarded :: "nat \<Rightarrow> net_server \<Rightarrow> net_fault + net_server \<Rightarrow> net_fault + net_server" where
  "guarded i s r = (if alive (conns s ! i) then r else Inl Use_after_free)"

text \<open>
  The steps, with their faults.  While a task runs, it keeps what it owns.  Operations that were not cancelled are not aborted;
  the application calls a connection, in another thread, that it has been told of.
\<close>

inductive net_step :: "net_server \<Rightarrow> net_fault + net_server \<Rightarrow> bool" where
  accept: "net_step s (NewConnection ec s)"
| run: "posted s = t # ts \<Longrightarrow> net_step s (run_net_task t calls (s\<lparr>posted := ts\<rparr>))"
| read: "i < length (conns s) \<Longrightarrow> read_op (conns s ! i) \<noteq> Idle \<Longrightarrow>
    res = Inl Operation_aborted \<longrightarrow> read_op (conns s ! i) = Cancelled \<Longrightarrow>
    net_step s (guarded i s (Inr (HandleRead i res n calls s)))"
| written: "i < length (conns s) \<Longrightarrow> write_op (conns s ! i) \<noteq> Idle \<Longrightarrow>
    ec = Some Operation_aborted \<longrightarrow> write_op (conns s ! i) = Cancelled \<Longrightarrow>
    net_step s (guarded i s (HandleWrite i ec calls s))"
| other_thread: "i < length (conns s) \<Longrightarrow> alive (conns s ! i) \<Longrightarrow> state (conns s ! i) = Established \<or> state (conns s ! i) = CloseWait \<Longrightarrow>
    net_step s (Inr (post_call i call s))"

inductive net_reachable :: "net_server \<Rightarrow> bool" where
  start: "net_reachable new_TcpServer"
| step: "net_reachable s \<Longrightarrow> net_step s (Inr s') \<Longrightarrow> net_reachable (collect s')"

section \<open>One connection\<close>

definition messages_queued :: "net_act list \<Rightarrow> byte list list" where
  "messages_queued h = concat (map (\<lambda>a. case a of Queued m \<Rightarrow> [m] | _ \<Rightarrow> []) h)"

definition messages_written :: "net_act list \<Rightarrow> byte list list" where
  "messages_written h = concat (map (\<lambda>a. case a of Written m \<Rightarrow> [m] | _ \<Rightarrow> []) h)"

definition net_ends :: "net_act list \<Rightarrow> nat" where
  "net_ends h = length (filter (\<lambda>a. case a of Close_cb \<Rightarrow> True | Error_cb _ \<Rightarrow> True | _ \<Rightarrow> False) h)"

lemma messages_simps [simp]:
  "messages_queued [] = []" "messages_queued (h @ h') = messages_queued h @ messages_queued h'"
  "messages_queued (a # h) = (case a of Queued m \<Rightarrow> [m] | _ \<Rightarrow> []) @ messages_queued h"
  "messages_written [] = []" "messages_written (h @ h') = messages_written h @ messages_written h'"
  "messages_written (a # h) = (case a of Written m \<Rightarrow> [m] | _ \<Rightarrow> []) @ messages_written h"
  "net_ends [] = 0" "net_ends (h @ h') = net_ends h + net_ends h'"
  "net_ends (a # h) = (case a of Close_cb \<Rightarrow> 1 | Error_cb _ \<Rightarrow> 1 | _ \<Rightarrow> 0) + net_ends h"
  by (auto simp: messages_queued_def messages_written_def net_ends_def split: net_act.split)

definition history :: "nat \<Rightarrow> net_server \<Rightarrow> net_act list" where
  "history i s = map snd (filter (\<lambda>p. fst p = i) (acts s))"

fun conn_of :: "net_task \<Rightarrow> nat" where
  "conn_of (Establish i) = i"
| "conn_of (Destroy i) = i"
| "conn_of (Remove i) = i"
| "conn_of (Shut i) = i"
| "conn_of (Force i) = i"
| "conn_of (Send_task i _) = i"

definition tasks_of :: "nat \<Rightarrow> net_server \<Rightarrow> net_task list" where
  "tasks_of i s = filter (\<lambda>t. conn_of t = i) (posted s)"

text \<open>
  What holds of a connection that was established: its messages are written in order, a write is under way while there are any,
  unless it failed or is forced to close, and a read is under way until it fails.
\<close>

definition conn_core :: "net_act list \<Rightarrow> net_conn \<Rightarrow> bool" where
  "conn_core h c \<longleftrightarrow> messages_queued h = messages_written h @ output_buffer c \<and>
     (write_op c \<noteq> Idle \<longrightarrow> output_buffer c \<noteq> []) \<and> \<not> overlapped c \<and>
     net_ends h \<le> (if handle_error c then 1 else 0) \<and>
     (handle_error c \<longrightarrow> state c = CloseWait \<or> state c = Closed)"

definition conn_live :: "net_conn \<Rightarrow> bool" where
  "conn_live c \<longleftrightarrow> (\<not> handle_error c \<longrightarrow> read_op c \<noteq> Idle \<and>
     (state c = Established \<or> state c = CloseWait \<and> (OptShutdown \<in> flag c \<or> OptForceClose \<in> flag c)) \<and>
     (OptForceClose \<notin> flag c \<and> output_buffer c \<noteq> [] \<longrightarrow> write_op c \<noteq> Idle))"

text \<open>What is known of place \<open>i\<close>, from its connection, history, registration and tasks.\<close>

definition tasks_ok :: "nat \<Rightarrow> net_conn \<Rightarrow> nat option \<Rightarrow> net_task list \<Rightarrow> bool" where
  "tasks_ok i c reg ts \<longleftrightarrow> Establish i \<notin> set ts \<and> (\<not> handle_error c \<longrightarrow> reg = Some i \<and> Remove i \<notin> set ts) \<and>
     count_list ts (Remove i) \<le> 1 \<and> (Remove i \<in> set ts \<longrightarrow> reg = Some i) \<and>
     (\<not> alive c \<longrightarrow> reg = None \<and> state c = Closed) \<and> (Destroy i \<in> set ts \<longrightarrow> handle_error c) \<and>
     (Shut i \<in> set ts \<longrightarrow> OptShutdown \<in> flag c) \<and> (Force i \<in> set ts \<longrightarrow> OptForceClose \<in> flag c)"

definition running_core :: "nat \<Rightarrow> net_conn \<Rightarrow> net_act list \<Rightarrow> nat option \<Rightarrow> net_task list \<Rightarrow> bool" where
  "running_core i c h reg ts \<longleftrightarrow> conn_core h c \<and> tasks_ok i c reg ts"

definition place_ok :: "nat \<Rightarrow> bool \<Rightarrow> net_conn \<Rightarrow> net_act list \<Rightarrow> nat option \<Rightarrow> net_task list \<Rightarrow> bool" where
  "place_ok i acc c h reg ts \<longleftrightarrow> conn_name c = int i + 1 \<and> (reg = None \<or> reg = Some i) \<and>
     (if acc then c = new_TcpConnection (int i + 1) \<and> h = [] \<and> reg = None \<and> ts = []
      else if state c = Connecting
      then c = (new_TcpConnection (int i + 1))\<lparr>state := Connecting\<rparr> \<and> h = [] \<and> reg = Some i \<and> ts = [Establish i]
      else running_core i c h reg ts \<and> conn_live c)"

definition ok_at :: "net_server \<Rightarrow> nat \<Rightarrow> bool" where
  "ok_at s i \<longleftrightarrow> place_ok i (i = accepting s) (conns s ! i) (history i s) (connections s (int i + 1)) (tasks_of i s)"

definition net_inv :: "net_server \<Rightarrow> bool" where
  "net_inv s \<longleftrightarrow> accepting s < length (conns s) \<and> nextConnId s = int (length (conns s)) + 1 \<and>
     (\<forall>i < length (conns s). ok_at s i) \<and>
     (\<forall>n i. connections s n = Some i \<longrightarrow> i < length (conns s) \<and> n = int i + 1) \<and>
     (\<forall>t \<in> set (posted s). conn_of t < length (conns s)) \<and> (\<forall>i \<ge> length (conns s). history i s = [])"

text \<open>A change at place \<open>i\<close> only.\<close>

definition local_change :: "nat \<Rightarrow> net_server \<Rightarrow> net_server \<Rightarrow> bool" where
  "local_change i s s' \<longleftrightarrow> length (conns s') = length (conns s) \<and> accepting s' = accepting s \<and> nextConnId s' = nextConnId s \<and>
     (\<forall>j. j \<noteq> i \<longrightarrow> conns s' ! j = conns s ! j \<and> history j s' = history j s \<and> tasks_of j s' = tasks_of j s) \<and>
     (\<forall>n. n \<noteq> int i + 1 \<longrightarrow> connections s' n = connections s n) \<and>
     (\<forall>j. connections s' (int i + 1) = Some j \<longrightarrow> j = i \<or> connections s (int i + 1) = Some j) \<and>
     (\<forall>t \<in> set (posted s'). conn_of t = i \<or> t \<in> set (posted s))"

lemma local_refl [simp]: "local_change i s s"
  by (simp add: local_change_def)

lemma local_trans: "local_change i s s' \<Longrightarrow> local_change i s' s'' \<Longrightarrow> local_change i s s''"
  unfolding local_change_def by (elim conjE, intro conjI) (simp_all, blast+)

lemma net_inv_local:
  assumes inv: "net_inv s" and loc: "local_change i s s'" and i: "i < length (conns s)" and ok: "ok_at s' i"
  shows "net_inv s'"
proof -
  note l = loc [unfolded local_change_def]
  have "ok_at s' j" if "j < length (conns s)" for j
  proof (cases "j = i")
    case False
    then have "connections s' (int j + 1) = connections s (int j + 1)" using l by auto
    with False l have "ok_at s' j = ok_at s j" by (simp add: ok_at_def)
    with inv that show ?thesis by (simp add: net_inv_def)
  qed (use ok in simp)
  moreover have "j < length (conns s) \<and> n = int j + 1" if "connections s' n = Some j" for n j
  proof -
    have reg: "k < length (conns s) \<and> m = int k + 1" if "connections s m = Some k" for m k
      using inv that by (simp add: net_inv_def)
    show ?thesis
    proof (cases "n = int i + 1")
      case True
      with that l have "j = i \<or> connections s (int i + 1) = Some j" by blast
      with True i reg [of "int i + 1" j] show ?thesis by auto
    next
      case False
      with that l reg show ?thesis by metis
    qed
  qed
  moreover have "history j s' = []" if "length (conns s) \<le> j" for j
    using that i l inv by (auto simp: net_inv_def)
  moreover have "conn_of t < length (conns s)" if "t \<in> set (posted s')" for t
    using that l i inv by (auto simp: net_inv_def)
  moreover have "accepting s < length (conns s) \<and> nextConnId s = int (length (conns s)) + 1" using inv by (simp add: net_inv_def)
  moreover have "length (conns s') = length (conns s) \<and> accepting s' = accepting s \<and> nextConnId s' = nextConnId s" using l by simp
  ultimately show ?thesis unfolding net_inv_def by metis
qed

text \<open>The elementary changes.\<close>

lemma view_simps [simp]:
  "length (conns (upd i f s)) = length (conns s)" "i < length (conns s) \<Longrightarrow> conns (upd i f s) ! i = f (conns s ! i)"
  "history j (upd i f s) = history j s" "tasks_of j (upd i f s) = tasks_of j s" "connections (upd i f s) = connections s"
  "accepting (upd i f s) = accepting s" "posted (upd i f s) = posted s" "nextConnId (upd i f s) = nextConnId s"
  "conns (act i a s) = conns s" "history i (act i a s) = history i s @ [a]" "tasks_of j (act i a s) = tasks_of j s"
  "connections (act i a s) = connections s" "accepting (act i a s) = accepting s" "posted (act i a s) = posted s"
  "nextConnId (act i a s) = nextConnId s"
  "conns (RunInLoop t s) = conns s" "history j (RunInLoop t s) = history j s"
  "tasks_of j (RunInLoop t s) = tasks_of j s @ (if conn_of t = j then [t] else [])"
  "connections (RunInLoop t s) = connections s" "accepting (RunInLoop t s) = accepting s"
  "posted (RunInLoop t s) = posted s @ [t]" "nextConnId (RunInLoop t s) = nextConnId s"
  by (simp_all add: upd_def act_def RunInLoop_def history_def tasks_of_def)

lemma local_upd [simp]: "local_change i s (upd i f s)"
  by (simp add: local_change_def upd_def history_def tasks_of_def)

lemma local_act [simp]: "local_change i s (act i a s)"
  by (simp add: local_change_def act_def history_def tasks_of_def)

lemma local_RunInLoop [simp]: "conn_of t = i \<Longrightarrow> local_change i s (RunInLoop t s)"
  by (auto simp: local_change_def RunInLoop_def history_def tasks_of_def)

lemma local_chain:
  "local_change i s s' \<Longrightarrow> local_change i s (upd i f s')" "local_change i s s' \<Longrightarrow> local_change i s (act i a s')"
  "conn_of t = i \<Longrightarrow> local_change i s s' \<Longrightarrow> local_change i s (RunInLoop t s')"
  by (auto intro: local_trans)

section \<open>Calls of the application\<close>

text \<open>The calls queue messages, set flags, and post tasks; they start a write when the queue was empty.\<close>

definition conn_effect :: "byte list list \<Rightarrow> net_conn \<Rightarrow> net_conn \<Rightarrow> bool" where
  "conn_effect ms c c' \<longleftrightarrow> output_buffer c' = output_buffer c @ ms \<and> state c' = state c \<and> handle_error c' = handle_error c \<and>
     read_op c' = read_op c \<and> alive c' = alive c \<and> conn_name c' = conn_name c \<and> flag c \<subseteq> flag c' \<and>
     (ms \<noteq> [] \<longrightarrow> state c \<noteq> CloseWait \<and> state c \<noteq> Closed) \<and>
     write_op c' = (if output_buffer c = [] \<and> ms \<noteq> [] then Waiting else write_op c) \<and>
     (overlapped c' \<longrightarrow> overlapped c \<or> output_buffer c = [] \<and> write_op c \<noteq> Idle)"

definition flagged :: "nat \<Rightarrow> net_task list \<Rightarrow> net_conn \<Rightarrow> bool" where
  "flagged i ts c \<longleftrightarrow> set ts \<subseteq> {Shut i, Force i} \<and> (Shut i \<in> set ts \<longrightarrow> OptShutdown \<in> flag c) \<and>
     (Force i \<in> set ts \<longrightarrow> OptForceClose \<in> flag c)"

definition call_effect :: "nat \<Rightarrow> net_server \<Rightarrow> net_server \<Rightarrow> bool" where
  "call_effect i s s' \<longleftrightarrow> local_change i s s' \<and> connections s' = connections s \<and>
     (\<exists>ms. conn_effect ms (conns s ! i) (conns s' ! i) \<and> messages_queued (history i s') = messages_queued (history i s) @ ms \<and>
       messages_written (history i s') = messages_written (history i s) \<and> net_ends (history i s') = net_ends (history i s)) \<and>
     (\<exists>ts. tasks_of i s' = tasks_of i s @ ts \<and> flagged i ts (conns s' ! i))"

lemma conn_effect_trans: "conn_effect ms c c' \<Longrightarrow> conn_effect ms' c' c'' \<Longrightarrow> conn_effect (ms @ ms') c c''"
  unfolding conn_effect_def by (elim conjE, intro conjI; (simp; fail)?) (fastforce split: if_splits)+

lemma call_effect_refl: "call_effect i s s"
  by (auto simp: call_effect_def conn_effect_def flagged_def intro!: exI [of _ "[]"])

lemma call_effect_trans:
  assumes "call_effect i s s'" "call_effect i s' s''"
  shows "call_effect i s s''"
proof -
  from assms obtain ms ts ms' ts' where e:
    "conn_effect ms (conns s ! i) (conns s' ! i)" "messages_queued (history i s') = messages_queued (history i s) @ ms"
    "conn_effect ms' (conns s' ! i) (conns s'' ! i)" "messages_queued (history i s'') = messages_queued (history i s') @ ms'"
    "tasks_of i s' = tasks_of i s @ ts" "flagged i ts (conns s' ! i)"
    "tasks_of i s'' = tasks_of i s' @ ts'" "flagged i ts' (conns s'' ! i)"
    unfolding call_effect_def by blast
  have "\<exists>ms. conn_effect ms (conns s ! i) (conns s'' ! i) \<and> messages_queued (history i s'') = messages_queued (history i s) @ ms"
    using conn_effect_trans [OF e(1,3)] e(2,4) by auto
  moreover have "\<exists>ts. tasks_of i s'' = tasks_of i s @ ts \<and> flagged i ts (conns s'' ! i)"
    using e(3,5-8) by (intro exI [of _ "ts @ ts'"]) (auto simp: flagged_def conn_effect_def)
  moreover have "local_change i s s''" using assms local_trans by (auto simp: call_effect_def)
  ultimately show ?thesis using assms by (auto simp: call_effect_def)
qed

lemma run_call_effect:
  assumes "i < length (conns s)"
  shows "call_effect i s (run_call i call s)"
proof (cases call)
  case (Call_Send msg)
  have "local_change i s (SendInLoop i msg s)" by (simp add: SendInLoop_def Let_def local_chain)
  moreover have "connections (SendInLoop i msg s) = connections s" "tasks_of i (SendInLoop i msg s) = tasks_of i s"
    by (simp_all add: SendInLoop_def Let_def)
  moreover have "\<exists>ms. conn_effect ms (conns s ! i) (conns (SendInLoop i msg s) ! i) \<and>
      messages_queued (history i (SendInLoop i msg s)) = messages_queued (history i s) @ ms \<and>
      messages_written (history i (SendInLoop i msg s)) = messages_written (history i s) \<and>
      net_ends (history i (SendInLoop i msg s)) = net_ends (history i s)"
    using assms
    by (intro exI [of _ "if state (conns s ! i) = CloseWait \<or> state (conns s ! i) = Closed then [] else [msg]"])
      (auto simp: SendInLoop_def Let_def conn_effect_def AsyncWrite_def)
  ultimately show ?thesis by (auto simp: Call_Send call_effect_def flagged_def)
next
  case (Call_Shutdown callback)
  have "local_change i s (Shutdown i callback s)" by (simp add: Shutdown_def local_chain)
  then show ?thesis using assms
    by (auto simp: Call_Shutdown call_effect_def Shutdown_def conn_effect_def flagged_def intro!: exI [of _ "[]"])
next
  case Call_ForceClose
  have "local_change i s (ForceClose i s)" by (simp add: ForceClose_def local_chain)
  then show ?thesis using assms
    by (auto simp: Call_ForceClose call_effect_def ForceClose_def conn_effect_def flagged_def intro!: exI [of _ "[]"])
qed

lemma call_effect_length: "call_effect i s s' \<Longrightarrow> length (conns s') = length (conns s)"
  by (simp add: call_effect_def local_change_def)

lemma run_calls_effect: "i < length (conns s) \<Longrightarrow> call_effect i s (fold (run_call i) calls s)"
proof (induction calls arbitrary: s)
  case (Cons call calls)
  note effect = run_call_effect [OF Cons.prems, of call]
  have "i < length (conns (run_call i call s))" using Cons.prems call_effect_length [OF effect] by simp
  from call_effect_trans [OF effect Cons.IH [OF this]] show ?case by simp
qed (simp add: call_effect_refl)

section \<open>The handlers\<close>

definition core_at :: "net_server \<Rightarrow> nat \<Rightarrow> bool" where
  "core_at s i \<longleftrightarrow> i < length (conns s) \<and> i \<noteq> accepting s \<and> conn_name (conns s ! i) = int i + 1 \<and>
     (connections s (int i + 1) = None \<or> connections s (int i + 1) = Some i) \<and> state (conns s ! i) \<noteq> Connecting \<and>
     running_core i (conns s ! i) (history i s) (connections s (int i + 1)) (tasks_of i s)"

lemma ok_at_core: "core_at s i \<Longrightarrow> conn_live (conns s ! i) \<Longrightarrow> ok_at s i"
  by (simp add: ok_at_def place_ok_def core_at_def)

lemma running_at:
  assumes "net_inv s" "i < length (conns s)"
    "read_op (conns s ! i) \<noteq> Idle \<or> write_op (conns s ! i) \<noteq> Idle \<or> state (conns s ! i) = Established \<or> state (conns s ! i) = CloseWait"
  shows "core_at s i \<and> conn_live (conns s ! i)"
proof -
  have "ok_at s i" using assms(1,2) by (simp add: net_inv_def)
  then show ?thesis using assms(2,3)
    by (auto simp: ok_at_def place_ok_def core_at_def new_TcpConnection_def split: if_splits)
qed

lemma tasks_ok_more:
  assumes "tasks_ok i c reg ts" "flagged i ts' c'" "handle_error c' = handle_error c" "alive c' = alive c" "state c' = state c"
    "flag c \<subseteq> flag c'"
  shows "tasks_ok i c' reg (ts @ ts')"
proof -
  have "Remove i \<notin> set ts'" "Establish i \<notin> set ts'" "Destroy i \<notin> set ts'" using assms(2) by (auto simp: flagged_def)
  moreover from this have "count_list ts' (Remove i) = 0" by simp
  moreover have "Shut i \<in> set ts' \<longrightarrow> OptShutdown \<in> flag c'" "Force i \<in> set ts' \<longrightarrow> OptForceClose \<in> flag c'"
    using assms(2) by (simp_all add: flagged_def)
  ultimately show ?thesis using assms(1,3-6) by (auto simp: tasks_ok_def)
qed

lemma conn_core_more:
  assumes "conn_core h c" "conn_effect ms c c'" "messages_queued h' = messages_queued h @ ms"
    "messages_written h' = messages_written h" "net_ends h' = net_ends h"
  shows "conn_core h' c'"
  using assms by (auto simp: conn_core_def conn_effect_def split: if_splits)

lemma core_effect:
  assumes "core_at s i" "call_effect i s s'"
  shows "core_at s' i"
proof -
  have len: "length (conns s') = length (conns s)" "accepting s' = accepting s"
    using assms(2) by (simp_all add: call_effect_def local_change_def)
  obtain ms ts where e: "conn_effect ms (conns s ! i) (conns s' ! i)"
    "messages_queued (history i s') = messages_queued (history i s) @ ms"
    "messages_written (history i s') = messages_written (history i s)" "net_ends (history i s') = net_ends (history i s)"
    "connections s' = connections s" "tasks_of i s' = tasks_of i s @ ts" "flagged i ts (conns s' ! i)"
    using assms(2) unfolding call_effect_def by blast
  have "conn_core (history i s') (conns s' ! i)"
    by (rule conn_core_more [OF _ e(1-4)]) (use assms(1) in \<open>simp add: core_at_def running_core_def\<close>)
  moreover have "tasks_ok i (conns s' ! i) (connections s (int i + 1)) (tasks_of i s @ ts)"
    by (rule tasks_ok_more [OF _ e(7)]) (use assms(1) e(1) in \<open>auto simp: core_at_def running_core_def conn_effect_def\<close>)
  ultimately show ?thesis using assms(1) e(1,5,6) len by (simp add: core_at_def running_core_def conn_effect_def)
qed

lemma live_effect:
  assumes "conn_live (conns s ! i)" "call_effect i s s'"
  shows "conn_live (conns s' ! i)"
proof -
  obtain ms where "conn_effect ms (conns s ! i) (conns s' ! i)" using assms(2) by (auto simp: call_effect_def)
  with assms(1) show ?thesis by (auto simp: conn_effect_def conn_live_def split: if_splits)
qed

lemma core_upd:
  assumes "core_at s i" "output_buffer (f (conns s ! i)) = output_buffer (conns s ! i)" "\<not> overlapped (conns s ! i) \<longrightarrow> \<not> overlapped (f (conns s ! i))"
    "write_op (f (conns s ! i)) = Idle \<or> write_op (f (conns s ! i)) = write_op (conns s ! i) \<or> output_buffer (conns s ! i) \<noteq> []"
    "handle_error (f (conns s ! i)) = handle_error (conns s ! i)" "state (f (conns s ! i)) = state (conns s ! i)"
    "conn_name (f (conns s ! i)) = conn_name (conns s ! i)" "flag (conns s ! i) \<subseteq> flag (f (conns s ! i))" "alive (f (conns s ! i)) = alive (conns s ! i)"
  shows "core_at (upd i f s) i"
proof -
  have i: "i < length (conns s)" using assms(1) by (simp add: core_at_def)
  have old: "conn_core (history i s) (conns s ! i)" "tasks_ok i (conns s ! i) (connections s (int i + 1)) (tasks_of i s)"
    using assms(1) by (simp_all add: core_at_def running_core_def)
  have "conn_core (history i s) (f (conns s ! i))" using old(1) assms(2-6) by (auto simp: conn_core_def)
  moreover have "tasks_ok i (f (conns s ! i)) (connections s (int i + 1)) (tasks_of i s @ [])"
    by (rule tasks_ok_more [OF old(2)]) (simp_all add: flagged_def assms)
  ultimately show ?thesis using assms(1,6,7) i by (simp add: core_at_def running_core_def)
qed

lemma core_act:
  assumes "core_at s i" "\<forall>m. a \<noteq> Queued m" "\<forall>m. a \<noteq> Written m" "a \<noteq> Close_cb" "\<forall>e. a \<noteq> Error_cb e"
  shows "core_at (act i a s) i"
  using assms by (cases a; cases "handle_error (conns s ! i)") (simp_all add: core_at_def running_core_def conn_core_def)

lemma HandleError_ok:
  assumes "core_at s i"
  shows "ok_at (HandleError i ec s) i" "local_change i s (HandleError i ec s)"
proof -
  show "local_change i s (HandleError i ec s)"
    by (simp add: HandleError_def OnErrorEx_def Let_def local_chain)
  have i: "i < length (conns s)" using assms by (simp add: core_at_def)
  let ?s1 = "upd i (\<lambda>c. if state c \<noteq> Closed \<and> state c \<noteq> CloseWait then c\<lparr>state := CloseWait\<rparr> else c) s"
  let ?c = "conns s ! i"
  have core1: "core_at ?s1 i" using assms i by (auto simp: core_at_def running_core_def conn_core_def tasks_ok_def)
  show "ok_at (HandleError i ec s) i"
  proof (cases "handle_error ?c")
    case True
    then have "HandleError i ec s = ?s1" using i by (simp add: HandleError_def Let_def)
    moreover have "conn_live (conns ?s1 ! i)" using i True by (simp add: conn_live_def)
    ultimately show ?thesis using ok_at_core [OF core1] by simp
  next
    case False
    let ?s2 = "upd i (\<lambda>c. c\<lparr>handle_error := True\<rparr>) ?s1"
    let ?s3 = "if NeedMessageCallback (conns ?s1 ! i) then act i (if ec = Eof then Close_cb else Error_cb ec) ?s2 else ?s2"
    have eq: "HandleError i ec s = RunInLoop (Remove i) ?s3" using i False by (simp add: HandleError_def OnErrorEx_def Let_def)
    have "conn_live (conns (RunInLoop (Remove i) ?s3) ! i)" using i by (simp add: conn_live_def)
    moreover have "core_at (RunInLoop (Remove i) ?s3) i"
      using core1 i False by (auto simp: core_at_def running_core_def conn_core_def tasks_ok_def split: if_splits)
    ultimately show ?thesis unfolding eq by (intro ok_at_core)
  qed
qed

lemma HandleRead_callback:
  assumes "core_at s i" "conn_live (conns s ! i)"
    and f: "\<And>c. f c = c\<lparr>read_op := Idle, input_buffer := g c\<rparr>" and eff: "call_effect i (act i (Message_cb m) (upd i f s)) s'"
  shows "ok_at (upd i AsyncRead s') i" "local_change i s (upd i AsyncRead s')"
proof -
  have i: "i < length (conns s)" using assms(1) by (simp add: core_at_def)
  have "core_at (act i (Message_cb m) (upd i f s)) i" by (intro core_act core_upd) (simp_all add: assms(1) f)
  note core = core_effect [OF this eff]
  obtain ms where "conn_effect ms (conns (act i (Message_cb m) (upd i f s)) ! i) (conns s' ! i)"
    using eff by (auto simp: call_effect_def)
  note ms = this
  have idle: "read_op (conns s' ! i) = Idle" using ms i by (simp add: conn_effect_def f)
  from ms assms(2) i have live: "conn_live (AsyncRead (conns s' ! i))"
    by (auto simp: conn_effect_def conn_live_def AsyncRead_def f split: if_splits)
  have "core_at (upd i AsyncRead s') i" by (rule core_upd [OF core]) (use idle in \<open>simp_all add: AsyncRead_def\<close>)
  moreover have "i < length (conns s')" using core by (simp add: core_at_def)
  ultimately show "ok_at (upd i AsyncRead s') i" using live by (intro ok_at_core) simp_all
  have "local_change i s (act i (Message_cb m) (upd i f s))" by (simp add: local_chain)
  moreover have "local_change i (act i (Message_cb m) (upd i f s)) s'" using eff by (simp add: call_effect_def)
  ultimately show "local_change i s (upd i AsyncRead s')" by (intro local_chain(1)) (rule local_trans)
qed

lemma upd_upd [simp]: "i < length (conns s) \<Longrightarrow> upd i f (upd i g s) = upd i (f \<circ> g) s"
  by (simp add: upd_def)

lemma upd_act: "upd i f (act i a s) = act i a (upd i f s)"
  by (simp add: upd_def act_def)

lemma HandleRead_ok:
  assumes "core_at s i" "conn_live (conns s ! i)"
  shows "ok_at (HandleRead i res n calls s) i \<and> local_change i s (HandleRead i res n calls s)"
proof -
  let ?s = "upd i (\<lambda>c. c\<lparr>read_op := Idle\<rparr>) s"
  have i: "i < length (conns s)" using assms(1) by (simp add: core_at_def)
  have s: "core_at ?s i" by (rule core_upd [OF assms(1)]) simp_all
  show ?thesis
  proof (cases res)
    case (Inl ec)
    have "local_change i s (HandleError i ec ?s)" using local_trans [OF local_upd HandleError_ok(2) [OF s]] .
    with HandleError_ok(1) [OF s] show ?thesis by (simp add: HandleRead_def Inl)
  next
    case (Inr bytes)
    show ?thesis
    proof (cases "NeedMessageCallback (conns s ! i)")
      case True
      let ?m = "input_buffer (conns s ! i) @ bytes"
      let ?f = "\<lambda>c. c\<lparr>read_op := Idle, input_buffer := drop n (input_buffer c @ bytes)\<rparr>"
      have "HandleRead i res n calls s = upd i AsyncRead (fold (run_call i) calls (act i (Message_cb ?m) (upd i ?f s)))"
        using True i by (simp add: HandleRead_def Inr Let_def NeedMessageCallback_def upd_act comp_def)
      moreover have "call_effect i (act i (Message_cb ?m) (upd i ?f s)) (fold (run_call i) calls (act i (Message_cb ?m) (upd i ?f s)))"
        using i by (intro run_calls_effect) simp
      ultimately show ?thesis using HandleRead_callback [OF assms] by simp
    next
      case False
      let ?f = "\<lambda>c. c\<lparr>input_buffer := [], read_op := Waiting\<rparr>"
      have "HandleRead i res n calls s = upd i ?f s"
        using False i by (simp add: HandleRead_def Inr Let_def NeedMessageCallback_def AsyncRead_def comp_def)
      moreover have "core_at (upd i ?f s) i" by (rule core_upd [OF assms(1)]) simp_all
      moreover have "conn_live (conns (upd i ?f s) ! i)" using assms(2) i by (simp add: conn_live_def)
      ultimately show ?thesis using ok_at_core by simp
    qed
  qed
qed

lemma core_write:
  assumes core: "core_at s i" and msg: "output_buffer (conns s ! i) = msg # rest" "write_op (conns s ! i) = Idle"
    and eff: "call_effect i (act i Write_complete (act i (Written msg) s)) s'"
  shows "core_at (upd i (\<lambda>c. c\<lparr>output_buffer := tl (output_buffer c)\<rparr>) s') i"
proof -
  let ?c = "(conns s' ! i)\<lparr>output_buffer := tl (output_buffer (conns s' ! i))\<rparr>"
  have len: "length (conns s') = length (conns s)" "accepting s' = accepting s"
    using eff by (simp_all add: call_effect_def local_change_def)
  obtain ms ts where e: "conn_effect ms (conns s ! i) (conns s' ! i)"
    "messages_queued (history i s') = messages_queued (history i s) @ ms"
    "messages_written (history i s') = messages_written (history i s) @ [msg]" "net_ends (history i s') = net_ends (history i s)"
    "connections s' = connections s" "tasks_of i s' = tasks_of i s @ ts" "flagged i ts (conns s' ! i)"
    using eff unfolding call_effect_def by auto
  have old: "conn_core (history i s) (conns s ! i)" "tasks_ok i (conns s ! i) (connections s (int i + 1)) (tasks_of i s)"
    using core by (simp_all add: core_at_def running_core_def)
  have "conn_core (history i s') ?c" using old(1) e(1-4) msg by (simp add: conn_core_def conn_effect_def)
  moreover have "tasks_ok i ?c (connections s (int i + 1)) (tasks_of i s @ ts)"
    by (rule tasks_ok_more [OF old(2)]) (use e(1,7) in \<open>auto simp: conn_effect_def flagged_def\<close>)
  ultimately show ?thesis using core e(1,5,6) len by (simp add: core_at_def running_core_def conn_effect_def)
qed

lemma core_after_write:
  assumes "core_at s i" "write_op (conns s ! i) = Idle"
  shows "core_at (upd i after_write s) i"
  by (rule core_upd [OF assms(1)]) (auto simp: after_write_def cancel_def AsyncWrite_def assms(2))

lemma live_after_write:
  assumes "conn_live c0" "conn_effect ms (c0\<lparr>write_op := Idle\<rparr>) c" "output_buffer c0 = msg # rest"
  shows "conn_live (after_write (c\<lparr>output_buffer := tl (output_buffer c)\<rparr>))"
proof -
  have "cancel_op op = Idle \<longleftrightarrow> op = Idle" for op by (cases op) simp_all
  with assms show ?thesis
    by (auto simp: conn_live_def conn_effect_def after_write_def cancel_def AsyncWrite_def split: if_splits)
qed

lemma HandleWrite_ok:
  assumes "core_at s i" "conn_live (conns s ! i)" "write_op (conns s ! i) \<noteq> Idle"
  shows "\<exists>s'. HandleWrite i ec calls s = Inr s' \<and> ok_at s' i \<and> local_change i s s'"
proof -
  have i: "i < length (conns s)" using assms(1) by (simp add: core_at_def)
  obtain msg rest where msg: "output_buffer (conns s ! i) = msg # rest"
    using assms(1,3) by (cases "output_buffer (conns s ! i)") (auto simp: core_at_def running_core_def conn_core_def)
  let ?s = "upd i (\<lambda>c. c\<lparr>write_op := Idle\<rparr>) s"
  have core: "core_at ?s i" by (rule core_upd [OF assms(1)]) simp_all
  show ?thesis
  proof (cases ec)
    case (Some e)
    have "local_change i s (HandleError i e ?s)" using local_trans [OF local_upd HandleError_ok(2) [OF core]] .
    with HandleError_ok(1) [OF core] i show ?thesis by (simp add: HandleWrite_def Some msg)
  next
    case None
    let ?s1 = "act i Write_complete (act i (Written msg) ?s)"
    let ?s2 = "fold (run_call i) calls ?s1"
    let ?s3 = "upd i (\<lambda>c. c\<lparr>output_buffer := tl (output_buffer c)\<rparr>) ?s2"
    have eff: "call_effect i ?s1 ?s2" using i by (intro run_calls_effect) simp
    then obtain ms where ms: "conn_effect ms ((conns s ! i)\<lparr>write_op := Idle\<rparr>) (conns ?s2 ! i)"
      using i by (auto simp: call_effect_def)
    have i2: "i < length (conns ?s2)" using i call_effect_length [OF eff] by simp
    have "core_at ?s3 i" by (rule core_write [OF core _ _ eff]) (use i msg in simp_all)
    moreover have "write_op (conns ?s3 ! i) = Idle" using i2 ms msg by (simp add: conn_effect_def)
    ultimately have "core_at (upd i after_write ?s3) i" by (rule core_after_write)
    moreover have "conn_live (conns (upd i after_write ?s3) ! i)" using live_after_write [OF assms(2) ms msg] i2 by simp
    ultimately have "ok_at (upd i after_write ?s3) i" by (rule ok_at_core)
    moreover have "local_change i s (upd i after_write ?s3)"
    proof -
      have "local_change i s ?s1" by (simp add: local_chain)
      moreover have "local_change i ?s1 ?s2" using eff by (simp add: call_effect_def)
      ultimately have "local_change i s ?s2" by (rule local_trans)
      then show ?thesis by (intro local_chain(1))
    qed
    ultimately show ?thesis using i by (simp add: HandleWrite_def None msg)
  qed
qed

section \<open>The tasks\<close>

text \<open>A task is taken from the front.\<close>

lemma pop_simps:
  assumes "posted s = t # ts"
  shows "local_change (conn_of t) s (s\<lparr>posted := ts\<rparr>)" "conns (s\<lparr>posted := ts\<rparr>) = conns s"
    "tasks_of (conn_of t) s = t # tasks_of (conn_of t) (s\<lparr>posted := ts\<rparr>)" "history i (s\<lparr>posted := ts\<rparr>) = history i s"
    "i \<noteq> conn_of t \<Longrightarrow> tasks_of i (s\<lparr>posted := ts\<rparr>) = tasks_of i s"
  using assms by (auto simp: local_change_def tasks_of_def history_def)

lemma core_pop:
  assumes "core_at s i" "posted s = t # ts" "conn_of t = i"
  shows "core_at (s\<lparr>posted := ts\<rparr>) i"
  using assms(1,3) pop_simps [OF assms(2)] by (auto simp: core_at_def running_core_def tasks_ok_def split: if_splits)

text \<open>A connection with a task is established, or about to be.\<close>

lemma task_place:
  assumes "net_inv s" "posted s = t # ts" "t \<noteq> Establish (conn_of t)"
  shows "core_at s (conn_of t) \<and> conn_live (conns s ! conn_of t)"
proof -
  have i: "conn_of t < length (conns s)" "ok_at s (conn_of t)" using assms(1,2) by (simp_all add: net_inv_def)
  have "tasks_of (conn_of t) s \<noteq> []" "tasks_of (conn_of t) s \<noteq> [Establish (conn_of t)]"
    using pop_simps(3) [OF assms(2)] assms(3) by auto
  with i show ?thesis by (auto simp: ok_at_def place_ok_def core_at_def split: if_splits)
qed

lemma establish_ok:
  assumes "net_inv s" "posted s = Establish i # ts"
  shows "ok_at (ConnectEstablised i calls (s\<lparr>posted := ts\<rparr>)) i \<and> local_change i s (ConnectEstablised i calls (s\<lparr>posted := ts\<rparr>))"
proof -
  let ?s = "s\<lparr>posted := ts\<rparr>"
  let ?s1 = "act i Connection_cb (upd i (\<lambda>c. AsyncRead (c\<lparr>state := Established\<rparr>)) ?s)"
  have i: "i < length (conns s)" "ok_at s i" using assms by (auto simp: net_inv_def)
  have ts: "tasks_of i s = Establish i # tasks_of i ?s" using pop_simps(3) [OF assms(2)] by simp
  have new: "i \<noteq> accepting s" "conns s ! i = (new_TcpConnection (int i + 1))\<lparr>state := Connecting\<rparr>" "history i s = []"
    "connections s (int i + 1) = Some i" "tasks_of i ?s = []"
    using i(2) ts by (auto simp: ok_at_def place_ok_def running_core_def tasks_ok_def split: if_splits)
  have "core_at ?s1 i" "conn_live (conns ?s1 ! i)" using i new pop_simps(4) [OF assms(2)]
    by (simp_all add: core_at_def running_core_def conn_core_def tasks_ok_def conn_live_def AsyncRead_def new_TcpConnection_def)
  moreover have eff: "call_effect i ?s1 (fold (run_call i) calls ?s1)" using i(1) by (intro run_calls_effect) simp
  ultimately have "core_at (fold (run_call i) calls ?s1) i" "conn_live (conns (fold (run_call i) calls ?s1) ! i)"
    using core_effect [OF _ eff] live_effect [OF _ eff] by blast+
  moreover have "local_change i s (fold (run_call i) calls ?s1)"
  proof -
    have "local_change i s ?s" using pop_simps(1) [OF assms(2)] by simp
    then have "local_change i s ?s1" by (intro local_chain)
    moreover have "local_change i ?s1 (fold (run_call i) calls ?s1)" using eff by (simp add: call_effect_def)
    ultimately show ?thesis by (rule local_trans)
  qed
  ultimately show ?thesis using ok_at_core by (simp add: ConnectEstablised_def)
qed

lemma cancel_op_Idle [simp]: "cancel_op op = Idle \<longleftrightarrow> op = Idle"
  by (cases op) simp_all

text \<open>Shutting down and closing, in the loop.\<close>

lemma shut_ok:
  assumes "core_at s i" "conn_live (conns s ! i)" "OptShutdown \<in> flag (conns s ! i)"
  shows "ok_at (upd i ShutdownInLoop s) i"
proof -
  have i: "i < length (conns s)" using assms(1) by (simp add: core_at_def)
  show ?thesis
  proof (cases "state (conns s ! i) = Closed \<or> state (conns s ! i) = CloseWait")
    case True
    with i have "upd i ShutdownInLoop s = s" by (simp add: upd_def ShutdownInLoop_def)
    with ok_at_core [OF assms(1,2)] show ?thesis by simp
  next
    case False
    with assms i have "core_at (upd i ShutdownInLoop s) i" "conn_live (conns (upd i ShutdownInLoop s) ! i)"
      by (auto simp: core_at_def running_core_def conn_core_def tasks_ok_def conn_live_def ShutdownInLoop_def cancel_def Let_def)
    then show ?thesis by (rule ok_at_core)
  qed
qed

lemma force_ok:
  assumes "core_at s i" "conn_live (conns s ! i)" "OptForceClose \<in> flag (conns s ! i)"
  shows "ok_at (upd i ForceCloseInLoop s) i"
proof -
  have i: "i < length (conns s)" using assms(1) by (simp add: core_at_def)
  show ?thesis
  proof (cases "state (conns s ! i) = Closed")
    case True
    with i have "upd i ForceCloseInLoop s = s" by (simp add: upd_def ForceCloseInLoop_def)
    with ok_at_core [OF assms(1,2)] show ?thesis by simp
  next
    case False
    with assms i have "core_at (upd i ForceCloseInLoop s) i" "conn_live (conns (upd i ForceCloseInLoop s) ! i)"
      by (auto simp: core_at_def running_core_def conn_core_def tasks_ok_def conn_live_def ForceCloseInLoop_def cancel_def)
    then show ?thesis by (rule ok_at_core)
  qed
qed

lemma conn_destroy_ok:
  assumes "core_at s i" "handle_error (conns s ! i)"
  shows "ok_at (upd i ConnectDestroy s) i"
proof -
  have "i < length (conns s)" using assms(1) by (simp add: core_at_def)
  with assms have "core_at (upd i ConnectDestroy s) i" "conn_live (conns (upd i ConnectDestroy s) ! i)"
    by (auto simp: core_at_def running_core_def conn_core_def tasks_ok_def conn_live_def ConnectDestroy_def cancel_def)
  then show ?thesis by (rule ok_at_core)
qed

lemma remove_ok:
  assumes "core_at s i" "connections s (int i + 1) = Some i" "handle_error (conns s ! i)" "Remove i \<notin> set (tasks_of i s)"
  shows "\<exists>s'. RemoveConnection i s = Inr s' \<and> ok_at s' i \<and> local_change i s s'"
proof -
  let ?s = "RunInLoop (Destroy i) (s\<lparr>connections := (connections s)(int i + 1 := None)\<rparr>)"
  have frame: "history j (s\<lparr>connections := m\<rparr>) = history j s" "tasks_of j (s\<lparr>connections := m\<rparr>) = tasks_of j s" for j m
    by (simp_all add: history_def tasks_of_def)
  have name: "conn_name (conns s ! i) = int i + 1" using assms(1) by (simp add: core_at_def)
  have "RemoveConnection i s = Inr ?s" using assms(2) by (simp add: RemoveConnection_def name)
  moreover have "core_at ?s i" "conn_live (conns ?s ! i)" using assms
    by (auto simp: core_at_def running_core_def tasks_ok_def conn_live_def frame)
  moreover have "local_change i s ?s"
    by (auto simp: local_change_def frame)
  ultimately show ?thesis using ok_at_core by blast
qed

lemma task_ok:
  assumes inv: "net_inv s" and t: "posted s = t # ts"
  shows "run_net_task t calls (s\<lparr>posted := ts\<rparr>) = Inl Use_after_free \<or>
    (\<exists>s'. run_net_task t calls (s\<lparr>posted := ts\<rparr>) = Inr s' \<and> ok_at s' (conn_of t) \<and> local_change (conn_of t) s s')"
proof (cases "t = Establish (conn_of t)")
  case True
  define i where "i = conn_of t"
  with True t have "posted s = Establish i # ts" by simp
  from establish_ok [OF inv this] True show ?thesis by (auto simp: i_def [symmetric] simp del: fold_simps)
next
  case False
  define i where "i = conn_of t"
  let ?s = "s\<lparr>posted := ts\<rparr>"
  have place: "core_at s i" "conn_live (conns ?s ! i)" using task_place [OF inv t False] by (simp_all add: i_def)
  have core: "core_at ?s i" using core_pop [OF place(1) t] by (simp add: i_def)
  have tasks: "tasks_ok i (conns s ! i) (connections s (int i + 1)) (t # tasks_of i ?s)"
    using place(1) pop_simps(3) [OF t] by (simp add: core_at_def running_core_def i_def)
  have loc: "local_change i s ?s" using pop_simps(1) [OF t] by (simp add: i_def)
  have upd: "local_change i s (upd i f ?s)" for f using loc by (rule local_chain(1))
  show ?thesis
  proof (cases t)
    case (Destroy j)
    then show ?thesis using conn_destroy_ok [OF core] upd tasks by (simp add: i_def tasks_ok_def)
  next
    case (Remove j)
    then have "connections s (int i + 1) = Some i" "handle_error (conns s ! i)" "Remove i \<notin> set (tasks_of i ?s)"
      using tasks by (simp_all add: i_def tasks_ok_def count_list_0_iff)
    then obtain s' where "RemoveConnection i ?s = Inr s'" "ok_at s' i" "local_change i ?s s'"
      using remove_ok [OF core] by auto
    with loc show ?thesis using local_trans by (fastforce simp: Remove i_def)
  next
    case (Shut j)
    then show ?thesis using shut_ok [OF core place(2)] upd tasks by (simp add: i_def tasks_ok_def)
  next
    case (Force j)
    then show ?thesis using force_ok [OF core place(2)] upd tasks by (simp add: i_def tasks_ok_def)
  next
    case (Send_task j msg)
    have eff: "call_effect i ?s (SendInLoop i msg ?s)"
      using run_call_effect [of i ?s "Call_Send msg"] core by (simp add: core_at_def)
    have "ok_at (SendInLoop i msg ?s) i" using ok_at_core core_effect [OF core eff] live_effect [OF place(2) eff] by simp
    moreover have "local_change i s (SendInLoop i msg ?s)" using loc eff local_trans by (auto simp: call_effect_def)
    ultimately show ?thesis by (simp add: Send_task i_def)
  qed (use False in simp)
qed

section \<open>Accepting and freeing\<close>

lemma tasks_of_out: "\<forall>t \<in> set (posted s). conn_of t < n \<Longrightarrow> n \<le> i \<Longrightarrow> tasks_of i s = []"
  by (auto simp: tasks_of_def filter_empty_conv)

lemma accept_ok:
  assumes inv: "net_inv s" and acc: "NewConnection None s = Inr s'"
  shows "net_inv s'"
proof -
  let ?i = "accepting s" let ?n = "length (conns s)"
  let ?c = "(new_TcpConnection (int ?i + 1))\<lparr>state := Connecting\<rparr>"
  have i: "?i < ?n" and ok: "\<And>j. j < ?n \<Longrightarrow> ok_at s j" and next_id: "nextConnId s = int ?n + 1"
    and reg: "\<And>m j. connections s m = Some j \<Longrightarrow> j < ?n \<and> m = int j + 1"
    and tasks: "\<forall>t \<in> set (posted s). conn_of t < ?n" and hist: "\<And>j. ?n \<le> j \<Longrightarrow> history j s = []"
    using inv by (auto simp: net_inv_def)
  have old: "conns s ! ?i = new_TcpConnection (int ?i + 1)" "history ?i s = []" "tasks_of ?i s = []"
    using ok [OF i] by (simp_all add: ok_at_def place_ok_def)
  have s': "s' = s\<lparr>conns := (conns s)[?i := ?c] @ [new_TcpConnection (int ?n + 1)],
      connections := (connections s)(int ?i + 1 \<mapsto> ?i), nextConnId := int ?n + 2, accepting := ?n,
      posted := posted s @ [Establish ?i]\<rparr>"
    using acc i by (auto simp: NewConnection_def StartAccept_def Let_def RunInLoop_def upd_def old(1) next_id
      new_TcpConnection_def split: if_splits)
  have h: "history j s' = history j s" for j by (simp add: s' history_def)
  have t: "tasks_of j s' = tasks_of j s @ (if j = ?i then [Establish ?i] else [])" for j by (simp add: s' tasks_of_def)
  have c: "conns s' ! j = (if j = ?i then ?c else if j = ?n then new_TcpConnection (int ?n + 1) else conns s ! j)"
    if "j \<le> ?n" for j using that i by (auto simp: s' nth_append)
  have place: "ok_at s' j" if j: "j \<le> ?n" for j
  proof -
    consider "j = ?i" | "j = ?n" | "j < ?n" "j \<noteq> ?i" using j by linarith
    then show ?thesis
    proof cases
      case 1
      then show ?thesis using i old c [of ?i] by (simp add: ok_at_def place_ok_def h t) (simp add: s' new_TcpConnection_def)
    next
      case 2
      have "connections s (int ?n + 1) = None" using reg [of "int ?n + 1"] by (cases "connections s (int ?n + 1)") auto
      then show ?thesis using 2 i c [of ?n] hist [of ?n] tasks_of_out [OF tasks, of ?n]
        by (simp add: ok_at_def place_ok_def h t) (simp add: s' new_TcpConnection_def)
    next
      case 3
      then show ?thesis using ok [OF 3(1)] c [of j] by (simp add: ok_at_def h t) (simp add: s')
    qed
  qed
  have "j < length (conns s') \<and> m = int j + 1" if "connections s' m = Some j" for m j
    using that reg [of m j] i by (auto simp: s' split: if_splits)
  moreover have "\<forall>t \<in> set (posted s'). conn_of t < length (conns s')" using tasks i by (auto simp: s')
  moreover have "\<forall>j \<ge> length (conns s'). history j s' = []" using hist by (simp add: h) (simp add: s')
  moreover have "accepting s' < length (conns s') \<and> nextConnId s' = int (length (conns s')) + 1" by (simp add: s')
  moreover have "\<forall>j < length (conns s'). ok_at s' j" using place by (simp add: s' less_Suc_eq_le)
  ultimately show ?thesis by (simp add: net_inv_def)
qed

lemma collect_at:
  assumes "i < length (conns s)"
  shows "conns (collect s) ! i = (if alive (conns s ! i) \<and> \<not> owned s i
      then (ConnectDestroy (conns s ! i))\<lparr>alive := False\<rparr> else conns s ! i)"
  using assms by (simp add: collect_def Let_def)

lemma collect_frame [simp]:
  "length (conns (collect s)) = length (conns s)" "history i (collect s) = history i s" "tasks_of i (collect s) = tasks_of i s"
  "connections (collect s) = connections s" "accepting (collect s) = accepting s" "posted (collect s) = posted s"
  "nextConnId (collect s) = nextConnId s"
  by (simp_all add: collect_def history_def tasks_of_def)

lemma free_ok:
  assumes "ok_at s i" "i < length (conns s)" "\<not> owned s i"
  shows "place_ok i (i = accepting s) ((ConnectDestroy (conns s ! i))\<lparr>alive := False\<rparr>) (history i s)
    (connections s (int i + 1)) (tasks_of i s)"
proof -
  let ?c = "conns s ! i"
  have name: "conn_name ?c = int i + 1" using assms(1) by (simp add: ok_at_def place_ok_def)
  have free: "i \<noteq> accepting s" "connections s (int i + 1) \<noteq> Some i" using assms(3) name by (auto simp: owned_def)
  with assms(1) have c: "connections s (int i + 1) = None" "state ?c \<noteq> Connecting"
    "conn_core (history i s) ?c" "tasks_ok i ?c None (tasks_of i s)"
    by (auto simp: ok_at_def place_ok_def running_core_def split: if_splits)
  then have err: "handle_error ?c" by (auto simp: tasks_ok_def)
  have "conn_core (history i s) ((ConnectDestroy ?c)\<lparr>alive := False\<rparr>)"
    using c(3) err by (auto simp: conn_core_def ConnectDestroy_def cancel_def)
  moreover have "tasks_ok i ((ConnectDestroy ?c)\<lparr>alive := False\<rparr>) None (tasks_of i s)"
    using c(4) err by (auto simp: tasks_ok_def ConnectDestroy_def cancel_def)
  moreover have "handle_error (ConnectDestroy ?c)" "conn_name (ConnectDestroy ?c) = int i + 1" "state (ConnectDestroy ?c) = Closed"
    using err name by (simp_all add: ConnectDestroy_def cancel_def)
  ultimately show ?thesis using free(1) c(1) by (simp add: place_ok_def running_core_def conn_live_def)
qed

lemma collect_ok: "net_inv s \<Longrightarrow> net_inv (collect s)"
proof -
  assume inv: "net_inv s"
  have "ok_at (collect s) i" if i: "i < length (conns s)" for i
  proof -
    have "ok_at s i" using inv i by (simp add: net_inv_def)
    with free_ok [OF this i] show ?thesis by (simp add: ok_at_def collect_at [OF i])
  qed
  with inv show ?thesis by (simp add: net_inv_def)
qed

section \<open>All steps\<close>

text \<open>A step keeps the invariant, or fails in one of three ways.\<close>

lemma net_step_ok:
  assumes "net_step s r" "net_inv s"
  shows "case r of Inl f \<Rightarrow> f \<in> {Use_after_free, Null_pointer, Overflow} | Inr s' \<Rightarrow> net_inv s'"
  using assms(1)
proof cases
  case (accept ec)
  show ?thesis
  proof (cases ec)
    case None
    then show ?thesis using accept_ok [OF assms(2)] accept
      by (auto simp: NewConnection_def StartAccept_def Let_def split: if_splits sum.splits)
  qed (simp add: accept NewConnection_def)
next
  case (run t ts calls)
  have "conn_of t < length (conns s)" using assms(2) run(2) by (simp add: net_inv_def)
  with task_ok [OF assms(2) run(2), of calls] net_inv_local [OF assms(2)] run(1) show ?thesis by auto
next
  case (read i res n calls)
  with running_at [OF assms(2)] have "core_at s i" "conn_live (conns s ! i)" by auto
  from HandleRead_ok [OF this] net_inv_local [OF assms(2) _ read(2)] have "net_inv (HandleRead i res n calls s)" by blast
  then show ?thesis by (simp add: read(1) guarded_def)
next
  case (written i ec calls)
  with running_at [OF assms(2)] have "core_at s i" "conn_live (conns s ! i)" by auto
  from HandleWrite_ok [OF this written(3)] obtain s' where "HandleWrite i ec calls s = Inr s'" "net_inv s'"
    using net_inv_local [OF assms(2) _ written(2)] by blast
  then show ?thesis by (simp add: written(1) guarded_def)
next
  case (other_thread i call)
  then have core: "core_at s i" "conn_live (conns s ! i)" using running_at [OF assms(2)] by auto
  have "net_inv (post_call i call s)"
  proof (cases call)
    case (Call_Send msg)
    have "core_at (RunInLoop (Send_task i msg) s) i"
      using core(1) by (auto simp: core_at_def running_core_def tasks_ok_def)
    then have "ok_at (RunInLoop (Send_task i msg) s) i" using core(2) by (intro ok_at_core) simp_all
    then show ?thesis using net_inv_local [OF assms(2) _ other_thread(2)] by (simp add: Call_Send)
  next
    case (Call_Shutdown callback)
    note eff = run_call_effect [OF other_thread(2), of "Call_Shutdown callback"]
    from ok_at_core [OF core_effect [OF core(1) eff] live_effect [OF core(2) eff]] net_inv_local [OF assms(2) _ other_thread(2)] eff
    show ?thesis by (simp add: Call_Shutdown call_effect_def)
  next
    case Call_ForceClose
    note eff = run_call_effect [OF other_thread(2), of Call_ForceClose]
    from ok_at_core [OF core_effect [OF core(1) eff] live_effect [OF core(2) eff]] net_inv_local [OF assms(2) _ other_thread(2)] eff
    show ?thesis by (simp add: Call_ForceClose call_effect_def)
  qed
  then show ?thesis by (simp add: other_thread)
qed

lemma net_reachable_inv: "net_reachable s \<Longrightarrow> net_inv s"
proof (induction rule: net_reachable.induct)
  case start
  show ?case by (simp add: net_inv_def new_TcpServer_def ok_at_def place_ok_def history_def tasks_of_def new_TcpConnection_def)
next
  case (step s s')
  then show ?case using net_step_ok [OF step.hyps(2)] collect_ok by simp
qed

section \<open>Properties\<close>

definition accounted :: "net_server \<Rightarrow> nat \<Rightarrow> bool" where
  "accounted s i \<longleftrightarrow> messages_queued (history i s) = messages_written (history i s) @ output_buffer (conns s ! i) \<and>
     net_ends (history i s) \<le> 1"

definition busy :: "net_conn \<Rightarrow> bool" where
  "busy c \<longleftrightarrow> read_op c \<noteq> Idle \<and> (OptForceClose \<notin> flag c \<and> output_buffer c \<noteq> [] \<longrightarrow> write_op c \<noteq> Idle)"

text \<open>
  C18. In every reachable state of the server, whatever the application calls in callbacks and in other threads: of each connection
  the messages taken for sending are those written, in order, and those still queued, its end is reported at most once, and
  never are two reads or two writes of it under way at once.
  Until its read or write fails it reads, and as long as it is not forced to close it writes while messages are queued,
  also after \<open>Shutdown\<close>; it is freed only after such a failure.  No step pops an empty queue or removes
  a connection twice: the only faults are the use of a freed connection, an error of \<open>accept\<close>, and the overflow of the numbers.
\<close>

theorem net_connections:
  assumes "net_reachable s" "i < length (conns s)"
  shows "accounted s i \<and> \<not> overlapped (conns s ! i) \<and>
    (state (conns s ! i) = Established \<or> state (conns s ! i) = CloseWait \<longrightarrow> handle_error (conns s ! i) \<or> busy (conns s ! i)) \<and>
    (\<not> alive (conns s ! i) \<longrightarrow> handle_error (conns s ! i)) \<and>
    (\<forall>f. net_step s (Inl f) \<longrightarrow> f = Use_after_free \<or> f = Null_pointer \<or> f = Overflow)"
proof -
  have inv: "net_inv s" using assms(1) by (rule net_reachable_inv)
  have ok: "ok_at s i" using inv assms(2) by (simp add: net_inv_def)
  then have "accounted s i \<and> \<not> overlapped (conns s ! i)"
    by (auto simp: ok_at_def place_ok_def accounted_def running_core_def conn_core_def new_TcpConnection_def split: if_splits)
  moreover have "\<not> alive (conns s ! i) \<longrightarrow> handle_error (conns s ! i)"
    using ok by (auto simp: ok_at_def place_ok_def running_core_def tasks_ok_def new_TcpConnection_def split: if_splits)
  moreover have "state (conns s ! i) = Established \<or> state (conns s ! i) = CloseWait \<longrightarrow> handle_error (conns s ! i) \<or> busy (conns s ! i)"
    using running_at [OF inv assms(2)] by (auto simp: conn_live_def busy_def)
  moreover have "f = Use_after_free \<or> f = Null_pointer \<or> f = Overflow" if "net_step s (Inl f)" for f
    using net_step_ok [OF that inv] by auto
  ultimately show ?thesis by blast
qed

text \<open>Runs of one connection; the second one waits to be accepted.\<close>

definition first_conn :: "EState \<Rightarrow> EFlag set \<Rightarrow> byte list list \<Rightarrow> bool \<Rightarrow> aio \<Rightarrow> aio \<Rightarrow> net_conn" where
  "first_conn st fl out err r w = \<lparr>conn_name = 1, state = st, flag = fl, input_buffer = [], output_buffer = out,
     handle_error = err, read_op = r, write_op = w, overlapped = False, alive = True\<rparr>"

definition one_conn :: "net_conn \<Rightarrow> (int \<rightharpoonup> nat) \<Rightarrow> net_task list \<Rightarrow> net_act list \<Rightarrow> net_server" where
  "one_conn c m ts h = \<lparr>conns = [c, new_TcpConnection 2], connections = m, nextConnId = 3, accepting = 1, posted = ts,
     acts = map (Pair 0) h\<rparr>"

lemma next_reachable:
  "net_reachable s \<Longrightarrow> net_step s r \<Longrightarrow> case_sum (\<lambda>_. False) (\<lambda>s'. collect s' = s'') r \<Longrightarrow> net_reachable s''"
  using net_reachable.step by (cases r) auto

lemmas net_run = one_conn_def first_conn_def collect_def owned_def new_TcpConnection_def upd_def act_def RunInLoop_def Let_def
  ConnectEstablised_def AsyncRead_def AsyncWrite_def

lemma one_accepted: "net_reachable (one_conn (first_conn Connecting {} [] False Idle Idle) [1 \<mapsto> 0] [Establish 0] [])"
proof (rule next_reachable [OF net_reachable.start])
  let ?s = "one_conn (first_conn Connecting {} [] False Idle Idle) [1 \<mapsto> 0] [Establish 0] []"
  have "NewConnection None new_TcpServer = Inr ?s"
    by (simp add: NewConnection_def new_TcpServer_def StartAccept_def net_run)
  with net_step.accept [of new_TcpServer None] show "net_step new_TcpServer (Inr ?s)" by simp
  show "case_sum (\<lambda>_. False) (\<lambda>s'. collect s' = ?s) (Inr ?s)" by (simp add: net_run)
qed

lemma one_established:
  "net_reachable (one_conn (first_conn Established {} [] False Waiting Idle) [1 \<mapsto> 0] [] [Connection_cb])"
  by (rule next_reachable [OF one_accepted])
    (rule net_step.run [where t = "Establish 0" and ts = "[]" and calls = "[]", simplified], simp_all add: net_run)

theorem net_connections_witness:
  "\<exists>s. net_reachable s \<and> accounted s 0 \<and> state (conns s ! 0) = Established \<and> busy (conns s ! 0)"
  using net_connections [OF one_established, of 0]
  by (intro exI [of _ "one_conn (first_conn Established {} [] False Waiting Idle) [1 \<mapsto> 0] [] [Connection_cb]"])
    (use one_established in \<open>simp add: one_conn_def first_conn_def\<close>)

text \<open>A connection that is forced to close while bytes arrive.\<close>

lemma forced:
  "net_reachable (one_conn (first_conn CloseWait {OptForceClose, OptDoNotMessageCallback} [] False Cancelled Idle) [1 \<mapsto> 0] []
     [Connection_cb])"
proof (rule next_reachable)
  let ?s = "one_conn (first_conn Established {OptForceClose, OptDoNotMessageCallback} [] False Waiting Idle) [1 \<mapsto> 0] [Force 0]
    [Connection_cb]"
  show "net_reachable ?s"
    by (rule next_reachable [OF one_established])
      (rule net_step.other_thread [where i = 0 and call = Call_ForceClose], simp_all add: net_run ForceClose_def)
  show "net_step ?s (run_net_task (Force 0) [] (?s\<lparr>posted := []\<rparr>))"
    by (rule net_step.run) (simp add: one_conn_def)
qed (simp_all add: net_run ForceCloseInLoop_def cancel_def)

lemma still_reading:
  "net_reachable (one_conn (first_conn CloseWait {OptForceClose, OptDoNotMessageCallback} [] False Waiting Idle) [1 \<mapsto> 0] []
     [Connection_cb])"
proof (rule next_reachable [OF forced])
  let ?s = "one_conn (first_conn CloseWait {OptForceClose, OptDoNotMessageCallback} [] False Cancelled Idle) [1 \<mapsto> 0] []
     [Connection_cb]"
  show "net_step ?s (guarded 0 ?s (Inr (HandleRead 0 (Inr [7]) 0 [] ?s)))"
    by (rule net_step.read) (simp_all add: net_run)
qed (simp_all add: net_run guarded_def HandleRead_def NeedMessageCallback_def)

text \<open>A connection whose peer goes while a message is written.\<close>

lemma freed_writing:
  "net_reachable (one_conn ((first_conn Closed {} [[7]] True Idle Cancelled)\<lparr>alive := False\<rparr>) Map.empty []
     [Connection_cb, Queued [7], Close_cb])"
proof (rule next_reachable)
  let ?w = "one_conn (first_conn Established {} [[7]] False Waiting Waiting) [1 \<mapsto> 0] [] [Connection_cb, Queued [7]]"
  let ?e = "one_conn (first_conn CloseWait {} [[7]] True Idle Waiting) [1 \<mapsto> 0] [Remove 0] [Connection_cb, Queued [7], Close_cb]"
  let ?d = "one_conn (first_conn CloseWait {} [[7]] True Idle Waiting) Map.empty [Destroy 0] [Connection_cb, Queued [7], Close_cb]"
  have w: "net_reachable ?w"
    by (rule next_reachable [OF one_accepted])
      (rule net_step.run [where t = "Establish 0" and ts = "[]" and calls = "[Call_Send [7]]", simplified],
        simp_all add: net_run SendInLoop_def)
  have e: "net_reachable ?e"
  proof (rule next_reachable [OF w])
    show "net_step ?w (guarded 0 ?w (Inr (HandleRead 0 (Inl Eof) 0 [] ?w)))" by (rule net_step.read) (simp_all add: net_run)
  qed (simp_all add: net_run guarded_def HandleRead_def HandleError_def OnErrorEx_def NeedMessageCallback_def)
  show "net_reachable ?d"
  proof (rule next_reachable [OF e])
    show "net_step ?e (run_net_task (Remove 0) [] (?e\<lparr>posted := []\<rparr>))" by (rule net_step.run) (simp add: one_conn_def)
  qed (simp_all add: net_run RemoveConnection_def)
  show "net_step ?d (run_net_task (Destroy 0) [] (?d\<lparr>posted := []\<rparr>))" by (rule net_step.run) (simp add: one_conn_def)
qed (simp_all add: net_run ConnectDestroy_def cancel_def)

text \<open>
  Three things go wrong.  When the peer goes while a message is written, the connection is freed before its write completes, and the
  handler of the write uses it.  When bytes have arrived before \<open>ForceClose\<close> runs, the read completes in spite of the
  cancellation, the connection reads on, and nothing is left that would close it.  And any error of \<open>accept\<close> is
  followed by the use of a null pointer.
\<close>

lemma net_connection_faults:
  "(\<exists>s. net_reachable s \<and> 0 < length (conns s) \<and> \<not> alive (conns s ! 0) \<and> write_op (conns s ! 0) = Cancelled \<and>
      net_step s (Inl Use_after_free)) \<and>
   (\<exists>s. net_reachable s \<and> posted s = [] \<and> OptForceClose \<in> flag (conns s ! 0) \<and> state (conns s ! 0) = CloseWait \<and>
      read_op (conns s ! 0) = Waiting \<and> write_op (conns s ! 0) = Idle \<and> \<not> handle_error (conns s ! 0)) \<and>
   (\<exists>s. net_reachable s \<and> net_step s (Inl Null_pointer))"
proof (intro conjI)
  let ?f = "one_conn ((first_conn Closed {} [[7]] True Idle Cancelled)\<lparr>alive := False\<rparr>) Map.empty [] [Connection_cb, Queued [7], Close_cb]"
  have "net_step ?f (guarded 0 ?f (HandleWrite 0 (Some Operation_aborted) [] ?f))"
    by (rule net_step.written) (simp_all add: net_run)
  then have "net_step ?f (Inl Use_after_free)" by (simp add: guarded_def net_run)
  with freed_writing show "\<exists>s. net_reachable s \<and> 0 < length (conns s) \<and> \<not> alive (conns s ! 0) \<and> write_op (conns s ! 0) = Cancelled \<and>
      net_step s (Inl Use_after_free)" by (intro exI [of _ ?f]) (simp add: one_conn_def first_conn_def)
  show "\<exists>s. net_reachable s \<and> posted s = [] \<and> OptForceClose \<in> flag (conns s ! 0) \<and> state (conns s ! 0) = CloseWait \<and>
      read_op (conns s ! 0) = Waiting \<and> write_op (conns s ! 0) = Idle \<and> \<not> handle_error (conns s ! 0)"
    using still_reading by (intro exI, intro conjI, assumption) (simp_all add: one_conn_def first_conn_def)
  have "net_step new_TcpServer (NewConnection (Some Other_error) new_TcpServer)" by (rule net_step.accept)
  then show "\<exists>s. net_reachable s \<and> net_step s (Inl Null_pointer)" using net_reachable.start by (auto simp: NewConnection_def)
qed

end
