(* ===== verification/Connection_Pools.thy ===== *)
theory Connection_Pools
  imports Interfaces
begin

text \<open>
  The connection pools of \<open>mysqlcpp/mysqlcpp/ConnectionPool.cpp\<close> and of
  \<open>rediscpp/ConnectionPool.cpp\<close>.  A pool is the list of its slots; a connection is whatever
  identifies it.  Opening a connection is decided outside: the sequence of results of
  \<open>create\<close> is an argument.  Every operation of the MySQL pool holds its mutex throughout; the
  Redis pool releases it while it creates a connection, so its operations are also given as
  the steps of concurrent threads.
\<close>

section \<open>MySQL\<close>

record 'c slot =
  m_conn :: 'c
  m_last_used :: int
  m_in_use :: bool

text \<open>\<open>init\<close>: as many connections as configured, stopping at the first that fails.\<close>

fun mysql_init :: "int \<Rightarrow> 'c option list \<Rightarrow> 'c slot list \<Rightarrow> bool \<times> 'c slot list" where
  "mysql_init now [] pool = (True, pool)"
| "mysql_init now (None # _) pool = (False, pool)"
| "mysql_init now (Some c # cs) pool =
     mysql_init now cs (pool @ [\<lparr>m_conn = c, m_last_used = now, m_in_use = False\<rparr>])"

fun findEmptySlot :: "'c slot list \<Rightarrow> nat option" where
  "findEmptySlot [] = None"
| "findEmptySlot (s # ss) = (if \<not> m_in_use s then Some 0 else map_option Suc (findEmptySlot ss))"

definition mysql_getConn :: "'c slot list \<Rightarrow> 'c option \<times> 'c slot list" where
  "mysql_getConn pool = (case findEmptySlot pool of
      None \<Rightarrow> (None, pool)
    | Some i \<Rightarrow> (Some (m_conn (pool ! i)), pool[i := (pool ! i)\<lparr>m_in_use := True\<rparr>]))"

text \<open>\<open>rleaseConn\<close>: \<open>None\<close> when the assertion that the connection is the pool's fails.\<close>

definition mysql_rleaseConn :: "int \<Rightarrow> 'c \<Rightarrow> 'c slot list \<Rightarrow> 'c slot list option" where
  "mysql_rleaseConn tnow c pool =
     (case dropWhile (\<lambda>s. m_conn s \<noteq> c) pool of
        [] \<Rightarrow> None
      | slot # rest \<Rightarrow> Some (takeWhile (\<lambda>s. m_conn s \<noteq> c) pool @ rest
          @ [slot\<lparr>m_in_use := False, m_last_used := tnow\<rparr>]))"

definition connectionCount :: "'c slot list \<Rightarrow> nat" where
  "connectionCount pool = length pool"

section \<open>The contract\<close>

definition idle_conns :: "'c slot list \<Rightarrow> 'c set" where
  "idle_conns pool = m_conn ` {s \<in> set pool. \<not> m_in_use s}"

definition lent_conns :: "'c slot list \<Rightarrow> 'c set" where
  "lent_conns pool = m_conn ` {s \<in> set pool. m_in_use s}"

definition pool_ok :: "'c slot list \<Rightarrow> bool" where
  "pool_ok pool \<longleftrightarrow> distinct (map m_conn pool)"

lemma findEmptySlot_cases:
  "case findEmptySlot pool of
     None \<Rightarrow> \<forall>s \<in> set pool. m_in_use s
   | Some i \<Rightarrow> \<exists>xs s ys. pool = xs @ s # ys \<and> i = length xs \<and> \<not> m_in_use s
       \<and> (\<forall>s \<in> set xs. m_in_use s)"
proof (induction pool)
  case Nil
  then show ?case by simp
next
  case (Cons s ss)
  show ?case
  proof (cases "m_in_use s")
    case True
    show ?thesis
    proof (cases "findEmptySlot ss")
      case None
      then show ?thesis using Cons True by simp
    next
      case (Some i)
      with Cons obtain xs t ys where "ss = xs @ t # ys" "i = length xs" "\<not> m_in_use t"
        "\<forall>s \<in> set xs. m_in_use s" by auto
      then show ?thesis using True Some
        by (auto intro!: exI [of _ "s # xs"])
    qed
  qed (auto intro: exI [of _ "[]"])
qed

lemma mysql_getConn_cases:
  obtains (full) "mysql_getConn pool = (None, pool)" "\<forall>s \<in> set pool. m_in_use s"
  | (got) xs s ys where "pool = xs @ s # ys" "\<not> m_in_use s" "\<forall>s \<in> set xs. m_in_use s"
      "mysql_getConn pool = (Some (m_conn s), xs @ s\<lparr>m_in_use := True\<rparr> # ys)"
proof (cases "findEmptySlot pool")
  case None
  with findEmptySlot_cases [of pool] that(1) show ?thesis by (simp add: mysql_getConn_def)
next
  case (Some i)
  with findEmptySlot_cases [of pool] obtain xs s ys where "pool = xs @ s # ys" "i = length xs"
    "\<not> m_in_use s" "\<forall>s \<in> set xs. m_in_use s" by auto
  with that(2) Some show ?thesis by (simp add: mysql_getConn_def nth_append list_update_append)
qed

lemma mysql_rleaseConn_found:
  assumes "c \<in> m_conn ` set pool"
  obtains xs s ys where "pool = xs @ s # ys" "m_conn s = c" "c \<notin> m_conn ` set xs"
    "mysql_rleaseConn t c pool = Some (xs @ ys @ [s\<lparr>m_in_use := False, m_last_used := t\<rparr>])"
proof -
  obtain s ys where d: "dropWhile (\<lambda>s. m_conn s \<noteq> c) pool = s # ys"
    using assms by (cases "dropWhile (\<lambda>s. m_conn s \<noteq> c) pool") (auto simp: dropWhile_eq_Nil_conv)
  let ?xs = "takeWhile (\<lambda>s. m_conn s \<noteq> c) pool"
  have "pool = ?xs @ s # ys" by (metis d takeWhile_dropWhile_id)
  moreover have "m_conn s = c" using hd_dropWhile [of "\<lambda>s. m_conn s \<noteq> c" pool] d by simp
  moreover have "c \<notin> m_conn ` set ?xs" by (auto dest: set_takeWhileD)
  moreover have "mysql_rleaseConn t c pool = Some (?xs @ ys @ [s\<lparr>m_in_use := False, m_last_used := t\<rparr>])"
    by (simp add: mysql_rleaseConn_def d)
  ultimately show ?thesis by (rule that)
qed

definition mysql_acquire :: "'c slot list \<Rightarrow> ('c \<times> 'c slot list) option" where
  "mysql_acquire pool = (case mysql_getConn pool of
      (None, _) \<Rightarrow> None | (Some c, pool') \<Rightarrow> Some (c, pool'))"

definition mysql_release :: "int \<Rightarrow> 'c \<Rightarrow> 'c slot list \<Rightarrow> 'c slot list" where
  "mysql_release t c pool = the (mysql_rleaseConn t c pool)"

lemma pool_split:
  "idle_conns (xs @ s # ys) = idle_conns (xs @ ys) \<union> (if m_in_use s then {} else {m_conn s})"
  "lent_conns (xs @ s # ys) = lent_conns (xs @ ys) \<union> (if m_in_use s then {m_conn s} else {})"
  "pool_ok (xs @ s # ys) \<longleftrightarrow> pool_ok (xs @ ys) \<and> m_conn s \<notin> m_conn ` set (xs @ ys)"
  by (auto simp: idle_conns_def lent_conns_def pool_ok_def)

lemma conns_of_pool: "idle_conns pool \<union> lent_conns pool = m_conn ` set pool"
  by (auto simp: idle_conns_def lent_conns_def)

lemma pool_disjoint: "pool_ok pool \<Longrightarrow> idle_conns pool \<inter> lent_conns pool = {}"
  by (force simp: idle_conns_def lent_conns_def pool_ok_def distinct_map inj_on_def)

lemma mysql_acquire_None: "mysql_acquire pool = None \<longleftrightarrow> idle_conns pool = {}"
  by (cases rule: mysql_getConn_cases [of pool]) (auto simp: mysql_acquire_def idle_conns_def)

lemma mysql_acquire_Some:
  assumes "pool_ok pool" "mysql_acquire pool = Some (c, q)"
  shows "pool_ok q \<and> c \<in> idle_conns pool \<and> idle_conns q = idle_conns pool - {c}
    \<and> lent_conns q = insert c (lent_conns pool)"
proof (cases rule: mysql_getConn_cases [of pool])
  case full
  with assms(2) show ?thesis by (simp add: mysql_acquire_def)
next
  case (got xs s ys)
  with assms(2) have "c = m_conn s" "q = xs @ s\<lparr>m_in_use := True\<rparr> # ys"
    by (simp_all add: mysql_acquire_def)
  moreover have "m_conn s \<notin> m_conn ` set (xs @ ys)" using assms(1) got by (simp add: pool_split)
  ultimately show ?thesis
    using assms(1) got conns_of_pool [of "xs @ ys"] by (auto simp: pool_split)
qed

lemma mysql_release_used:
  assumes "pool_ok pool" "c \<in> lent_conns pool"
  shows "pool_ok (mysql_release t c pool) \<and> idle_conns (mysql_release t c pool) = insert c (idle_conns pool)
    \<and> lent_conns (mysql_release t c pool) = lent_conns pool - {c}"
proof -
  have "c \<in> m_conn ` set pool" using assms(2) by (auto simp: lent_conns_def)
  then obtain xs s ys where s: "pool = xs @ s # ys" "m_conn s = c"
    "mysql_rleaseConn t c pool = Some (xs @ ys @ [s\<lparr>m_in_use := False, m_last_used := t\<rparr>])"
    by (rule mysql_rleaseConn_found)
  have notin: "c \<notin> m_conn ` set (xs @ ys)" using assms(1) s by (simp add: pool_split)
  have "m_in_use s"
    using assms(2) notin s(1,2) by (auto simp: lent_conns_def)
  note use = this
  let ?s = "s\<lparr>m_in_use := False, m_last_used := t\<rparr>" and ?A = "xs @ ys"
  have rel: "mysql_release t c pool = ?A @ ?s # []" using s(3) by (simp add: mysql_release_def)
  have pool: "pool_ok ?A" "idle_conns pool = idle_conns ?A" "lent_conns pool = insert c (lent_conns ?A)"
    using assms(1) [unfolded s(1)] use s(2) unfolding s(1) pool_split by simp_all
  have "c \<notin> lent_conns ?A" using notin by (auto simp: lent_conns_def)
  moreover have "pool_ok (?A @ ?s # [])" "idle_conns (?A @ ?s # []) = insert c (idle_conns ?A)"
    "lent_conns (?A @ ?s # []) = lent_conns ?A"
    unfolding pool_split using pool(1) notin s(2) by simp_all
  ultimately show ?thesis unfolding rel pool by auto
qed

interpretation mp: resource_pool idle_conns lent_conns pool_ok mysql_acquire "mysql_release t" for t
  by unfold_locales
    (rule pool_disjoint mysql_acquire_None mysql_acquire_Some mysql_release_used; assumption)+

text \<open>
   A MySQL pool of distinct connections lends a connection to one user at a time: what
  \<open>getConn\<close> returns was idle and is lent to nobody else, the next call returns another one,
  nothing is returned only when all are lent, and giving it back through the guard finds it
  and restores exactly the sets of idle and lent connections from before.
\<close>

lemma mysql_pool_exclusive:
  assumes "pool_ok pool"
  shows "(fst (mysql_getConn pool) = None \<longleftrightarrow> idle_conns pool = {})
    \<and> (mysql_getConn pool = (Some c, q) \<longrightarrow> c \<in> idle_conns pool \<and> c \<notin> lent_conns pool \<and> c \<notin> idle_conns q)
    \<and> (mysql_getConn pool = (Some c, q) \<longrightarrow> mysql_getConn q = (Some d, r) \<longrightarrow> c \<noteq> d)
    \<and> (mysql_getConn pool = (Some c, q) \<longrightarrow>
       (\<exists>p'. mysql_rleaseConn t c q = Some p' \<and> pool_ok p' \<and> idle_conns p' = idle_conns pool
         \<and> lent_conns p' = lent_conns pool))"
proof -
  have acq: "mysql_acquire p = Some (c, q)" if "mysql_getConn p = (Some c, q)"
    for p :: "'a slot list" and c q
    using that by (simp add: mysql_acquire_def)
  have part1: "fst (mysql_getConn pool) = None \<longleftrightarrow> idle_conns pool = {}"
    using mysql_acquire_None [of pool]
    by (cases "mysql_getConn pool"; cases "fst (mysql_getConn pool)") (auto simp: mysql_acquire_def)
  have part2: "c \<in> idle_conns pool \<and> c \<notin> lent_conns pool \<and> c \<notin> idle_conns q"
    if "mysql_getConn pool = (Some c, q)"
    using mp.acquire_exclusive [OF assms acq [OF that]] mp.acquire_Some [OF assms acq [OF that]] by blast
  have part3: "c \<noteq> d" if "mysql_getConn pool = (Some c, q)" "mysql_getConn q = (Some d, r)"
    by (rule mp.acquire_twice [OF assms acq [OF that(1)] acq [OF that(2)]])
  have part4: "\<exists>p'. mysql_rleaseConn t c q = Some p' \<and> pool_ok p' \<and> idle_conns p' = idle_conns pool
      \<and> lent_conns p' = lent_conns pool"
    if "mysql_getConn pool = (Some c, q)"
  proof -
    have "c \<in> lent_conns q" using mp.acquire_Some [OF assms acq [OF that]] by blast
    then have "c \<in> m_conn ` set q" by (auto simp: lent_conns_def)
    then obtain p' where "mysql_rleaseConn t c q = Some p'" by (rule mysql_rleaseConn_found)
    then show ?thesis
      using mp.acquire_release [OF assms acq [OF that], of t] by (auto simp: mysql_release_def)
  qed
  show ?thesis using part1 part2 part3 part4 by blast
qed

lemma mysql_pool_exclusive_witness:
  "\<exists>p'. mysql_rleaseConn 5 ''a'' (snd (mysql_getConn (snd (mysql_init 0 [Some ''a'', Some ''b''] [])))) = Some p'
     \<and> idle_conns p' = {''a'', ''b''}"
proof -
  let ?p = "snd (mysql_init 0 [Some ''a'', Some ''b''] [])"
  have "pool_ok ?p" by (simp add: pool_ok_def)
  moreover have "mysql_getConn ?p = (Some ''a'', snd (mysql_getConn ?p))"
    by (simp add: mysql_getConn_def)
  ultimately have "\<exists>p'. mysql_rleaseConn 5 ''a'' (snd (mysql_getConn ?p)) = Some p' \<and> pool_ok p'
      \<and> idle_conns p' = idle_conns ?p \<and> lent_conns p' = lent_conns ?p"
    by (rule mysql_pool_exclusive [THEN conjunct2, THEN conjunct2, THEN conjunct2, THEN mp])
  moreover have "idle_conns ?p = {''a'', ''b''}" by (force simp: idle_conns_def image_iff)
  ultimately show ?thesis by metis
qed

section \<open>Redis\<close>

text \<open>
  A slot of the Redis pool has no time.  \<open>getConn\<close> without a free slot leaves the mutex,
  creates a connection and takes the mutex again to add it; \<open>made\<close> is what \<open>create\<close> returns.
\<close>

record 'c redis_slot =
  r_conn :: 'c
  m_is_using :: bool

fun redis_init :: "'c option list \<Rightarrow> 'c redis_slot list \<Rightarrow> bool \<times> 'c redis_slot list" where
  "redis_init [] pool = (True, pool)"
| "redis_init (None # _) pool = (False, pool)"
| "redis_init (Some c # cs) pool = redis_init cs (pool @ [\<lparr>r_conn = c, m_is_using = False\<rparr>])"

fun redis_findEmptySlot :: "'c redis_slot list \<Rightarrow> nat option" where
  "redis_findEmptySlot [] = None"
| "redis_findEmptySlot (s # ss) =
     (if \<not> m_is_using s then Some 0 else map_option Suc (redis_findEmptySlot ss))"

datatype 'c get_result = Lent 'c | Refused | Must_create

definition redis_getConn_lookup :: "nat \<Rightarrow> 'c redis_slot list \<Rightarrow> 'c get_result \<times> 'c redis_slot list" where
  "redis_getConn_lookup max_size pool = (case redis_findEmptySlot pool of
      Some i \<Rightarrow> (Lent (r_conn (pool ! i)), pool[i := (pool ! i)\<lparr>m_is_using := True\<rparr>])
    | None \<Rightarrow> if max_size \<le> length pool then (Refused, pool) else (Must_create, pool))"

definition redis_getConn_add :: "'c \<Rightarrow> 'c redis_slot list \<Rightarrow> 'c redis_slot list" where
  "redis_getConn_add c pool = pool @ [\<lparr>r_conn = c, m_is_using = True\<rparr>]"

text \<open>\<open>getConn\<close> of a thread that runs alone.\<close>

definition redis_getConn ::
    "nat \<Rightarrow> 'c option \<Rightarrow> 'c redis_slot list \<Rightarrow> 'c option \<times> 'c redis_slot list" where
  "redis_getConn max_size made pool = (case redis_getConn_lookup max_size pool of
      (Lent c, pool') \<Rightarrow> (Some c, pool')
    | (Refused, pool') \<Rightarrow> (None, pool')
    | (Must_create, pool') \<Rightarrow> (case made of
          None \<Rightarrow> (None, pool')
        | Some c \<Rightarrow> (Some c, redis_getConn_add c pool')))"

text \<open>\<open>None\<close> when one of its two assertions fails.\<close>

definition redis_rleaseConn :: "'c \<Rightarrow> 'c redis_slot list \<Rightarrow> 'c redis_slot list option" where
  "redis_rleaseConn c pool =
     (case dropWhile (\<lambda>s. r_conn s \<noteq> c) pool of
        [] \<Rightarrow> None
      | slot # rest \<Rightarrow>
          if \<not> m_is_using slot then None
          else Some (takeWhile (\<lambda>s. r_conn s \<noteq> c) pool @ rest @ [slot\<lparr>m_is_using := False\<rparr>]))"

lemma redis_find_cases:
  "case redis_findEmptySlot pool of
     None \<Rightarrow> \<forall>s \<in> set pool. m_is_using s
   | Some i \<Rightarrow> \<exists>xs s ys. pool = xs @ s # ys \<and> i = length xs \<and> \<not> m_is_using s"
proof (induction pool)
  case Nil
  then show ?case by simp
next
  case (Cons s ss)
  show ?case
  proof (cases "m_is_using s")
    case True
    show ?thesis
    proof (cases "redis_findEmptySlot ss")
      case None
      then show ?thesis using Cons True by simp
    next
      case (Some i)
      with Cons obtain xs t ys where "ss = xs @ t # ys" "i = length xs" "\<not> m_is_using t" by auto
      then show ?thesis using True Some by (auto intro!: exI [of _ "s # xs"])
    qed
  qed (auto intro: exI [of _ "[]"])
qed

lemma redis_lookup_cases:
  obtains (lent) xs s ys where "pool = xs @ s # ys" "\<not> m_is_using s"
      "redis_getConn_lookup m pool = (Lent (r_conn s), xs @ s\<lparr>m_is_using := True\<rparr> # ys)"
  | (refused) "redis_getConn_lookup m pool = (Refused, pool)" "m \<le> length pool"
  | (create) "redis_getConn_lookup m pool = (Must_create, pool)" "length pool < m"
proof (cases "redis_findEmptySlot pool")
  case None
  then show ?thesis using that(2,3) by (cases "m \<le> length pool") (simp_all add: redis_getConn_lookup_def)
next
  case (Some i)
  with redis_find_cases [of pool] obtain xs s ys where "pool = xs @ s # ys" "i = length xs"
    "\<not> m_is_using s" by auto
  with that(1) Some show ?thesis
    by (simp add: redis_getConn_lookup_def nth_append list_update_append)
qed

text \<open>
  Concurrent threads: each is idle, between the two critical sections of \<open>getConn\<close>, or
  holds a connection it will give back.  Connections that \<open>create\<close> returns are new.
\<close>

datatype 'c pc = Idle | Creating | Holding 'c

inductive redis_step ::
    "nat \<Rightarrow> 'c redis_slot list \<times> 'c pc list \<Rightarrow> 'c redis_slot list \<times> 'c pc list \<Rightarrow> bool" for m where
  get_lent: "i < length ts \<Longrightarrow> ts ! i = Idle \<Longrightarrow>
    redis_getConn_lookup m pool = (Lent c, pool') \<Longrightarrow>
    redis_step m (pool, ts) (pool', ts[i := Holding c])"
| get_refused: "i < length ts \<Longrightarrow> ts ! i = Idle \<Longrightarrow>
    redis_getConn_lookup m pool = (Refused, pool') \<Longrightarrow> redis_step m (pool, ts) (pool', ts)"
| get_create: "i < length ts \<Longrightarrow> ts ! i = Idle \<Longrightarrow>
    redis_getConn_lookup m pool = (Must_create, pool') \<Longrightarrow>
    redis_step m (pool, ts) (pool', ts[i := Creating])"
| create_fails: "i < length ts \<Longrightarrow> ts ! i = Creating \<Longrightarrow> redis_step m (pool, ts) (pool, ts[i := Idle])"
| create_made: "i < length ts \<Longrightarrow> ts ! i = Creating \<Longrightarrow> c \<notin> r_conn ` set pool \<Longrightarrow>
    redis_step m (pool, ts) (redis_getConn_add c pool, ts[i := Holding c])"
| give_back: "i < length ts \<Longrightarrow> ts ! i = Holding c \<Longrightarrow> redis_rleaseConn c pool = Some pool' \<Longrightarrow>
    redis_step m (pool, ts) (pool', ts[i := Idle])"


inductive redis_reachable ::
    "nat \<Rightarrow> 'c redis_slot list \<Rightarrow> nat \<Rightarrow> 'c redis_slot list \<times> 'c pc list \<Rightarrow> bool" for m pool0 n where
  start: "redis_reachable m pool0 n (pool0, replicate n Idle)"
| step: "redis_reachable m pool0 n s \<Longrightarrow> redis_step m s s' \<Longrightarrow> redis_reachable m pool0 n s'"

definition creating :: "'c pc list \<Rightarrow> nat" where
  "creating ts = length (filter (\<lambda>p. case p of Creating \<Rightarrow> True | _ \<Rightarrow> False) ts)"

definition held :: "'c pc list \<Rightarrow> 'c list" where
  "held ts = concat (map (\<lambda>p. case p of Holding c \<Rightarrow> [c] | _ \<Rightarrow> []) ts)"

definition using_conns :: "'c redis_slot list \<Rightarrow> 'c set" where
  "using_conns pool = r_conn ` {q \<in> set pool. m_is_using q}"

definition redis_inv :: "nat \<Rightarrow> nat \<Rightarrow> 'c redis_slot list \<times> 'c pc list \<Rightarrow> bool" where
  "redis_inv m n = (\<lambda>(pool, ts). length ts = n
     \<and> length pool + creating ts \<le> m + n - 1
     \<and> distinct (map r_conn pool) \<and> distinct (held ts)
     \<and> set (held ts) = using_conns pool)"

lemma thread_split:
  assumes "i < length ts" "ts ! i = p"
  obtains A B where "ts = A @ p # B" "\<forall>x. ts[i := x] = A @ x # B"
  using that [of "take i ts" "drop (Suc i) ts"] id_take_nth_drop [OF assms(1)] assms
    upd_conv_take_nth_drop [OF assms(1)] by simp

lemma creating_split [simp]:
  "creating (A @ p # B) = creating A + creating B + (case p of Creating \<Rightarrow> 1 | _ \<Rightarrow> 0)"
  by (simp add: creating_def split: pc.splits)

lemma held_split [simp]:
  "held (A @ p # B) = held A @ (case p of Holding c \<Rightarrow> [c] | _ \<Rightarrow> []) @ held B"
  by (simp add: held_def)

lemma using_split:
  "using_conns (xs @ s # ys) =
     using_conns (xs @ ys) \<union> (if m_is_using s then {r_conn s} else {})"
  by (auto simp: using_conns_def)

lemma using_conns_subset: "using_conns pool \<subseteq> r_conn ` set pool"
  by (auto simp: using_conns_def)

lemma lookup_inv:
  assumes inv: "redis_inv m n (pool, ts)" and i: "i < length ts" "ts ! i = Idle"
    and l: "redis_getConn_lookup m pool = (Lent c, pool')"
  shows "redis_inv m n (pool', ts[i := Holding c])"
proof (cases rule: redis_lookup_cases [of pool m])
  case (lent xs s ys)
  with l have c: "c = r_conn s" "pool' = xs @ s\<lparr>m_is_using := True\<rparr> # ys" by simp_all
  obtain A B where ts: "ts = A @ Idle # B" "\<forall>x. ts[i := x] = A @ x # B"
    by (rule thread_split [OF i])
  have d: "distinct (map r_conn (xs @ s # ys))" "distinct (held (A @ Idle # B))"
    "set (held (A @ Idle # B)) = using_conns (xs @ s # ys)"
    using inv by (simp_all only: redis_inv_def lent(1) ts(1) prod.case)
  have new: "r_conn s \<notin> set (held A @ held B)"
    using d(1,3) lent(2) using_conns_subset [of "xs @ ys"] unfolding using_split by auto
  have "set (held (A @ Holding c # B)) = using_conns pool'"
    using d(3) lent(2) unfolding c using_split by auto
  then show ?thesis
    using inv d new c(1) unfolding redis_inv_def prod.case ts(2) [rule_format]
    by (auto simp: lent(1) ts(1) c(2))
next
  case refused
  with l show ?thesis by simp
next
  case create
  with l show ?thesis by simp
qed

lemma rleaseConn_found:
  assumes "distinct (map r_conn pool)" "c \<in> using_conns pool"
  obtains xs s ys where "pool = xs @ s # ys" "r_conn s = c" "m_is_using s"
    "redis_rleaseConn c pool = Some (xs @ ys @ [s\<lparr>m_is_using := False\<rparr>])"
proof -
  obtain s where s: "s \<in> set pool" "m_is_using s" "r_conn s = c"
    using assms(2) by (auto simp: using_conns_def)
  then obtain t ys where d: "dropWhile (\<lambda>s. r_conn s \<noteq> c) pool = t # ys"
    by (cases "dropWhile (\<lambda>s. r_conn s \<noteq> c) pool") (auto simp: dropWhile_eq_Nil_conv)
  let ?xs = "takeWhile (\<lambda>s. r_conn s \<noteq> c) pool"
  have pool: "pool = ?xs @ t # ys" by (metis d takeWhile_dropWhile_id)
  have t: "r_conn t = c" using hd_dropWhile [of "\<lambda>s. r_conn s \<noteq> c" pool] d by simp
  have "t \<in> set pool" by (subst pool) simp
  then have "t = s" using s(1,3) t assms(1) by (auto simp: distinct_map dest: inj_onD)
  with s d t that [OF pool] show ?thesis by (simp add: redis_rleaseConn_def)
qed

lemma release_inv:
  assumes inv: "redis_inv m n (pool, ts)" and i: "i < length ts" "ts ! i = Holding c"
    and r: "redis_rleaseConn c pool = Some pool'"
  shows "redis_inv m n (pool', ts[i := Idle])"
proof -
  obtain A B where ts: "ts = A @ Holding c # B" "\<forall>x. ts[i := x] = A @ x # B"
    by (rule thread_split [OF i])
  have held: "c \<in> using_conns pool" "distinct (map r_conn pool)"
    using inv unfolding redis_inv_def ts(1) by auto
  obtain xs s ys where s: "pool = xs @ s # ys" "r_conn s = c" "m_is_using s"
    "redis_rleaseConn c pool = Some (xs @ ys @ [s\<lparr>m_is_using := False\<rparr>])"
    by (rule rleaseConn_found [OF held(2,1)])
  have pool': "pool' = (xs @ ys) @ s\<lparr>m_is_using := False\<rparr> # []" using r s(4) by simp
  have d: "distinct (map r_conn (xs @ s # ys))" "distinct (held (A @ Holding c # B))"
    "set (held (A @ Holding c # B)) = using_conns (xs @ s # ys)"
    using inv by (simp_all only: redis_inv_def s(1) ts(1) prod.case)
  have "c \<notin> using_conns (xs @ ys)" using d(1) s(2) using_conns_subset [of "xs @ ys"] by auto
  moreover have "insert c (set (held A @ held B)) = insert c (using_conns (xs @ ys))"
    using d(3) s(2,3) unfolding using_split by auto
  moreover have "c \<notin> set (held A @ held B)" using d(2) by simp
  ultimately have "set (held A @ held B) = using_conns (xs @ ys)" by (metis insert_ident)
  then have "set (held (A @ Idle # B)) = using_conns pool'"
    unfolding pool' using_split by simp
  then show ?thesis
    using inv d s(2) unfolding redis_inv_def prod.case ts(2) [rule_format]
    by (auto simp: s(1) ts(1) pool')
qed

lemma redis_step_inv:
  assumes inv: "redis_inv m n (pool, ts)" and st: "redis_step m (pool, ts) (pool', ts')"
  shows "redis_inv m n (pool', ts')"
  using st
proof cases
  case (get_lent i c)
  then show ?thesis using lookup_inv [OF inv] by simp
next
  case (get_refused i)
  then have "pool' = pool" by (cases rule: redis_lookup_cases [of pool m]) simp_all
  then show ?thesis using get_refused inv by simp
next
  case (get_create i)
  then have p: "pool' = pool" "length pool < m" by (cases rule: redis_lookup_cases [of pool m]; simp)+
  obtain A B where ts: "ts = A @ Idle # B" "\<forall>x. ts[i := x] = A @ x # B"
    by (rule thread_split [OF get_create(2,3)])
  have "creating A \<le> length A" "creating B \<le> length B" by (simp_all add: creating_def)
  moreover have "n = Suc (length A + length B)" using inv ts by (simp add: redis_inv_def)
  ultimately have "length pool + creating ts + 1 \<le> m + n - 1"
    using p(2) ts by simp
  then show ?thesis using inv get_create p ts by (simp add: redis_inv_def)
next
  case (create_fails i)
  obtain A B where ts: "ts = A @ Creating # B" "\<forall>x. ts[i := x] = A @ x # B"
    by (rule thread_split [OF create_fails(3,4)])
  then show ?thesis using inv create_fails by (simp add: redis_inv_def)
next
  case (create_made i c)
  obtain A B where ts: "ts = A @ Creating # B" "\<forall>x. ts[i := x] = A @ x # B"
    by (rule thread_split [OF create_made(3,4)])
  have "c \<notin> set (held A @ held B)" using inv create_made using_conns_subset [of pool] by (auto simp: redis_inv_def ts)
  then show ?thesis
    using inv create_made ts using_split [of pool "\<lparr>r_conn = c, m_is_using = True\<rparr>" "[]"]
    by (auto simp: redis_inv_def redis_getConn_add_def)
next
  case (give_back i c)
  then show ?thesis using release_inv [OF inv] by simp
qed

lemma redis_reachable_inv:
  assumes "redis_reachable m pool0 n s" "0 < n" "length pool0 \<le> m"
    "distinct (map r_conn pool0)" "\<forall>q \<in> set pool0. \<not> m_is_using q"
  shows "redis_inv m n s"
  using assms(1)
proof induction
  case start
  have "creating (replicate n Idle :: 'a pc list) = 0" "held (replicate n Idle :: 'a pc list) = []"
    by (simp_all add: creating_def held_def)
  then show ?case using assms by (auto simp: redis_inv_def using_conns_def)
next
  case (step s s')
  then show ?case by (cases s; cases s') (auto dest: redis_step_inv)
qed

text \<open>
  C23.  Any number \<open>n\<close> of threads on a Redis pool that starts with at most its maximum of connections, in any interleaving of their critical
  sections: no connection is held by two threads, giving one back never fails an assertion,
  and the pool has at most \<open>m_pool_max_size + n - 1\<close> connections.
\<close>

theorem redis_pool_concurrent:
  assumes "redis_reachable m pool0 n (pool, ts)" "0 < n" "length pool0 \<le> m"
    "distinct (map r_conn pool0)" "\<forall>q \<in> set pool0. \<not> m_is_using q"
  shows "(length pool \<le> m + n - 1)
    \<and> (distinct (held ts))
    \<and> (i < n \<longrightarrow> ts ! i = Holding c \<longrightarrow> redis_rleaseConn c pool \<noteq> None)"
proof -
  have inv: "redis_inv m n (pool, ts)" by (rule redis_reachable_inv [OF assms])
  then have part1: "length pool \<le> m + n - 1" "distinct (held ts)" by (simp_all add: redis_inv_def)
  have part2: "redis_rleaseConn c pool \<noteq> None" if i: "i < n" "ts ! i = Holding c"
  proof -
    have "i < length ts" using inv i(1) by (simp add: redis_inv_def)
    then obtain A B where "ts = A @ Holding c # B" by (rule thread_split [OF _ i(2)])
    then have "c \<in> using_conns pool" "distinct (map r_conn pool)"
      using inv by (auto simp: redis_inv_def)
    then show ?thesis by (metis option.distinct(1) rleaseConn_found)
  qed
  show ?thesis using part1 part2 by blast
qed

text \<open>
  The bound is attained: with a maximum of one, two threads that both find the pool empty
  add a connection each.
\<close>

lemma redis_overshoot:
  "redis_reachable 1 [] 2
     ([\<lparr>r_conn = ''a'', m_is_using = True\<rparr>, \<lparr>r_conn = ''b'', m_is_using = True\<rparr>],
      [Holding ''a'', Holding ''b''])"
proof -
  let ?R = "redis_reachable 1 ([] :: string redis_slot list) 2"
  let ?a = "redis_getConn_add ''a'' []" and ?ab = "redis_getConn_add ''b'' (redis_getConn_add ''a'' [])"
  have l: "redis_getConn_lookup 1 ([] :: string redis_slot list) = (Must_create, [])"
    by (simp add: redis_getConn_lookup_def)
  have "?R ([], [Idle, Idle])"
    using redis_reachable.start [of 1 "[]" 2] by (simp add: numeral_2_eq_2)
  then have "?R ([], [Idle, Idle][0 := Creating])"
    by (rule redis_reachable.step) (rule redis_step.get_create [OF _ _ l], simp_all)
  then have "?R ([], [Idle, Idle][0 := Creating, 1 := Creating])"
    by (rule redis_reachable.step) (rule redis_step.get_create [OF _ _ l], simp_all)
  then have "?R (?a, [Idle, Idle][0 := Creating, 1 := Creating, 0 := Holding ''a''])"
    by (rule redis_reachable.step) (rule redis_step.create_made, simp_all)
  then have "?R (?ab, [Idle, Idle][0 := Creating, 1 := Creating, 0 := Holding ''a'', 1 := Holding ''b''])"
    by (rule redis_reachable.step)
      (rule redis_step.create_made, simp_all add: redis_getConn_add_def)
  then show ?thesis by (simp add: redis_getConn_add_def)
qed

lemma redis_pool_concurrent_witness:
  "redis_rleaseConn ''b'' [\<lparr>r_conn = ''a'', m_is_using = True\<rparr>, \<lparr>r_conn = ''b'', m_is_using = True\<rparr>] \<noteq> None"
  by (rule redis_pool_concurrent [THEN conjunct2, THEN conjunct2, THEN mp, THEN mp, OF redis_overshoot, of 1 "''b''"]) simp_all

end
