(* ===== verification/Byte_Buf.thy ===== *)
theory Byte_Buf
  imports Interfaces
begin

text \<open>
  The serialisation buffer \<open>nel/ByteBuf.h\<close>, \<open>nel/ByteBuf.cpp\<close>: a vector of bytes with a read
  and a write position.  Positions are natural numbers: they stay within the size of the
  vector.  A value of an arithmetic type is the list of the bytes of its representation, as
  \<open>append(&value, sizeof(value))\<close> and \<open>read(&value)\<close> copy them; the extra check that a
  floating-point value is finite is the argument \<open>finite_ok\<close>.  An operation returns its
  exception or its result, and the buffer as it is left.
\<close>

section \<open>Operations\<close>

record byte_buf =
  m_rpos :: nat
  m_wpos :: nat
  m_storage :: "byte list"

datatype bb_error = Overflow nat nat nat | Read_overflow | Not_finite | Is_empty

definition bb_new :: byte_buf where
  "bb_new = \<lparr>m_rpos = 0, m_wpos = 0, m_storage = []\<rparr>"

definition bb_of_bytes :: "byte list \<Rightarrow> byte_buf" where
  "bb_of_bytes bs = \<lparr>m_rpos = 0, m_wpos = length bs, m_storage = bs\<rparr>"

text \<open>The moved-from buffer keeps its positions and loses its vector.\<close>

definition bb_move :: "byte_buf \<Rightarrow> byte_buf \<times> byte_buf" where
  "bb_move b = (b, b\<lparr>m_storage := []\<rparr>)"

definition byteSize :: "byte_buf \<Rightarrow> bb_error + nat" where
  "byteSize b = (if m_wpos b < m_rpos b then Inl Read_overflow else Inr (m_wpos b - m_rpos b))"

definition byteEmpty :: "byte_buf \<Rightarrow> bool" where
  "byteEmpty b \<longleftrightarrow> m_rpos b = length (m_storage b)"

definition bb_clear :: "byte_buf \<Rightarrow> byte_buf" where
  "bb_clear b = b\<lparr>m_rpos := 0, m_wpos := 0, m_storage := []\<rparr>"

definition bb_resize :: "nat \<Rightarrow> byte_buf \<Rightarrow> byte_buf" where
  "bb_resize n b =
     (let st = take n (m_storage b) @ replicate (n - length (m_storage b)) 0
      in b\<lparr>m_storage := st, m_rpos := 0, m_wpos := length st\<rparr>)"

definition bb_append :: "byte list \<Rightarrow> byte_buf \<Rightarrow> byte_buf" where
  "bb_append src b =
     (if src = [] then b
      else
        (let st = (if length (m_storage b) < m_wpos b + length src
                   then m_storage b @ replicate (m_wpos b + length src - length (m_storage b)) 0
                   else m_storage b)
         in b\<lparr>m_storage := take (m_wpos b) st @ src @ drop (m_wpos b + length src) st,
              m_wpos := m_wpos b + length src\<rparr>))"

definition put_bool :: "bool \<Rightarrow> byte_buf \<Rightarrow> byte_buf" where
  "put_bool v b = bb_append [if v then 1 else 0] b"

definition bb_data :: "byte_buf \<Rightarrow> bb_error + byte list" where
  "bb_data b = (if byteEmpty b then Inl Is_empty else Inr (drop (m_rpos b) (m_storage b)))"

definition bb_read :: "nat \<Rightarrow> byte_buf \<Rightarrow> bb_error + byte list" where
  "bb_read n b = res_bind (byteSize b) (\<lambda>size.
     if size < n then Inl (Overflow (m_rpos b) n size)
     else Inr (take n (drop (m_rpos b) (m_storage b))))"

definition readSkip :: "nat \<Rightarrow> byte_buf \<Rightarrow> bb_error + byte_buf" where
  "readSkip n b = res_bind (byteSize b) (\<lambda>size.
     if size < n then Inl (Overflow (m_rpos b) n size)
     else Inr (b\<lparr>m_rpos := m_rpos b + n\<rparr>))"

definition read_checked :: "(byte list \<Rightarrow> bool) \<Rightarrow> nat \<Rightarrow> byte_buf \<Rightarrow> bb_error + byte list" where
  "read_checked finite_ok n b = res_bind (bb_read n b) (\<lambda>v.
     if finite_ok v then Inr v else Inl Not_finite)"

definition read_bool :: "byte_buf \<Rightarrow> bb_error + bool" where
  "read_bool b = res_bind (bb_read 1 b) (\<lambda>v. Inr (hd v \<noteq> 0))"

text \<open>\<open>operator>>\<close> of an arithmetic type, of a vector, and of a string.\<close>

definition get_value :: "(byte list \<Rightarrow> bool) \<Rightarrow> nat \<Rightarrow> byte_buf \<Rightarrow> bb_error + byte list \<times> byte_buf" where
  "get_value finite_ok n b = res_bind (read_checked finite_ok n b) (\<lambda>v.
     res_bind (readSkip n b) (\<lambda>b'. Inr (v, b')))"

definition get_vector :: "byte_buf \<Rightarrow> bb_error + byte list \<times> byte_buf" where
  "get_vector b =
     (if byteEmpty b then Inr ([], b)
      else res_bind (bb_data b) (\<lambda>d. res_bind (byteSize b) (\<lambda>n.
           res_bind (readSkip n b) (\<lambda>b'. Inr (take n d, b')))))"

function (sequential) get_string :: "byte list \<Rightarrow> byte_buf \<Rightarrow> (bb_error + unit) \<times> byte list \<times> byte_buf" where
  "get_string val b =
     (if byteEmpty b then (Inr (), val, b)
      else (case bb_read 1 b of
          Inl e \<Rightarrow> (Inl e, val, b)
        | Inr c \<Rightarrow> (case readSkip 1 b of
              Inl e \<Rightarrow> (Inl e, val, b)
            | Inr b' \<Rightarrow> get_string (val @ c) b')))"
  by pat_completeness auto

termination
  by (relation "measure (\<lambda>(val, b). m_wpos b - m_rpos b)")
    (auto simp: readSkip_def byteSize_def res_bind_def split: if_splits sum.splits)

declare get_string.simps [simp del]

definition shrinkToFit :: "byte_buf \<Rightarrow> bb_error + byte_buf" where
  "shrinkToFit b =
     (if m_rpos b = 0 then Inr b
      else res_bind (byteSize b) (\<lambda>len.
        if len = 0 then Inr (b\<lparr>m_rpos := 0, m_wpos := 0\<rparr>)
        else
          (let st = take len (drop (m_rpos b) (m_storage b)) @ drop len (m_storage b)
           in Inr (b\<lparr>m_rpos := 0, m_wpos := len, m_storage := take len st\<rparr>))))"

section \<open>A queue of bytes\<close>

definition contents :: "byte_buf \<Rightarrow> byte list" where
  "contents b = take (m_wpos b - m_rpos b) (drop (m_rpos b) (m_storage b))"

definition bb_inv :: "byte_buf \<Rightarrow> bool" where
  "bb_inv b \<longleftrightarrow> m_rpos b \<le> m_wpos b \<and> m_wpos b \<le> length (m_storage b)"

text \<open>Nothing behind the write position.\<close>

definition tight :: "byte_buf \<Rightarrow> bool" where
  "tight b \<longleftrightarrow> m_wpos b = length (m_storage b)"

lemma length_contents: "bb_inv b \<Longrightarrow> length (contents b) = m_wpos b - m_rpos b"
  by (auto simp: contents_def bb_inv_def min_def)

lemma contents_drop: "contents b = drop (m_rpos b) (take (m_wpos b) (m_storage b))"
  by (simp add: contents_def drop_take)

lemma byteSize_contents: "bb_inv b \<Longrightarrow> byteSize b = Inr (length (contents b))"
  by (simp add: byteSize_def length_contents) (simp add: bb_inv_def)

lemma tight_inv: "bb_inv b \<Longrightarrow> tight b \<Longrightarrow> byteEmpty b \<longleftrightarrow> contents b = []"
  using length_contents [of b] by (auto simp: tight_def byteEmpty_def bb_inv_def)

lemma new_contents:
  "bb_inv bb_new" "contents bb_new = []" "tight bb_new"
  "bb_inv (bb_of_bytes bs)" "contents (bb_of_bytes bs) = bs" "tight (bb_of_bytes bs)"
  by (simp_all add: bb_inv_def contents_def tight_def bb_new_def bb_of_bytes_def)

lemma append_shape:
  assumes "bb_inv b" "src \<noteq> []"
  obtains rest where "m_storage (bb_append src b) = take (m_wpos b) (m_storage b) @ src @ rest"
    "tight b \<Longrightarrow> rest = []" "m_wpos (bb_append src b) = m_wpos b + length src"
    "m_rpos (bb_append src b) = m_rpos b"
proof -
  let ?n = "m_wpos b + length src"
  let ?st = "if length (m_storage b) < ?n then m_storage b @ replicate (?n - length (m_storage b)) 0
     else m_storage b"
  have "take (m_wpos b) ?st = take (m_wpos b) (m_storage b)"
    using assms(1) by (simp add: bb_inv_def)
  moreover have "drop ?n ?st = []" if "tight b" using that by (simp add: tight_def)
  ultimately show ?thesis
    using that [of "drop ?n ?st"] assms(2) by (simp add: bb_append_def Let_def)
qed

lemma append_contents:
  assumes "bb_inv b"
  shows "bb_inv (bb_append src b)" "contents (bb_append src b) = contents b @ src"
    "tight b \<Longrightarrow> tight (bb_append src b)"
proof -
  have "bb_inv (bb_append src b) \<and> contents (bb_append src b) = contents b @ src
      \<and> (tight b \<longrightarrow> tight (bb_append src b))"
  proof (cases "src = []")
    case True
    with assms show ?thesis by (simp add: bb_append_def)
  next
    case False
    obtain rest where "m_storage (bb_append src b) = take (m_wpos b) (m_storage b) @ src @ rest"
      "tight b \<Longrightarrow> rest = []" "m_wpos (bb_append src b) = m_wpos b + length src"
      "m_rpos (bb_append src b) = m_rpos b"
      by (rule append_shape [OF assms False]) blast
    with assms show ?thesis
      by (auto simp: bb_inv_def contents_drop tight_def min_def)
  qed
  then show "bb_inv (bb_append src b)" "contents (bb_append src b) = contents b @ src"
    "tight b \<Longrightarrow> tight (bb_append src b)" by blast+
qed

lemma read_contents:
  assumes "bb_inv b"
  shows "bb_read n b = (if length (contents b) < n
      then Inl (Overflow (m_rpos b) n (length (contents b))) else Inr (take n (contents b)))"
  using assms length_contents [OF assms]
  by (auto simp: bb_read_def byteSize_contents contents_def min_def)

lemma readSkip_contents:
  assumes "bb_inv b"
  shows "length (contents b) < n \<Longrightarrow> readSkip n b = Inl (Overflow (m_rpos b) n (length (contents b)))"
    "n \<le> length (contents b) \<Longrightarrow> \<exists>b'. readSkip n b = Inr b' \<and> bb_inv b' \<and>
       contents b' = drop n (contents b) \<and> tight b' = tight b \<and> m_rpos b' = m_rpos b + n"
  using assms length_contents [OF assms]
  by (auto simp: readSkip_def byteSize_contents bb_inv_def contents_def tight_def drop_take add.commute)

interpretation byte_buf_queue: byte_queue bb_inv contents "\<lambda>bs b. Inr (bb_append bs b)" readSkip
proof
  fix b b' :: byte_buf and n assume inv: "bb_inv b" and skip: "readSkip n b = Inr b'"
  then have n: "n \<le> length (contents b)" using readSkip_contents(1) [OF inv, of n] by (cases "length (contents b) < n") auto
  from readSkip_contents(2) [OF inv n] skip n
  show "bb_inv b' \<and> n \<le> length (contents b) \<and> contents b' = drop n (contents b)" by auto
qed (auto simp: append_contents)

lemma shrink_contents:
  assumes "bb_inv b"
  shows "\<exists>b'. shrinkToFit b = Inr b' \<and> bb_inv b' \<and> contents b' = contents b \<and>
    (tight b' \<longleftrightarrow> (if contents b = [] \<and> m_rpos b \<noteq> 0 then False else m_rpos b \<noteq> 0 \<or> tight b))"
proof (cases "m_rpos b = 0")
  case True
  then show ?thesis using assms by (simp add: shrinkToFit_def)
next
  case False
  show ?thesis
  proof (cases "contents b = []")
    case True
    with False assms show ?thesis
      by (auto simp: shrinkToFit_def byteSize_contents bb_inv_def contents_def tight_def)
  next
    case ne: False
    then have len: "0 < length (contents b)" by simp
    define st where "st = take (length (contents b)) (drop (m_rpos b) (m_storage b))"
    have "st = contents b" using length_contents [OF assms] by (simp add: st_def contents_def)
    with False ne assms show ?thesis
      by (auto simp: shrinkToFit_def byteSize_contents Let_def bb_inv_def tight_def contents_def
          simp flip: st_def)
  qed
qed

text \<open>
   A \<open>ByteBuf\<close> is a queue of bytes: writing appends to its contents; reading \<open>n\<close> bytes
  returns the first \<open>n\<close> and skipping removes them, or, when there are fewer, both throw the
  overflow exception with the position, the request and what is there; compacting leaves
  the contents as they are.
\<close>

lemma byte_buf_is_queue:
  assumes "bb_inv b"
  shows "(bb_inv (bb_append src b) \<and> contents (bb_append src b) = contents b @ src)
    \<and> (get_value (\<lambda>_. True) n b = (if length (contents b) < n
       then Inl (Overflow (m_rpos b) n (length (contents b)))
       else Inr (take n (contents b), b\<lparr>m_rpos := m_rpos b + n\<rparr>)))
    \<and> (n \<le> length (contents b) \<longrightarrow> bb_inv (b\<lparr>m_rpos := m_rpos b + n\<rparr>)
       \<and> contents (b\<lparr>m_rpos := m_rpos b + n\<rparr>) = drop n (contents b))
    \<and> (\<exists>b'. shrinkToFit b = Inr b' \<and> bb_inv b' \<and> contents b' = contents b)"
proof -
  have part1: "bb_inv (bb_append src b) \<and> contents (bb_append src b) = contents b @ src"
    using append_contents [OF assms] by blast
  have part2: "\<exists>b'. shrinkToFit b = Inr b' \<and> bb_inv b' \<and> contents b' = contents b"
    using shrink_contents [OF assms] by blast
  have part3: "get_value (\<lambda>_. True) n b = (if length (contents b) < n
       then Inl (Overflow (m_rpos b) n (length (contents b)))
       else Inr (take n (contents b), b\<lparr>m_rpos := m_rpos b + n\<rparr>))"
    using assms by (simp add: get_value_def read_checked_def read_contents readSkip_def byteSize_contents)
  have part4: "bb_inv (b\<lparr>m_rpos := m_rpos b + n\<rparr>) \<and> contents (b\<lparr>m_rpos := m_rpos b + n\<rparr>) = drop n (contents b)"
    if "n \<le> length (contents b)"
    using assms that length_contents [OF assms]
    by (auto simp: bb_inv_def contents_def drop_take add.commute)
  show ?thesis using part1 part2 part3 part4 by blast
qed

lemma byte_buf_is_queue_witness:
  "get_value (\<lambda>_. True) 2 (bb_append [1, 2, 3] bb_new) = Inr ([1, 2], (bb_append [1, 2, 3] bb_new)\<lparr>m_rpos := 2\<rparr>)
   \<and> get_value (\<lambda>_. True) 4 (bb_append [1, 2, 3] bb_new) = Inl (Overflow 0 4 3)"
proof -
  let ?b = "bb_append [1, 2, 3] bb_new"
  have inv: "bb_inv ?b" using byte_buf_is_queue [OF new_contents(1)] by blast
  have "contents ?b = [1, 2, 3]" "m_rpos ?b = 0" by code_simp+
  then show ?thesis using byte_buf_is_queue [OF inv, THEN conjunct2, THEN conjunct1, of 2]
      byte_buf_is_queue [OF inv, THEN conjunct2, THEN conjunct1, of 4]
    by (simp add: numeral_2_eq_2)
qed

text \<open>What remains of a string read.\<close>

lemma get_string_all:
  assumes "bb_inv b"
  shows "get_string val b =
    (if tight b then Inr () else Inl (Overflow (m_wpos b) 1 0),
     val @ contents b, b\<lparr>m_rpos := m_wpos b\<rparr>)"
  using assms
proof (induction val b rule: get_string.induct)
  case (1 val b)
  show ?case
  proof (cases "byteEmpty b")
    case True
    with 1(2) have "m_wpos b = m_rpos b" "tight b" "contents b = []"
      by (auto simp: byteEmpty_def bb_inv_def tight_def contents_def)
    then show ?thesis using True by (subst get_string.simps) simp
  next
    case ne: False
    show ?thesis
    proof (cases "contents b")
      case Nil
      then have "m_wpos b = m_rpos b" "\<not> tight b"
        using 1(2) ne length_contents [OF 1(2)] by (auto simp: bb_inv_def tight_def byteEmpty_def)
      then show ?thesis using ne Nil 1(2)
        by (subst get_string.simps) (simp add: read_contents)
    next
      case (Cons c cs)
      then have r: "bb_read 1 b = Inr [c]" using 1(2) by (simp add: read_contents)
      have le: "1 \<le> length (contents b)" using Cons by simp
      from readSkip_contents(2) [OF 1(2) le] obtain b' where
        b': "readSkip 1 b = Inr b'" "bb_inv b'" "contents b' = cs" "tight b' = tight b"
        using Cons by auto
      have eq: "b' = b\<lparr>m_rpos := m_rpos b + 1\<rparr>"
        using b'(1) 1(2) Cons by (auto simp: readSkip_def byteSize_contents)
      have "get_string (val @ [c]) b' = (if tight b' then Inr () else Inl (Overflow (m_wpos b') 1 0),
          (val @ [c]) @ contents b', b'\<lparr>m_rpos := m_wpos b'\<rparr>)"
        by (rule 1(1) [OF ne r b'(1) b'(2)])
      then show ?thesis using ne r b' Cons
        by (subst get_string.simps) (simp add: eq)
    qed
  qed
qed

text \<open>
   Reading a string takes all the contents.  It then returns normally when the vector
  ends at the write position; otherwise \<open>byteEmpty\<close>, which compares with the size of the
  vector, never becomes true and the read throws the overflow exception after the last
  byte.  The latter happens after \<open>shrinkToFit\<close> has reset a buffer that was read to its end:
  it keeps the vector, so a shorter string written next cannot be read back.
\<close>

lemma string_read_back:
  assumes "bb_inv b"
  shows "(get_string [] b =
      (if tight b then Inr () else Inl (Overflow (m_wpos b) 1 0), contents b, b\<lparr>m_rpos := m_wpos b\<rparr>))
    \<and> (tight b \<longrightarrow> fst (get_string [] (bb_append str b)) = Inr ())
    \<and> (contents b = [] \<longrightarrow> m_rpos b \<noteq> 0 \<longrightarrow> length str < length (m_storage b) \<longrightarrow>
       (\<exists>b'. shrinkToFit b = Inr b' \<and>
         fst (get_string [] (bb_append str b')) = Inl (Overflow (length str) 1 0)))"
proof -
  have part1: "get_string [] b =
      (if tight b then Inr () else Inl (Overflow (m_wpos b) 1 0), contents b, b\<lparr>m_rpos := m_wpos b\<rparr>)"
    using get_string_all [OF assms, of "[]"] by simp
  have part2: "fst (get_string [] (bb_append str b)) = Inr ()" if "tight b"
    using get_string_all [OF append_contents(1) [OF assms], of "[]" str] append_contents(3) [OF assms that, of str]
    by simp
  have part3: "\<exists>b'. shrinkToFit b = Inr b' \<and>
         fst (get_string [] (bb_append str b')) = Inl (Overflow (length str) 1 0)"
    if e: "contents b = []" "m_rpos b \<noteq> 0" "length str < length (m_storage b)"
  proof -
    let ?b = "b\<lparr>m_rpos := 0, m_wpos := 0\<rparr>"
    have sh: "shrinkToFit b = Inr ?b"
      using e assms by (simp add: shrinkToFit_def byteSize_contents)
    have inv: "bb_inv ?b" by (simp add: bb_inv_def)
    have "m_wpos (bb_append str ?b) = length str" "\<not> tight (bb_append str ?b)"
      using e(3) by (auto simp: bb_append_def tight_def Let_def)
    then have "fst (get_string [] (bb_append str ?b)) = Inl (Overflow (length str) 1 0)"
      using get_string_all [OF append_contents(1) [OF inv], of "[]" str] by simp
    then show ?thesis using sh by blast
  qed
  show ?thesis using part1 part2 part3 by blast
qed

lemma string_read_back_witness:
  "\<exists>b'. shrinkToFit (bb_of_bytes [1, 2, 3]\<lparr>m_rpos := 3\<rparr>) = Inr b' \<and>
     fst (get_string [] (bb_append [9] b')) = Inl (Overflow (length [9 :: byte]) 1 0)"
  by (rule string_read_back [THEN conjunct2, THEN conjunct2, THEN mp, THEN mp, THEN mp])
    (simp_all add: bb_inv_def bb_of_bytes_def contents_def numeral_3_eq_3)

end
