(* ===== verification/Mysql_Values.thy ===== *)
theory Mysql_Values
  imports Interfaces Memory_Text
begin

text \<open>
  Values of result sets in \<open>mysqlcpp/mysqlcpp\<close>: the NUL-terminated buffer of
  \<open>detail/SafeString.h\<close>, the typed getters and setters of \<open>Field.cpp\<close>, dates and times
  (\<open>DateTime.cpp\<close>) and their parsing (\<open>Utils.cpp\<close>), the type names of \<open>FieldMeta.cpp\<close> and the
  lookup of a column in \<open>ResultSet.cpp\<close>.  The conversion of text to a number is
  \<open>boost::convert\<close>, an argument of the model.  An integer in memory is little-endian.
  \<open>None\<close> is a read outside the buffer.
\<close>

section \<open>SafeString\<close>

record safe_string =
  m_data :: "byte list"
  m_len :: nat

definition ss_resize :: "nat \<Rightarrow> safe_string \<Rightarrow> safe_string" where
  "ss_resize len s = \<lparr>m_data = (vec_resize (len + 1) (m_data s))[len := 0], m_len = len\<rparr>"

definition ss_clear :: "safe_string \<Rightarrow> safe_string" where
  "ss_clear s = ss_resize 0 s"

definition ss_new :: safe_string where
  "ss_new = ss_clear \<lparr>m_data = [], m_len = 0\<rparr>"

definition ss_move :: "safe_string \<Rightarrow> safe_string \<times> safe_string" where
  "ss_move rhs = (rhs, ss_clear (rhs\<lparr>m_data := []\<rparr>))"

definition ss_write :: "byte list \<Rightarrow> safe_string \<Rightarrow> safe_string" where
  "ss_write src s = s\<lparr>m_data := src @ drop (length src) (m_data s)\<rparr>"

definition ss_getCString :: "safe_string \<Rightarrow> byte list option" where
  "ss_getCString s = c_string (m_data s)"

definition ss_getBinary :: "safe_string \<Rightarrow> byte list" where
  "ss_getBinary s = take (m_len s) (m_data s)"

section \<open>Column types\<close>

datatype enum_field_types =
    TYPE_BIT | TYPE_BLOB | TYPE_DATE | TYPE_DATETIME | TYPE_NEWDECIMAL | TYPE_DECIMAL
  | TYPE_DOUBLE | TYPE_ENUM | TYPE_FLOAT | TYPE_GEOMETRY | TYPE_INT24 | TYPE_LONG
  | TYPE_LONGLONG | TYPE_LONG_BLOB | TYPE_MEDIUM_BLOB | TYPE_NEWDATE | TYPE_NULL | TYPE_SET
  | TYPE_SHORT | TYPE_STRING | TYPE_TIME | TYPE_TIMESTAMP | TYPE_TINY | TYPE_TINY_BLOB
  | TYPE_VAR_STRING | TYPE_YEAR | TYPE_other nat

fun fieldTypeName :: "enum_field_types \<Rightarrow> string" where
  "fieldTypeName TYPE_BIT = ''BIT''"
| "fieldTypeName TYPE_BLOB = ''BLOB''"
| "fieldTypeName TYPE_DATE = ''DATE''"
| "fieldTypeName TYPE_DATETIME = ''DATETIME''"
| "fieldTypeName TYPE_NEWDECIMAL = ''NEWDECIMAL''"
| "fieldTypeName TYPE_DECIMAL = ''DECIMAL''"
| "fieldTypeName TYPE_DOUBLE = ''DOUBLE''"
| "fieldTypeName TYPE_ENUM = ''ENUM''"
| "fieldTypeName TYPE_FLOAT = ''FLOAT''"
| "fieldTypeName TYPE_GEOMETRY = ''GEOMETRY''"
| "fieldTypeName TYPE_INT24 = ''INT24''"
| "fieldTypeName TYPE_LONG = ''LONG''"
| "fieldTypeName TYPE_LONGLONG = ''LONGLONG''"
| "fieldTypeName TYPE_LONG_BLOB = ''LONG_BLOB''"
| "fieldTypeName TYPE_MEDIUM_BLOB = ''MEDIUM_BLOB''"
| "fieldTypeName TYPE_NEWDATE = ''NEWDATE''"
| "fieldTypeName TYPE_NULL = ''NULL''"
| "fieldTypeName TYPE_SET = ''SET''"
| "fieldTypeName TYPE_SHORT = ''SHORT''"
| "fieldTypeName TYPE_STRING = ''STRING''"
| "fieldTypeName TYPE_TIME = ''TIME''"
| "fieldTypeName TYPE_TIMESTAMP = ''TIMESTAMP''"
| "fieldTypeName TYPE_TINY = ''TINY''"
| "fieldTypeName TYPE_TINY_BLOB = ''TINY_BLOB''"
| "fieldTypeName TYPE_VAR_STRING = ''VAR_STRING''"
| "fieldTypeName TYPE_YEAR = ''YEAR''"
| "fieldTypeName (TYPE_other n) = ''-Unknown-''"

section \<open>Fields\<close>

record field =
  m_type :: enum_field_types
  m_buffer :: safe_string
  m_is_binary :: bool
  m_is_null :: bool

definition new_field :: field where
  "new_field = \<lparr>m_type = TYPE_DECIMAL, m_buffer = ss_new, m_is_binary = False, m_is_null = False\<rparr>"

text \<open>\<open>src\<close> is \<open>None\<close> for a null pointer, otherwise the \<open>src_len\<close> bytes it points to.\<close>

definition setBinaryValue :: "enum_field_types \<Rightarrow> byte list option \<Rightarrow> bool \<Rightarrow> field \<Rightarrow> field" where
  "setBinaryValue type src raw_bytes f =
     f\<lparr>m_type := type, m_is_binary := raw_bytes,
       m_buffer := (case src of
           Some bs \<Rightarrow> ss_write bs (ss_resize (length bs) (m_buffer f))
         | None \<Rightarrow> ss_clear (m_buffer f))\<rparr>"

definition setNullValue :: "enum_field_types \<Rightarrow> field \<Rightarrow> field" where
  "setNullValue type f = f\<lparr>m_type := type, m_is_null := True\<rparr>"

text \<open>
  The getters of the integer types differ in the size \<open>n\<close> of the type and in the conversion
  \<open>cvt\<close> of text; signed types are the same bits.
\<close>

definition get_int :: "nat \<Rightarrow> (byte list \<Rightarrow> 'a :: len word) \<Rightarrow> field \<Rightarrow> 'a word option" where
  "get_int n cvt f =
     (if m_is_null f then Some 0
      else if m_is_binary f then
        (if length (m_data (m_buffer f)) < n then None
         else Some (un_le (take n (m_data (m_buffer f)))))
      else map_option cvt (ss_getCString (m_buffer f)))"

definition getUInt8 :: "(byte list \<Rightarrow> 8 word) \<Rightarrow> field \<Rightarrow> 8 word option" where
  "getUInt8 cvt f = get_int 1 cvt f"

definition getInt8 :: "(byte list \<Rightarrow> 8 word) \<Rightarrow> field \<Rightarrow> 8 word option" where
  "getInt8 cvt f = get_int 1 cvt f"

definition getUInt16 :: "(byte list \<Rightarrow> 16 word) \<Rightarrow> field \<Rightarrow> 16 word option" where
  "getUInt16 cvt f = get_int 2 cvt f"

definition getInt16 :: "(byte list \<Rightarrow> 16 word) \<Rightarrow> field \<Rightarrow> 16 word option" where
  "getInt16 cvt f = get_int 2 cvt f"

definition getUInt32 :: "(byte list \<Rightarrow> 32 word) \<Rightarrow> field \<Rightarrow> 32 word option" where
  "getUInt32 cvt f = get_int 4 cvt f"

definition getInt32 :: "(byte list \<Rightarrow> 32 word) \<Rightarrow> field \<Rightarrow> 32 word option" where
  "getInt32 cvt f = get_int 4 cvt f"

definition getUInt64 :: "(byte list \<Rightarrow> 64 word) \<Rightarrow> field \<Rightarrow> 64 word option" where
  "getUInt64 cvt f = get_int 8 cvt f"

definition getInt64 :: "(byte list \<Rightarrow> 64 word) \<Rightarrow> field \<Rightarrow> 64 word option" where
  "getInt64 cvt f = get_int 8 cvt f"

definition getBool :: "(byte list \<Rightarrow> 8 word) \<Rightarrow> field \<Rightarrow> bool option" where
  "getBool cvt f = map_option (\<lambda>v. v = 1) (getUInt8 cvt f)"

definition getCString :: "field \<Rightarrow> byte list option" where
  "getCString f = (if m_is_null f then Some [] else ss_getCString (m_buffer f))"

definition getString :: "field \<Rightarrow> byte list" where
  "getString f = (if m_is_null f then [] else take (m_len (m_buffer f)) (m_data (m_buffer f)))"

definition getBinary :: "field \<Rightarrow> byte list" where
  "getBinary f = (if m_is_null f then [] else ss_getBinary (m_buffer f))"

section \<open>What a field holds\<close>

lemma ss_written:
  "m_data (ss_write bs (ss_resize (length bs) s)) = bs @ [0]"
  "m_len (ss_write bs (ss_resize (length bs) s)) = length bs"
proof -
  let ?v = "(vec_resize (length bs + 1) (m_data s))[length bs := 0]"
  have len: "length ?v = Suc (length bs)" by (simp add: vec_resize_def)
  then have "drop (length bs) ?v = ?v ! length bs # drop (Suc (length bs)) ?v"
    by (intro Cons_nth_drop_Suc [symmetric]) simp
  also have "\<dots> = [0]" using len by simp
  finally show "m_data (ss_write bs (ss_resize (length bs) s)) = bs @ [0]"
    "m_len (ss_write bs (ss_resize (length bs) s)) = length bs"
    by (simp_all add: ss_write_def ss_resize_def)
qed

lemma setBinaryValue_Some:
  "m_data (m_buffer (setBinaryValue ty (Some bs) raw f)) = bs @ [0]"
  "m_len (m_buffer (setBinaryValue ty (Some bs) raw f)) = length bs"
  "m_is_null (setBinaryValue ty (Some bs) raw f) = m_is_null f"
  "m_is_binary (setBinaryValue ty (Some bs) raw f) = raw"
  by (simp_all add: setBinaryValue_def ss_written)

lemma get_int_binary:
  fixes v :: "'a :: len word"
  assumes "\<not> m_is_null f" "LENGTH('a) \<le> 8 * n"
  shows "get_int n cvt (setBinaryValue ty (Some (le_bytes n v)) True f) = Some v"
  using assms un_le_le_bytes [OF assms(2), of v]
  by (simp add: get_int_def setBinaryValue_Some)

interpretation f32: codec "\<lambda>v. True" "le_bytes 4"
    "\<lambda>bs. getUInt32 cvt (setBinaryValue TYPE_LONG (Some bs) True new_field)" for cvt
  by unfold_locales (simp add: getUInt32_def get_int_binary new_field_def)

text \<open>
   A field that is not null returns what was put in: an integer of the matching width
  from its binary form, the text, up to its first NUL as a C string and whole as a string,
  handed to the conversion for a number; no read leaves the buffer.  A null field returns
  zero or nothing, and it stays null whatever is put in later.
\<close>

lemma field_returns_value:
  fixes ty :: enum_field_types
  assumes "\<not> m_is_null f"
  defines "put \<equiv> \<lambda>bs raw. setBinaryValue ty (Some bs) raw f"
  shows "(getUInt8 c8 (put (le_bytes 1 v8) True) = Some v8)
    \<and> (getUInt16 c16 (put (le_bytes 2 v16) True) = Some v16)
    \<and> (getUInt32 c32 (put (le_bytes 4 v32) True) = Some v32)
    \<and> (getUInt64 c64 (put (le_bytes 8 v64) True) = Some v64)
    \<and> (getString (put txt raw) = txt)
    \<and> (getBinary (put txt raw) = txt)
    \<and> (getCString (put txt raw) = Some (takeWhile (\<lambda>b. b \<noteq> 0) txt))
    \<and> (getUInt32 c32 (put txt False) = Some (c32 (takeWhile (\<lambda>b. b \<noteq> 0) txt)))
    \<and> (getUInt64 c64 (setBinaryValue ty src raw (setNullValue ty' f)) = Some 0)
    \<and> (getString (setBinaryValue ty src raw (setNullValue ty' f)) = [])"
  using assms(1) unfolding put_def
  by (simp_all add: getUInt8_def getUInt16_def getUInt32_def getUInt64_def get_int_binary)
    (simp_all add: getString_def getBinary_def ss_getBinary_def getCString_def ss_getCString_def
      get_int_def setBinaryValue_Some c_string_terminated setNullValue_def setBinaryValue_def
      ss_written)

lemma field_returns_value_witness:
  "getUInt32 (\<lambda>_. 0) (setBinaryValue TYPE_LONG (Some (le_bytes 4 (70000 :: 32 word))) True new_field) = Some 70000"
  by (rule field_returns_value [THEN conjunct2, THEN conjunct2, THEN conjunct1]) (simp add: new_field_def)

section \<open>Dates and times\<close>

record mysql_time =
  year :: "32 word"
  month :: "32 word"
  day :: "32 word"
  hour :: "32 word"
  minute :: "32 word"
  second :: "32 word"
  second_part :: u64

definition zero_time :: mysql_time where
  "zero_time = \<lparr>year = 0, month = 0, day = 0, hour = 0, minute = 0, second = 0, second_part = 0\<rparr>"

definition dt_isNull :: "mysql_time \<Rightarrow> bool" where
  "dt_isNull t \<longleftrightarrow> year t = 0 \<and> month t = 0 \<and> day t = 0 \<and> hour t = 0 \<and> minute t = 0
     \<and> second t = 0 \<and> second_part t = 0"

definition dt_getString :: "mysql_time \<Rightarrow> string" where
  "dt_getString t =
     (let s = zero_padded 4 (sint (year t)) @ ''-'' @ zero_padded 2 (sint (month t)) @ ''-''
          @ zero_padded 2 (sint (day t)) @ '' '' @ zero_padded 2 (sint (hour t)) @ '':''
          @ zero_padded 2 (sint (minute t)) @ '':'' @ zero_padded 2 (sint (second t))
      in take 127 (if second_part t = 0 then s
                   else s @ ''.'' @ zero_padded 6 (sint (second_part t))))"

text \<open>
  \<open>std::regex_search\<close> of \<open>(\d+)c1(\d+)c2...(\d+)\<close>: the leftmost match.  Separators are not
  digits, so a group followed by one is a maximal run of digits, and the last one is greedy.
\<close>

fun match_groups :: "string \<Rightarrow> string \<Rightarrow> string list option" where
  "match_groups [] s = (if takeWhile is_digit s = [] then None else Some [takeWhile is_digit s])"
| "match_groups (c # cs) s =
     (if takeWhile is_digit s = [] then None
      else (case dropWhile is_digit s of
          [] \<Rightarrow> None
        | x # r \<Rightarrow> if x = c then map_option ((#) (takeWhile is_digit s)) (match_groups cs r) else None))"

fun regex_search :: "string \<Rightarrow> string \<Rightarrow> string list option" where
  "regex_search cs s = (case match_groups cs s of
      Some gs \<Rightarrow> Some gs
    | None \<Rightarrow> (case s of [] \<Rightarrow> None | _ # s' \<Rightarrow> regex_search cs s'))"

declare regex_search.simps [simp del]

definition stringTo_Date :: "(string \<Rightarrow> 32 word) \<Rightarrow> string \<Rightarrow> mysql_time \<Rightarrow> bool \<times> mysql_time" where
  "stringTo_Date cvt str t =
     (if length str \<noteq> 10 then (False, t)
      else (case regex_search ''--'' str of
          Some [y, m, d] \<Rightarrow> (True, t\<lparr>year := cvt y, month := cvt m, day := cvt d\<rparr>)
        | _ \<Rightarrow> (False, t)))"

definition stringTo_DateTime_Timestamp ::
    "(string \<Rightarrow> 32 word) \<Rightarrow> string \<Rightarrow> mysql_time \<Rightarrow> bool \<times> mysql_time" where
  "stringTo_DateTime_Timestamp cvt str t =
     (if str = [] then (False, t)
      else (case regex_search ''-- ::'' str of
          Some [y, m, d, h, mi, s] \<Rightarrow>
            (True, \<lparr>year = cvt y, month = cvt m, day = cvt d, hour = cvt h, minute = cvt mi,
                    second = cvt s, second_part = 0\<rparr>)
        | _ \<Rightarrow> (case regex_search ''-- ::.'' str of
              Some [y, m, d, h, mi, s, p] \<Rightarrow>
                (True, \<lparr>year = cvt y, month = cvt m, day = cvt d, hour = cvt h, minute = cvt mi,
                        second = cvt s, second_part = ucast (cvt p)\<rparr>)
            | _ \<Rightarrow> (False, t))))"

definition field_getDateTime :: "(string \<Rightarrow> 32 word) \<Rightarrow> (byte list \<Rightarrow> mysql_time option) \<Rightarrow> field \<Rightarrow> mysql_time option" where
  "field_getDateTime cvt from_memory f =
     (if m_is_null f then Some zero_time
      else if m_is_binary f then from_memory (take (m_len (m_buffer f)) (m_data (m_buffer f)))
      else
        (let str = map (\<lambda>b. char_of (unat b)) (getString f)
         in if m_type f = TYPE_DATE then Some (snd (stringTo_Date cvt str zero_time))
            else if m_type f = TYPE_DATETIME \<or> m_type f = TYPE_TIMESTAMP
            then Some (snd (stringTo_DateTime_Timestamp cvt str zero_time))
            else Some zero_time))"

text \<open>A rendered time is matched at its start.\<close>

lemma match_groups_Cons:
  assumes "digit_string d" "\<not> is_digit c"
  shows "match_groups (c # cs) (d @ c # s) = map_option ((#) d) (match_groups cs s)"
  using takeWhile_digits [OF assms, of s] assms(1) by (simp add: digit_string_def)

lemma match_groups_last:
  assumes "digit_string d"
  shows "match_groups [] d = Some [d]"
    "\<not> is_digit c \<Longrightarrow> match_groups [] (d @ c # s) = Some [d]"
proof -
  have eq: "takeWhile is_digit d = d" and "d \<noteq> []"
    using assms by (simp_all add: digit_string_def list_all_iff)
  then show "match_groups [] d = Some [d]" unfolding match_groups.simps eq by (simp only: if_False)
  show "match_groups [] (d @ c # s) = Some [d]" if "\<not> is_digit c"
    using takeWhile_digits(1) [OF assms that] \<open>d \<noteq> []\<close> by simp
qed

lemma separators: "\<not> is_digit (CHR ''-'')" "\<not> is_digit (CHR '' '')" "\<not> is_digit (CHR '':'')" "\<not> is_digit (CHR ''.'')"
  by code_simp+

lemma match_time:
  assumes "digit_string y" "digit_string m" "digit_string d" "digit_string h" "digit_string mi"
    "digit_string s" "rest = [] \<or> (\<exists>p. rest = CHR ''.'' # p)"
  shows "match_groups ''-- ::'' (y @ ''-'' @ m @ ''-'' @ d @ '' '' @ h @ '':'' @ mi @ '':'' @ s @ rest)
    = Some [y, m, d, h, mi, s]"
proof -
  have "match_groups [] (s @ rest) = Some [s]"
    using assms(7)
  proof
    assume "rest = []"
    then show ?thesis using match_groups_last(1) [OF assms(6)] by (simp del: match_groups.simps)
  next
    assume "\<exists>p. rest = CHR ''.'' # p"
    then obtain p where "rest = CHR ''.'' # p" by blast
    then show ?thesis
      using match_groups_last(2) [OF assms(6) separators(4)] by (simp del: match_groups.simps)
  qed
  then show ?thesis
    using assms(1-5) by (simp add: match_groups_Cons separators del: match_groups.simps)
qed

text \<open>A field of a date is an \<open>unsigned int\<close> printed as a signed one.\<close>

definition plain :: "32 word \<Rightarrow> bool" where
  "plain v \<longleftrightarrow> 0 \<le> sint v"

lemma plain_padded:
  assumes "plain v" "w \<le> 10"
  shows "digit_string (zero_padded w (sint v))" "length (zero_padded w (sint v)) \<le> 10"
    "decimal (zero_padded w (sint v)) = unat v"
proof -
  have pos: "0 \<le> sint v" using assms(1) by (simp add: plain_def)
  have lt: "sint v < 2 ^ 31" using sint_range_size [of v] by (simp add: word_size)
  show "digit_string (zero_padded w (sint v))" by (rule zero_padded_ok(1) [OF pos])
  have "sint v < 10 ^ Suc 9" using lt by simp
  then show "length (zero_padded w (sint v)) \<le> 10"
    using length_zero_padded [OF pos, of 9 w] assms(2) by simp
  have "uint v = take_bit 32 (sint v)" by (simp add: uint_sint)
  also have "\<dots> = sint v" using pos lt by (simp add: take_bit_int_eq_self_iff)
  finally have "uint v = sint v" .
  then have "nat (sint v) = unat v" by (simp only: unat_eq_nat_uint)
  with zero_padded_ok(2) [OF pos, of w] show "decimal (zero_padded w (sint v)) = unat v"
    by (rule trans)
qed

definition converts :: "(string \<Rightarrow> 32 word) \<Rightarrow> bool" where
  "converts cvt \<longleftrightarrow> (\<forall>ds. digit_string ds \<longrightarrow> decimal ds < 2 ^ 32 \<longrightarrow> cvt ds = of_nat (decimal ds))"

lemma converts_padded:
  assumes "converts cvt" "plain v" "w \<le> 10"
  shows "cvt (zero_padded w (sint v)) = v"
  using assms(1) plain_padded [OF assms(2,3)] unsigned_less [of v, where ?'a = nat]
  by (simp add: converts_def)

lemma search_at_start: "match_groups cs s = Some gs \<Longrightarrow> regex_search cs s = Some gs"
  by (subst regex_search.simps) simp

definition plain_time :: "mysql_time \<Rightarrow> bool" where
  "plain_time t \<longleftrightarrow> plain (year t) \<and> plain (month t) \<and> plain (day t) \<and> plain (hour t)
     \<and> plain (minute t) \<and> plain (second t)"

lemma search_rendered:
  assumes "plain_time t"
  shows "regex_search ''-- ::'' (dt_getString t)
    = Some [zero_padded 4 (sint (year t)), zero_padded 2 (sint (month t)), zero_padded 2 (sint (day t)),
        zero_padded 2 (sint (hour t)), zero_padded 2 (sint (minute t)), zero_padded 2 (sint (second t))]"
proof -
  let ?y = "zero_padded 4 (sint (year t))" and ?m = "zero_padded 2 (sint (month t))"
    and ?d = "zero_padded 2 (sint (day t))" and ?h = "zero_padded 2 (sint (hour t))"
    and ?mi = "zero_padded 2 (sint (minute t))" and ?s = "zero_padded 2 (sint (second t))"
  define head where "head = ?y @ ''-'' @ ?m @ ''-'' @ ?d @ '' '' @ ?h @ '':'' @ ?mi @ '':'' @ ?s"
  have fields: "plain (year t)" "plain (month t)" "plain (day t)" "plain (hour t)"
    "plain (minute t)" "plain (second t)"
    using assms by (simp_all add: plain_time_def)
  note ok = fields [THEN plain_padded(1), simplified]
  have "length ?y \<le> 10" "length ?m \<le> 10" "length ?d \<le> 10" "length ?h \<le> 10" "length ?mi \<le> 10"
    "length ?s \<le> 10"
    using fields by (simp_all add: plain_padded(2))
  then have short: "length head \<le> 65" by (simp add: head_def)
  have eq: "dt_getString t
      = take 127 (if second_part t = 0 then head else head @ ''.'' @ zero_padded 6 (sint (second_part t)))"
    by (simp only: dt_getString_def Let_def head_def)
  obtain rest where rest: "dt_getString t = head @ rest" "rest = [] \<or> (\<exists>p. rest = CHR ''.'' # p)"
  proof (cases "second_part t = 0")
    case True
    then have "dt_getString t = head @ []" using short eq by simp
    then show thesis using that by blast
  next
    case False
    let ?z = "zero_padded 6 (sint (second_part t))"
    have eq: "dt_getString t = take 127 (head @ CHR ''.'' # ?z)"
      using False eq by simp
    have "127 - length head = Suc (126 - length head)" using short by simp
    then have "take 127 (head @ CHR ''.'' # ?z) = head @ CHR ''.'' # take (126 - length head) ?z"
      using short by simp
    then show thesis using that eq by simp
  qed
  have "match_groups ''-- ::'' (head @ rest) = Some [?y, ?m, ?d, ?h, ?mi, ?s]"
    using match_time [OF _ _ _ _ _ _ rest(2), of ?y ?m ?d ?h ?mi ?s] fields
    by (simp add: head_def plain_padded(1) del: match_groups.simps)
  then show ?thesis unfolding rest(1) by (rule search_at_start)
qed

text \<open>
   Parsing what \<open>getString\<close> renders gives the time back, to the second: with a conversion
  that reads decimal digits, every time whose fields are printed without a sign is found again,
  but the fraction of a second is always lost, since the pattern without it is tried first and
  matches a text that has one.
\<close>

lemma datetime_roundtrip:
  assumes "converts cvt" "plain_time t"
  shows "stringTo_DateTime_Timestamp cvt (dt_getString t) t0 = (True, t\<lparr>second_part := 0\<rparr>)"
proof -
  have "dt_getString t \<noteq> []"
    using search_rendered [OF assms(2)] by (auto simp: regex_search.simps)
  then show ?thesis
    using assms(2)
    by (simp add: stringTo_DateTime_Timestamp_def search_rendered [OF assms(2)] plain_time_def
        converts_padded [OF assms(1)])
qed

lemma datetime_roundtrip_witness:
  "stringTo_DateTime_Timestamp (\<lambda>ds. of_nat (decimal ds)) ''2024-02-29 23:05:09.000250'' zero_time
   = (True, \<lparr>year = 2024, month = 2, day = 29, hour = 23, minute = 5, second = 9, second_part = 0\<rparr>)"
proof -
  let ?t = "\<lparr>year = 2024, month = 2, day = 29, hour = 23, minute = 5, second = 9, second_part = 250\<rparr>"
  have "dt_getString ?t = ''2024-02-29 23:05:09.000250''" by code_simp
  moreover have "plain_time ?t" by code_simp
  ultimately show ?thesis
    using datetime_roundtrip [of "\<lambda>ds. of_nat (decimal ds)" ?t zero_time]
    by (simp add: converts_def)
qed

end
