(* ===== verification/Mysql_Bind.thy ===== *)
theory Mysql_Bind
  imports Mysql_Values
begin

text \<open>
  The bindings of a prepared statement in \<open>mysqlcpp/mysqlcpp/detail\<close>: the parameters of
  \<open>ParamBind.cpp\<close> and the buffers of \<open>ResultBind.cpp\<close> into which the client library writes
  the columns of a row.  A \<open>MYSQL_BIND\<close> holds a pointer into the storage of its own class; the
  model keeps the index of the vector it points into.  \<open>None\<close> is a failed assertion.
\<close>

section \<open>Parameters\<close>

record mysql_bind =
  buffer_type :: enum_field_types
  buffer :: "nat option"
  buffer_length :: nat
  is_unsigned :: bool

text \<open>\<open>memset\<close> with zeros; the type with number zero is \<open>MYSQL_TYPE_DECIMAL\<close>.\<close>

definition zero_bind :: mysql_bind where
  "zero_bind = \<lparr>buffer_type = TYPE_DECIMAL, buffer = None, buffer_length = 0, is_unsigned = False\<rparr>"

record param_bind =
  m_param_count :: nat
  m_bind :: "mysql_bind list"
  m_value_set :: "bool list"
  m_bind_buffer :: "byte list list"

definition new_ParamBind :: "nat \<Rightarrow> param_bind" where
  "new_ParamBind n =
     (if n > 0 then \<lparr>m_param_count = n, m_bind = replicate n zero_bind,
                     m_value_set = replicate n False, m_bind_buffer = replicate n []\<rparr>
      else \<lparr>m_param_count = n, m_bind = [], m_value_set = [], m_bind_buffer = []\<rparr>)"

definition checkValidIndex :: "nat \<Rightarrow> param_bind \<Rightarrow> bool" where
  "checkValidIndex index pb \<longleftrightarrow> index < m_param_count pb"

definition set_flag :: "nat \<Rightarrow> param_bind \<Rightarrow> param_bind" where
  "set_flag index pb = pb\<lparr>m_value_set := (m_value_set pb)[index := True]\<rparr>"

definition update_bind :: "nat \<Rightarrow> (mysql_bind \<Rightarrow> mysql_bind) \<Rightarrow> param_bind \<Rightarrow> param_bind" where
  "update_bind index f pb = pb\<lparr>m_bind := (m_bind pb)[index := f (m_bind pb ! index)]\<rparr>"

definition setWholeNumber :: "nat \<Rightarrow> enum_field_types \<Rightarrow> byte list \<Rightarrow> bool \<Rightarrow> param_bind \<Rightarrow> param_bind" where
  "setWholeNumber index type src uns pb =
     update_bind index (\<lambda>b. b\<lparr>buffer_type := type, buffer := Some index, is_unsigned := uns\<rparr>)
       (pb\<lparr>m_bind_buffer := (m_bind_buffer pb)[index := src]\<rparr>)"

definition setRealNumber :: "nat \<Rightarrow> enum_field_types \<Rightarrow> byte list \<Rightarrow> param_bind \<Rightarrow> param_bind" where
  "setRealNumber index type src pb =
     update_bind index (\<lambda>b. b\<lparr>buffer_type := type, buffer := Some index\<rparr>)
       (pb\<lparr>m_bind_buffer := (m_bind_buffer pb)[index := src]\<rparr>)"

text \<open>The setters check the index and mark the parameter first.\<close>

definition checked :: "nat \<Rightarrow> (param_bind \<Rightarrow> param_bind) \<Rightarrow> param_bind \<Rightarrow> param_bind option" where
  "checked index f pb = (if checkValidIndex index pb then Some (f (set_flag index pb)) else None)"

definition setUInt8 :: "nat \<Rightarrow> 8 word \<Rightarrow> param_bind \<Rightarrow> param_bind option" where
  "setUInt8 index v = checked index (setWholeNumber index TYPE_TINY (le_bytes 1 v) True)"

definition setBool :: "nat \<Rightarrow> bool \<Rightarrow> param_bind \<Rightarrow> param_bind option" where
  "setBool index v = setUInt8 index (if v then 1 else 0)"

definition setUInt16 :: "nat \<Rightarrow> 16 word \<Rightarrow> param_bind \<Rightarrow> param_bind option" where
  "setUInt16 index v = checked index (setWholeNumber index TYPE_SHORT (le_bytes 2 v) True)"

definition setUInt32 :: "nat \<Rightarrow> 32 word \<Rightarrow> param_bind \<Rightarrow> param_bind option" where
  "setUInt32 index v = checked index (setWholeNumber index TYPE_LONG (le_bytes 4 v) True)"

definition setUInt64 :: "nat \<Rightarrow> 64 word \<Rightarrow> param_bind \<Rightarrow> param_bind option" where
  "setUInt64 index v = checked index (setWholeNumber index TYPE_LONGLONG (le_bytes 8 v) True)"

definition setInt8 :: "nat \<Rightarrow> 8 word \<Rightarrow> param_bind \<Rightarrow> param_bind option" where
  "setInt8 index v = checked index (setWholeNumber index TYPE_TINY (le_bytes 1 v) False)"

definition setInt16 :: "nat \<Rightarrow> 16 word \<Rightarrow> param_bind \<Rightarrow> param_bind option" where
  "setInt16 index v = checked index (setWholeNumber index TYPE_SHORT (le_bytes 2 v) False)"

definition setInt32 :: "nat \<Rightarrow> 32 word \<Rightarrow> param_bind \<Rightarrow> param_bind option" where
  "setInt32 index v = checked index (setWholeNumber index TYPE_LONG (le_bytes 4 v) False)"

definition setInt64 :: "nat \<Rightarrow> 64 word \<Rightarrow> param_bind \<Rightarrow> param_bind option" where
  "setInt64 index v = checked index (setWholeNumber index TYPE_LONGLONG (le_bytes 8 v) False)"

text \<open>A \<open>float\<close> or \<open>double\<close> is given by its bits.\<close>

definition setFloat :: "nat \<Rightarrow> 32 word \<Rightarrow> param_bind \<Rightarrow> param_bind option" where
  "setFloat index v = checked index (setRealNumber index TYPE_FLOAT (le_bytes 4 v))"

definition setDouble :: "nat \<Rightarrow> 64 word \<Rightarrow> param_bind \<Rightarrow> param_bind option" where
  "setDouble index v = checked index (setRealNumber index TYPE_DOUBLE (le_bytes 8 v))"

definition setBinary :: "nat \<Rightarrow> byte list \<Rightarrow> bool \<Rightarrow> param_bind \<Rightarrow> param_bind option" where
  "setBinary index value is_string = checked index (\<lambda>pb.
     update_bind index (\<lambda>b. b\<lparr>buffer := (if value = [] then None else Some index),
         buffer_type := (if is_string then TYPE_VAR_STRING else TYPE_BLOB),
         buffer_length := length value\<rparr>)
       (pb\<lparr>m_bind_buffer := (m_bind_buffer pb)[index := value]\<rparr>))"

definition setString :: "nat \<Rightarrow> byte list \<Rightarrow> param_bind \<Rightarrow> param_bind option" where
  "setString index value = (if value = [] then setBinary index [] True else setBinary index value True)"

text \<open>From a C string; memory without a NUL is a fault.\<close>

definition setString_c :: "nat \<Rightarrow> byte list \<Rightarrow> param_bind \<Rightarrow> param_bind option" where
  "setString_c index mem pb = (case c_string mem of
       None \<Rightarrow> None
     | Some value \<Rightarrow> if length value = 0 then setBinary index [] True pb else setBinary index value True pb)"

definition setNull :: "nat \<Rightarrow> param_bind \<Rightarrow> param_bind option" where
  "setNull index = checked index (update_bind index (\<lambda>b. b\<lparr>buffer_type := TYPE_NULL\<rparr>))"

text \<open>The bytes of a \<open>MYSQL_TIME\<close> are an argument.\<close>

definition setDateTime :: "nat \<Rightarrow> byte list \<Rightarrow> param_bind \<Rightarrow> param_bind option" where
  "setDateTime index time_bytes = checked index (\<lambda>pb.
     update_bind index (\<lambda>b. b\<lparr>buffer := Some index, buffer_type := TYPE_DATETIME\<rparr>)
       (pb\<lparr>m_bind_buffer := (m_bind_buffer pb)[index := time_bytes]\<rparr>))"

definition pb_clear :: "param_bind \<Rightarrow> param_bind" where
  "pb_clear pb = new_ParamBind (m_param_count pb)"

definition getMYSQL_BIND :: "param_bind \<Rightarrow> mysql_bind list option" where
  "getMYSQL_BIND pb = (if m_bind pb = [] then None else Some (m_bind pb))"

section \<open>What is sent\<close>

text \<open>
  What the client library reads through a bound parameter: nothing for \<open>MYSQL_TYPE_NULL\<close>, the
  fixed size of a number or a time, and \<open>buffer_length\<close> bytes of a string or blob.
\<close>

datatype sent = Sent_null | Sent_number enum_field_types bool "byte list"
  | Sent_bytes enum_field_types "byte list" | Sent_garbage

definition number_size :: "enum_field_types \<Rightarrow> nat option" where
  "number_size ty = (case ty of TYPE_TINY \<Rightarrow> Some 1 | TYPE_SHORT \<Rightarrow> Some 2 | TYPE_LONG \<Rightarrow> Some 4
     | TYPE_LONGLONG \<Rightarrow> Some 8 | _ \<Rightarrow> None)"

definition pointed :: "param_bind \<Rightarrow> mysql_bind \<Rightarrow> byte list" where
  "pointed pb b = (case buffer b of None \<Rightarrow> [] | Some i \<Rightarrow> m_bind_buffer pb ! i)"

definition bound_value :: "nat \<Rightarrow> mysql_bind \<Rightarrow> byte list \<Rightarrow> sent" where
  "bound_value time_size b mem =
     (let fixed = (\<lambda>n s. if n \<le> length mem then s (take n mem) else Sent_garbage)
      in case buffer_type b of
           TYPE_NULL \<Rightarrow> Sent_null
         | TYPE_FLOAT \<Rightarrow> fixed 4 (Sent_bytes TYPE_FLOAT)
         | TYPE_DOUBLE \<Rightarrow> fixed 8 (Sent_bytes TYPE_DOUBLE)
         | TYPE_DATETIME \<Rightarrow> fixed time_size (Sent_bytes TYPE_DATETIME)
         | ty \<Rightarrow> (case number_size ty of
               Some n \<Rightarrow> fixed n (Sent_number ty (is_unsigned b))
             | None \<Rightarrow> fixed (buffer_length b) (Sent_bytes ty)))"

definition library_reads :: "nat \<Rightarrow> param_bind \<Rightarrow> nat \<Rightarrow> sent" where
  "library_reads time_size pb i =
     (let b = m_bind pb ! i in bound_value time_size b (pointed pb b))"

text \<open>The setters as data, and what each one is to send.\<close>

datatype param =
    P_bool bool | P_u8 "8 word" | P_u16 "16 word" | P_u32 "32 word" | P_u64 "64 word"
  | P_i8 "8 word" | P_i16 "16 word" | P_i32 "32 word" | P_i64 "64 word"
  | P_float "32 word" | P_double "64 word" | P_string "byte list" | P_binary "byte list"
  | P_null | P_time "byte list"

fun set_param :: "nat \<times> param \<Rightarrow> param_bind \<Rightarrow> param_bind option" where
  "set_param (i, P_bool v) = setBool i v"
| "set_param (i, P_u8 v) = setUInt8 i v"
| "set_param (i, P_u16 v) = setUInt16 i v"
| "set_param (i, P_u32 v) = setUInt32 i v"
| "set_param (i, P_u64 v) = setUInt64 i v"
| "set_param (i, P_i8 v) = setInt8 i v"
| "set_param (i, P_i16 v) = setInt16 i v"
| "set_param (i, P_i32 v) = setInt32 i v"
| "set_param (i, P_i64 v) = setInt64 i v"
| "set_param (i, P_float v) = setFloat i v"
| "set_param (i, P_double v) = setDouble i v"
| "set_param (i, P_string v) = setString i v"
| "set_param (i, P_binary v) = setBinary i v False"
| "set_param (i, P_null) = setNull i"
| "set_param (i, P_time v) = setDateTime i v"

fun meant :: "param \<Rightarrow> sent" where
  "meant (P_bool v) = Sent_number TYPE_TINY True [if v then 1 else 0]"
| "meant (P_u8 v) = Sent_number TYPE_TINY True (le_bytes 1 v)"
| "meant (P_u16 v) = Sent_number TYPE_SHORT True (le_bytes 2 v)"
| "meant (P_u32 v) = Sent_number TYPE_LONG True (le_bytes 4 v)"
| "meant (P_u64 v) = Sent_number TYPE_LONGLONG True (le_bytes 8 v)"
| "meant (P_i8 v) = Sent_number TYPE_TINY False (le_bytes 1 v)"
| "meant (P_i16 v) = Sent_number TYPE_SHORT False (le_bytes 2 v)"
| "meant (P_i32 v) = Sent_number TYPE_LONG False (le_bytes 4 v)"
| "meant (P_i64 v) = Sent_number TYPE_LONGLONG False (le_bytes 8 v)"
| "meant (P_float v) = Sent_bytes TYPE_FLOAT (le_bytes 4 v)"
| "meant (P_double v) = Sent_bytes TYPE_DOUBLE (le_bytes 8 v)"
| "meant (P_string v) = Sent_bytes TYPE_VAR_STRING v"
| "meant (P_binary v) = Sent_bytes TYPE_BLOB v"
| "meant P_null = Sent_null"
| "meant (P_time v) = Sent_bytes TYPE_DATETIME v"

fun set_params :: "(nat \<times> param) list \<Rightarrow> param_bind \<Rightarrow> param_bind option" where
  "set_params [] pb = Some pb"
| "set_params (p # ps) pb = (case set_param p pb of None \<Rightarrow> None | Some pb' \<Rightarrow> set_params ps pb')"

definition times_fit :: "nat \<Rightarrow> (nat \<times> param) list \<Rightarrow> bool" where
  "times_fit n ps \<longleftrightarrow> (\<forall>p\<in>set ps. case snd p of P_time v \<Rightarrow> length v = n | _ \<Rightarrow> True)"

definition pb_inv :: "param_bind \<Rightarrow> bool" where
  "pb_inv pb \<longleftrightarrow> length (m_bind pb) = m_param_count pb \<and> length (m_value_set pb) = m_param_count pb
     \<and> length (m_bind_buffer pb) = m_param_count pb
     \<and> (\<forall>i < m_param_count pb. buffer (m_bind pb ! i) \<in> {None, Some i})"

lemma pb_inv_new: "pb_inv (new_ParamBind n)"
  by (simp add: pb_inv_def new_ParamBind_def zero_bind_def)

lemmas setter_defs = setBool_def setUInt8_def setUInt16_def setUInt32_def setUInt64_def setInt8_def
  setInt16_def setInt32_def setInt64_def setFloat_def setDouble_def setString_def setBinary_def
  setNull_def setDateTime_def

lemmas store_defs = setWholeNumber_def setRealNumber_def update_bind_def set_flag_def

text \<open>A setter touches the entry of its own parameter only.\<close>

definition at :: "param_bind \<Rightarrow> nat \<Rightarrow> mysql_bind \<times> byte list \<times> bool" where
  "at pb i = (m_bind pb ! i, m_bind_buffer pb ! i, m_value_set pb ! i)"

lemma set_param_checks: "set_param (i, p) pb = None \<longleftrightarrow> \<not> i < m_param_count pb"
  by (cases p) (simp_all add: setter_defs checked_def checkValidIndex_def)

lemma set_param_inv:
  assumes "set_param (i, p) pb = Some pb'" "pb_inv pb"
  shows "pb_inv pb'" "m_param_count pb' = m_param_count pb" "j \<noteq> i \<Longrightarrow> at pb' j = at pb j"
    "m_value_set pb' ! i" "i < m_param_count pb"
  using assms
  by (cases p; auto simp: setter_defs checked_def checkValidIndex_def store_defs pb_inv_def at_def
        nth_list_update split: if_splits)+


lemma library_reads_frame:
  assumes "pb_inv pb" "pb_inv pb'" "j < m_param_count pb" "j < m_param_count pb'" "at pb' j = at pb j"
  shows "library_reads n pb' j = library_reads n pb j"
proof -
  have "m_bind pb' ! j = m_bind pb ! j" "m_bind_buffer pb' ! j = m_bind_buffer pb ! j"
    using assms(5) by (simp_all add: at_def)
  moreover have "buffer (m_bind pb ! j) \<in> {None, Some j}"
    using assms(1,3) by (simp add: pb_inv_def)
  ultimately show ?thesis by (auto simp: library_reads_def pointed_def Let_def)
qed

lemma library_reads_set:
  assumes "set_param (i, p) pb = Some pb'" "pb_inv pb" "times_fit n [(i, p)]"
  shows "library_reads n pb' i = meant p"
proof -
  have "i < m_param_count pb" by (rule set_param_inv(5) [OF assms(1,2)])
  then have len: "i < length (m_bind pb)" "i < length (m_bind_buffer pb)"
    and pb': "pb' = the (set_param (i, p) pb)"
    using assms by (simp_all add: pb_inv_def)
  note sub = \<open>i < m_param_count pb\<close>
  show ?thesis
    unfolding pb'
    using len assms(3) sub
    by (cases p; simp add: setter_defs checked_def checkValidIndex_def store_defs library_reads_def
        bound_value_def pointed_def number_size_def times_fit_def Let_def le_bytes_def)
qed

lemma library_reads_new: "i < n \<Longrightarrow> library_reads ts (new_ParamBind n) i = Sent_bytes TYPE_DECIMAL []"
  by (simp add: library_reads_def bound_value_def new_ParamBind_def zero_bind_def pointed_def number_size_def Let_def)

lemma set_params_inv:
  assumes "set_params ps pb = Some pb'" "pb_inv pb"
  shows "pb_inv pb' \<and> m_param_count pb' = m_param_count pb"
  using assms
proof (induction ps arbitrary: pb)
  case Nil
  then show ?case by simp
next
  case (Cons x ps)
  obtain i p where x: "x = (i, p)" by (cases x)
  from Cons.prems(1) obtain pb1 where one: "set_param (i, p) pb = Some pb1" "set_params ps pb1 = Some pb'"
    by (auto simp: x split: option.splits)
  from Cons.IH [OF one(2) set_param_inv(1) [OF one(1) Cons.prems(2)]] set_param_inv(2) [OF one(1) Cons.prems(2)]
  show ?case by simp
qed

lemma set_params_reads:
  assumes "set_params ps pb = Some pb'" "pb_inv pb" "times_fit n ps" "i < m_param_count pb"
  shows "library_reads n pb' i
    = (case map_of (rev ps) i of None \<Rightarrow> library_reads n pb i | Some p \<Rightarrow> meant p)"
  using assms
proof (induction ps arbitrary: pb)
  case Nil
  then show ?case by simp
next
  case (Cons x ps)
  obtain k p where x: "x = (k, p)" by (cases x)
  from Cons.prems(1) obtain pb1 where one: "set_param (k, p) pb = Some pb1" "set_params ps pb1 = Some pb'"
    by (auto simp: x split: option.splits)
  note inv1 = set_param_inv [OF one(1) Cons.prems(2)]
  have fits: "times_fit n ps" "times_fit n [(k, p)]"
    using Cons.prems(3) by (simp_all add: times_fit_def x)
  have IH: "library_reads n pb' i
      = (case map_of (rev ps) i of None \<Rightarrow> library_reads n pb1 i | Some p \<Rightarrow> meant p)"
    using Cons.IH [OF one(2) inv1(1) fits(1)] inv1(2) Cons.prems(4) by simp
  have "library_reads n pb1 i = (if i = k then meant p else library_reads n pb i)"
    using library_reads_set [OF one(1) Cons.prems(2) fits(2)]
      library_reads_frame [OF Cons.prems(2) inv1(1) Cons.prems(4)] inv1(2,3) Cons.prems(4) by auto
  with IH show ?case by (auto simp: x map_add_def split: option.split)
qed

lemma set_params_checks:
  "pb_inv pb \<Longrightarrow> set_params ps pb = None \<longleftrightarrow> (\<exists>x\<in>set ps. \<not> fst x < m_param_count pb)"
proof (induction ps arbitrary: pb)
  case Nil
  then show ?case by simp
next
  case (Cons x ps)
  obtain i p where x: "x = (i, p)" by (cases x)
  show ?case
  proof (cases "set_param (i, p) pb")
    case None
    then show ?thesis using set_param_checks [of i p pb] by (simp add: x)
  next
    case (Some pb1)
    with Cons.IH [of pb1] set_param_inv [OF Some Cons.prems] show ?thesis by (simp add: x)
  qed
qed

text \<open>
   Binding the parameters of a prepared statement refines a map from index to value: after
  any sequence of setters on a statement with \<open>n\<close> parameters, the client library reads for
  each parameter the last value set for it, in the type, width and signedness of its setter, a
  rebinding of another type or length included, and the empty decimal when none was set.  The
  only failure is the assertion on an index outside the statement, and \<open>clear\<close> forgets all.
\<close>

lemma params_last_value_wins:
  assumes "times_fit ts ps"
  shows "(set_params ps (new_ParamBind n) = None \<longleftrightarrow> (\<exists>x\<in>set ps. \<not> fst x < n))
    \<and> (set_params ps (new_ParamBind n) = Some pb \<longrightarrow> i < n \<longrightarrow>
       library_reads ts pb i = (case map_of (rev ps) i of
           None \<Rightarrow> Sent_bytes TYPE_DECIMAL [] | Some p \<Rightarrow> meant p))
    \<and> (set_params ps (new_ParamBind n) = Some pb \<longrightarrow> pb_clear pb = new_ParamBind n)"
proof -
  have n: "m_param_count (new_ParamBind n) = n" by (simp add: new_ParamBind_def)
  have part1: "set_params ps (new_ParamBind n) = None \<longleftrightarrow> (\<exists>x\<in>set ps. \<not> fst x < n)"
    using set_params_checks [OF pb_inv_new] n by simp
  have part2: "pb_clear pb = new_ParamBind n" if "set_params ps (new_ParamBind n) = Some pb"
    using set_params_inv [OF that pb_inv_new] n by (simp add: pb_clear_def)
  have part3: "library_reads ts pb i = (case map_of (rev ps) i of
      None \<Rightarrow> Sent_bytes TYPE_DECIMAL [] | Some p \<Rightarrow> meant p)"
    if "set_params ps (new_ParamBind n) = Some pb" "i < n"
    using set_params_reads [OF that(1) pb_inv_new assms, of i] that(2)
    by (simp only: n library_reads_new)
  show ?thesis using part1 part2 part3 by blast
qed

lemma params_last_value_wins_witness:
  "library_reads 40 (the (set_params [(0, P_u8 200), (1, P_string [97, 98, 99]), (0, P_null),
      (0, P_i32 (-2)), (1, P_string [])] (new_ParamBind 2))) 0
   = Sent_number TYPE_LONG False [254, 255, 255, 255]"
proof -
  let ?ps = "[(0, P_u8 200), (1, P_string [97, 98, 99]), (0, P_null), (0, P_i32 (-2)), (1, P_string [])]"
  have fit: "times_fit 40 ?ps" by (simp add: times_fit_def)
  obtain pb where pb: "set_params ?ps (new_ParamBind 2) = Some pb"
    using params_last_value_wins [OF fit, THEN conjunct1, of 2] by fastforce
  have "le_bytes 4 (-2 :: 32 word) = [254, 255, 255, 255]" by code_simp
  with params_last_value_wins [OF fit, THEN conjunct2, THEN conjunct1, rule_format, OF pb, of 0] show ?thesis
    by (simp only: pb option.sel) simp
qed

end
