(* ===== verification/Mysql_Statements.thy ===== *)
theory Mysql_Statements
  imports Mysql_Bind
begin

text \<open>
  Connections, statements, transactions and result sets of \<open>mysqlcpp/mysqlcpp\<close>
  (\<open>Connection.cpp\<close>, \<open>Statement.cpp\<close>, \<open>Transaction.cpp\<close>, \<open>PreparedStatement.cpp\<close>,
  \<open>detail/ResultBind.cpp\<close>, \<open>ResultSet.cpp\<close>).  The MySQL client library is an argument: a
  record of functions on its own state.  A result of the library is the list of the rows its
  fetches deliver.
\<close>

section \<open>The client library\<close>

record mysql_field =
  org_name :: "string option"
  alias_name :: "string option"
  field_type :: enum_field_types
  max_length :: nat
  unsigned_flag :: bool

text \<open>
  \<open>mysql_fetch_row\<close> gives for each column a null pointer or its bytes; \<open>mysql_fetch_lengths\<close>
  may fail.  The rows come with that outcome.  \<open>num_rows\<close> is \<open>(my_ulonglong) ~0\<close> on an error.
\<close>

record mysql_res =
  res_fields :: "mysql_field list"
  num_rows :: "64 word"
  fetched :: "(byte list option list \<times> bool) list"

record 'm mysql_api =
  mysql_init :: "'m option"
  mysql_real_connect :: "'m \<Rightarrow> bool \<times> 'm"
  mysql_real_query :: "string \<Rightarrow> 'm \<Rightarrow> bool \<times> 'm"
  mysql_store_result :: "'m \<Rightarrow> mysql_res option \<times> 'm"
  mysql_errno :: "'m \<Rightarrow> 32 word"
  mysql_error :: "'m \<Rightarrow> string"

section \<open>Connections\<close>

definition CR_UNKNOWN_ERROR :: "32 word" where "CR_UNKNOWN_ERROR = 2000"

record 'm connection =
  m_mysql :: "'m option"
  m_err_no :: "32 word"
  m_err_str :: string

definition new_Connection :: "'m connection" where
  "new_Connection = \<lparr>m_mysql = None, m_err_no = 0, m_err_str = []\<rparr>"

definition storeError :: "32 word \<Rightarrow> string option \<Rightarrow> 'm connection \<Rightarrow> 'm connection" where
  "storeError err_no err_str c = (case err_str of
       Some s \<Rightarrow> c\<lparr>m_err_no := err_no, m_err_str := s\<rparr>
     | None \<Rightarrow> c\<lparr>m_err_no := err_no\<rparr>)"

definition clearError :: "'m connection \<Rightarrow> 'm connection" where
  "clearError c = c\<lparr>m_err_no := 0, m_err_str := []\<rparr>"

definition conn_init :: "'m mysql_api \<Rightarrow> 'm connection \<Rightarrow> bool \<times> 'm connection" where
  "conn_init api c =
     (if m_mysql c \<noteq> None then (False, storeError CR_UNKNOWN_ERROR None c)
      else (case mysql_init api of
          None \<Rightarrow> (False, storeError CR_UNKNOWN_ERROR None c)
        | Some m \<Rightarrow> (True, c\<lparr>m_mysql := Some m\<rparr>)))"

definition conn_open :: "'m mysql_api \<Rightarrow> 'm connection \<Rightarrow> bool \<times> 'm connection" where
  "conn_open api c = (case m_mysql c of
       None \<Rightarrow> (False, c)
     | Some m \<Rightarrow> (case mysql_real_connect api m of
           (True, m') \<Rightarrow> (True, c\<lparr>m_mysql := Some m'\<rparr>)
         | (False, m') \<Rightarrow> (False, storeError (mysql_errno api m') (Some (mysql_error api m'))
                                  (c\<lparr>m_mysql := Some m'\<rparr>))))"

definition conn_close :: "'m connection \<Rightarrow> 'm connection" where
  "conn_close c = (if m_mysql c \<noteq> None then c\<lparr>m_mysql := None\<rparr> else c)"

section \<open>Result sets\<close>

record field_meta =
  m_name :: string
  m_alias :: string
  m_type_name :: string
  fm_type :: enum_field_types
  m_index :: "32 word"

definition new_FieldMeta :: "mysql_field \<Rightarrow> 32 word \<Rightarrow> field_meta" where
  "new_FieldMeta fld index =
     \<lparr>m_name = (case org_name fld of Some s \<Rightarrow> s | None \<Rightarrow> []),
      m_alias = (case alias_name fld of Some s \<Rightarrow> s | None \<Rightarrow> []),
      m_type_name = fieldTypeName (field_type fld), fm_type = field_type fld, m_index = index\<rparr>"

fun bind_metas :: "32 word \<Rightarrow> mysql_field list \<Rightarrow> field_meta list" where
  "bind_metas i [] = []"
| "bind_metas i (fld # flds) = new_FieldMeta fld i # bind_metas (i + 1) flds"

definition bindFiledsMeta :: "mysql_res \<Rightarrow> field_meta list" where
  "bindFiledsMeta res = bind_metas 0 (res_fields res)"

record result_set =
  m_rows :: "field list list"
  m_field_data :: "field_meta list"

record result_row =
  m_row_data :: "field list"
  row_field_data :: "field_meta list"

text \<open>\<open>None\<close> is a failed assertion.\<close>

definition getRow :: "nat \<Rightarrow> result_set \<Rightarrow> result_row option" where
  "getRow index rs =
     (if index < length (m_rows rs)
      then Some \<lparr>m_row_data = m_rows rs ! index, row_field_data = m_field_data rs\<rparr> else None)"

definition findIndex :: "string \<Rightarrow> result_row \<Rightarrow> int" where
  "findIndex str r =
     (case List.find (\<lambda>meta. m_name meta = str \<or> m_alias meta = str) (row_field_data r) of
        None \<Rightarrow> -1
      | Some meta \<Rightarrow> sint (m_index meta))"

text \<open>The result is a null pointer, a field, or (\<open>None\<close>) a read outside the row.\<close>

definition row_get :: "string \<Rightarrow> result_row \<Rightarrow> field option option" where
  "row_get str r =
     (let idx = findIndex str r
      in if idx < 0 then Some None
         else if nat idx < length (m_row_data r) then Some (Some (m_row_data r ! nat idx)) else None)"

definition row_at :: "nat \<Rightarrow> result_row \<Rightarrow> field option" where
  "row_at index r = (if index < length (m_row_data r) then Some (m_row_data r ! index) else None)"

section \<open>Statements\<close>

definition checkConnection :: "'m connection \<Rightarrow> bool \<times> 'm connection" where
  "checkConnection c = (if m_mysql c = None then (False, storeError CR_UNKNOWN_ERROR None c) else (True, c))"

definition stmt_execute :: "'m mysql_api \<Rightarrow> string \<Rightarrow> 'm connection \<Rightarrow> bool \<times> 'm connection" where
  "stmt_execute api sql c = (case m_mysql c of
       None \<Rightarrow> (False, snd (checkConnection c))
     | Some m \<Rightarrow> (case mysql_real_query api sql m of
           (failed, m') \<Rightarrow>
             (if failed then (False, storeError (mysql_errno api m') (Some (mysql_error api m'))
                                       (c\<lparr>m_mysql := Some m'\<rparr>))
              else (True, c\<lparr>m_mysql := Some m'\<rparr>))))"

text \<open>Each column is set once unconditionally and then again, or to null.\<close>

definition text_field :: "field_meta \<Rightarrow> byte list option \<Rightarrow> field" where
  "text_field meta col =
     (let f = setBinaryValue (fm_type meta) col False new_field
      in case col of
           Some bs \<Rightarrow> setBinaryValue (fm_type meta) (Some bs) False f
         | None \<Rightarrow> setNullValue (fm_type meta) f)"

fun fetch_rows :: "field_meta list \<Rightarrow> (byte list option list \<times> bool) list \<Rightarrow> field list list option" where
  "fetch_rows metas [] = Some []"
| "fetch_rows metas ((cols, lengths) # rest) =
     (if \<not> lengths then None
      else map_option ((#) (map (\<lambda>i. text_field (metas ! i) (cols ! i)) [0 ..< length metas]))
             (fetch_rows metas rest))"

definition storeResult :: "mysql_res \<Rightarrow> field_meta list \<Rightarrow> field list list option" where
  "storeResult res metas = (if num_rows res = -1 then None else fetch_rows metas (fetched res))"

definition createResultSet :: "'m mysql_api \<Rightarrow> 'm \<Rightarrow> result_set option \<times> 'm" where
  "createResultSet api m = (case mysql_store_result api m of
       (None, m') \<Rightarrow> (None, m')
     | (Some res, m') \<Rightarrow>
         (let metas = bindFiledsMeta res
          in case storeResult res metas of
               None \<Rightarrow> (None, m')
             | Some rows \<Rightarrow> (Some \<lparr>m_rows = rows, m_field_data = metas\<rparr>, m')))"

definition stmt_executeQuery ::
    "'m mysql_api \<Rightarrow> string \<Rightarrow> 'm connection \<Rightarrow> result_set option \<times> 'm connection" where
  "stmt_executeQuery api sql c = (case m_mysql c of
       None \<Rightarrow> (None, snd (checkConnection c))
     | Some m \<Rightarrow> (case mysql_real_query api sql m of
           (failed, m') \<Rightarrow>
             (if failed then (None, storeError (mysql_errno api m') (Some (mysql_error api m'))
                                       (c\<lparr>m_mysql := Some m'\<rparr>))
              else (case createResultSet api m' of (rs, m'') \<Rightarrow> (rs, c\<lparr>m_mysql := Some m''\<rparr>)))))"

section \<open>Transactions\<close>





section \<open>Prepared statements\<close>

text \<open>
  The buffer of a column of a result; \<open>v57\<close> is \<open>LIBMYSQL_VERSION_ID > 50700\<close>, without which the
  strings fall through to the decimals.  245 is the number of \<open>MYSQL_TYPE_JSON\<close>.  \<open>None\<close> is the
  null pointer.
\<close>

definition createBindBufferForField ::
    "bool \<Rightarrow> nat \<Rightarrow> mysql_field \<Rightarrow> (nat \<times> enum_field_types) option" where
  "createBindBufferForField v57 time_size fld =
     (let ty = field_type fld; text = (if v57 then max_length fld + 1 else 64)
      in case ty of
        TYPE_NULL \<Rightarrow> Some (0, ty)
      | TYPE_TINY \<Rightarrow> Some (1, ty)
      | TYPE_SHORT \<Rightarrow> Some (2, ty)
      | TYPE_INT24 \<Rightarrow> Some (4, ty) | TYPE_LONG \<Rightarrow> Some (4, ty) | TYPE_FLOAT \<Rightarrow> Some (4, ty)
      | TYPE_DOUBLE \<Rightarrow> Some (8, ty) | TYPE_LONGLONG \<Rightarrow> Some (8, ty)
      | TYPE_YEAR \<Rightarrow> Some (2, TYPE_SHORT)
      | TYPE_TIMESTAMP \<Rightarrow> Some (time_size, ty) | TYPE_DATE \<Rightarrow> Some (time_size, ty)
      | TYPE_TIME \<Rightarrow> Some (time_size, ty) | TYPE_DATETIME \<Rightarrow> Some (time_size, ty)
      | TYPE_TINY_BLOB \<Rightarrow> Some (text, ty) | TYPE_MEDIUM_BLOB \<Rightarrow> Some (text, ty)
      | TYPE_LONG_BLOB \<Rightarrow> Some (text, ty) | TYPE_BLOB \<Rightarrow> Some (text, ty)
      | TYPE_STRING \<Rightarrow> Some (text, ty) | TYPE_VAR_STRING \<Rightarrow> Some (text, ty)
      | TYPE_other n \<Rightarrow> (if v57 \<and> n = 245 then Some (text, ty) else None)
      | TYPE_DECIMAL \<Rightarrow> Some (64, ty) | TYPE_NEWDECIMAL \<Rightarrow> Some (64, ty)
      | TYPE_BIT \<Rightarrow> Some (8, TYPE_BIT)
      | _ \<Rightarrow> None)"

text \<open>\<open>bindResult\<close> follows the pointer it gets for each column: \<open>None\<close> is following a null pointer.\<close>

fun bind_columns :: "bool \<Rightarrow> nat \<Rightarrow> mysql_field list \<Rightarrow> (nat \<times> enum_field_types) list option" where
  "bind_columns v57 ts [] = Some []"
| "bind_columns v57 ts (fld # flds) = (case createBindBufferForField v57 ts fld of
       None \<Rightarrow> None
     | Some b \<Rightarrow> map_option ((#) b) (bind_columns v57 ts flds))"

definition bindResult ::
    "bool \<Rightarrow> nat \<Rightarrow> mysql_field list option \<Rightarrow> bool \<Rightarrow> (bool \<times> (nat \<times> enum_field_types) list) option" where
  "bindResult v57 ts res bind_err = (case res of
       None \<Rightarrow> Some (True, [])
     | Some flds \<Rightarrow>
         (if length flds = 0 then Some (True, [])
          else (case bind_columns v57 ts flds of
              None \<Rightarrow> None
            | Some bs \<Rightarrow> Some (\<not> bind_err, bs))))"

datatype next_row = FAILED | SUCCESS | NO_DATA | TRUNCATED

definition nextRow :: "int \<Rightarrow> next_row" where
  "nextRow ret = (if ret = 0 then SUCCESS else if ret = 1 then FAILED else if ret = 100 then NO_DATA
     else if ret = 101 then TRUNCATED else FAILED)"

text \<open>
  A fetch stores at most the size of the buffer and reports the full length of the data, which
  the code then reads: \<open>None\<close> is a read past the buffer.  The buffer of size 0 is a null pointer.
\<close>

definition binary_field :: "nat \<times> enum_field_types \<Rightarrow> byte list option \<Rightarrow> field option" where
  "binary_field b col = (case b of (sz, ty) \<Rightarrow> (case col of
       None \<Rightarrow> Some (setNullValue ty new_field)
     | Some bs \<Rightarrow>
         (if sz = 0 then Some (setBinaryValue ty None True new_field)
          else if length bs \<le> sz then Some (setBinaryValue ty (Some bs) True new_field)
          else None)))"

fun binary_row :: "(nat \<times> enum_field_types) list \<Rightarrow> byte list option list \<Rightarrow> field list option" where
  "binary_row (b # bs) (col # cols) = (case binary_field b col of
       None \<Rightarrow> None
     | Some f \<Rightarrow> map_option ((#) f) (binary_row bs cols))"
| "binary_row _ _ = Some []"

text \<open>\<open>Null_pointer\<close> is following a null pointer, \<open>Overread\<close> a read past a buffer.\<close>

datatype outcome = Null_pointer | Overread | Failed | Rows "field list list"

text \<open>The fetches of a stored result, each with its return code; after the last there is no data.\<close>

fun fetch_loop ::
    "(nat \<times> enum_field_types) list \<Rightarrow> (int \<times> byte list option list) list \<Rightarrow> field list list \<Rightarrow> outcome" where
  "fetch_loop binds [] acc = Rows (rev acc)"
| "fetch_loop binds ((ret, cols) # rest) acc = (case nextRow ret of
       FAILED \<Rightarrow> Failed
     | NO_DATA \<Rightarrow> Rows (rev acc)
     | _ \<Rightarrow> (case binary_row binds cols of
           None \<Rightarrow> Overread
         | Some row \<Rightarrow> fetch_loop binds rest (row # acc)))"

text \<open>What the library answers in one execution.\<close>

record execution =
  metadata :: "mysql_field list option"
  bind_param_err :: bool
  execute_err :: bool
  store_err :: bool
  bind_result_err :: bool
  row_count :: nat
  fetches :: "(int \<times> byte list option list) list"

text \<open>
  The statement: its metadata as a handle and its fields, the handles given out and not freed,
  and whether a stored result is held.
\<close>

record prepared =
  m_mysql_res :: "(nat \<times> mysql_field list) option"
  handles :: nat
  live :: "nat list"
  stored :: bool
  m_param_bind :: param_bind
  m_result_bind :: "(nat \<times> enum_field_types) list"

definition new_PreparedStatement :: "nat \<Rightarrow> prepared" where
  "new_PreparedStatement n = \<lparr>m_mysql_res = None, handles = 0, live = [], stored = False,
     m_param_bind = new_ParamBind n, m_result_bind = []\<rparr>"

definition ps_destroy :: "prepared \<Rightarrow> prepared" where
  "ps_destroy ps = (case m_mysql_res ps of
       Some (h, _) \<Rightarrow> ps\<lparr>live := remove1 h (live ps)\<rparr>
     | None \<Rightarrow> ps)"

definition clearParameters :: "prepared \<Rightarrow> prepared" where
  "clearParameters ps = ps\<lparr>m_param_bind := pb_clear (m_param_bind ps), m_result_bind := []\<rparr>"

definition bindParam :: "execution \<Rightarrow> bool" where
  "bindParam e \<longleftrightarrow> \<not> bind_param_err e \<and> \<not> execute_err e"

definition ps_bindResult :: "bool \<Rightarrow> nat \<Rightarrow> execution \<Rightarrow> nat \<Rightarrow> prepared \<Rightarrow> outcome \<times> prepared" where
  "ps_bindResult v57 ts e num_field ps =
     (if store_err e then (Failed, ps)
      else (case bindResult v57 ts (map_option snd (m_mysql_res ps)) (bind_result_err e) of
          None \<Rightarrow> (Null_pointer, ps\<lparr>stored := True\<rparr>)
        | Some (False, bs) \<Rightarrow> (Failed, ps\<lparr>stored := False, m_result_bind := bs\<rparr>)
        | Some (True, bs) \<Rightarrow>
            (let ps1 = ps\<lparr>stored := False, m_result_bind := bs\<rparr>
             in if row_count e = 0 \<or> num_field = 0 then (Rows [], ps1)
                else (case fetch_loop bs (fetches e) [] of
                    Overread \<Rightarrow> (Overread, ps1\<lparr>stored := True\<rparr>)
                  | out \<Rightarrow> (out, ps1)))))"

definition ps_execute :: "bool \<Rightarrow> nat \<Rightarrow> execution \<Rightarrow> prepared \<Rightarrow> outcome \<times> prepared" where
  "ps_execute v57 ts e ps = (if \<not> bindParam e then (Failed, ps) else ps_bindResult v57 ts e 0 ps)"

definition ps_executeQuery :: "bool \<Rightarrow> nat \<Rightarrow> execution \<Rightarrow> prepared \<Rightarrow> outcome \<times> prepared" where
  "ps_executeQuery v57 ts e ps = (case metadata e of
       None \<Rightarrow> (Failed, ps\<lparr>m_mysql_res := None\<rparr>)
     | Some flds \<Rightarrow>
         (let ps1 = ps\<lparr>m_mysql_res := Some (handles ps, flds), handles := Suc (handles ps),
                       live := handles ps # live ps\<rparr>
          in if \<not> bindParam e then (Failed, ps1) else ps_bindResult v57 ts e (length flds) ps1))"

definition ps_set :: "nat \<times> param \<Rightarrow> prepared \<Rightarrow> prepared option" where
  "ps_set p ps = map_option (\<lambda>pb. ps\<lparr>m_param_bind := pb\<rparr>) (set_param p (m_param_bind ps))"

section \<open>Errors of a connection\<close>

text \<open>
   A statement leaves the connection open and tells what happened: a query the library
  refuses gives false and the library's own number and message, one it accepts gives true and
  leaves the last error alone.  On a closed connection nothing is sent and the number becomes
  \<open>CR_UNKNOWN_ERROR\<close>, but the message is still the one of an earlier error.
\<close>

lemma statement_errors:
  fixes api :: "'m mysql_api" and c :: "'m connection"
  shows "(m_mysql c = Some m \<longrightarrow> mysql_real_query api sql m = (True, m') \<longrightarrow>
      stmt_execute api sql c = (False, \<lparr>m_mysql = Some m', m_err_no = mysql_errno api m', m_err_str = mysql_error api m'\<rparr>)
      \<and> fst (stmt_executeQuery api sql c) = None)
    \<and> (m_mysql c = Some m \<longrightarrow> mysql_real_query api sql m = (False, m') \<longrightarrow>
      stmt_execute api sql c = (True, c\<lparr>m_mysql := Some m'\<rparr>))
    \<and> (m_mysql c = None \<longrightarrow>
      stmt_execute api sql c = (False, c\<lparr>m_err_no := CR_UNKNOWN_ERROR\<rparr>)
      \<and> stmt_executeQuery api sql c = (None, c\<lparr>m_err_no := CR_UNKNOWN_ERROR\<rparr>))"
  by (simp_all add: stmt_execute_def stmt_executeQuery_def storeError_def checkConnection_def)

text \<open>A library for the witnesses: it logs what it is sent and refuses the query \<open>BAD\<close>.\<close>

definition log_api :: "mysql_res option \<Rightarrow> string list mysql_api" where
  "log_api res = \<lparr>mysql_init = Some [], mysql_real_connect = (\<lambda>m. (True, m)),
     mysql_real_query = (\<lambda>q m. (q = ''BAD'', m @ [q])), mysql_store_result = (\<lambda>m. (res, m)),
     mysql_errno = (\<lambda>m. 1064), mysql_error = (\<lambda>m. ''syntax'')\<rparr>"

lemma statement_errors_witness:
  "stmt_execute (log_api None) ''BAD'' \<lparr>m_mysql = Some [], m_err_no = 0, m_err_str = []\<rparr>
   = (False, \<lparr>m_mysql = Some [''BAD''], m_err_no = 1064, m_err_str = ''syntax''\<rparr>)"
  using statement_errors [of "\<lparr>m_mysql = Some [], m_err_no = 0, m_err_str = []\<rparr>" "[]"
      "log_api None" "''BAD''" "[''BAD'']"]
  by (simp add: log_api_def)

section \<open>Transactions\<close>






















section \<open>Text results\<close>

text \<open>What is documented of a result: every row has all columns.\<close>

definition res_ok :: "mysql_res \<Rightarrow> bool" where
  "res_ok res \<longleftrightarrow> num_rows res \<noteq> -1 \<and> length (res_fields res) < 2 ^ 31
     \<and> (\<forall>(cols, lengths) \<in> set (fetched res). lengths \<and> length cols = length (res_fields res))"

definition named :: "string \<Rightarrow> mysql_field \<Rightarrow> bool" where
  "named str fld \<longleftrightarrow> (case org_name fld of Some s \<Rightarrow> s = str | None \<Rightarrow> str = [])
     \<or> (case alias_name fld of Some s \<Rightarrow> s = str | None \<Rightarrow> str = [])"

lemma length_bind_metas [simp]: "length (bind_metas i flds) = length flds"
  by (induction flds arbitrary: i) simp_all

lemma bind_metas_nth:
  "k < length flds \<Longrightarrow> bind_metas i flds ! k = new_FieldMeta (flds ! k) (i + of_nat k)"
proof (induction flds arbitrary: i k)
  case Nil
  then show ?case by simp
next
  case (Cons fld flds)
  then show ?case by (cases k) (simp_all add: algebra_simps)
qed

lemma meta_named: "m_name (new_FieldMeta fld i) = str \<or> m_alias (new_FieldMeta fld i) = str \<longleftrightarrow> named str fld"
  by (auto simp: new_FieldMeta_def named_def split: option.splits)

lemma find_bind_metas:
  "List.find (\<lambda>meta. m_name meta = str \<or> m_alias meta = str) (bind_metas i flds)
   = (case List.find (\<lambda>k. named str (flds ! k)) [0 ..< length flds] of
        None \<Rightarrow> None | Some k \<Rightarrow> Some (new_FieldMeta (flds ! k) (i + of_nat k)))"
proof -
  let ?P = "\<lambda>meta. m_name meta = str \<or> m_alias meta = str"
  have key: "?P (bind_metas i flds ! k) \<longleftrightarrow> named str (flds ! k)" if "k < length flds" for k
    using that by (simp add: bind_metas_nth meta_named)
  show ?thesis
  proof (cases "\<exists>k < length flds. named str (flds ! k)")
    case False
    then have "List.find ?P (bind_metas i flds) = None" "List.find (\<lambda>k. named str (flds ! k)) [0 ..< length flds] = None"
      using key by (auto simp: find_None_iff in_set_conv_nth)
    then show ?thesis by simp
  next
    case True
    then obtain k where k: "k < length flds" "named str (flds ! k)" "\<forall>j<k. \<not> named str (flds ! j)"
      using exists_least_iff [of "\<lambda>k. k < length flds \<and> named str (flds ! k)"] by auto
    have "List.find ?P (bind_metas i flds) = Some (bind_metas i flds ! k)"
      unfolding find_Some_iff using k key by (intro exI [of _ k]) auto
    moreover have "List.find (\<lambda>k. named str (flds ! k)) [0 ..< length flds] = Some k"
      unfolding find_Some_iff using k by (intro exI [of _ k]) auto
    ultimately show ?thesis using k(1) by (simp add: bind_metas_nth)
  qed
qed

lemma fetch_rows_ok:
  "\<forall>(cols, lengths) \<in> set rows. lengths \<Longrightarrow>
   fetch_rows metas rows = Some (map (\<lambda>(cols, lengths). map (\<lambda>i. text_field (metas ! i) (cols ! i)) [0 ..< length metas]) rows)"
  by (induction metas rows rule: fetch_rows.induct) auto

lemma text_field_holds:
  "text_field meta None = setNullValue (fm_type meta) (setBinaryValue (fm_type meta) None False new_field)"
  "\<not> m_is_null (text_field meta (Some bs))"
  "getString (text_field meta (Some bs)) = bs"
  "getBinary (text_field meta (Some bs)) = bs"
  by (simp_all add: text_field_def Let_def getString_def getBinary_def ss_getBinary_def
      setBinaryValue_Some new_field_def)

lemma getString_null:
  "m_is_null (setNullValue ty f)" "getString (setNullValue ty f) = []"
  by (simp_all add: setNullValue_def getString_def)

text \<open>The position of the first column with a name.\<close>

definition column :: "string \<Rightarrow> mysql_field list \<Rightarrow> nat option" where
  "column str flds = List.find (\<lambda>k. named str (flds ! k)) [0 ..< length flds]"

lemma column_Some: "column str flds = Some k \<Longrightarrow> k < length flds \<and> named str (flds ! k)"
  by (auto simp: column_def find_Some_iff)

lemma findIndex_column:
  assumes "length flds < 2 ^ 31"
  shows "findIndex str \<lparr>m_row_data = r, row_field_data = bind_metas 0 flds\<rparr>
    = (case column str flds of None \<Rightarrow> -1 | Some k \<Rightarrow> int k)"
proof (cases "column str flds")
  case None
  then show ?thesis by (simp add: findIndex_def find_bind_metas column_def)
next
  case (Some k)
  have "k < 2 ^ 31" using column_Some [OF Some] assms by simp
  then have "sint (of_nat k :: 32 word) = int k"
    by (simp add: signed_of_nat signed_take_bit_int_eq_self)
  moreover have "m_index (new_FieldMeta (flds ! k) (0 + of_nat k)) = of_nat k"
    by (simp add: new_FieldMeta_def)
  ultimately show ?thesis using Some
    by (simp add: findIndex_def find_bind_metas column_def)
qed

lemma text_row_column:
  fixes flds defines "metas \<equiv> bind_metas 0 flds"
  assumes small: "length flds < 2 ^ 31" and k: "column str flds = Some k"
    and row: "row = \<lparr>m_row_data = map (\<lambda>i. text_field (metas ! i) (cols ! i)) [0 ..< length metas], row_field_data = metas\<rparr>"
  shows "\<exists>f. row_get str row = Some (Some f) \<and> row_at k row = Some f
      \<and> (case cols ! k of
           None \<Rightarrow> m_is_null f \<and> getString f = []
         | Some bs \<Rightarrow> \<not> m_is_null f \<and> getString f = bs \<and> getBinary f = bs)"
proof -
  have k': "k < length flds" using column_Some [OF k] by simp
  define f where "f = text_field (metas ! k) (cols ! k)"
  have "row_get str row = Some (Some f)" "row_at k row = Some f"
    using k findIndex_column [OF small, of str] k'
    by (simp_all add: row metas_def row_get_def row_at_def Let_def f_def)
  moreover have "case cols ! k of None \<Rightarrow> m_is_null f \<and> getString f = []
      | Some bs \<Rightarrow> \<not> m_is_null f \<and> getString f = bs \<and> getBinary f = bs"
    by (cases "cols ! k") (simp_all add: f_def text_field_holds getString_null)
  ultimately show ?thesis by blast
qed

text \<open>
   A text query whose result the library stores gives a result set with a row for each
  fetched one, in order.  Looking a column up by its name or its alias in a row finds the first
  column with either, and no read leaves the row: a null column is a null field, any other
  holds its bytes exactly.  An unknown name gives a null pointer, and a row number outside the
  set fails an assertion.
\<close>

lemma text_query_rows:
  assumes "m_mysql c = Some m" "mysql_real_query api sql m = (False, m1)"
    "mysql_store_result api m1 = (Some res, m2)" "res_ok res"
  shows "\<exists>rs. stmt_executeQuery api sql c = (Some rs, c\<lparr>m_mysql := Some m2\<rparr>)
    \<and> length (m_rows rs) = length (fetched res)
    \<and> (\<forall>i. getRow i rs = None \<longleftrightarrow> length (fetched res) \<le> i)
    \<and> (\<forall>i row str. getRow i rs = Some row \<longrightarrow> (case column str (res_fields res) of
         None \<Rightarrow> row_get str row = Some None
       | Some k \<Rightarrow> (\<exists>f. row_get str row = Some (Some f) \<and> row_at k row = Some f
           \<and> (case fst (fetched res ! i) ! k of
                None \<Rightarrow> m_is_null f \<and> getString f = []
              | Some bs \<Rightarrow> \<not> m_is_null f \<and> getString f = bs \<and> getBinary f = bs))))"
proof -
  let ?metas = "bind_metas 0 (res_fields res)"
  let ?row = "\<lambda>(cols, lengths :: bool). map (\<lambda>i. text_field (?metas ! i) (cols ! i)) [0 ..< length ?metas]"
  define rs where "rs = \<lparr>m_rows = map ?row (fetched res), m_field_data = ?metas\<rparr>"
  have small: "length (res_fields res) < 2 ^ 31" using assms(4) by (simp add: res_ok_def)
  have lens: "\<forall>(cols, lengths) \<in> set (fetched res). lengths" using assms(4) by (auto simp: res_ok_def)
  have store: "storeResult res ?metas = Some (map ?row (fetched res))"
    using assms(4) fetch_rows_ok [OF lens] by (simp add: storeResult_def res_ok_def)
  have q: "stmt_executeQuery api sql c = (Some rs, c\<lparr>m_mysql := Some m2\<rparr>)"
    using assms(1-3) store
    by (simp add: stmt_executeQuery_def createResultSet_def bindFiledsMeta_def rs_def Let_def)
  have row: "row = \<lparr>m_row_data = ?row (fetched res ! i), row_field_data = ?metas\<rparr> \<and> i < length (fetched res)"
    if "getRow i rs = Some row" for i row
    using that by (auto simp: getRow_def rs_def split: if_splits)
  have found: "\<exists>f. row_get str row = Some (Some f) \<and> row_at k row = Some f
      \<and> (case fst (fetched res ! i) ! k of
           None \<Rightarrow> m_is_null f \<and> getString f = []
         | Some bs \<Rightarrow> \<not> m_is_null f \<and> getString f = bs \<and> getBinary f = bs)"
    if "getRow i rs = Some row" "column str (res_fields res) = Some k" for i row str k
    by (rule text_row_column [OF small that(2)]) (use row [OF that(1)] in \<open>simp add: case_prod_beta\<close>)
  have unknown: "row_get str row = Some None"
    if "getRow i rs = Some row" "column str (res_fields res) = None" for i row str
    using row [OF that(1)] that(2) findIndex_column [OF small] by (simp add: row_get_def Let_def)
  show ?thesis
  proof (intro exI [of _ rs] conjI allI impI)
    show "length (m_rows rs) = length (fetched res)" by (simp add: rs_def)
    show "getRow i rs = None \<longleftrightarrow> length (fetched res) \<le> i" for i
      by (auto simp: getRow_def rs_def)
  qed (use q found unknown in \<open>auto split: option.split\<close>)
qed

lemma text_query_rows_witness:
  "\<exists>rs row f. stmt_executeQuery (log_api (Some
      \<lparr>res_fields = [\<lparr>org_name = Some ''id'', alias_name = Some ''n'', field_type = TYPE_LONG, max_length = 0, unsigned_flag = False\<rparr>],
       num_rows = 2, fetched = [([None], True), ([Some [52, 50]], True)]\<rparr>))
      ''SELECT id n FROM t'' \<lparr>m_mysql = Some [], m_err_no = 0, m_err_str = []\<rparr>
    = (Some rs, \<lparr>m_mysql = Some [''SELECT id n FROM t''], m_err_no = 0, m_err_str = []\<rparr>)
    \<and> getRow 1 rs = Some row \<and> row_get ''n'' row = Some (Some f) \<and> getString f = [52, 50]"
proof -
  let ?fld = "\<lparr>org_name = Some ''id'', alias_name = Some ''n'', field_type = TYPE_LONG, max_length = 0, unsigned_flag = False\<rparr>"
  let ?res = "\<lparr>res_fields = [?fld], num_rows = 2, fetched = [([None], True), ([Some [52, 50]], True)]\<rparr>"
  let ?c = "\<lparr>m_mysql = Some [], m_err_no = 0, m_err_str = []\<rparr> :: string list connection"
  let ?q = "''SELECT id n FROM t''"
  have ok: "res_ok ?res" by (simp add: res_ok_def)
  have col: "column ''n'' [?fld] = Some 0" by (simp add: column_def named_def upt_rec)
  have pre: "m_mysql ?c = Some []" "mysql_real_query (log_api (Some ?res)) ?q [] = (False, [?q])"
    "mysql_store_result (log_api (Some ?res)) [?q] = (Some ?res, [?q])"
    by (simp_all add: log_api_def)
  from text_query_rows [OF pre ok] obtain rs where
    rs: "stmt_executeQuery (log_api (Some ?res)) ?q ?c = (Some rs, ?c\<lparr>m_mysql := Some [?q]\<rparr>)"
    and rows: "\<forall>i. getRow i rs = None \<longleftrightarrow> length (fetched ?res) \<le> i"
    and cells: "\<forall>i row str. getRow i rs = Some row \<longrightarrow> (case column str (res_fields ?res) of
         None \<Rightarrow> row_get str row = Some None
       | Some k \<Rightarrow> (\<exists>f. row_get str row = Some (Some f) \<and> row_at k row = Some f
           \<and> (case fst (fetched ?res ! i) ! k of
                None \<Rightarrow> m_is_null f \<and> getString f = []
              | Some bs \<Rightarrow> \<not> m_is_null f \<and> getString f = bs \<and> getBinary f = bs)))"
    by blast
  obtain row where row: "getRow 1 rs = Some row" using rows [rule_format, of 1] by auto
  from cells [rule_format, OF this, of "''n''"] col
  obtain f where "row_get ''n'' row = Some (Some f)" "getString f = [52, 50]" by auto
  with rs row show ?thesis by auto
qed

section \<open>Rows of a prepared statement\<close>

















text \<open>A one-column result of the witnesses; the second row is longer than the buffer of 4 bytes.\<close>

definition sample_execution :: "nat \<Rightarrow> execution" where
  "sample_execution n = \<lparr>metadata = Some [\<lparr>org_name = Some ''s'', alias_name = None, field_type = TYPE_STRING,
       max_length = 3, unsigned_flag = False\<rparr>], bind_param_err = False, execute_err = False, store_err = False,
     bind_result_err = False, row_count = 2,
     fetches = [(0, [Some [1, 2]]), (101, [Some (replicate n 7)]), (100, [None])]\<rparr>"


section \<open>Results that are freed\<close>

fun ps_queries :: "bool \<Rightarrow> nat \<Rightarrow> execution list \<Rightarrow> prepared \<Rightarrow> prepared" where
  "ps_queries v57 ts [] ps = ps"
| "ps_queries v57 ts (e # es) ps = ps_queries v57 ts es (snd (ps_executeQuery v57 ts e ps))"

definition no_fault :: "outcome \<Rightarrow> bool" where
  "no_fault out \<longleftrightarrow> out \<noteq> Null_pointer \<and> out \<noteq> Overread"

lemma ps_bindResult_frame:
  "m_mysql_res (snd (ps_bindResult v57 ts e n ps)) = m_mysql_res ps"
  "live (snd (ps_bindResult v57 ts e n ps)) = live ps"
  "handles (snd (ps_bindResult v57 ts e n ps)) = handles ps"
  "\<not> stored ps \<Longrightarrow> stored (snd (ps_bindResult v57 ts e n ps)) \<Longrightarrow> \<not> no_fault (fst (ps_bindResult v57 ts e n ps))"
  by (auto simp: ps_bindResult_def no_fault_def Let_def split: option.split outcome.splits bool.splits if_splits)

lemma ps_executeQuery_handles:
  assumes "metadata e \<noteq> None"
  shows "handles (snd (ps_executeQuery v57 ts e ps)) = Suc (handles ps)"
    "live (snd (ps_executeQuery v57 ts e ps)) = handles ps # live ps"
    "map_option fst (m_mysql_res (snd (ps_executeQuery v57 ts e ps))) = Some (handles ps)"
  using assms by (auto simp: ps_executeQuery_def ps_bindResult_frame Let_def)

lemma ps_queries_handles:
  "\<forall>e \<in> set es. metadata e \<noteq> None \<Longrightarrow> live ps = rev [0 ..< handles ps] \<Longrightarrow>
   handles ps = 0 \<and> m_mysql_res ps = None \<or> map_option fst (m_mysql_res ps) = Some (handles ps - 1) \<and> handles ps \<noteq> 0 \<Longrightarrow>
   live (ps_queries v57 ts es ps) = rev [0 ..< handles ps + length es]
   \<and> map_option fst (m_mysql_res (ps_queries v57 ts es ps))
     = (if handles ps + length es = 0 then None else Some (handles ps + length es - 1))"
proof (induction es arbitrary: ps)
  case Nil
  then show ?case by auto
next
  case (Cons e es)
  let ?ps = "snd (ps_executeQuery v57 ts e ps)"
  have m: "metadata e \<noteq> None" using Cons.prems(1) by simp
  note h = ps_executeQuery_handles [OF m, of v57 ts ps]
  have "live ?ps = rev [0 ..< handles ?ps]" using h Cons.prems(2) by simp
  with Cons.IH [of ?ps] h Cons.prems(1) show ?case by simp
qed

text \<open>
   A stored result is freed on every path of a query that does not fault.  The metadata of
  a query is not: each \<open>executeQuery\<close> overwrites the handle of the one before, and the
  destructor frees the last only, so that \<open>n\<close> queries on one prepared statement leave
  \<open>n - 1\<close> results behind.
\<close>

lemma prepared_results_freed:
  assumes "\<forall>e \<in> set es. metadata e \<noteq> None"
  shows "(\<not> stored ps \<longrightarrow> no_fault (fst (ps_executeQuery v57 ts e ps)) \<longrightarrow>
      \<not> stored (snd (ps_executeQuery v57 ts e ps)))
    \<and> (\<not> stored ps \<longrightarrow> no_fault (fst (ps_execute v57 ts e ps)) \<longrightarrow> \<not> stored (snd (ps_execute v57 ts e ps)))
    \<and> (live (ps_destroy (ps_queries v57 ts es (new_PreparedStatement n))) = rev [0 ..< length es - 1])"
proof -
  have part1: "\<not> stored (snd (ps_executeQuery v57 ts e ps))"
    if "\<not> stored ps" "no_fault (fst (ps_executeQuery v57 ts e ps))"
    using that ps_bindResult_frame(4)
    by (auto simp: ps_executeQuery_def Let_def split: option.splits if_splits)
  have part2: "\<not> stored (snd (ps_execute v57 ts e ps))"
    if "\<not> stored ps" "no_fault (fst (ps_execute v57 ts e ps))"
    using that ps_bindResult_frame(4) by (auto simp: ps_execute_def split: if_splits)
  let ?ps = "ps_queries v57 ts es (new_PreparedStatement n)"
  have "live ?ps = rev [0 ..< length es]"
    "map_option fst (m_mysql_res ?ps) = (if length es = 0 then None else Some (length es - 1))"
    using ps_queries_handles [OF assms, of "new_PreparedStatement n" v57 ts]
    by (simp_all add: new_PreparedStatement_def)
  then have part3: "live (ps_destroy ?ps) = rev [0 ..< length es - 1]"
    by (cases "length es") (auto simp: ps_destroy_def split: option.split)
  show ?thesis using part1 part2 part3 by blast
qed

lemma prepared_results_freed_witness:
  "live (ps_destroy (ps_queries True 40 [sample_execution 4, sample_execution 2, sample_execution 1]
      (new_PreparedStatement 0))) = [1, 0]"
  using prepared_results_freed [THEN conjunct2, THEN conjunct2, of "[sample_execution 4, sample_execution 2, sample_execution 1]"]
  by (simp add: sample_execution_def upt_rec)

end
