(* ===== verification/Knet_Message.thy ===== *)
theory Knet_Message
  imports Interfaces Memory_Text
begin

text \<open>
  The messages of \<open>knet\<close>: the fixed-size string of \<open>detail/FixedString.h\<close>, the messages of
  \<open>Message.cpp\<close>, their wire format (\<open>detail/MessageDetail.cpp\<close>), and the queue of the Kafka
  producer that encodes and sends them (\<open>detail/kafka/Producer.cpp\<close>).  A \<open>std::string\<close> is the
  list of its bytes.  The Kafka client is an argument: whether a topic can be created, and
  the list of what was handed to it.
\<close>

section \<open>Fixed strings\<close>

text \<open>The \<open>L + 1\<close> characters of a \<open>FixedString<L>\<close>; \<open>None\<close> is a read past the source.\<close>

definition new_FixedString :: "nat \<Rightarrow> byte list" where
  "new_FixedString L = replicate (L + 1) 0"

definition fs_SetString_n :: "nat \<Rightarrow> byte list \<Rightarrow> nat \<Rightarrow> byte list \<Rightarrow> (bool \<times> byte list) option" where
  "fs_SetString_n L s len d =
     (if len > L then Some (False, d)
      else if length s < len then None
      else Some (True, take len s @ drop len (replicate (L + 1) 0)))"

definition fs_SetString :: "nat \<Rightarrow> byte list \<Rightarrow> byte list \<Rightarrow> (bool \<times> byte list) option" where
  "fs_SetString L s d = fs_SetString_n L s (length s) d"

definition fs_SetCString :: "nat \<Rightarrow> byte list \<Rightarrow> byte list \<Rightarrow> (bool \<times> byte list) option" where
  "fs_SetCString L s d = (case c_string s of
       None \<Rightarrow> None | Some str \<Rightarrow> fs_SetString_n L s (length str) d)"

definition fs_GetCString :: "byte list \<Rightarrow> byte list option" where
  "fs_GetCString d = c_string d"

definition fs_Length :: "byte list \<Rightarrow> nat option" where
  "fs_Length d = map_option length (fs_GetCString d)"

definition fs_GetBinary :: "nat \<Rightarrow> byte list \<Rightarrow> byte list" where
  "fs_GetBinary L d = (if L = 0 then [] else take L d)"

definition fs_SetBinary :: "nat \<Rightarrow> byte list \<Rightarrow> byte list \<Rightarrow> bool \<times> byte list" where
  "fs_SetBinary L src d =
     (if length src > L then (False, d)
      else if src = [] then (True, replicate (L + 1) 0)
      else (True, src @ drop (length src) (replicate (L + 1) 0)))"

definition fs_eq :: "byte list \<Rightarrow> byte list \<Rightarrow> bool" where
  "fs_eq d e \<longleftrightarrow> d = e"

text \<open>Assignment from a temporary swaps.\<close>

definition fs_move_assign :: "byte list \<Rightarrow> byte list \<Rightarrow> byte list \<times> byte list" where
  "fs_move_assign this rhs = (rhs, this)"

definition fs_ok :: "nat \<Rightarrow> byte list \<Rightarrow> bool" where
  "fs_ok L d \<longleftrightarrow> length d = L + 1 \<and> last d = 0"

lemma drop_zeros: "n \<le> L \<Longrightarrow> drop n (replicate (L + 1) 0) = replicate (L - n) 0 @ [0 :: byte]"
proof -
  assume "n \<le> L"
  then have "L + 1 - n = Suc (L - n)" by simp
  then have "drop n (replicate (L + 1) (0 :: byte)) = replicate (Suc (L - n)) 0"
    by (simp only: drop_replicate)
  then show ?thesis by (simp add: replicate_append_same)
qed

lemma fs_ok_new: "fs_ok L (new_FixedString L)"
  by (simp add: fs_ok_def new_FixedString_def)

lemma takeWhile_zeros:
  "takeWhile (\<lambda>b. b \<noteq> 0) (s @ replicate n 0 @ [0 :: byte]) = takeWhile (\<lambda>b. b \<noteq> 0) s"
  by (induction s) (cases n; simp)+

lemma fs_SetString_ok:
  assumes "fs_ok L d"
  shows "\<exists>ok d'. fs_SetString L s d = Some (ok, d') \<and> fs_ok L d' \<and> (ok \<longleftrightarrow> length s \<le> L)
      \<and> (ok \<longrightarrow> fs_GetCString d' = Some (takeWhile (\<lambda>b. b \<noteq> 0) s)
          \<and> fs_SetCString L (s @ [0]) d \<noteq> None)
      \<and> (\<not> ok \<longrightarrow> d' = d)"
proof (cases "length s \<le> L")
  case False
  then show ?thesis using assms
    by (intro exI [of _ False] exI [of _ d]) (simp add: fs_SetString_def fs_SetString_n_def)
next
  case True
  have "fs_SetString L s d = Some (True, s @ replicate (L - length s) 0 @ [0])"
    using True unfolding fs_SetString_def fs_SetString_n_def drop_zeros [OF True] by simp
  moreover have "takeWhile (\<lambda>b. b \<noteq> 0) (s @ [0]) = takeWhile (\<lambda>b. b \<noteq> 0) s"
    by (simp add: takeWhile_tail)
  moreover have "length (takeWhile (\<lambda>b. b \<noteq> 0) s) \<le> L"
    using True length_takeWhile_le [of "\<lambda>b. b \<noteq> 0" s] by linarith
  moreover have "fs_SetCString L (s @ [0]) d \<noteq> None"
    using True length_takeWhile_le [of "\<lambda>b. b \<noteq> 0" s]
    by (simp add: fs_SetCString_def c_string_terminated fs_SetString_n_def)
  ultimately show ?thesis using True
    by (intro exI [of _ True]) (simp add: fs_ok_def fs_GetCString_def c_string_def takeWhile_zeros)
qed

text \<open>
   A fixed string never leaves its array.  Whatever is stored, the array keeps its size and
  its final NUL, so that reading it as a C string ends inside; a string is accepted exactly
  when it has at most \<open>L\<close> bytes, otherwise nothing changes; what is read back is the string up
  to its first NUL, and the binary form restores the value.
\<close>

lemma fixed_string_bounds:
  assumes "fs_ok L d"
  shows "(\<exists>ok d'. fs_SetString L s d = Some (ok, d') \<and> fs_ok L d'
      \<and> (ok \<longleftrightarrow> length s \<le> L)
      \<and> (ok \<longrightarrow> fs_GetCString d' = Some (takeWhile (\<lambda>b. b \<noteq> 0) s)
          \<and> fs_SetCString L (s @ [0]) d \<noteq> None)
      \<and> (\<not> ok \<longrightarrow> d' = d))
    \<and> fs_GetCString d \<noteq> None \<and> (\<exists>n \<le> L. fs_Length d = Some n)
    \<and> fs_SetBinary L (fs_GetBinary L d) (new_FixedString L) = (True, d)
    \<and> fs_ok L (snd (fs_SetBinary L s d))"
proof (intro conjI)
  have len: "length d = L + 1" and "last d = 0" using assms by (simp_all add: fs_ok_def)
  then have split: "d = take L d @ [0]"
    by (metis add_diff_cancel_right' append_butlast_last_id butlast_conv_take length_0_conv
        nat.distinct(1) Suc_eq_plus1)
  then have zero: "0 \<in> set d" by (metis in_set_conv_decomp)
  then show "fs_GetCString d \<noteq> None" by (simp add: fs_GetCString_def c_string_def)
  have "length (takeWhile (\<lambda>b. b \<noteq> 0) (take L d @ [0])) \<le> L"
    using length_takeWhile_le [of "\<lambda>b. b \<noteq> 0" "take L d"] len by (simp add: takeWhile_tail)
  then show "\<exists>n \<le> L. fs_Length d = Some n"
    using zero split by (auto simp: fs_Length_def fs_GetCString_def c_string_def)
  show "fs_SetBinary L (fs_GetBinary L d) (new_FixedString L) = (True, d)"
  proof (cases "L = 0")
    case True
    then show ?thesis using split by (simp add: fs_SetBinary_def fs_GetBinary_def)
  next
    case False
    have "drop L (replicate (L + 1) (0 :: byte)) = [0]" using drop_zeros [of L L] by simp
    moreover have "length (take L d) = L" "take L d \<noteq> []" using len False by auto
    ultimately show ?thesis using split False
      by (simp add: fs_SetBinary_def fs_GetBinary_def del: replicate.simps take_eq_Nil)
  qed
  show "fs_ok L (snd (fs_SetBinary L s d))"
    using assms by (auto simp: fs_SetBinary_def fs_ok_def drop_zeros simp del: replicate.simps)
  show "\<exists>ok d'. fs_SetString L s d = Some (ok, d') \<and> fs_ok L d' \<and> (ok \<longleftrightarrow> length s \<le> L)
      \<and> (ok \<longrightarrow> fs_GetCString d' = Some (takeWhile (\<lambda>b. b \<noteq> 0) s)
          \<and> fs_SetCString L (s @ [0]) d \<noteq> None)
      \<and> (\<not> ok \<longrightarrow> d' = d)"
    by (rule fs_SetString_ok [OF assms])
qed

lemma fixed_string_bounds_witness:
  "\<exists>d'. fs_SetString 3 [97, 98] (new_FixedString 3) = Some (True, d') \<and> fs_GetCString d' = Some [97, 98]"
  using fixed_string_bounds [OF fs_ok_new [of 3], of "[97, 98]"] by auto

section \<open>Messages\<close>

record message =
  m_from_sid :: "byte list"
  m_to_sid :: "byte list"
  m_msg_id :: "32 word"
  m_payload :: "byte list"
  m_key :: "byte list"

definition Invalid :: "message \<Rightarrow> bool" where
  "Invalid m \<longleftrightarrow> m_from_sid m = [] \<or> m_to_sid m = []"

text \<open>A message to send has the buffer it is encoded into.\<close>

record send_msg =
  msg :: message
  m_buffer :: "byte list"

definition new_SendMsg :: "message \<Rightarrow> send_msg" where
  "new_SendMsg m = \<lparr>msg = m, m_buffer = []\<rparr>"

definition mem_write :: "nat \<Rightarrow> byte list \<Rightarrow> byte list \<Rightarrow> byte list" where
  "mem_write pos src buf = take pos buf @ src @ drop (pos + length src) buf"

definition Encode :: "send_msg \<Rightarrow> send_msg" where
  "Encode s =
     (let m = msg s; from = m_from_sid m; to = m_to_sid m
      in if from = [] \<or> to = [] then s
         else
           (let buf = vec_resize (length from + 1 + length to + 1 + 4 + length (m_payload m)) (m_buffer s);
                buf = mem_write 0 from buf;
                pos = length from + 1;
                buf = mem_write pos to buf;
                pos = pos + length to + 1;
                buf = mem_write pos (le_bytes 4 (m_msg_id m)) buf;
                pos = pos + 4;
                buf = mem_write pos (m_payload m) buf
            in s\<lparr>m_buffer := buf\<rparr>))"

text \<open>The loop that looks for the two separators.\<close>

fun find_seps :: "byte list \<Rightarrow> nat \<Rightarrow> nat option \<Rightarrow> nat option \<times> nat option" where
  "find_seps [] i p_from = (p_from, None)"
| "find_seps (c # cs) i p_from =
     (if c = 0 then (case p_from of
          None \<Rightarrow> find_seps cs (i + 1) (Some i)
        | Some _ \<Rightarrow> (p_from, Some i))
      else find_seps cs (i + 1) p_from)"

text \<open>The bytes between two pointers into \<open>p\<close>; \<open>None\<close> is a read outside.\<close>

definition between :: "byte list \<Rightarrow> nat \<Rightarrow> nat \<Rightarrow> byte list option" where
  "between p a b = (if a \<le> b \<and> b \<le> length p then Some (take (b - a) (drop a p)) else None)"

text \<open>\<open>Some None\<close> is the null pointer of a message that is rejected; \<open>key\<close> is \<open>None\<close> when null.\<close>

definition Decode :: "byte list \<Rightarrow> byte list option \<Rightarrow> message option option" where
  "Decode p key =
     (if length p \<le> 4 then Some None
      else case key of None \<Rightarrow> Some None
      | Some k \<Rightarrow> if k = [] then Some None
        else (case find_seps p 0 None of
            (Some p_from, Some p_to) \<Rightarrow>
              (case (between p 0 p_from, between p (p_from + 1) p_to) of
                 (Some from, Some to) \<Rightarrow>
                   if from = [] then Some None
                   else if to = [] then Some None
                   else if p_to + 1 + 4 > length p then Some None
                   else (case (between p (p_to + 1) (p_to + 5), between p (p_to + 5) (length p)) of
                       (Some mid, Some payload) \<Rightarrow>
                         Some (Some \<lparr>m_from_sid = from, m_to_sid = to, m_msg_id = un_le mid,
                                m_payload = payload, m_key = k\<rparr>)
                     | _ \<Rightarrow> None)
               | _ \<Rightarrow> None)
          | _ \<Rightarrow> Some None))"

section \<open>The wire format\<close>

definition wire :: "message \<Rightarrow> byte list" where
  "wire m = m_from_sid m @ 0 # m_to_sid m @ 0 # le_bytes 4 (m_msg_id m) @ m_payload m"

definition routable :: "message \<Rightarrow> bool" where
  "routable m \<longleftrightarrow> \<not> Invalid m \<and> 0 \<notin> set (m_from_sid m) \<and> 0 \<notin> set (m_to_sid m) \<and> m_key m \<noteq> []"

lemma mem_write_mid: "length a = pos \<Longrightarrow> length b = length src \<Longrightarrow> mem_write pos src (a @ b @ c) = a @ src @ c"
  by (simp add: mem_write_def)

lemma Encode_wire:
  assumes "\<not> Invalid m"
  shows "m_buffer (Encode (new_SendMsg m)) = wire m"
proof -
  let ?z = "\<lambda>n. replicate n (0 :: byte)"
  let ?f = "m_from_sid m" and ?t = "m_to_sid m" and ?p = "m_payload m" and ?id = "le_bytes 4 (m_msg_id m)"
  have ne: "?f \<noteq> []" "?t \<noteq> []" using assms by (auto simp: Invalid_def)
  have "length ?f + 1 + length ?t + 1 + 4 + length ?p
      = length ?f + (Suc 0 + (length ?t + (Suc 0 + (4 + length ?p))))" by simp
  then have "vec_resize (length ?f + 1 + length ?t + 1 + 4 + length ?p) []
      = ?z (length ?f + (Suc 0 + (length ?t + (Suc 0 + (4 + length ?p)))))"
    by (simp only: vec_resize_def take_Nil append_Nil list.size diff_zero)
  also have "\<dots> = [] @ ?z (length ?f) @ 0 # ?z (length ?t) @ 0 # ?z 4 @ ?z (length ?p)"
    by (simp only: replicate_add replicate.simps append.simps)
  finally have "vec_resize (length ?f + 1 + length ?t + 1 + 4 + length ?p) []
      = [] @ ?z (length ?f) @ 0 # ?z (length ?t) @ 0 # ?z 4 @ ?z (length ?p)" .
  moreover have "mem_write 0 ?f ([] @ ?z (length ?f) @ 0 # ?z (length ?t) @ 0 # ?z 4 @ ?z (length ?p))
      = (?f @ [0]) @ ?z (length ?t) @ 0 # ?z 4 @ ?z (length ?p)"
    by (subst mem_write_mid) simp_all
  moreover have "mem_write (length ?f + 1) ?t ((?f @ [0]) @ ?z (length ?t) @ 0 # ?z 4 @ ?z (length ?p))
      = (?f @ 0 # ?t @ [0]) @ ?z 4 @ ?z (length ?p)"
    by (subst mem_write_mid) simp_all
  moreover have "mem_write (length ?f + 1 + length ?t + 1) ?id ((?f @ 0 # ?t @ [0]) @ ?z 4 @ ?z (length ?p))
      = (?f @ 0 # ?t @ 0 # ?id) @ ?z (length ?p) @ []"
    by (subst mem_write_mid) simp_all
  moreover have "mem_write (length ?f + 1 + length ?t + 1 + 4) ?p ((?f @ 0 # ?t @ 0 # ?id) @ ?z (length ?p) @ [])
      = (?f @ 0 # ?t @ 0 # ?id) @ ?p @ []"
    by (subst mem_write_mid) simp_all
  ultimately show ?thesis using ne
    by (simp only: Encode_def new_SendMsg_def Let_def send_msg.simps if_False simp_thms) (simp add: wire_def)
qed

lemma find_seps_Some:
  "find_seps cs i (Some a) = (Some a, if 0 \<in> set cs then Some (i + length (takeWhile (\<lambda>c. c \<noteq> 0) cs)) else None)"
  by (induction cs arbitrary: i) auto

lemma find_seps_skip: "0 \<notin> set from \<Longrightarrow> find_seps (from @ cs) i None = find_seps cs (i + length from) None"
  by (induction "from" arbitrary: i) auto

lemma find_seps_wire:
  "0 \<notin> set from \<Longrightarrow> 0 \<notin> set to \<Longrightarrow>
   find_seps (from @ 0 # to @ 0 # rest) 0 None = (Some (length from), Some (length from + 1 + length to))"
  by (simp add: find_seps_skip find_seps_Some takeWhile_append)

lemma find_seps_found:
  assumes "find_seps p 0 None = (Some a, Some b)"
  obtains "from" "to" rest where "p = from @ 0 # to @ 0 # rest" "0 \<notin> set from" "0 \<notin> set to"
    "a = length from" "b = length from + 1 + length to"
proof -
  have z: "0 \<in> set p"
  proof (rule ccontr)
    assume "0 \<notin> set p"
    then show False using assms find_seps_skip [of p "[]" 0] by simp
  qed
  then obtain "from" cs where p: "p = from @ 0 # cs" "0 \<notin> set from" by (meson split_list_first)
  then have f: "find_seps cs (length from + 1) (Some (length from)) = (Some a, Some b)"
    using assms by (simp add: find_seps_skip)
  then have "0 \<in> set cs" by (auto simp: find_seps_Some split: if_splits)
  then obtain "to" rest where cs: "cs = to @ 0 # rest" "0 \<notin> set to" by (meson split_list_first)
  then have "a = length from" "b = length from + 1 + length to"
    using f by (auto simp: find_seps_Some takeWhile_append)
  with p cs show thesis using that by blast
qed

lemma between_mid:
  "length a = i \<Longrightarrow> length (a @ b) = j \<Longrightarrow> between (a @ b @ c) i j = Some b"
  by (auto simp: between_def)

lemma Decode_wire:
  assumes "routable m"
  shows "Decode (wire m) (Some (m_key m)) = Some (Some m)"
proof -
  let ?f = "m_from_sid m" and ?t = "m_to_sid m"
  have ok: "0 \<notin> set ?f" "0 \<notin> set ?t" "?f \<noteq> []" "?t \<noteq> []" "m_key m \<noteq> []"
    using assms by (auto simp: routable_def Invalid_def)
  have seps: "find_seps (wire m) 0 None = (Some (length ?f), Some (length ?f + 1 + length ?t))"
    unfolding wire_def by (rule find_seps_wire [OF ok(1,2)])
  let ?id = "le_bytes 4 (m_msg_id m)" and ?p = "m_payload m"
  have len: "length (wire m) = length ?f + length ?t + length ?p + 6" by (simp add: wire_def)
  have "between (wire m) 0 (length ?f) = Some ?f"
    using between_mid [of "[]" 0 ?f _ "0 # ?t @ 0 # ?id @ ?p"] by (simp add: wire_def)
  moreover have "between (wire m) (length ?f + 1) (length ?f + 1 + length ?t) = Some ?t"
    using between_mid [of "?f @ [0]" _ ?t _ "0 # ?id @ ?p"] by (simp add: wire_def)
  moreover have "between (wire m) (length ?f + 1 + length ?t + 1) (length ?f + 1 + length ?t + 5) = Some ?id"
    using between_mid [of "?f @ 0 # ?t @ [0]" _ ?id _ ?p] by (simp add: wire_def)
  moreover have "between (wire m) (length ?f + 1 + length ?t + 5) (length (wire m)) = Some ?p"
    using between_mid [of "?f @ 0 # ?t @ 0 # ?id" _ ?p _ "[]"] len by (simp add: wire_def)
  moreover have "un_le ?id = m_msg_id m" by (simp add: un_le_le_bytes)
  ultimately show ?thesis
    using ok(3-5) seps len by (simp add: Decode_def)
qed

lemma Decode_defined: "Decode p key \<noteq> None"
proof (cases "find_seps p 0 None")
  case (Pair pf pt)
  show ?thesis
  proof (cases "\<exists>a b. pf = Some a \<and> pt = Some b")
    case False
    then show ?thesis using Pair by (auto simp: Decode_def split: option.split)
  next
    case True
    then obtain a b where ab: "find_seps p 0 None = (Some a, Some b)" using Pair by blast
    from ab obtain "from" "to" rest where "p = from @ 0 # to @ 0 # rest"
      "a = length from" "b = length from + 1 + length to" by (rule find_seps_found)
    then show ?thesis using ab by (auto simp: Decode_def between_def split: option.split)
  qed
qed

lemma Decode_canonical:
  assumes "Decode p (Some k) = Some (Some m)"
  shows "wire m = p \<and> m_key m = k \<and> routable m"
proof -
  obtain pf pt where "find_seps p 0 None = (pf, pt)" by force
  with assms obtain a b where ab: "find_seps p 0 None = (Some a, Some b)"
    by (cases pf; cases pt) (auto simp: Decode_def split: if_splits)
  obtain "from" "to" rest where p: "p = from @ 0 # to @ 0 # rest" "0 \<notin> set from" "0 \<notin> set to"
    "a = length from" "b = length from + 1 + length to"
    using ab by (rule find_seps_found)
  from assms ab p have m: "m = \<lparr>m_from_sid = from, m_to_sid = to, m_msg_id = un_le (take 4 rest),
      m_payload = drop 4 rest, m_key = k\<rparr>" "from \<noteq> []" "to \<noteq> []" "k \<noteq> []" "4 \<le> length rest"
    by (auto simp: Decode_def between_def drop_Cons' numeral_eq_Suc split: if_splits)
  have "le_bytes 4 (un_le (take 4 rest) :: 32 word) = take 4 rest"
    using m(5) by (intro le_bytes_un_le) simp_all
  then show ?thesis using p m by (simp add: wire_def routable_def Invalid_def)
qed

interpretation kmsg: codec "\<lambda>m. routable m \<and> m_key m = k" "\<lambda>m. m_buffer (Encode (new_SendMsg m))"
    "\<lambda>p. the (Decode p (Some k))" for k
  by unfold_locales (auto simp: Encode_wire Decode_wire routable_def)

text \<open>
  C26.  What one service encodes another decodes: a message whose service names are neither
  empty nor contain a NUL, with a key, is recovered exactly, and every message that is accepted
  is the encoding of the result, so that no two messages share a form.  Whatever arrives, the
  decoder reads inside the bytes it was given and either rejects them or accepts.
\<close>

theorem knet_message_roundtrip:
  "(routable m \<longrightarrow> Decode (m_buffer (Encode (new_SendMsg m))) (Some (m_key m)) = Some (Some m))
   \<and> (Decode p (Some k) = Some (Some m') \<longrightarrow>
        m_buffer (Encode (new_SendMsg m')) = p \<and> m_key m' = k \<and> routable m')
   \<and> Decode p key \<noteq> None"
  using Decode_canonical [of p k m'] Decode_defined [of p key] Encode_wire [of m'] Encode_wire [of m]
    Decode_wire [of m]
  by (auto simp: routable_def)

lemma knet_message_roundtrip_witness:
  "Decode (m_buffer (Encode (new_SendMsg \<lparr>m_from_sid = [97], m_to_sid = [98, 99], m_msg_id = 513,
      m_payload = [0, 7], m_key = [97, 49]\<rparr>))) (Some [97, 49])
   = Some (Some \<lparr>m_from_sid = [97], m_to_sid = [98, 99], m_msg_id = 513, m_payload = [0, 7], m_key = [97, 49]\<rparr>)"
  using knet_message_roundtrip [of "\<lparr>m_from_sid = [97], m_to_sid = [98, 99], m_msg_id = 513,
      m_payload = [0, 7], m_key = [97, 49]\<rparr>"]
  by (simp add: routable_def Invalid_def)

section \<open>The producer\<close>

text \<open>What the Kafka client was handed: the topic, the bytes and the key.\<close>

record producer =
  p_run :: bool
  p_queue :: "send_msg list"
  p_topics :: "byte list set"
  produced :: "(byte list \<times> byte list \<times> byte list) list"

definition started_Producer :: producer where
  "started_Producer = \<lparr>p_run = True, p_queue = [], p_topics = {}, produced = []\<rparr>"

text \<open>\<open>create\<close> tells whether the client can create a topic.\<close>

definition FindOrCreate :: "(byte list \<Rightarrow> bool) \<Rightarrow> byte list \<Rightarrow> producer \<Rightarrow> producer option" where
  "FindOrCreate create to_sid p =
     (if to_sid \<in> p_topics p then Some p
      else if \<not> create to_sid then None
      else Some (p\<lparr>p_topics := insert to_sid (p_topics p)\<rparr>))"

definition SendMessageInternal :: "(byte list \<Rightarrow> bool) \<Rightarrow> send_msg \<Rightarrow> producer \<Rightarrow> producer" where
  "SendMessageInternal create s p = (case FindOrCreate create (m_to_sid (msg s)) p of
       None \<Rightarrow> p
     | Some p' \<Rightarrow> p'\<lparr>produced := produced p' @ [(m_to_sid (msg s), m_buffer s, m_key (msg s))]\<rparr>)"

definition SendTo :: "send_msg \<Rightarrow> producer \<Rightarrow> producer" where
  "SendTo s p = (if \<not> p_run p then p else if Invalid (msg s) then p
     else p\<lparr>p_queue := p_queue p @ [s]\<rparr>)"

text \<open>One round of the sending thread.\<close>

definition send_round :: "(byte list \<Rightarrow> bool) \<Rightarrow> producer \<Rightarrow> producer" where
  "send_round create p =
     (if \<not> p_run p then p
      else (case p_queue p of
          [] \<Rightarrow> p
        | s # q \<Rightarrow> SendMessageInternal create (Encode s) (p\<lparr>p_queue := q\<rparr>)))"

definition p_Stop :: "producer \<Rightarrow> producer" where
  "p_Stop p = p\<lparr>p_run := False\<rparr>"

fun flush_queue :: "(byte list \<Rightarrow> bool) \<Rightarrow> send_msg list \<Rightarrow> producer \<Rightarrow> producer" where
  "flush_queue create [] p = p\<lparr>p_queue := []\<rparr>"
| "flush_queue create (s # q) p = flush_queue create q (SendMessageInternal create s (p\<lparr>p_queue := q\<rparr>))"

definition p_Flush :: "(byte list \<Rightarrow> bool) \<Rightarrow> producer \<Rightarrow> producer" where
  "p_Flush create p =
     (if p_run p then p else if p_queue p = [] then p else flush_queue create (p_queue p) p)"

datatype p_op = Op_send message | Op_round

fun p_apply :: "(byte list \<Rightarrow> bool) \<Rightarrow> p_op \<Rightarrow> producer \<Rightarrow> producer" where
  "p_apply create (Op_send m) p = SendTo (new_SendMsg m) p"
| "p_apply create Op_round p = send_round create p"

fun p_runs :: "(byte list \<Rightarrow> bool) \<Rightarrow> p_op list \<Rightarrow> producer \<Rightarrow> producer" where
  "p_runs create [] p = p"
| "p_runs create (op # ops) p = p_runs create ops (p_apply create op p)"

definition op_messages :: "p_op list \<Rightarrow> message list" where
  "op_messages ops = filter (\<lambda>m. \<not> Invalid m) (concat (map (\<lambda>op. case op of Op_send m \<Rightarrow> [m] | Op_round \<Rightarrow> []) ops))"

definition handed :: "(byte list \<Rightarrow> bool) \<Rightarrow> message list \<Rightarrow> (byte list \<times> byte list \<times> byte list) list" where
  "handed create ms = map (\<lambda>m. (m_to_sid m, wire m, m_key m)) (filter (\<lambda>m. create (m_to_sid m)) ms)"

definition p_inv :: "(byte list \<Rightarrow> bool) \<Rightarrow> message list \<Rightarrow> producer \<Rightarrow> bool" where
  "p_inv create ms p \<longleftrightarrow> p_run p \<and> p_topics p \<subseteq> Collect create
     \<and> (\<exists>k \<le> length ms. p_queue p = map new_SendMsg (drop k ms) \<and> produced p = handed create (take k ms))"

lemma msg_Encode [simp]: "msg (Encode s) = msg s"
  by (simp add: Encode_def Let_def)

lemma SendMessageInternal_produced:
  assumes "p_topics p \<subseteq> Collect create"
  shows "produced (SendMessageInternal create s p) = produced p @
      (if create (m_to_sid (msg s)) then [(m_to_sid (msg s), m_buffer s, m_key (msg s))] else [])"
    "p_topics (SendMessageInternal create s p) \<subseteq> Collect create"
    "p_run (SendMessageInternal create s p) = p_run p"
    "p_queue (SendMessageInternal create s p) = p_queue p"
  using assms by (auto simp: SendMessageInternal_def FindOrCreate_def)

lemma p_inv_send:
  assumes "p_inv create ms p"
  shows "p_inv create (ms @ (if Invalid m then [] else [m])) (SendTo (new_SendMsg m) p)"
proof -
  obtain k where k: "k \<le> length ms" "p_queue p = map new_SendMsg (drop k ms)" "produced p = handed create (take k ms)"
    and p: "p_run p" "p_topics p \<subseteq> Collect create" using assms by (auto simp: p_inv_def)
  have "msg (new_SendMsg m) = m" by (simp add: new_SendMsg_def)
  then show ?thesis using k p unfolding p_inv_def by (intro conjI exI [of _ k]) (auto simp: SendTo_def)
qed

lemma p_inv_round:
  assumes "p_inv create ms p" "\<forall>m \<in> set ms. \<not> Invalid m"
  shows "p_inv create ms (send_round create p)"
proof -
  obtain k where k: "k \<le> length ms" "p_queue p = map new_SendMsg (drop k ms)" "produced p = handed create (take k ms)"
    and p: "p_run p" "p_topics p \<subseteq> Collect create" using assms by (auto simp: p_inv_def)
  show ?thesis
  proof (cases "k < length ms")
    case False
    then show ?thesis using assms(1) k by (simp add: send_round_def)
  next
    case True
    let ?m = "ms ! k" and ?p = "p\<lparr>p_queue := map new_SendMsg (drop (Suc k) ms)\<rparr>"
    have q: "p_queue p = new_SendMsg ?m # map new_SendMsg (drop (Suc k) ms)"
      using True k(2) by (simp add: Cons_nth_drop_Suc [symmetric])
    have m: "msg (new_SendMsg ?m) = ?m" "\<not> Invalid ?m" using True assms(2) by (simp_all add: new_SendMsg_def)
    have "produced (send_round create p) = handed create (take (Suc k) ms)"
      using True p q k(3) m SendMessageInternal_produced(1) [of ?p create "Encode (new_SendMsg ?m)"]
      by (simp add: send_round_def handed_def take_Suc_conv_app_nth Encode_wire)
    moreover have "p_queue (send_round create p) = map new_SendMsg (drop (Suc k) ms)"
      "p_topics (send_round create p) \<subseteq> Collect create" "p_run (send_round create p)"
      using p q SendMessageInternal_produced(2-4) [of ?p create] by (simp_all add: send_round_def)
    ultimately show ?thesis using True unfolding p_inv_def by (intro conjI exI [of _ "Suc k"]) simp_all
  qed
qed

lemma p_runs_inv:
  "p_inv create ms p \<Longrightarrow> \<forall>m \<in> set ms. \<not> Invalid m \<Longrightarrow> p_inv create (ms @ op_messages ops) (p_runs create ops p)"
proof (induction ops arbitrary: ms p)
  case Nil
  then show ?case by (simp add: op_messages_def)
next
  case (Cons op ops)
  show ?case
  proof (cases op)
    case (Op_send m)
    let ?ms = "ms @ (if Invalid m then [] else [m])"
    have "p_inv create ?ms (p_apply create op p)" using p_inv_send [OF Cons.prems(1), of m] Op_send by simp
    moreover have "\<forall>m \<in> set ?ms. \<not> Invalid m" using Cons.prems(2) by simp
    ultimately have "p_inv create (?ms @ op_messages ops) (p_runs create ops (p_apply create op p))"
      by (rule Cons.IH)
    moreover have "op_messages (op # ops) = (if Invalid m then [] else [m]) @ op_messages ops"
      using Op_send by (simp add: op_messages_def)
    ultimately show ?thesis by (simp only: p_runs.simps append_assoc)
  next
    case Op_round
    have "p_inv create ms (p_apply create op p)" using p_inv_round [OF Cons.prems] Op_round by simp
    from Cons.IH [OF this Cons.prems(2)] Op_round show ?thesis by (simp add: op_messages_def)
  qed
qed

lemma flush_queue_produced:
  "p_topics p \<subseteq> Collect create \<Longrightarrow>
   produced (flush_queue create q p) = produced p @
     map (\<lambda>s. (m_to_sid (msg s), m_buffer s, m_key (msg s))) (filter (\<lambda>s. create (m_to_sid (msg s))) q)"
proof (induction q arbitrary: p)
  case (Cons s q)
  have "p_topics (p\<lparr>p_queue := q\<rparr>) \<subseteq> Collect create" using Cons.prems by simp
  note sent = SendMessageInternal_produced [OF this, of s]
  show ?case using Cons.IH [OF sent(2)] sent(1) by simp
qed simp

text \<open>
   The producer hands messages over in the order in which they were accepted, each once and
  in its wire form, whatever the interleaving of callers and the sending thread; a message
  without a sender or receiver is never accepted, and one whose topic cannot be created is
  dropped.  Messages still queued when the producer stops are handed over by \<open>Flush\<close> without
  having been encoded: with no bytes at all, which every receiver rejects.
\<close>

lemma producer_in_order:
  assumes "p = p_runs create ops started_Producer"
  shows "\<exists>k \<le> length (op_messages ops). produced p = handed create (take k (op_messages ops))
      \<and> produced (p_Flush create (p_Stop p)) = produced p
          @ map (\<lambda>m. (m_to_sid m, [], m_key m)) (filter (\<lambda>m. create (m_to_sid m)) (drop k (op_messages ops)))
      \<and> Decode [] key = Some None"
proof -
  have "p_inv create [] started_Producer" by (simp add: p_inv_def started_Producer_def handed_def)
  from p_runs_inv [OF this] have inv: "p_inv create (op_messages ops) p" using assms by simp
  then obtain k where k: "k \<le> length (op_messages ops)" "p_queue p = map new_SendMsg (drop k (op_messages ops))"
    "produced p = handed create (take k (op_messages ops))" and t: "p_topics p \<subseteq> Collect create"
    by (auto simp: p_inv_def)
  have "produced (p_Flush create (p_Stop p)) = produced p
      @ map (\<lambda>s. (m_to_sid (msg s), m_buffer s, m_key (msg s)))
          (filter (\<lambda>s. create (m_to_sid (msg s))) (p_queue p))"
    using flush_queue_produced [of "p_Stop p" create "p_queue p"] t by (simp add: p_Flush_def p_Stop_def)
  also have "map (\<lambda>s. (m_to_sid (msg s), m_buffer s, m_key (msg s)))
        (filter (\<lambda>s. create (m_to_sid (msg s))) (p_queue p))
      = map (\<lambda>m. (m_to_sid m, [], m_key m)) (filter (\<lambda>m. create (m_to_sid m)) (drop k (op_messages ops)))"
    unfolding k(2) by (simp add: filter_map comp_def new_SendMsg_def)
  finally show ?thesis using k(1,3) by (intro exI [of _ k]) (simp add: Decode_def)
qed

lemma producer_in_order_witness:
  "\<exists>k \<le> 2. produced (p_runs (\<lambda>_. True) [Op_send \<lparr>m_from_sid = [97], m_to_sid = [98], m_msg_id = 1, m_payload = [], m_key = [1]\<rparr>,
       Op_send \<lparr>m_from_sid = [97], m_to_sid = [], m_msg_id = 2, m_payload = [], m_key = [1]\<rparr>, Op_round,
       Op_send \<lparr>m_from_sid = [97], m_to_sid = [99], m_msg_id = 3, m_payload = [], m_key = [1]\<rparr>] started_Producer)
     = handed (\<lambda>_. True) (take k [\<lparr>m_from_sid = [97], m_to_sid = [98], m_msg_id = 1, m_payload = [], m_key = [1]\<rparr>,
        \<lparr>m_from_sid = [97], m_to_sid = [99], m_msg_id = 3, m_payload = [], m_key = [1]\<rparr>])"
proof -
  let ?a = "\<lparr>m_from_sid = [97], m_to_sid = [98], m_msg_id = 1, m_payload = [], m_key = [1]\<rparr>"
  let ?b = "\<lparr>m_from_sid = [97], m_to_sid = [], m_msg_id = 2, m_payload = [], m_key = [1]\<rparr>"
  let ?c = "\<lparr>m_from_sid = [97], m_to_sid = [99], m_msg_id = 3, m_payload = [], m_key = [1]\<rparr>"
  have "op_messages [Op_send ?a, Op_send ?b, Op_round, Op_send ?c] = [?a, ?c]"
    by (simp add: op_messages_def Invalid_def)
  with producer_in_order [where create = "\<lambda>_. True" and key = None, OF refl, of "[Op_send ?a, Op_send ?b, Op_round, Op_send ?c]"]
  obtain k where "k \<le> length [?a, ?c]" "produced (p_runs (\<lambda>_. True) [Op_send ?a, Op_send ?b, Op_round, Op_send ?c] started_Producer)
      = handed (\<lambda>_. True) (take k [?a, ?c])" by auto
  then show ?thesis by (intro exI [of _ k]) simp
qed

end
