(* ===== verification/Knet_Rpc.thy ===== *)
theory Knet_Rpc
  imports Knet_Message
begin

text \<open>
  Remote calls of \<open>knet\<close>: the manager of outstanding calls (\<open>RPCManager.cpp\<close>), its timers
  (\<open>TimerManager.cpp\<close> over the \<open>deadline_timer\<close>s of \<open>EventManager.cpp\<close>), the dispatch of
  messages (\<open>CallbackManager.cpp\<close>), the network that ticks them (\<open>UniformNetwork.cpp\<close>) and the
  call builder \<open>RPCFuture.cpp\<close>.

  Objects behind shared pointers are numbered: a slot is an index into \<open>slots\<close>, a timer one
  into \<open>timers\<close>; a timer is alive as long as \<open>m_timers\<close> holds it.  User callbacks are events of
  a log, newest first; they do not call back into the manager.  The thread of the event
  manager and that of the consumer run between any two steps of the ticking thread.
\<close>

section \<open>State\<close>

record context_slot =
  m_timer_hdl :: "nat option"
  success_cb :: bool
  timeout_cb :: bool

record rpc_context =
  m_success_cb :: bool
  m_timeout_cb :: bool
  m_timeout_duration :: nat

definition new_RPCContext :: rpc_context where
  "new_RPCContext = \<lparr>m_success_cb = False, m_timeout_cb = False, m_timeout_duration = 0\<rparr>"

definition SetSuccessCB :: "rpc_context \<Rightarrow> rpc_context" where
  "SetSuccessCB c = c\<lparr>m_success_cb := True\<rparr>"

definition SetTimeoutCB :: "nat \<Rightarrow> rpc_context \<Rightarrow> rpc_context" where
  "SetTimeoutCB d c = c\<lparr>m_timeout_cb := True, m_timeout_duration := d\<rparr>"

datatype event = Success nat message | Timeout nat | Handled message | Unhandled message

text \<open>
  \<open>armed\<close> are the waits of the event manager that have not expired, \<open>dispatched\<close> those whose
  handler is queued: \<open>cancel\<close> stops the former only.  \<open>calls\<close> counts the calls made.
\<close>

record world =
  service_id :: "byte list"
  m_key_sequence_id :: u64
  m_slots :: "byte list \<Rightarrow> nat option"
  slots :: "context_slot list"
  m_received_msgs :: "message list"
  m_timers :: "nat set"
  timers :: "(nat \<times> nat) list"
  m_timeout_timers :: "nat list"
  armed :: "nat set"
  dispatched :: "nat set"
  m_msg_cb_array :: "32 word set"
  sent :: "message list"
  log :: "event list"
  calls :: nat

definition new_network :: "byte list \<Rightarrow> 32 word set \<Rightarrow> world" where
  "new_network sid cbs = \<lparr>service_id = sid, m_key_sequence_id = 0, m_slots = Map.empty, slots = [],
     m_received_msgs = [], m_timers = {}, timers = [], m_timeout_timers = [], armed = {},
     dispatched = {}, m_msg_cb_array = cbs, sent = [], log = [], calls = 0\<rparr>"

section \<open>Timers\<close>

definition ev_AddTimer :: "nat \<Rightarrow> world \<Rightarrow> world" where
  "ev_AddTimer t w = w\<lparr>armed := insert t (armed w)\<rparr>"

text \<open>The wait of a timer expires: its handler is queued and can no longer be cancelled.\<close>

definition ev_expire :: "nat \<Rightarrow> world \<Rightarrow> world" where
  "ev_expire t w = w\<lparr>armed := armed w - {t}, dispatched := insert t (dispatched w)\<rparr>"

definition ev_CancelTimer :: "nat \<Rightarrow> world \<Rightarrow> world" where
  "ev_CancelTimer t w = w\<lparr>armed := armed w - {t}\<rparr>"

text \<open>The callback of a timer is the slot it captures.\<close>

definition AddTimer :: "nat \<Rightarrow> nat \<Rightarrow> world \<Rightarrow> nat \<times> world" where
  "AddTimer s d w =
     (let t = length (timers w)
      in (t, (ev_AddTimer t w)\<lparr>timers := timers w @ [(s, d)], m_timers := insert t (m_timers w)\<rparr>))"

definition CancelTimer :: "nat \<Rightarrow> world \<Rightarrow> world" where
  "CancelTimer t w =
     (if t \<notin> m_timers w then w
      else (ev_CancelTimer t w)\<lparr>m_timers := m_timers w - {t}\<rparr>)"

definition CB_Event :: "nat \<Rightarrow> world \<Rightarrow> world" where
  "CB_Event t w = w\<lparr>m_timeout_timers := m_timeout_timers w @ [t]\<rparr>"

definition CB_Timeout :: "nat \<Rightarrow> world \<Rightarrow> world" where
  "CB_Timeout s w = (if timeout_cb (slots w ! s) then w\<lparr>log := Timeout s # log w\<rparr> else w)"

definition call_timer :: "nat \<Rightarrow> world \<Rightarrow> world" where
  "call_timer t w =
     (if t \<in> m_timers w
      then (let w1 = CB_Timeout (fst (timers w ! t)) w in w1\<lparr>m_timers := m_timers w1 - {t}\<rparr>)
      else w)"

definition timer_Tick :: "world \<Rightarrow> world" where
  "timer_Tick w = fold call_timer (m_timeout_timers w) (w\<lparr>m_timeout_timers := []\<rparr>)"

section \<open>Calls\<close>

definition rpc_key :: "byte list \<Rightarrow> nat \<Rightarrow> byte list" where
  "rpc_key sid n = sid @ to_string n"

definition NextKey :: "world \<Rightarrow> byte list \<times> world" where
  "NextKey w =
     (let n = m_key_sequence_id w + 1
      in (rpc_key (service_id w) (unat n), w\<lparr>m_key_sequence_id := n\<rparr>))"

text \<open>\<open>insert\<close> leaves a key that is there already alone.\<close>

definition AppendRPCContext :: "byte list \<Rightarrow> rpc_context option \<Rightarrow> world \<Rightarrow> world" where
  "AppendRPCContext key context w = (case context of
       None \<Rightarrow> w
     | Some c \<Rightarrow>
         (let s = length (slots w);
              slot = \<lparr>m_timer_hdl = None, success_cb = m_success_cb c, timeout_cb = m_timeout_cb c\<rparr>;
              w1 = w\<lparr>slots := slots w @ [slot],
                     m_slots := (if m_slots w key = None then (m_slots w)(key \<mapsto> s) else m_slots w)\<rparr>
          in if m_timeout_cb c
             then (case AddTimer s (m_timeout_duration c) w1 of
                 (t, w2) \<Rightarrow> w2\<lparr>slots := (slots w2)[s := slot\<lparr>m_timer_hdl := Some t\<rparr>]\<rparr>)
             else w1))"

definition send :: "message \<Rightarrow> world \<Rightarrow> world" where
  "send m w = w\<lparr>sent := sent w @ [m]\<rparr>"

definition AsyncRPC :: "byte list \<Rightarrow> 32 word \<Rightarrow> byte list \<Rightarrow> rpc_context option \<Rightarrow> world \<Rightarrow> byte list \<times> world" where
  "AsyncRPC sid msg_id payload context w = (case NextKey w of
       (key, w1) \<Rightarrow>
         (key, AppendRPCContext key context (send \<lparr>m_from_sid = service_id w1, m_to_sid = sid,
            m_msg_id = msg_id, m_payload = payload, m_key = key\<rparr> (w1\<lparr>calls := Suc (calls w1)\<rparr>))))"

definition RouteMessage :: "byte list \<Rightarrow> 32 word \<Rightarrow> byte list \<Rightarrow> world \<Rightarrow> world" where
  "RouteMessage sid msg_id payload w = send \<lparr>m_from_sid = service_id w, m_to_sid = sid,
     m_msg_id = msg_id, m_payload = payload, m_key = rpc_key (service_id w) 0\<rparr> w"

text \<open>The context of a received message answers to its sender under the same key.\<close>

definition RPCResponse :: "message \<Rightarrow> 32 word \<Rightarrow> byte list \<Rightarrow> world \<Rightarrow> world" where
  "RPCResponse ctx msg_id payload w = send \<lparr>m_from_sid = m_to_sid ctx, m_to_sid = m_from_sid ctx,
     m_msg_id = msg_id, m_payload = payload, m_key = m_key ctx\<rparr> w"

definition CallbackMsg :: "message \<Rightarrow> world \<Rightarrow> bool \<times> world" where
  "CallbackMsg m w =
     (if m_msg_id m \<in> m_msg_cb_array w then (True, w\<lparr>log := Handled m # log w\<rparr>) else (False, w))"

definition NormalReceviedMsg :: "message \<Rightarrow> world \<Rightarrow> world" where
  "NormalReceviedMsg m w = (case CallbackMsg m w of
       (True, w') \<Rightarrow> w'
     | (False, w') \<Rightarrow> w'\<lparr>log := Unhandled m # log w'\<rparr>)"

definition CB_Success :: "nat \<Rightarrow> message \<Rightarrow> world \<Rightarrow> world" where
  "CB_Success s m w = (if success_cb (slots w ! s) then w\<lparr>log := Success s m # log w\<rparr> else w)"

definition RpcReceviedMsg :: "message \<Rightarrow> world \<Rightarrow> world" where
  "RpcReceviedMsg m w = (case m_slots w (m_key m) of
       None \<Rightarrow> NormalReceviedMsg m w
     | Some s \<Rightarrow>
         (let w1 = CB_Success s m w;
              w2 = (case m_timer_hdl (slots w1 ! s) of
                  None \<Rightarrow> w1
                | Some t \<Rightarrow> if t \<in> m_timers w1 then CancelTimer t w1 else w1)
          in w2\<lparr>m_slots := (m_slots w2)(m_key m := None)\<rparr>))"

definition ProcessMsg :: "world \<Rightarrow> world" where
  "ProcessMsg w = fold RpcReceviedMsg (m_received_msgs w) (w\<lparr>m_received_msgs := []\<rparr>)"

definition rpc_Tick :: "world \<Rightarrow> world" where
  "rpc_Tick w = ProcessMsg w"

definition CB_ReceviedMsg :: "byte list \<Rightarrow> byte list option \<Rightarrow> world \<Rightarrow> world" where
  "CB_ReceviedMsg p key w = (case Decode p key of
       Some (Some m) \<Rightarrow> w\<lparr>m_received_msgs := m_received_msgs w @ [m]\<rparr>
     | _ \<Rightarrow> w)"

text \<open>The event manager has nothing to do in a tick.\<close>

definition network_Tick :: "world \<Rightarrow> world" where
  "network_Tick w = rpc_Tick (timer_Tick w)"

section \<open>Runs\<close>

inductive rpc_step :: "world \<Rightarrow> world \<Rightarrow> bool" where
  call: "rpc_step w (snd (AsyncRPC sid msg_id payload ctx w))"
| route: "rpc_step w (RouteMessage sid msg_id payload w)"
| respond: "rpc_step w (RPCResponse m msg_id payload w)"
| expire: "t \<in> armed w \<Longrightarrow> rpc_step w (ev_expire t w)"
| event: "t \<in> dispatched w \<Longrightarrow> rpc_step w (CB_Event t (w\<lparr>dispatched := dispatched w - {t}\<rparr>))"
| receive: "rpc_step w (CB_ReceviedMsg p key w)"
| tick_timers: "rpc_step w (timer_Tick w)"
| tick_calls: "rpc_step w (rpc_Tick w)"

definition rpc_reachable :: "byte list \<Rightarrow> 32 word set \<Rightarrow> world \<Rightarrow> bool" where
  "rpc_reachable sid cbs w \<longleftrightarrow> rpc_step\<^sup>*\<^sup>* (new_network sid cbs) w"

section \<open>The invariant\<close>

definition answered :: "event list \<Rightarrow> nat \<Rightarrow> bool" where
  "answered l s \<longleftrightarrow> (\<exists>m. Success s m \<in> set l)"

text \<open>In a log, newest first: no call is answered twice or times out twice or after an answer.\<close>

fun log_ok :: "event list \<Rightarrow> bool" where
  "log_ok [] \<longleftrightarrow> True"
| "log_ok (Success s m # l) \<longleftrightarrow> \<not> answered l s \<and> log_ok l"
| "log_ok (Timeout s # l) \<longleftrightarrow> \<not> answered l s \<and> Timeout s \<notin> set l \<and> log_ok l"
| "log_ok (e # l) \<longleftrightarrow> log_ok l"

text \<open>No timer of the slot is alive.\<close>

definition silent :: "world \<Rightarrow> nat \<Rightarrow> bool" where
  "silent w s \<longleftrightarrow> (\<forall>t \<in> m_timers w. fst (timers w ! t) \<noteq> s)"

definition slots_inv :: "world \<Rightarrow> bool" where
  "slots_inv w \<longleftrightarrow> (\<forall>k k' s. m_slots w k = Some s \<longrightarrow> m_slots w k' = Some s \<longrightarrow> k = k')
     \<and> (\<forall>k s. m_slots w k = Some s \<longrightarrow> s < length (slots w))"

definition timers_inv :: "world \<Rightarrow> bool" where
  "timers_inv w \<longleftrightarrow> (\<forall>t \<in> m_timers w. t < length (timers w))
     \<and> (\<forall>t < length (timers w). fst (timers w ! t) < length (slots w)
          \<and> m_timer_hdl (slots w ! fst (timers w ! t)) = Some t
          \<and> timeout_cb (slots w ! fst (timers w ! t)))"

definition log_inv :: "world \<Rightarrow> bool" where
  "log_inv w \<longleftrightarrow> log_ok (log w)
     \<and> (\<forall>s. answered (log w) s \<longrightarrow> s < length (slots w) \<and> s \<notin> ran (m_slots w) \<and> silent w s)
     \<and> (\<forall>s. Timeout s \<in> set (log w) \<longrightarrow> s < length (slots w) \<and> silent w s)"

definition keys_inv :: "world \<Rightarrow> bool" where
  "keys_inv w \<longleftrightarrow> (calls w < 2 ^ 64 \<longrightarrow> unat (m_key_sequence_id w) = calls w
     \<and> (\<forall>k \<in> dom (m_slots w). \<exists>n. 1 \<le> n \<and> n \<le> calls w \<and> k = rpc_key (service_id w) n))"

definition rpc_inv :: "world \<Rightarrow> bool" where
  "rpc_inv w \<longleftrightarrow> slots_inv w \<and> timers_inv w \<and> log_inv w \<and> keys_inv w"

lemmas rpc_inv_defs = rpc_inv_def slots_inv_def timers_inv_def log_inv_def keys_inv_def silent_def

lemma rpc_inv_new: "rpc_inv (new_network sid cbs)"
  by (simp add: rpc_inv_defs new_network_def answered_def)

text \<open>What the invariant speaks of.\<close>

definition same_calls :: "world \<Rightarrow> world \<Rightarrow> bool" where
  "same_calls w w' \<longleftrightarrow> service_id w' = service_id w \<and> m_key_sequence_id w' = m_key_sequence_id w
     \<and> m_slots w' = m_slots w \<and> slots w' = slots w \<and> m_timers w' = m_timers w \<and> timers w' = timers w
     \<and> log w' = log w \<and> calls w' = calls w"

lemma rpc_inv_same: "same_calls w w' \<Longrightarrow> rpc_inv w' \<longleftrightarrow> rpc_inv w"
  by (simp add: same_calls_def rpc_inv_defs)

lemma same_calls_steps:
  "same_calls w (RouteMessage sid mid payload w)" "same_calls w (RPCResponse m mid payload w)"
  "same_calls w (ev_expire t w)"
  "same_calls w (CB_Event t (w\<lparr>dispatched := D\<rparr>))" "same_calls w (CB_ReceviedMsg p key w)"
  "same_calls w (w\<lparr>m_received_msgs := ms\<rparr>)" "same_calls w (w\<lparr>m_timeout_timers := ts\<rparr>)"
  by (auto simp: same_calls_def RouteMessage_def RPCResponse_def send_def CB_Event_def CB_ReceviedMsg_def ev_expire_def
      split: option.split)

lemma answered_Cons [simp]:
  "answered (Timeout s # l) s' \<longleftrightarrow> answered l s'"
  "answered (Handled m # l) s' \<longleftrightarrow> answered l s'"
  "answered (Unhandled m # l) s' \<longleftrightarrow> answered l s'"
  "answered (Success s m # l) s' \<longleftrightarrow> s' = s \<or> answered l s'"
  by (auto simp: answered_def)

lemma timer_unique:
  assumes "timers_inv w" "t \<in> m_timers w" "t' \<in> m_timers w" "fst (timers w ! t) = fst (timers w ! t')"
  shows "t = t'"
  using assms unfolding timers_inv_def by (metis option.inject)

lemma call_timer_inv:
  assumes "rpc_inv w"
  shows "rpc_inv (call_timer t w)"
proof (cases "t \<in> m_timers w")
  case False
  then show ?thesis using assms by (simp add: call_timer_def)
next
  case True
  let ?s = "fst (timers w ! t)"
  have tm: "timers_inv w" "log_inv w" and lt: "?s < length (slots w)"
    using assms True by (auto simp: rpc_inv_def timers_inv_def)
  have only: "fst (timers w ! t') \<noteq> ?s" if "t' \<in> m_timers w - {t}" for t'
    using that timer_unique [OF tm(1), of t' t] True by auto
  have loud: "\<not> silent w ?s" using True by (auto simp: silent_def)
  then have new: "\<not> answered (log w) ?s" "Timeout ?s \<notin> set (log w)"
    using tm(2) by (auto simp: log_inv_def)
  let ?w = "w\<lparr>m_timers := m_timers w - {t}\<rparr>"
  have quiet: "silent w s \<Longrightarrow> silent ?w s" for s by (auto simp: silent_def)
  have base: "rpc_inv ?w"
    using assms quiet by (auto simp: rpc_inv_def slots_inv_def timers_inv_def log_inv_def keys_inv_def)
  have "rpc_inv (w\<lparr>log := Timeout ?s # log w, m_timers := m_timers w - {t}\<rparr>)"
    using base new only lt by (auto simp: rpc_inv_defs)
  with base show ?thesis using True by (simp add: call_timer_def CB_Timeout_def Let_def)
qed

lemma fold_inv:
  "(\<And>x w. P w \<Longrightarrow> P (f x w)) \<Longrightarrow> P w \<Longrightarrow> P (fold f xs w)"
  by (induction xs arbitrary: w) simp_all

lemma timer_Tick_inv: "rpc_inv w \<Longrightarrow> rpc_inv (timer_Tick w)"
  unfolding timer_Tick_def by (rule fold_inv) (simp_all add: call_timer_inv rpc_inv_same [OF same_calls_steps(7)])

text \<open>The world after the answer to the call of slot \<open>s\<close>.\<close>

lemma RpcReceviedMsg_slot:
  assumes "m_slots w (m_key m) = Some s"
  shows "m_slots (RpcReceviedMsg m w) = (m_slots w)(m_key m := None)"
    "slots (RpcReceviedMsg m w) = slots w" "timers (RpcReceviedMsg m w) = timers w"
    "m_timers (RpcReceviedMsg m w) = m_timers w - set_option (m_timer_hdl (slots w ! s))"
    "log (RpcReceviedMsg m w) = (if success_cb (slots w ! s) then Success s m # log w else log w)"
    "calls (RpcReceviedMsg m w) = calls w" "m_key_sequence_id (RpcReceviedMsg m w) = m_key_sequence_id w"
    "service_id (RpcReceviedMsg m w) = service_id w" "sent (RpcReceviedMsg m w) = sent w"
    "m_received_msgs (RpcReceviedMsg m w) = m_received_msgs w"
  by (cases "m_timer_hdl (slots w ! s)";
      auto simp: assms RpcReceviedMsg_def CB_Success_def CancelTimer_def ev_CancelTimer_def Let_def)+

lemma RpcReceviedMsg_other:
  assumes "m_slots w (m_key m) = None"
  shows "RpcReceviedMsg m w
    = w\<lparr>log := (if m_msg_id m \<in> m_msg_cb_array w then Handled m else Unhandled m) # log w\<rparr>"
  using assms by (simp add: RpcReceviedMsg_def NormalReceviedMsg_def CallbackMsg_def)

lemma RpcReceviedMsg_inv:
  assumes "rpc_inv w"
  shows "rpc_inv (RpcReceviedMsg m w)"
proof (cases "m_slots w (m_key m)")
  case None
  then show ?thesis using assms by (simp add: RpcReceviedMsg_other rpc_inv_defs)
next
  case (Some s)
  note after = RpcReceviedMsg_slot [OF Some]
  have sl: "slots_inv w" and tm: "timers_inv w" and lg: "log_inv w" using assms by (simp_all add: rpc_inv_def)
  have lt: "s < length (slots w)" and ran: "s \<in> ran (m_slots w)"
    using sl Some by (auto simp: slots_inv_def ran_def)
  then have new: "\<not> answered (log w) s" using lg by (auto simp: log_inv_def)
  have "fst (timers w ! t) \<noteq> s" if "t \<in> m_timers w - set_option (m_timer_hdl (slots w ! s))" for t
    using that tm by (auto simp: timers_inv_def)
  then have sil: "silent (RpcReceviedMsg m w) s" by (simp add: silent_def after)
  have gone: "s \<notin> ran ((m_slots w)(m_key m := None))"
    using sl Some by (auto simp: slots_inv_def ran_def)
  have quiet: "silent w s' \<Longrightarrow> silent (RpcReceviedMsg m w) s'" for s'
    by (auto simp: silent_def after)
  have sub: "x \<in> ran ((m_slots w)(m_key m := None)) \<Longrightarrow> x \<in> ran (m_slots w)" for x
    by (auto simp: ran_def split: if_splits)
  have "slots_inv (RpcReceviedMsg m w)" using sl by (auto simp: slots_inv_def after)
  moreover have "timers_inv (RpcReceviedMsg m w)" using tm by (auto simp: timers_inv_def after)
  moreover have "keys_inv (RpcReceviedMsg m w)"
    using assms by (auto simp: rpc_inv_def keys_inv_def after)
  moreover have "log_inv (RpcReceviedMsg m w)"
  proof (cases "success_cb (slots w ! s)")
    case True
    then show ?thesis using lg new sil gone quiet sub lt unfolding log_inv_def
      by (auto simp: after)
  next
    case False
    then show ?thesis using lg quiet sub unfolding log_inv_def by (auto simp: after)
  qed
  ultimately show ?thesis by (simp add: rpc_inv_def)
qed

lemma rpc_Tick_inv: "rpc_inv w \<Longrightarrow> rpc_inv (rpc_Tick w)"
  unfolding rpc_Tick_def ProcessMsg_def
  by (rule fold_inv) (simp_all add: RpcReceviedMsg_inv rpc_inv_same [OF same_calls_steps(6)])

definition called :: "byte list \<Rightarrow> rpc_context option \<Rightarrow> world \<Rightarrow> world" where
  "called key ctx w = (case ctx of
       None \<Rightarrow> w
     | Some c \<Rightarrow> w\<lparr>slots := slots w @ [\<lparr>m_timer_hdl = (if m_timeout_cb c then Some (length (timers w)) else None),
             success_cb = m_success_cb c, timeout_cb = m_timeout_cb c\<rparr>],
           m_slots := (if m_slots w key = None then (m_slots w)(key \<mapsto> length (slots w)) else m_slots w),
           m_timers := (if m_timeout_cb c then insert (length (timers w)) (m_timers w) else m_timers w),
           timers := timers w @ (if m_timeout_cb c then [(length (slots w), m_timeout_duration c)] else []),
           armed := (if m_timeout_cb c then insert (length (timers w)) (armed w) else armed w)\<rparr>)"

lemma AppendRPCContext_called: "AppendRPCContext key ctx w = called key ctx w"
  by (cases ctx) (auto simp: AppendRPCContext_def called_def AddTimer_def ev_AddTimer_def Let_def)

lemma called_inv:
  assumes "slots_inv w" "timers_inv w" "log_inv w"
  shows "slots_inv (called key ctx w)" "timers_inv (called key ctx w)" "log_inv (called key ctx w)"
proof -
  show "slots_inv (called key ctx w)"
    using assms(1) by (cases ctx) (auto simp: called_def slots_inv_def split: if_splits; fastforce)+
  show "timers_inv (called key ctx w)"
    using assms(2) by (cases ctx) (auto simp: called_def timers_inv_def nth_append less_Suc_eq)
  have mono: "x \<in> ran (m_slots (called key ctx w)) \<Longrightarrow> x < length (slots w) \<Longrightarrow> x \<in> ran (m_slots w)" for x
    by (cases ctx) (auto simp: called_def ran_def split: if_splits)
  have quiet: "silent w x \<Longrightarrow> x < length (slots w) \<Longrightarrow> silent (called key ctx w) x" for x
    using assms(2) by (cases ctx) (auto simp: called_def silent_def nth_append timers_inv_def)
  have "log (called key ctx w) = log w" "length (slots w) \<le> length (slots (called key ctx w))"
    by (cases ctx; simp add: called_def)+
  then show "log_inv (called key ctx w)"
    using assms(3) mono quiet unfolding log_inv_def by (metis order_less_le_trans)
qed

lemma AsyncRPC_called:
  "snd (AsyncRPC sid mid payload ctx w) =
     (let key = rpc_key (service_id w) (unat (m_key_sequence_id w + 1))
      in called key ctx (w\<lparr>m_key_sequence_id := m_key_sequence_id w + 1, calls := Suc (calls w),
           sent := sent w @ [\<lparr>m_from_sid = service_id w, m_to_sid = sid, m_msg_id = mid,
             m_payload = payload, m_key = key\<rparr>]\<rparr>))"
  "fst (AsyncRPC sid mid payload ctx w) = rpc_key (service_id w) (unat (m_key_sequence_id w + 1))"
  by (simp_all add: AsyncRPC_def NextKey_def send_def AppendRPCContext_called Let_def)

lemma AsyncRPC_inv:
  assumes "rpc_inv w"
  shows "rpc_inv (snd (AsyncRPC sid mid payload ctx w))"
proof -
  let ?key = "rpc_key (service_id w) (unat (m_key_sequence_id w + 1))"
  let ?w = "w\<lparr>m_key_sequence_id := m_key_sequence_id w + 1, calls := Suc (calls w),
      sent := sent w @ [\<lparr>m_from_sid = service_id w, m_to_sid = sid, m_msg_id = mid,
        m_payload = payload, m_key = ?key\<rparr>]\<rparr>"
  have parts: "slots_inv ?w" "timers_inv ?w" "log_inv ?w"
    using assms by (simp_all add: rpc_inv_defs)
  have "keys_inv (called ?key ctx ?w)"
    unfolding keys_inv_def
  proof (intro impI conjI)
    have f: "calls (called ?key ctx ?w) = Suc (calls w)" "service_id (called ?key ctx ?w) = service_id w"
      "m_key_sequence_id (called ?key ctx ?w) = m_key_sequence_id w + 1"
      by (cases ctx; simp add: called_def)+
    assume "calls (called ?key ctx ?w) < 2 ^ 64"
    then have lt: "Suc (calls w) < 2 ^ 64" using f by simp
    then have old: "unat (m_key_sequence_id w) = calls w"
      "\<forall>k \<in> dom (m_slots w). \<exists>n. 1 \<le> n \<and> n \<le> calls w \<and> k = rpc_key (service_id w) n"
      using assms by (simp_all add: rpc_inv_def keys_inv_def)
    have "unat (m_key_sequence_id w + 1) = Suc (calls w)"
      using old(1) lt by (simp add: unat_word_ariths)
    then show "unat (m_key_sequence_id (called ?key ctx ?w)) = calls (called ?key ctx ?w)"
      and "\<forall>k \<in> dom (m_slots (called ?key ctx ?w)).
        \<exists>n. 1 \<le> n \<and> n \<le> calls (called ?key ctx ?w) \<and> k = rpc_key (service_id (called ?key ctx ?w)) n"
      using old(2) unfolding f
      by (auto simp: called_def split: option.splits if_splits intro: le_SucI)
  qed
  then show ?thesis
    using called_inv [OF parts, of ?key ctx] by (simp add: rpc_inv_def AsyncRPC_called Let_def)
qed

lemma rpc_step_inv: "rpc_step w w' \<Longrightarrow> rpc_inv w \<Longrightarrow> rpc_inv w'"
  by (induction rule: rpc_step.induct)
    (auto simp: AsyncRPC_inv timer_Tick_inv rpc_Tick_inv rpc_inv_same [OF same_calls_steps(1)]
      rpc_inv_same [OF same_calls_steps(2)] rpc_inv_same [OF same_calls_steps(3)]
      rpc_inv_same [OF same_calls_steps(4)] rpc_inv_same [OF same_calls_steps(5)])

lemma rpc_steps_inv: "rpc_step\<^sup>*\<^sup>* w w' \<Longrightarrow> rpc_inv w \<Longrightarrow> rpc_inv w'"
  by (induction rule: rtranclp_induct) (blast intro: rpc_step_inv)+

lemma rpc_reachable_inv: "rpc_reachable sid cbs w \<Longrightarrow> rpc_inv w"
  unfolding rpc_reachable_def using rpc_steps_inv rpc_inv_new by blast

section \<open>Callbacks\<close>

lemma log_ok_Success:
  "log_ok (ys @ Success s m # xs) \<Longrightarrow> \<not> answered ys s \<and> \<not> answered xs s \<and> Timeout s \<notin> set ys"
  by (induction ys rule: log_ok.induct) (auto simp: answered_def)

lemma log_ok_Timeout:
  "log_ok (ys @ Timeout s # xs) \<Longrightarrow> Timeout s \<notin> set ys \<and> Timeout s \<notin> set xs \<and> \<not> answered xs s"
  by (induction ys rule: log_ok.induct) auto

lemma fold_log:
  "(\<And>x w. \<exists>l. log (f x w) = l @ log w) \<Longrightarrow> \<exists>l. log (fold f xs w) = l @ log w"
proof (induction xs arbitrary: w)
  case (Cons x xs)
  from Cons.IH [OF Cons.prems, of "f x w"] Cons.prems [of x w] show ?case by fastforce
qed simp

lemma call_timer_log: "\<exists>l. log (call_timer t w) = l @ log w"
  by (auto simp: call_timer_def CB_Timeout_def Let_def)

lemma RpcReceviedMsg_log: "\<exists>l. log (RpcReceviedMsg m w) = l @ log w"
  by (cases "m_slots w (m_key m)") (simp_all add: RpcReceviedMsg_other RpcReceviedMsg_slot)

lemma rpc_step_log: "rpc_step w w' \<Longrightarrow> \<exists>l. log w' = l @ log w"
proof (induction rule: rpc_step.induct)
  case (call w sid mid payload ctx)
  then show ?case by (cases ctx) (simp_all add: AsyncRPC_called called_def Let_def)
next
  case (tick_timers w)
  show ?case using fold_log [of call_timer, OF call_timer_log, of "m_timeout_timers w" "w\<lparr>m_timeout_timers := []\<rparr>"]
    by (simp add: timer_Tick_def)
next
  case (tick_calls w)
  show ?case using fold_log [of RpcReceviedMsg, OF RpcReceviedMsg_log, of "m_received_msgs w" "w\<lparr>m_received_msgs := []\<rparr>"]
    by (simp add: rpc_Tick_def ProcessMsg_def)
qed (auto simp: RouteMessage_def RPCResponse_def send_def CB_Event_def CB_ReceviedMsg_def ev_expire_def split: option.split)

lemma rpc_steps_log: "rpc_step\<^sup>*\<^sup>* w w' \<Longrightarrow> \<exists>l. log w' = l @ log w"
proof (induction rule: rtranclp_induct)
  case (step y z)
  then obtain l l' where "log y = l @ log w" "log z = l' @ log y" using rpc_step_log by blast
  then show ?case by simp
qed simp

text \<open>
  C27.  In every run, whatever messages arrive and however timers, the consumer and the ticking
  thread interleave, a call's success callback runs at most once and its timeout callback at
  most once, and never the timeout after the success.
\<close>

theorem rpc_callbacks_at_most_once:
  assumes "rpc_reachable sid cbs w"
  shows "(\<forall>ys s m xs. log w = ys @ Success s m # xs \<longrightarrow>
            \<not> answered ys s \<and> \<not> answered xs s \<and> Timeout s \<notin> set ys)
       \<and> (\<forall>ys s xs. log w = ys @ Timeout s # xs \<longrightarrow>
            Timeout s \<notin> set ys \<and> Timeout s \<notin> set xs \<and> \<not> answered xs s)"
proof -
  have "log_ok (log w)" using rpc_reachable_inv [OF assms] by (simp add: rpc_inv_def log_inv_def)
  then show ?thesis using log_ok_Success log_ok_Timeout by metis
qed

text \<open>
   An answer is final.  A message that carries the key of an outstanding call runs its
  success callback with that message and forgets the call, and nothing that happens later, a
  second answer or a timer that had already expired, runs a callback of that call again.
\<close>

lemma rpc_answer_is_final:
  assumes "rpc_reachable sid cbs w" "m_slots w (m_key m) = Some s" "success_cb (slots w ! s)"
  shows "log (RpcReceviedMsg m w) = Success s m # log w
    \<and> m_slots (RpcReceviedMsg m w) (m_key m) = None
    \<and> (\<forall>w2. rpc_step\<^sup>*\<^sup>* (RpcReceviedMsg m w) w2 \<longrightarrow>
         (\<exists>l. log w2 = l @ Success s m # log w \<and> \<not> answered l s \<and> Timeout s \<notin> set l))"
proof (intro conjI allI impI)
  show first: "log (RpcReceviedMsg m w) = Success s m # log w"
    and "m_slots (RpcReceviedMsg m w) (m_key m) = None"
    using assms(3) by (simp_all add: RpcReceviedMsg_slot [OF assms(2)])
  fix w2 assume run: "rpc_step\<^sup>*\<^sup>* (RpcReceviedMsg m w) w2"
  then obtain l where l: "log w2 = l @ Success s m # log w" using rpc_steps_log first by metis
  have "rpc_inv w2"
    using rpc_steps_inv [OF run RpcReceviedMsg_inv [OF rpc_reachable_inv [OF assms(1)]]] .
  then have "log_ok (log w2)" by (simp add: rpc_inv_def log_inv_def)
  then show "\<exists>l. log w2 = l @ Success s m # log w \<and> \<not> answered l s \<and> Timeout s \<notin> set l"
    using l log_ok_Success by metis
qed

lemma call_timer_frame:
  "slots (call_timer t w) = slots w" "timers (call_timer t w) = timers w" "m_slots (call_timer t w) = m_slots w"
  "m_timers (call_timer t w) = m_timers w - {t}" "m_received_msgs (call_timer t w) = m_received_msgs w"
  by (auto simp: call_timer_def CB_Timeout_def Let_def)

lemma fold_call_timer_frame:
  "slots (fold call_timer ts w) = slots w" "m_slots (fold call_timer ts w) = m_slots w"
  "m_received_msgs (fold call_timer ts w) = m_received_msgs w"
  by (induction ts arbitrary: w) (simp_all add: call_timer_frame)

lemma fold_call_timer_fires:
  assumes "t \<in> set ts" "t \<in> m_timers w" "timeout_cb (slots w ! fst (timers w ! t))"
  shows "Timeout (fst (timers w ! t)) \<in> set (log (fold call_timer ts w))"
  using assms
proof (induction ts arbitrary: w)
  case (Cons x ts)
  show ?case
  proof (cases "x = t")
    case True
    have "Timeout (fst (timers w ! t)) \<in> set (log (call_timer x w))"
      using Cons.prems True by (simp add: call_timer_def CB_Timeout_def Let_def)
    moreover obtain l where "log (fold call_timer ts (call_timer x w)) = l @ log (call_timer x w)"
      using fold_log [of call_timer, OF call_timer_log] by blast
    ultimately show ?thesis by simp
  next
    case False
    then show ?thesis using Cons.IH [of "call_timer x w"] Cons.prems by (simp add: call_timer_frame)
  qed
qed simp

text \<open>
   A call that is not answered in time times out: once the deadline of its timer expires and
  the event thread reports it, the next tick runs its timeout callback, for the first time.
  But the call stays outstanding: an answer that comes later still runs its success callback,
  after the timeout.
\<close>

lemma rpc_timeout_fires:
  assumes "rpc_reachable sid cbs w" "t \<in> m_timers w" "t \<in> armed w" "s = fst (timers w ! t)"
    "w1 = timer_Tick (CB_Event t (w\<lparr>armed := armed w - {t}\<rparr>))"
  shows "Timeout s \<notin> set (log w) \<and> \<not> answered (log w) s \<and> Timeout s \<in> set (log w1)
    \<and> m_slots w1 = m_slots w
    \<and> (m_slots w (m_key m) = Some s \<longrightarrow> success_cb (slots w ! s) \<longrightarrow>
         log (RpcReceviedMsg m w1) = Success s m # log w1)"
proof -
  have inv: "timers_inv w" "log_inv w" using rpc_reachable_inv [OF assms(1)] by (simp_all add: rpc_inv_def)
  have "\<not> silent w s" using assms(2,4) by (auto simp: silent_def)
  then have new: "Timeout s \<notin> set (log w)" "\<not> answered (log w) s" using inv(2) by (auto simp: log_inv_def)
  have cb: "timeout_cb (slots w ! s)" using inv(1) assms(2,4) by (auto simp: timers_inv_def)
  let ?w = "CB_Event t (w\<lparr>armed := armed w - {t}\<rparr>)\<lparr>m_timeout_timers := []\<rparr>"
  have w1: "w1 = fold call_timer (m_timeout_timers w @ [t]) ?w"
    using assms(5) by (simp add: timer_Tick_def CB_Event_def)
  have "Timeout s \<in> set (log w1)"
    unfolding w1 assms(4) using fold_call_timer_fires [of t "m_timeout_timers w @ [t]" ?w] assms(2,4) cb
    by (simp add: CB_Event_def)
  moreover have "m_slots w1 = m_slots w" "slots w1 = slots w"
    unfolding w1 fold_call_timer_frame by (simp_all add: CB_Event_def)
  ultimately show ?thesis using new by (simp add: RpcReceviedMsg_slot)
qed

text \<open>A run for the witnesses: service \<open>a\<close> has called \<open>b\<close> with both callbacks.\<close>

definition sample_world :: world where
  "sample_world = snd (AsyncRPC [98] 5 [1] (Some \<lparr>m_success_cb = True, m_timeout_cb = True, m_timeout_duration = 100\<rparr>)
     (new_network [97] {7}))"

lemma sample_world_simps:
  "m_slots sample_world [97, 49] = Some 0" "m_timers sample_world = {0}" "armed sample_world = {0}"
  "timers sample_world = [(0, 100)]" "log sample_world = []" "m_received_msgs sample_world = []"
  "slots sample_world = [\<lparr>m_timer_hdl = Some 0, success_cb = True, timeout_cb = True\<rparr>]"
proof -
  have "rpc_key [97] 1 = [97, 49]" by code_simp
  then show "m_slots sample_world [97, 49] = Some 0" "m_timers sample_world = {0}" "armed sample_world = {0}"
    "timers sample_world = [(0, 100)]" "log sample_world = []" "m_received_msgs sample_world = []"
    "slots sample_world = [\<lparr>m_timer_hdl = Some 0, success_cb = True, timeout_cb = True\<rparr>]"
    by (simp_all add: sample_world_def AsyncRPC_called called_def new_network_def Let_def)
qed

lemma sample_world_reachable: "rpc_reachable [97] {7} sample_world"
  unfolding rpc_reachable_def sample_world_def by (rule r_into_rtranclp) (rule rpc_step.call)

definition expired_world :: world where
  "expired_world = timer_Tick (CB_Event 0 ((ev_expire 0 sample_world)\<lparr>dispatched := dispatched (ev_expire 0 sample_world) - {0}\<rparr>))"

lemma expired_world_log: "log expired_world = [Timeout 0]"
proof -
  have "m_timeout_timers sample_world = []"
    by (simp add: sample_world_def AsyncRPC_called called_def new_network_def Let_def)
  then show ?thesis
    by (simp add: expired_world_def ev_expire_def CB_Event_def timer_Tick_def call_timer_def CB_Timeout_def
        sample_world_simps Let_def)
qed

lemma expired_world_reachable: "rpc_reachable [97] {7} expired_world"
proof -
  have "rpc_step sample_world (ev_expire 0 sample_world)"
    by (rule rpc_step.expire) (simp add: sample_world_simps)
  moreover have "rpc_step (ev_expire 0 sample_world)
      (CB_Event 0 ((ev_expire 0 sample_world)\<lparr>dispatched := dispatched (ev_expire 0 sample_world) - {0}\<rparr>))"
    by (rule rpc_step.event) (simp add: ev_expire_def)
  moreover note rpc_step.tick_timers
  ultimately show ?thesis using sample_world_reachable
    unfolding rpc_reachable_def expired_world_def by (meson rtranclp.rtrancl_into_rtrancl)
qed

lemma rpc_callbacks_at_most_once_witness:
  "log expired_world = [Timeout 0] \<and>
     \<not> (\<exists>ys xs. log expired_world = ys @ Timeout 0 # xs \<and>
          (Timeout 0 \<in> set ys \<or> Timeout 0 \<in> set xs \<or> answered xs 0))"
  using rpc_callbacks_at_most_once [OF expired_world_reachable] expired_world_log by blast

lemma rpc_answer_is_final_witness:
  "log (RpcReceviedMsg \<lparr>m_from_sid = [98], m_to_sid = [97], m_msg_id = 6, m_payload = [2], m_key = [97, 49]\<rparr> sample_world)
   = [Success 0 \<lparr>m_from_sid = [98], m_to_sid = [97], m_msg_id = 6, m_payload = [2], m_key = [97, 49]\<rparr>]"
  using rpc_answer_is_final [OF sample_world_reachable, where s = 0
      and m = "\<lparr>m_from_sid = [98], m_to_sid = [97], m_msg_id = 6, m_payload = [2], m_key = [97, 49]\<rparr>"]
  by (simp add: sample_world_simps)

lemma rpc_timeout_fires_witness:
  "Timeout 0 \<in> set (log (timer_Tick (CB_Event 0 (sample_world\<lparr>armed := armed sample_world - {0}\<rparr>))))"
  using rpc_timeout_fires [OF sample_world_reachable _ _ refl refl, of 0] by (simp add: sample_world_simps)

section \<open>Keys\<close>

lemma rpc_key_inj: "rpc_key sid m = rpc_key sid n \<longleftrightarrow> m = n"
  by (simp add: rpc_key_def to_string_eq_iff)

lemma rpc_key_clash: "1 \<le> n \<Longrightarrow> d < 10 \<Longrightarrow> rpc_key (sid @ to_string n) d = rpc_key sid (10 * n + d)"
  by (simp add: rpc_key_def to_string_def ascii_def digits.simps [of "10 * n + d"] digits.simps [of d])

lemma rpc_keys_outstanding:
  assumes "rpc_reachable sid cbs w" "calls w + 1 < 2 ^ 64"
    "(key, w') = AsyncRPC to_sid mid payload (Some c) w"
  shows "key = rpc_key (service_id w) (calls w + 1)" "m_slots w key = None"
    "m_slots w' key = Some (length (slots w))" "success_cb (slots w' ! length (slots w)) = m_success_cb c"
proof -
  have inv: "keys_inv w" using rpc_reachable_inv [OF assms(1)] by (simp add: rpc_inv_def)
  then have seq: "unat (m_key_sequence_id w) = calls w"
    and old: "\<forall>k \<in> dom (m_slots w). \<exists>n. 1 \<le> n \<and> n \<le> calls w \<and> k = rpc_key (service_id w) n"
    using assms(2) by (simp_all add: keys_inv_def)
  have "unat (m_key_sequence_id w + 1) = calls w + 1"
    using seq assms(2) by (simp add: unat_word_ariths)
  then show key: "key = rpc_key (service_id w) (calls w + 1)"
    using assms(3) AsyncRPC_called(2) by (metis fst_conv)
  then show free: "m_slots w key = None"
    using old by (force simp: rpc_key_inj dom_def)
  have w': "w' = snd (AsyncRPC to_sid mid payload (Some c) w)" "key = fst (AsyncRPC to_sid mid payload (Some c) w)"
    using assms(3) by (metis snd_conv fst_conv)+
  show "m_slots w' key = Some (length (slots w))"
    "success_cb (slots w' ! length (slots w)) = m_success_cb c"
    using free w'(2) unfolding w'(1) by (simp_all add: AsyncRPC_called called_def Let_def)
qed

text \<open>
   The key of a call is new: for the first \<open>2^64 - 1\<close> calls no outstanding call of the service
  has it, it is not the key of routed messages, and the answer to the call finds its slot.  But
  keys are unique within one service only, since name and number are joined without a mark
  between them: the request number \<open>d\<close> of a service whose name is the name of another
  followed by \<open>n\<close> carries the key of that other service's call \<open>10 n + d\<close>, and is taken for its
  answer.
\<close>

lemma rpc_keys:
  assumes "rpc_reachable sid cbs w" "calls w + 1 < 2 ^ 64"
    "(key, w') = AsyncRPC to_sid mid payload (Some c) w"
  shows "m_slots w key = None \<and> key \<noteq> rpc_key (service_id w) 0
    \<and> m_slots w' key = Some (length (slots w)) \<and> success_cb (slots w' ! length (slots w)) = m_success_cb c
    \<and> (1 \<le> n \<longrightarrow> d < 10 \<longrightarrow> calls w + 1 = 10 * n + d \<longrightarrow> m_success_cb c \<longrightarrow>
         m_key req = rpc_key (service_id w @ to_string n) d \<longrightarrow>
         log (RpcReceviedMsg req w') = Success (length (slots w)) req # log w')"
proof -
  note out = rpc_keys_outstanding [OF assms]
  have "log (RpcReceviedMsg req w') = Success (length (slots w)) req # log w'"
    if "1 \<le> n" "d < 10" "calls w + 1 = 10 * n + d" "m_success_cb c"
      "m_key req = rpc_key (service_id w @ to_string n) d"
  proof -
    have "m_key req = key" using that out(1) rpc_key_clash by simp
    then show ?thesis using out that(4) by (simp add: RpcReceviedMsg_slot)
  qed
  then show ?thesis using out by (simp add: rpc_key_inj)
qed

lemma rpc_keys_witness:
  "m_slots sample_world (fst (AsyncRPC [98] 5 [] (Some new_RPCContext) sample_world)) = None"
proof -
  have "calls sample_world = 1"
    by (simp add: sample_world_def AsyncRPC_called called_def new_network_def Let_def)
  then show ?thesis
    using rpc_keys [OF sample_world_reachable _ prod.collapse, of "[98]" 5 "[]" new_RPCContext] by simp
qed

section \<open>A call and its answer\<close>

text \<open>What a service sends last arrives at the other in its wire form.\<close>

definition deliver :: "world \<Rightarrow> world \<Rightarrow> world" where
  "deliver w w' = (let m = last (sent w)
     in CB_ReceviedMsg (m_buffer (Encode (new_SendMsg m))) (Some (m_key m)) w')"

text \<open>
  C28.  A call and its answer, from end to end, between services with well-formed ids (not empty, without a NUL byte)
  and with nothing queued: the request a service makes arrives at the other
  exactly as it was made; the answer given to the received message travels back under the same
  key; and the next tick of the caller runs the success callback of that very call with the
  answer and forgets the call.
\<close>

theorem rpc_end_to_end:
  assumes "rpc_reachable (service_id a) cbs a" "calls a + 1 < 2 ^ 64" "m_received_msgs a = []"
    "m_timeout_timers a = []" "m_received_msgs b = []"
    "service_id a \<noteq> []" "0 \<notin> set (service_id a)" "service_id b \<noteq> []" "0 \<notin> set (service_id b)"
    "m_success_cb c" "(key, a1) = AsyncRPC (service_id b) mid payload (Some c) a"
    "b1 = deliver a1 b" "b2 = RPCResponse (hd (m_received_msgs b1)) mid' payload' b1"
    "a2 = network_Tick (deliver b2 a1)"
  shows "m_received_msgs b1 = [\<lparr>m_from_sid = service_id a, m_to_sid = service_id b, m_msg_id = mid,
          m_payload = payload, m_key = key\<rparr>]
    \<and> log a2 = Success (length (slots a)) \<lparr>m_from_sid = service_id b, m_to_sid = service_id a,
          m_msg_id = mid', m_payload = payload', m_key = key\<rparr> # log a
    \<and> m_slots a2 key = None"
proof -
  let ?req = "\<lparr>m_from_sid = service_id a, m_to_sid = service_id b, m_msg_id = mid, m_payload = payload, m_key = key\<rparr>"
  let ?ans = "\<lparr>m_from_sid = service_id b, m_to_sid = service_id a, m_msg_id = mid', m_payload = payload', m_key = key\<rparr>"
  note keys = rpc_keys_outstanding [OF assms(1,2,11)]
  have a1: "a1 = snd (AsyncRPC (service_id b) mid payload (Some c) a)"
    "key = fst (AsyncRPC (service_id b) mid payload (Some c) a)"
    using assms(11) by (metis snd_conv fst_conv)+
  have sent: "sent a1 = sent a @ [?req]" "log a1 = log a" "m_received_msgs a1 = []" "m_timeout_timers a1 = []"
    using a1(2) assms(3,4) unfolding a1(1) by (simp_all add: AsyncRPC_called called_def Let_def)
  have "key \<noteq> []" using a1(2) to_string_nonempty by (simp add: AsyncRPC_called rpc_key_def)
  then have ok: "routable ?req" "routable ?ans" using assms(6-9) by (simp_all add: routable_def Invalid_def)
  have b1: "b1 = b\<lparr>m_received_msgs := [?req]\<rparr>"
    using Decode_wire [OF ok(1)] Encode_wire [of ?req] ok(1) assms(5)
    by (simp add: assms(12) deliver_def sent CB_ReceviedMsg_def routable_def)
  have "sent b2 = sent b @ [?ans]" by (simp add: assms(13) b1 RPCResponse_def send_def)
  then have "deliver b2 a1 = a1\<lparr>m_received_msgs := [?ans]\<rparr>"
    using Decode_wire [OF ok(2)] Encode_wire [of ?ans] ok(2) sent(3)
    by (simp add: deliver_def CB_ReceviedMsg_def routable_def)
  then have a2: "a2 = RpcReceviedMsg ?ans (a1\<lparr>m_timeout_timers := [], m_received_msgs := []\<rparr>)"
    using sent by (simp add: assms(14) network_Tick_def timer_Tick_def rpc_Tick_def ProcessMsg_def)
  have "m_slots (a1\<lparr>m_timeout_timers := [], m_received_msgs := []\<rparr>) (m_key ?ans) = Some (length (slots a))"
    using keys by simp
  from RpcReceviedMsg_slot [OF this] show ?thesis
    using b1 a2 sent keys assms(10) by simp
qed

lemma rpc_end_to_end_witness:
  "\<exists>key. log (network_Tick (deliver (RPCResponse (hd (m_received_msgs (deliver sample_world (new_network [98] {}))))
        6 [2] (deliver sample_world (new_network [98] {}))) sample_world))
     = [Success 0 \<lparr>m_from_sid = [98], m_to_sid = [97], m_msg_id = 6, m_payload = [2], m_key = key\<rparr>]"
proof -
  let ?a = "new_network [97] {7}" and ?b = "new_network [98] {}"
  let ?c = "\<lparr>m_success_cb = True, m_timeout_cb = True, m_timeout_duration = 100\<rparr>"
  obtain key w where a1: "(key, w) = AsyncRPC (service_id ?b) 5 [1] (Some ?c) ?a" by (metis surj_pair)
  then have w: "w = sample_world" unfolding sample_world_def
    by (metis snd_conv new_network_def world.select_convs(1))
  have "rpc_reachable (service_id ?a) {7} ?a" by (simp add: rpc_reachable_def new_network_def)
  from rpc_end_to_end [OF this _ _ _ _ _ _ _ _ _ a1 refl refl refl, of 6 "[2]"]
  show ?thesis unfolding w by (auto simp: new_network_def)
qed

section \<open>Futures\<close>

text \<open>A launched call: its receiver, message and context.\<close>

type_synonym launched = "byte list \<times> 32 word \<times> byte list \<times> rpc_context option"

record rpc_future =
  m_launch :: bool
  m_ctx :: "rpc_context option"
  m_pkg :: "(byte list \<times> 32 word \<times> byte list) option"

definition MakeFuture :: rpc_future where
  "MakeFuture = \<lparr>m_launch = False, m_ctx = None, m_pkg = None\<rparr>"

definition GetCtx :: "rpc_future \<Rightarrow> rpc_context" where
  "GetCtx f = (case m_ctx f of None \<Rightarrow> new_RPCContext | Some c \<Rightarrow> c)"

definition fut_RPC :: "byte list \<Rightarrow> 32 word \<Rightarrow> byte list \<Rightarrow> rpc_future \<Rightarrow> rpc_future" where
  "fut_RPC sid msg_id payload f = f\<lparr>m_pkg := Some (sid, msg_id, payload)\<rparr>"

definition OnSuccess :: "rpc_future \<Rightarrow> rpc_future" where
  "OnSuccess f = f\<lparr>m_ctx := Some (SetSuccessCB (GetCtx f))\<rparr>"

definition OnTimeout :: "nat \<Rightarrow> rpc_future \<Rightarrow> rpc_future" where
  "OnTimeout d f = f\<lparr>m_ctx := Some (SetTimeoutCB d (GetCtx f))\<rparr>"

text \<open>The strings of the package and the context are moved out.\<close>

definition Launch :: "rpc_future \<Rightarrow> launched option \<times> rpc_future" where
  "Launch f =
     (if m_launch f then (None, f)
      else (case m_pkg f of
          None \<Rightarrow> (None, f)
        | Some (sid, msg_id, payload) \<Rightarrow>
            (Some (sid, msg_id, payload, m_ctx f),
             f\<lparr>m_launch := True, m_ctx := None, m_pkg := Some ([], msg_id, [])\<rparr>)))"

definition fut_destroy :: "rpc_future \<Rightarrow> launched option" where
  "fut_destroy f = fst (Launch f)"

text \<open>The new object and what is left of the old one: the package does not move.\<close>

definition fut_move :: "rpc_future \<Rightarrow> rpc_future \<times> rpc_future" where
  "fut_move rhs = (\<lparr>m_launch = m_launch rhs, m_ctx = m_ctx rhs, m_pkg = None\<rparr>, rhs\<lparr>m_ctx := None\<rparr>)"

definition fut_move_assign :: "rpc_future \<Rightarrow> rpc_future \<Rightarrow> rpc_future \<times> rpc_future" where
  "fut_move_assign this rhs =
     (this\<lparr>m_launch := m_launch rhs, m_ctx := m_ctx rhs\<rparr>, rhs\<lparr>m_launch := m_launch this, m_ctx := m_ctx this\<rparr>)"

datatype builder = B_RPC "byte list" "32 word" "byte list" | B_OnSuccess | B_OnTimeout nat

fun build :: "builder \<Rightarrow> rpc_future \<Rightarrow> rpc_future" where
  "build (B_RPC sid mid payload) f = fut_RPC sid mid payload f"
| "build B_OnSuccess f = OnSuccess f"
| "build (B_OnTimeout d) f = OnTimeout d f"

text \<open>What a chain of builder calls describes.\<close>

definition last_rpc :: "builder list \<Rightarrow> (byte list \<times> 32 word \<times> byte list) option" where
  "last_rpc bs = (let rs = concat (map (\<lambda>b. case b of B_RPC sid mid pl \<Rightarrow> [(sid, mid, pl)] | _ \<Rightarrow> []) bs)
     in if rs = [] then None else Some (last rs))"

definition wanted_context :: "builder list \<Rightarrow> rpc_context option" where
  "wanted_context bs =
     (let ds = concat (map (\<lambda>b. case b of B_OnTimeout d \<Rightarrow> [d] | _ \<Rightarrow> []) bs)
      in if B_OnSuccess \<notin> set bs \<and> ds = [] then None
         else Some \<lparr>m_success_cb = B_OnSuccess \<in> set bs, m_timeout_cb = ds \<noteq> [],
                m_timeout_duration = (if ds = [] then 0 else last ds)\<rparr>)"

lemma build_describes:
  "fold build bs MakeFuture = \<lparr>m_launch = False, m_ctx = wanted_context bs, m_pkg = last_rpc bs\<rparr>"
proof (induction bs rule: rev_induct)
  case Nil
  then show ?case by (simp add: MakeFuture_def wanted_context_def last_rpc_def)
next
  case (snoc b bs)
  then show ?case
    by (cases b) (auto simp: fut_RPC_def OnSuccess_def OnTimeout_def GetCtx_def SetSuccessCB_def
        SetTimeoutCB_def new_RPCContext_def wanted_context_def last_rpc_def Let_def)
qed

text \<open>
   A future makes its call once, at the first \<open>Launch\<close> or when it is destroyed, to the last
  receiver given and with exactly the callbacks that were set; without a receiver it makes
  none.  A future that is moved before that makes the call without its callbacks: the call
  stays behind in the old object while they go to the new one, which never calls.
\<close>

lemma future_launches_once:
  assumes "f = fold build bs MakeFuture" "(call, f1) = Launch f" "(g, old) = fut_move f"
  shows "call = map_option (\<lambda>(sid, mid, payload). (sid, mid, payload, wanted_context bs)) (last_rpc bs)
    \<and> fut_destroy f = call
    \<and> fst (Launch f1) = None \<and> fut_destroy f1 = None
    \<and> fut_destroy g = None
    \<and> fut_destroy old = map_option (\<lambda>(sid, mid, payload). (sid, mid, payload, None)) (last_rpc bs)"
  using assms(2,3) unfolding assms(1) build_describes
  by (cases "last_rpc bs") (auto simp: Launch_def fut_destroy_def fut_move_def)

lemma future_launches_once_witness:
  "fut_destroy (OnTimeout 50 (OnSuccess (fut_RPC [98] 5 [1] MakeFuture)))
   = Some ([98], 5, [1], Some \<lparr>m_success_cb = True, m_timeout_cb = True, m_timeout_duration = 50\<rparr>)"
  using future_launches_once [of _ "[B_RPC [98] 5 [1], B_OnSuccess, B_OnTimeout 50]", OF refl prod.collapse prod.collapse]
  by (simp add: wanted_context_def last_rpc_def)

end
