(* ===== verification/Redis_Buffers.thy ===== *)
theory Redis_Buffers
  imports Memory_Text
begin

text \<open>
  The data of the Redis client of \<open>rediscpp\<close>: buffers and arrays of buffers
  (\<open>Buffer.cpp\<close>), the replies of \<open>hiredis\<close>, and the translation of the reply of a script
  (\<open>Script.cpp\<close>).  Messages of exceptions that only name the command are left out.
\<close>

section \<open>Buffers\<close>

type_synonym buffer = "byte list"

definition new_Buffer :: buffer where "new_Buffer = []"

definition Buffer_str :: "byte list \<Rightarrow> buffer" where
  "Buffer_str str = (if str = [] then [] else str)"

text \<open>\<open>None\<close> is a read past the memory pointed to.\<close>

definition Buffer_mem :: "byte list \<Rightarrow> nat \<Rightarrow> buffer option" where
  "Buffer_mem p len = (if len = 0 then Some [] else if length p < len then None else Some (take len p))"

definition Buffer_cstr :: "byte list \<Rightarrow> buffer option" where
  "Buffer_cstr p = (case c_string p of None \<Rightarrow> None | Some s \<Rightarrow> Buffer_mem p (length s))"

definition Buffer_int :: "int \<Rightarrow> buffer" where
  "Buffer_int v = Buffer_str (int_text v)"

definition asString :: "buffer \<Rightarrow> byte list" where
  "asString b = (if b = [] then [] else b)"

text \<open>\<open>cvt\<close> is \<open>boost::convert\<close>, with zero for a text that is no number.\<close>

definition asIntDetail :: "(byte list \<Rightarrow> 'a :: len word) \<Rightarrow> buffer \<Rightarrow> 'a word" where
  "asIntDetail cvt b = (let s = asString b in if s = [] then 0 else cvt s)"

definition takeDataVector :: "buffer \<Rightarrow> byte list \<times> buffer" where
  "takeDataVector b = (b, [])"

definition clearBuffer :: "buffer \<Rightarrow> buffer" where
  "clearBuffer b = []"

definition append_mem :: "byte list \<Rightarrow> buffer \<Rightarrow> buffer" where
  "append_mem p b = fold (\<lambda>c d. d @ [c]) p b"

definition append_str :: "byte list \<Rightarrow> buffer \<Rightarrow> buffer" where
  "append_str s b = (if s \<noteq> [] then append_mem s b else b)"

lemma append_str_append: "append_str s b = b @ s"
proof -
  have "fold (\<lambda>c d. d @ [c]) s b = b @ s" by (induction s arbitrary: b) simp_all
  then show ?thesis by (simp add: append_str_def append_mem_def)
qed

section \<open>Replies\<close>

datatype reply =
    R_string "byte list" | R_array "reply list" | R_integer u64 | R_nil
  | R_status "byte list" | R_error "byte list" | R_other

datatype redis_error =
    ConnectionException | ReplyErrorException "byte list" | ReplyTypeException
  | ReplyTypeException_msg "byte list" | Exception | Fault

text \<open>The text of an error or a status is a C string.\<close>

definition cstr :: "byte list \<Rightarrow> byte list" where
  "cstr s = takeWhile (\<lambda>b. b \<noteq> 0) s"

section \<open>Arrays of buffers\<close>

datatype ba_TYPE = BUFFER | ARRAY

datatype buffer_array = BufferArray (ba_type: ba_TYPE) (ba_buffer: buffer) (ba_array: "buffer_array list")

definition initBuffer :: buffer_array where "initBuffer = BufferArray BUFFER [] []"
definition initArray :: buffer_array where "initArray = BufferArray ARRAY [] []"

definition isBuffer :: "buffer_array \<Rightarrow> bool" where "isBuffer a \<longleftrightarrow> ba_type a = BUFFER"
definition isArray :: "buffer_array \<Rightarrow> bool" where "isArray a \<longleftrightarrow> ba_type a = ARRAY"

definition checkType :: "ba_TYPE \<Rightarrow> buffer_array \<Rightarrow> redis_error + unit" where
  "checkType t a =
     (if ba_type a \<noteq> t then
        (if t = BUFFER then Inl (ReplyErrorException (ascii ''BufferArray is not BUFFER!''))
         else Inl (ReplyErrorException (ascii ''BufferArray is not ARRAY!'')))
      else Inr ())"

definition setBuffer :: "buffer \<Rightarrow> buffer_array \<Rightarrow> redis_error + buffer_array" where
  "setBuffer b a = res_bind (checkType BUFFER a) (\<lambda>_. Inr (BufferArray (ba_type a) b (ba_array a)))"

definition getBuffer :: "buffer_array \<Rightarrow> redis_error + buffer" where
  "getBuffer a = res_bind (checkType BUFFER a) (\<lambda>_. Inr (ba_buffer a))"

definition getBuffer_move :: "buffer_array \<Rightarrow> redis_error + buffer \<times> buffer_array" where
  "getBuffer_move a = res_bind (checkType BUFFER a)
     (\<lambda>_. Inr (ba_buffer a, BufferArray (ba_type a) [] (ba_array a)))"

definition push_back :: "buffer_array \<Rightarrow> buffer_array \<Rightarrow> redis_error + buffer_array" where
  "push_back x a = res_bind (checkType ARRAY a)
     (\<lambda>_. Inr (BufferArray (ba_type a) (ba_buffer a) (ba_array a @ [x])))"

definition push_back_buffer :: "buffer \<Rightarrow> buffer_array \<Rightarrow> redis_error + buffer_array" where
  "push_back_buffer b a = res_bind (checkType ARRAY a) (\<lambda>_.
     res_bind (setBuffer b initArray) (\<lambda>x. Inr (BufferArray (ba_type a) (ba_buffer a) (ba_array a @ [x]))))"

definition pop_back :: "buffer_array \<Rightarrow> redis_error + buffer_array \<times> buffer_array" where
  "pop_back a = res_bind (checkType ARRAY a) (\<lambda>_.
     if ba_array a = [] then Inl Fault
     else Inr (last (ba_array a), BufferArray (ba_type a) (ba_buffer a) (butlast (ba_array a))))"

definition ba_at :: "nat \<Rightarrow> buffer_array \<Rightarrow> redis_error + buffer_array" where
  "ba_at idx a = res_bind (checkType ARRAY a) (\<lambda>_.
     if idx < length (ba_array a) then Inr (ba_array a ! idx) else Inl Fault)"

definition ba_size :: "buffer_array \<Rightarrow> redis_error + nat" where
  "ba_size a = res_bind (checkType ARRAY a) (\<lambda>_. Inr (length (ba_array a)))"

definition ba_empty :: "buffer_array \<Rightarrow> redis_error + bool" where
  "ba_empty a = res_bind (checkType ARRAY a) (\<lambda>_. Inr (ba_array a = []))"

definition ba_range :: "buffer_array \<Rightarrow> redis_error + buffer_array list" where
  "ba_range a = res_bind (checkType ARRAY a) (\<lambda>_. Inr (ba_array a))"

section \<open>Results of scripts\<close>

fun luaToRedis :: "reply \<Rightarrow> redis_error + buffer_array"
  and lua_elements :: "reply list \<Rightarrow> buffer_array \<Rightarrow> redis_error + buffer_array" where
  "luaToRedis (R_string s) = setBuffer s initBuffer"
| "luaToRedis (R_array rs) = lua_elements rs initArray"
| "luaToRedis (R_integer i) = setBuffer (Buffer_int (sint i)) initBuffer"
| "luaToRedis R_nil = Inr initBuffer"
| "luaToRedis (R_status s) = setBuffer s initBuffer"
| "luaToRedis (R_error e) = Inl (ReplyErrorException (cstr e))"
| "luaToRedis R_other = Inr initBuffer"
| "lua_elements [] ret = Inr ret"
| "lua_elements (r # rs) ret = res_bind (luaToRedis r) (\<lambda>x. res_bind (push_back x ret) (lua_elements rs))"

section \<open>Types of arrays\<close>

fun well_typed :: "buffer_array \<Rightarrow> bool" where
  "well_typed (BufferArray BUFFER b as) \<longleftrightarrow> as = []"
| "well_typed (BufferArray ARRAY b as) \<longleftrightarrow> b = [] \<and> list_all well_typed as"

text \<open>The first error in a nested reply, in the order of its elements, and the image of a reply without one.\<close>

fun first_error :: "reply \<Rightarrow> byte list option"
  and first_errors :: "reply list \<Rightarrow> byte list option" where
  "first_error (R_error e) = Some e"
| "first_error (R_array rs) = first_errors rs"
| "first_error (R_string s) = None"
| "first_error (R_integer i) = None"
| "first_error R_nil = None"
| "first_error (R_status s) = None"
| "first_error R_other = None"
| "first_errors [] = None"
| "first_errors (r # rs) = (case first_error r of Some e \<Rightarrow> Some e | None \<Rightarrow> first_errors rs)"

fun image :: "reply \<Rightarrow> buffer_array" where
  "image (R_string s) = BufferArray BUFFER s []"
| "image (R_status s) = BufferArray BUFFER s []"
| "image (R_integer i) = BufferArray BUFFER (int_text (sint i)) []"
| "image (R_array rs) = BufferArray ARRAY [] (map image rs)"
| "image _ = BufferArray BUFFER [] []"

lemmas ba_defs = checkType_def setBuffer_def getBuffer_def getBuffer_move_def push_back_def
  push_back_buffer_def pop_back_def ba_at_def ba_size_def ba_empty_def ba_range_def initBuffer_def initArray_def

lemma lua_result:
  "luaToRedis r = (case first_error r of Some e \<Rightarrow> Inl (ReplyErrorException (cstr e)) | None \<Rightarrow> Inr (image r))"
  "ba_type ret = ARRAY \<longrightarrow> lua_elements rs ret = (case first_errors rs of
     Some e \<Rightarrow> Inl (ReplyErrorException (cstr e))
   | None \<Rightarrow> Inr (BufferArray ARRAY (ba_buffer ret) (ba_array ret @ map image rs)))"
proof (induction r and rs ret rule: luaToRedis_lua_elements.induct)
  case (8 ret)
  then show ?case by (cases ret) simp
qed (auto simp: ba_defs Buffer_int_def Buffer_str_def split: option.splits)

lemma image_well_typed: "well_typed (image r)"
  by (induction r rule: image.induct) (auto simp: list_all_iff)

end
