(* ===== verification/Redis_Commands.thy ===== *)
theory Redis_Commands
  imports Redis_Buffers
begin

text \<open>
  The commands of \<open>rediscpp\<close> on strings, hashes, lists, sets and sorted sets, the scripts and
  the helpers of \<open>Utile.cpp\<close>.  \<open>hiredis\<close> and the server behind it are one argument of
  every command: a function from what the code hands to \<open>redisCommand\<close> - the format and its
  arguments - or to \<open>redisCommandArgv\<close>, and its own state, to a reply, or none.
\<close>

section \<open>Calls and their checks\<close>

text \<open>An argument of the format: \<open>%b\<close> with a pointer and a length, \<open>%lld\<close>, \<open>%d\<close>, \<open>%s\<close>.\<close>

datatype arg = A_b "byte list" | A_lld u64 | A_d "32 word" | A_s "byte list"

datatype command = Format "byte list" "arg list" | Argv "byte list list"

type_synonym 'r server = "command \<Rightarrow> 'r \<Rightarrow> reply option \<times> 'r"

definition redisCommand ::
    "'r server \<Rightarrow> string \<Rightarrow> arg list \<Rightarrow> (reply option \<Rightarrow> redis_error + 'a) \<Rightarrow> 'r \<Rightarrow> (redis_error + 'a) \<times> 'r" where
  "redisCommand srv fmt args check r = (case srv (Format (ascii fmt) args) r of (rep, r') \<Rightarrow> (check rep, r'))"

text \<open>The tests that follow each command, by the reply it wants.\<close>

fun want_integer :: "reply option \<Rightarrow> redis_error + u64" where
  "want_integer None = Inl ConnectionException"
| "want_integer (Some (R_error e)) = Inl (ReplyErrorException (cstr e))"
| "want_integer (Some (R_integer i)) = Inr i"
| "want_integer (Some _) = Inl ReplyTypeException"

fun want_OK :: "reply option \<Rightarrow> redis_error + unit" where
  "want_OK None = Inl ConnectionException"
| "want_OK (Some (R_error e)) = Inl (ReplyErrorException (cstr e))"
| "want_OK (Some (R_status s)) = (if cstr s = ascii ''OK'' then Inr () else Inl ReplyTypeException)"
| "want_OK (Some _) = Inl ReplyTypeException"

fun want_string :: "reply option \<Rightarrow> redis_error + buffer" where
  "want_string None = Inl ConnectionException"
| "want_string (Some (R_error e)) = Inl (ReplyErrorException (cstr e))"
| "want_string (Some (R_string s)) = Inr s"
| "want_string (Some _) = Inl ReplyTypeException"

fun want_string_or_nil :: "reply option \<Rightarrow> redis_error + buffer" where
  "want_string_or_nil (Some R_nil) = Inr []"
| "want_string_or_nil rep = want_string rep"

text \<open>The elements of an array are taken as strings; another element has no bytes to copy.\<close>

fun replyToRedisBuffer :: "reply \<Rightarrow> redis_error + buffer" where
  "replyToRedisBuffer (R_string s) = Inr s"
| "replyToRedisBuffer (R_status s) = Inr s"
| "replyToRedisBuffer (R_error s) = Inr s"
| "replyToRedisBuffer R_nil = Inr []"
| "replyToRedisBuffer (R_integer i) = Inr []"
| "replyToRedisBuffer (R_array rs) = Inr []"
| "replyToRedisBuffer R_other = Inr []"

fun replyArrayToBuffer :: "reply list \<Rightarrow> redis_error + buffer list" where
  "replyArrayToBuffer [] = Inr []"
| "replyArrayToBuffer (r # rs) = res_bind (replyToRedisBuffer r) (\<lambda>b.
     res_bind (replyArrayToBuffer rs) (\<lambda>bs. Inr (b # bs)))"

fun pair_up :: "reply list \<Rightarrow> redis_error + (buffer \<times> buffer) list" where
  "pair_up [] = Inr []"
| "pair_up [r] = Inl Exception"
| "pair_up (r # s # rs) = res_bind (replyToRedisBuffer r) (\<lambda>k. res_bind (replyToRedisBuffer s) (\<lambda>v.
     res_bind (pair_up rs) (\<lambda>ps. Inr ((k, v) # ps))))"

definition replyArrayToPair :: "reply list \<Rightarrow> redis_error + (buffer \<times> buffer) list" where
  "replyArrayToPair rs = (if length rs mod 2 \<noteq> 0 then Inl Exception else pair_up rs)"

fun want_array :: "(reply list \<Rightarrow> redis_error + 'a) \<Rightarrow> reply option \<Rightarrow> redis_error + 'a" where
  "want_array f None = Inl ConnectionException"
| "want_array f (Some (R_error e)) = Inl (ReplyErrorException (cstr e))"
| "want_array f (Some (R_array rs)) = f rs"
| "want_array f (Some _) = Inl ReplyTypeException"

text \<open>With \<open>nil\<close> for an empty result.\<close>

fun want_array_or_nil :: "(reply list \<Rightarrow> redis_error + 'a list) \<Rightarrow> reply option \<Rightarrow> redis_error + 'a list" where
  "want_array_or_nil f (Some R_nil) = Inr []"
| "want_array_or_nil f rep = want_array f rep"

section \<open>Strings\<close>

definition SET :: "'r server \<Rightarrow> buffer \<Rightarrow> buffer \<Rightarrow> 'r \<Rightarrow> (redis_error + unit) \<times> 'r" where
  "SET srv key value = redisCommand srv ''SET %b %b'' [A_b key, A_b value] want_OK"

definition GET :: "'r server \<Rightarrow> buffer \<Rightarrow> 'r \<Rightarrow> (redis_error + buffer) \<times> 'r" where
  "GET srv key = redisCommand srv ''GET %b'' [A_b key] want_string_or_nil"

definition GETRANGE :: "'r server \<Rightarrow> buffer \<Rightarrow> u64 \<Rightarrow> u64 \<Rightarrow> 'r \<Rightarrow> (redis_error + unit) \<times> 'r" where
  "GETRANGE srv key start end' = redisCommand srv ''GETRANGE %b %lld %lld'' [A_b key, A_lld start, A_lld end'] want_OK"

definition GETSET :: "'r server \<Rightarrow> buffer \<Rightarrow> buffer \<Rightarrow> 'r \<Rightarrow> (redis_error + buffer) \<times> 'r" where
  "GETSET srv key value = redisCommand srv ''GETSET %b %b'' [A_b key, A_b value] want_string_or_nil"

definition SETEX :: "'r server \<Rightarrow> buffer \<Rightarrow> u64 \<Rightarrow> buffer \<Rightarrow> 'r \<Rightarrow> (redis_error + buffer) \<times> 'r" where
  "SETEX srv key timeout value = redisCommand srv ''SETEX %b %lld %b'' [A_b key, A_lld timeout, A_b value] want_string_or_nil"

definition SETNX :: "'r server \<Rightarrow> buffer \<Rightarrow> buffer \<Rightarrow> 'r \<Rightarrow> (redis_error + bool) \<times> 'r" where
  "SETNX srv key value = redisCommand srv ''SETNX %b %b'' [A_b key, A_b value] (\<lambda>rep. map_sum id (\<lambda>i. i = 1) (want_integer rep))"

definition SETRANGE :: "'r server \<Rightarrow> buffer \<Rightarrow> u64 \<Rightarrow> buffer \<Rightarrow> 'r \<Rightarrow> (redis_error + buffer) \<times> 'r" where
  "SETRANGE srv key offset value = redisCommand srv ''SETRANGE %b %lld %b'' [A_b key, A_lld offset, A_b value] want_string"

definition STRLEN :: "'r server \<Rightarrow> buffer \<Rightarrow> 'r \<Rightarrow> (redis_error + u64) \<times> 'r" where
  "STRLEN srv key = redisCommand srv ''STRLEN %b'' [A_b key] want_integer"

definition PSETEX :: "'r server \<Rightarrow> buffer \<Rightarrow> u64 \<Rightarrow> buffer \<Rightarrow> 'r \<Rightarrow> (redis_error + unit) \<times> 'r" where
  "PSETEX srv key timeout value = redisCommand srv ''PSETEX %b %lld %b'' [A_b key, A_lld timeout, A_b value] want_OK"

definition INCR :: "'r server \<Rightarrow> buffer \<Rightarrow> 'r \<Rightarrow> (redis_error + u64) \<times> 'r" where
  "INCR srv key = redisCommand srv ''INCR %b'' [A_b key] want_integer"

definition INCRBY :: "'r server \<Rightarrow> buffer \<Rightarrow> u64 \<Rightarrow> 'r \<Rightarrow> (redis_error + u64) \<times> 'r" where
  "INCRBY srv key increment = redisCommand srv ''INCRBY %b %lld'' [A_b key, A_lld increment] want_integer"

definition INCRBYFLOAT :: "'r server \<Rightarrow> buffer \<Rightarrow> buffer \<Rightarrow> 'r \<Rightarrow> (redis_error + buffer) \<times> 'r" where
  "INCRBYFLOAT srv key value = redisCommand srv ''INCRBYFLOAT %b %b'' [A_b key, A_b value] want_string"

section \<open>Hashes\<close>

definition HGETALL :: "'r server \<Rightarrow> buffer \<Rightarrow> 'r \<Rightarrow> (redis_error + (buffer \<times> buffer) list) \<times> 'r" where
  "HGETALL srv key = redisCommand srv ''HGETALL %b'' [A_b key] (want_array_or_nil replyArrayToPair)"

definition HINCRBY :: "'r server \<Rightarrow> buffer \<Rightarrow> buffer \<Rightarrow> u64 \<Rightarrow> 'r \<Rightarrow> (redis_error + u64) \<times> 'r" where
  "HINCRBY srv key mkey increment = redisCommand srv ''HINCRBY %b %b %lld'' [A_b key, A_b mkey, A_lld increment] want_integer"

definition HSET :: "'r server \<Rightarrow> buffer \<Rightarrow> buffer \<Rightarrow> buffer \<Rightarrow> 'r \<Rightarrow> (redis_error + u64) \<times> 'r" where
  "HSET srv key mkey value = redisCommand srv ''HSET %b %b %b'' [A_b key, A_b mkey, A_b value] want_integer"

definition HGET :: "'r server \<Rightarrow> buffer \<Rightarrow> buffer \<Rightarrow> 'r \<Rightarrow> (redis_error + buffer) \<times> 'r" where
  "HGET srv key mkey = redisCommand srv ''HGET %b %b'' [A_b key, A_b mkey] want_string_or_nil"

definition HDEL :: "'r server \<Rightarrow> buffer \<Rightarrow> buffer \<Rightarrow> 'r \<Rightarrow> (redis_error + u64) \<times> 'r" where
  "HDEL srv key mkey = redisCommand srv ''HDEL %b %b'' [A_b key, A_b mkey] want_integer"

definition HLEN :: "'r server \<Rightarrow> buffer \<Rightarrow> 'r \<Rightarrow> (redis_error + u64) \<times> 'r" where
  "HLEN srv key = redisCommand srv ''HLEN %b'' [A_b key] want_integer"

section \<open>Lists\<close>

definition LLEN :: "'r server \<Rightarrow> buffer \<Rightarrow> 'r \<Rightarrow> (redis_error + u64) \<times> 'r" where
  "LLEN srv key = redisCommand srv ''LLEN %b'' [A_b key] want_integer"

definition LPOP :: "'r server \<Rightarrow> buffer \<Rightarrow> 'r \<Rightarrow> (redis_error + buffer) \<times> 'r" where
  "LPOP srv key = redisCommand srv ''LPOP %b'' [A_b key] want_string_or_nil"

definition RPOP :: "'r server \<Rightarrow> buffer \<Rightarrow> 'r \<Rightarrow> (redis_error + buffer) \<times> 'r" where
  "RPOP srv key = redisCommand srv ''RPOP %b'' [A_b key] want_string_or_nil"

definition LRANGE :: "'r server \<Rightarrow> buffer \<Rightarrow> 32 word \<Rightarrow> 32 word \<Rightarrow> 'r \<Rightarrow> (redis_error + buffer list) \<times> 'r" where
  "LRANGE srv key start stop = redisCommand srv ''LRANGE %b %d %d'' [A_b key, A_d start, A_d stop]
     (want_array_or_nil replyArrayToBuffer)"

definition LPUSH :: "'r server \<Rightarrow> buffer \<Rightarrow> buffer \<Rightarrow> 'r \<Rightarrow> (redis_error + u64) \<times> 'r" where
  "LPUSH srv key val = redisCommand srv ''LPUSH %b %b'' [A_b key, A_b val] want_integer"

definition RPUSH :: "'r server \<Rightarrow> buffer \<Rightarrow> buffer \<Rightarrow> 'r \<Rightarrow> (redis_error + u64) \<times> 'r" where
  "RPUSH srv key val = redisCommand srv ''RPUSH %b %b'' [A_b key, A_b val] want_integer"

definition LTRIM :: "'r server \<Rightarrow> buffer \<Rightarrow> 32 word \<Rightarrow> 32 word \<Rightarrow> 'r \<Rightarrow> (redis_error + unit) \<times> 'r" where
  "LTRIM srv key start stop = redisCommand srv ''LTRIM %b %d %d'' [A_b key, A_d start, A_d stop] want_OK"

definition LINDEX :: "'r server \<Rightarrow> buffer \<Rightarrow> 32 word \<Rightarrow> 'r \<Rightarrow> (redis_error + buffer) \<times> 'r" where
  "LINDEX srv key index = redisCommand srv ''LINDEX %b %d'' [A_b key, A_d index] want_string_or_nil"

section \<open>Sets and sorted sets\<close>

definition SADD :: "'r server \<Rightarrow> buffer \<Rightarrow> buffer \<Rightarrow> 'r \<Rightarrow> (redis_error + u64) \<times> 'r" where
  "SADD srv key value = redisCommand srv ''SADD %b %b'' [A_b key, A_b value] want_integer"

definition SISMEMBER :: "'r server \<Rightarrow> buffer \<Rightarrow> buffer \<Rightarrow> 'r \<Rightarrow> (redis_error + bool) \<times> 'r" where
  "SISMEMBER srv key value = redisCommand srv ''SISMEMBER %b %b'' [A_b key, A_b value]
     (\<lambda>rep. map_sum id (\<lambda>i. i = 1) (want_integer rep))"

definition SCARD :: "'r server \<Rightarrow> buffer \<Rightarrow> 'r \<Rightarrow> (redis_error + u64) \<times> 'r" where
  "SCARD srv key = redisCommand srv ''SCARD %b'' [A_b key] want_integer"

definition SRANDMEMBER :: "'r server \<Rightarrow> buffer \<Rightarrow> 32 word \<Rightarrow> 'r \<Rightarrow> (redis_error + buffer list) \<times> 'r" where
  "SRANDMEMBER srv key len = redisCommand srv ''SRANDMEMBER %b %d'' [A_b key, A_d len]
     (want_array_or_nil replyArrayToBuffer)"

definition ZADD :: "'r server \<Rightarrow> buffer \<Rightarrow> u64 \<Rightarrow> buffer \<Rightarrow> 'r \<Rightarrow> (redis_error + u64) \<times> 'r" where
  "ZADD srv key score value = redisCommand srv ''ZADD %b %lld %b'' [A_b key, A_lld score, A_b value] want_integer"

text \<open>The error of the server becomes an exception of the wrong class here.\<close>

definition ZRANGE :: "'r server \<Rightarrow> buffer \<Rightarrow> 32 word \<Rightarrow> 32 word \<Rightarrow> 'r \<Rightarrow> (redis_error + buffer list) \<times> 'r" where
  "ZRANGE srv key start end' = redisCommand srv ''ZRANGE %b %d %d'' [A_b key, A_d start, A_d end']
     (\<lambda>rep. case rep of Some (R_error e) \<Rightarrow> Inl (ReplyTypeException_msg (cstr e))
        | _ \<Rightarrow> want_array_or_nil replyArrayToBuffer rep)"

definition ZRANGE_WITHSCORES ::
    "'r server \<Rightarrow> buffer \<Rightarrow> 32 word \<Rightarrow> 32 word \<Rightarrow> 'r \<Rightarrow> (redis_error + (buffer \<times> buffer) list) \<times> 'r" where
  "ZRANGE_WITHSCORES srv key start end' =
     redisCommand srv ''ZRANGE %b %d %d WITHSCORES'' [A_b key, A_d start, A_d end']
       (want_array_or_nil replyArrayToPair)"

definition ZREVRANGE :: "'r server \<Rightarrow> buffer \<Rightarrow> 32 word \<Rightarrow> 32 word \<Rightarrow> 'r \<Rightarrow> (redis_error + buffer list) \<times> 'r" where
  "ZREVRANGE srv key start end' = redisCommand srv ''ZREVRANGE %b %d %d'' [A_b key, A_d start, A_d end']
     (want_array_or_nil replyArrayToBuffer)"

definition ZREVRANGE_WITHSCORES ::
    "'r server \<Rightarrow> buffer \<Rightarrow> 32 word \<Rightarrow> 32 word \<Rightarrow> 'r \<Rightarrow> (redis_error + (buffer \<times> buffer) list) \<times> 'r" where
  "ZREVRANGE_WITHSCORES srv key start end' =
     redisCommand srv ''ZREVRANGE %b %d %d WITHSCORES'' [A_b key, A_d start, A_d end']
       (want_array_or_nil replyArrayToPair)"

text \<open>\<open>strtoll\<close>: white space, a sign, digits; the value stops at the ends of the type.\<close>

definition is_space :: "byte \<Rightarrow> bool" where
  "is_space b \<longleftrightarrow> b = 32 \<or> 9 \<le> b \<and> b \<le> 13"

definition byte_digits :: "byte list \<Rightarrow> nat" where
  "byte_digits s = foldl (\<lambda>a b. 10 * a + unat (b - 48)) 0 (takeWhile (\<lambda>b. 48 \<le> b \<and> b \<le> 57) s)"

definition replyToStringInt64 :: "byte list \<Rightarrow> u64" where
  "replyToStringInt64 p =
     (let s = dropWhile is_space (cstr p);
          v = (case s of
                 b # t \<Rightarrow> if b = 45 then - int (byte_digits t) else if b = 43 then int (byte_digits t)
                          else int (byte_digits s)
               | [] \<Rightarrow> 0)
      in of_int (max (- (2 ^ 63)) (min (2 ^ 63 - 1) v)))"

definition ZINCRBY :: "'r server \<Rightarrow> buffer \<Rightarrow> u64 \<Rightarrow> buffer \<Rightarrow> 'r \<Rightarrow> (redis_error + u64) \<times> 'r" where
  "ZINCRBY srv key increment value = redisCommand srv ''ZINCRBY %b %lld %b'' [A_b key, A_lld increment, A_b value]
     (\<lambda>rep. map_sum id replyToStringInt64 (want_string rep))"

section \<open>Keys\<close>

text \<open>The text of \<open>DEL\<close> with its keys is handed to \<open>redisCommand\<close> as the format, up to its first NUL.\<close>

definition DEL_command :: "buffer list \<Rightarrow> byte list" where
  "DEL_command keys = ascii ''DEL '' @ concat (map (\<lambda>k. 32 # asString k) keys)"

definition DEL :: "'r server \<Rightarrow> buffer list \<Rightarrow> 'r \<Rightarrow> (redis_error + u64) \<times> 'r" where
  "DEL srv keys r =
     (if keys = [] then (Inr 0, r)
      else (case srv (Format (cstr (DEL_command keys)) []) r of (rep, r') \<Rightarrow> (want_integer rep, r')))"

definition DEL_buffer :: "'r server \<Rightarrow> buffer \<Rightarrow> 'r \<Rightarrow> (redis_error + u64) \<times> 'r" where
  "DEL_buffer srv key = DEL srv [key]"

definition DEL_strings :: "'r server \<Rightarrow> byte list list \<Rightarrow> 'r \<Rightarrow> (redis_error + u64) \<times> 'r" where
  "DEL_strings srv keys = DEL srv (map Buffer_str keys)"

definition DEL_string :: "'r server \<Rightarrow> byte list \<Rightarrow> 'r \<Rightarrow> (redis_error + u64) \<times> 'r" where
  "DEL_string srv key = DEL_strings srv [key]"

definition KEYS :: "'r server \<Rightarrow> buffer \<Rightarrow> 'r \<Rightarrow> (redis_error + buffer list) \<times> 'r" where
  "KEYS srv key = redisCommand srv ''KEYS %b'' [A_b key] (want_array replyArrayToBuffer)"

fun want_status :: "reply option \<Rightarrow> redis_error + byte list" where
  "want_status None = Inl ConnectionException"
| "want_status (Some (R_error e)) = Inl (ReplyErrorException (cstr e))"
| "want_status (Some (R_status s)) = Inr (cstr s)"
| "want_status (Some _) = Inl ReplyTypeException"

definition PING :: "'r server \<Rightarrow> 'r \<Rightarrow> (redis_error + byte list) \<times> 'r" where
  "PING srv = redisCommand srv ''PING'' [] want_status"

definition PING_str :: "'r server \<Rightarrow> byte list \<Rightarrow> 'r \<Rightarrow> (redis_error + byte list) \<times> 'r" where
  "PING_str srv str = redisCommand srv ''PING %s'' [A_s (cstr str)] (\<lambda>rep. map_sum id cstr (want_string rep))"

section \<open>Scripts\<close>

definition eval_argv :: "byte list \<Rightarrow> buffer \<Rightarrow> buffer list \<Rightarrow> buffer list \<Rightarrow> byte list list" where
  "eval_argv eval_cmd cmd keys values = [eval_cmd, cmd, to_string (length keys)] @ keys @ values"

definition evalInternal ::
    "'r server \<Rightarrow> byte list \<Rightarrow> buffer \<Rightarrow> buffer list \<Rightarrow> buffer list \<Rightarrow> 'r \<Rightarrow> (redis_error + buffer_array) \<times> 'r" where
  "evalInternal srv eval_cmd cmd keys values r =
     (case srv (Argv (eval_argv eval_cmd cmd keys values)) r of (rep, r') \<Rightarrow>
        ((case rep of
            None \<Rightarrow> Inl ConnectionException
          | Some (R_error e) \<Rightarrow> Inl (ReplyErrorException (cstr e))
          | Some rp \<Rightarrow> luaToRedis rp), r'))"

definition LOAD :: "'r server \<Rightarrow> buffer \<Rightarrow> 'r \<Rightarrow> (redis_error + buffer) \<times> 'r" where
  "LOAD srv cmd = redisCommand srv ''SCRIPT LOAD %b'' [A_b cmd] want_string"

definition EVAL :: "'r server \<Rightarrow> buffer \<Rightarrow> buffer list \<Rightarrow> buffer list \<Rightarrow> 'r \<Rightarrow> (redis_error + buffer_array) \<times> 'r" where
  "EVAL srv cmd keys values = evalInternal srv (ascii ''EVAL'') cmd keys values"

definition EVALSHA :: "'r server \<Rightarrow> buffer \<Rightarrow> buffer list \<Rightarrow> buffer list \<Rightarrow> 'r \<Rightarrow> (redis_error + buffer_array) \<times> 'r" where
  "EVALSHA srv cmd keys values = evalInternal srv (ascii ''EVALSHA'') cmd keys values"


section \<open>A store behind the client\<close>

text \<open>The words of a text at its blanks.\<close>

fun blank_words :: "byte list \<Rightarrow> byte list \<Rightarrow> byte list list" where
  "blank_words [] word = (if word = [] then [] else [word])"
| "blank_words (c # cs) word =
     (if c = 32 then (if word = [] then blank_words cs [] else word # blank_words cs [])
      else blank_words cs (word @ [c]))"

text \<open>
  What the client relies on, as \<open>hiredis\<close> and the server document it: \<open>%b\<close> is one word whatever
  its bytes; a format without directives is split at its blanks; and the server keeps a map, seen
  by \<open>view\<close>.
\<close>

definition key_value_server :: "'r server \<Rightarrow> ('r \<Rightarrow> byte list \<rightharpoonup> byte list) \<Rightarrow> bool" where
  "key_value_server srv view \<longleftrightarrow>
     (\<forall>k v r. \<exists>r'. srv (Format (ascii ''SET %b %b'') [A_b k, A_b v]) r = (Some (R_status (ascii ''OK'')), r')
        \<and> view r' = (view r)(k \<mapsto> v)) \<and>
     (\<forall>k r. \<exists>r'. srv (Format (ascii ''GET %b'') [A_b k]) r =
          (Some (case view r k of None \<Rightarrow> R_nil | Some v \<Rightarrow> R_string v), r') \<and> view r' = view r) \<and>
     (\<forall>t ks r. 37 \<notin> set t \<longrightarrow> blank_words t [] = ascii ''DEL'' # ks \<longrightarrow> ks \<noteq> [] \<longrightarrow>
        (\<exists>r'. srv (Format t []) r = (Some (R_integer (of_nat (card (set ks \<inter> dom (view r))))), r')
          \<and> view r' = (view r) |` (- set ks)))"

text \<open>A key that survives the format.\<close>

definition plain_key :: "byte list \<Rightarrow> bool" where
  "plain_key k \<longleftrightarrow> k \<noteq> [] \<and> 0 \<notin> set k \<and> 32 \<notin> set k \<and> 37 \<notin> set k"

lemma blank_words_word:
  "32 \<notin> set k \<Longrightarrow> blank_words (k @ t) w = blank_words t (w @ k)"
  by (induction k arbitrary: w) auto

lemma blank_words_keys:
  assumes "list_all plain_key ks"
  shows "blank_words (concat (map (\<lambda>k. 32 # asString k) ks)) w = (if w = [] then ks else w # ks)"
  using assms
proof (induction ks arbitrary: w)
  case (Cons k ks)
  then have "blank_words (concat (map (\<lambda>k. 32 # asString k) ks)) k = k # ks"
    by (simp add: plain_key_def)
  with Cons.prems show ?case by (simp add: plain_key_def asString_def blank_words_word)
qed simp

lemma DEL_text_clean:
  assumes "list_all (\<lambda>k. 0 \<notin> set k) ks"
  shows "cstr (DEL_command ks) = DEL_command ks"
  using assms by (auto simp: cstr_def takeWhile_eq_all_conv DEL_command_def ascii_def asString_def list_all_iff
      split: if_splits)

lemma DEL_words:
  "blank_words (DEL_command ks) [] = ascii ''DEL'' # blank_words (concat (map (\<lambda>k. 32 # asString k) ks)) []"
  by (simp add: DEL_command_def ascii_def)

lemma DEL_no_directive:
  assumes "list_all (\<lambda>k. 37 \<notin> set k) ks"
  shows "37 \<notin> set (DEL_command ks)"
  using assms by (auto simp: DEL_command_def ascii_def asString_def list_all_iff split: if_splits)

lemma DEL_removes:
  assumes srv: "key_value_server srv view"
    and keys: "ks \<noteq> []" "list_all (\<lambda>k. 0 \<notin> set k \<and> 37 \<notin> set k) ks"
    and words: "blank_words (concat (map (\<lambda>k. 32 # asString k) ks)) [] = ws" "ws \<noteq> []"
  shows "\<exists>r'. DEL srv ks r = (Inr (of_nat (card (set ws \<inter> dom (view r)))), r') \<and> view r' = (view r) |` (- set ws)"
proof -
  have "37 \<notin> set (DEL_command ks)" "cstr (DEL_command ks) = DEL_command ks"
    using keys(2) by (simp_all add: DEL_no_directive DEL_text_clean list_all_iff)
  moreover have "blank_words (DEL_command ks) [] = ascii ''DEL'' # ws"
    using words(1) by (simp add: DEL_words)
  ultimately obtain r' where
    "srv (Format (DEL_command ks) []) r = (Some (R_integer (of_nat (card (set ws \<inter> dom (view r))))), r')"
    "view r' = (view r) |` (- set ws)"
    using srv words(2) unfolding key_value_server_def by blast
  with keys(1) \<open>cstr (DEL_command ks) = DEL_command ks\<close> show ?thesis by (simp add: DEL_def)
qed

text \<open>
  C29. Behind a documented server the client is a map: \<open>SET\<close> stores under exactly its key, whatever
  the bytes of key and value, \<open>GET\<close> reads the value, or an empty buffer for an absent key, and
  \<open>DEL\<close> counts and removes exactly its keys when each is plain.  A key with a blank in it
  is not removed: the keys on both sides of the blank are.
\<close>

theorem redis_store:
  assumes srv: "key_value_server srv view"
  shows "(\<exists>r'. SET srv k v r = (Inr (), r') \<and> view r' = (view r)(k \<mapsto> v)) \<and>
    (\<exists>r'. GET srv k r = (Inr (case view r k of None \<Rightarrow> [] | Some w \<Rightarrow> w), r') \<and> view r' = view r) \<and>
    (list_all plain_key ks \<longrightarrow>
       (\<exists>r'. DEL srv ks r = (Inr (of_nat (card (set ks \<inter> dom (view r)))), r') \<and>
          view r' = (view r) |` (- set ks))) \<and>
    (plain_key a \<longrightarrow> plain_key b \<longrightarrow>
       (\<exists>r'. DEL_buffer srv (a @ 32 # b) r = (Inr (of_nat (card ({a, b} \<inter> dom (view r)))), r') \<and>
          view r' = (view r) |` (- {a, b}) \<and> view r' (a @ 32 # b) = view r (a @ 32 # b)))"
proof (intro conjI impI)
  obtain r' where "srv (Format (ascii ''SET %b %b'') [A_b k, A_b v]) r = (Some (R_status (ascii ''OK'')), r')"
    "view r' = (view r)(k \<mapsto> v)" using srv unfolding key_value_server_def by blast
  then show "\<exists>r'. SET srv k v r = (Inr (), r') \<and> view r' = (view r)(k \<mapsto> v)"
    by (simp add: SET_def redisCommand_def cstr_def ascii_def)
next
  obtain r' where "srv (Format (ascii ''GET %b'') [A_b k]) r =
      (Some (case view r k of None \<Rightarrow> R_nil | Some v \<Rightarrow> R_string v), r')" "view r' = view r"
    using srv unfolding key_value_server_def by blast
  then show "\<exists>r'. GET srv k r = (Inr (case view r k of None \<Rightarrow> [] | Some w \<Rightarrow> w), r') \<and> view r' = view r"
    by (cases "view r k") (simp_all add: GET_def redisCommand_def)
next
  assume ks: "list_all plain_key ks"
  show "\<exists>r'. DEL srv ks r = (Inr (of_nat (card (set ks \<inter> dom (view r)))), r') \<and>
      view r' = (view r) |` (- set ks)"
  proof (cases "ks = []")
    case False
    have "list_all (\<lambda>k. 0 \<notin> set k \<and> 37 \<notin> set k) ks" using ks by (auto simp: list_all_iff plain_key_def)
    with DEL_removes [OF srv False] blank_words_keys [OF ks, of "[]"] False show ?thesis by auto
  qed (auto simp: DEL_def restrict_map_def)
next
  assume ab: "plain_key a" "plain_key b"
  have "blank_words (concat (map (\<lambda>k. 32 # asString k) [a @ 32 # b])) [] = [a, b]"
    using ab blank_words_word [of b "[]" "[]"] by (simp add: plain_key_def asString_def blank_words_word)
  then have "\<exists>r'. DEL srv [a @ 32 # b] r = (Inr (of_nat (card (set [a, b] \<inter> dom (view r)))), r') \<and>
      view r' = (view r) |` (- set [a, b])"
    using ab by (intro DEL_removes [OF srv]) (simp_all add: plain_key_def)
  moreover have "a @ 32 # b \<noteq> a" "a @ 32 # b \<noteq> b" by (auto dest: arg_cong [where f = length])
  ultimately show "\<exists>r'. DEL_buffer srv (a @ 32 # b) r = (Inr (of_nat (card ({a, b} \<inter> dom (view r)))), r') \<and>
      view r' = (view r) |` (- {a, b}) \<and> view r' (a @ 32 # b) = view r (a @ 32 # b)"
    by (auto simp: DEL_buffer_def restrict_map_def)
qed

text \<open>A server that keeps the map itself.\<close>

definition map_server :: "(byte list \<rightharpoonup> byte list) server" where
  "map_server c m =
     (case c of
        Format f as \<Rightarrow>
          if f = ascii ''SET %b %b'' then
            (case as of [A_b k, A_b v] \<Rightarrow> (Some (R_status (ascii ''OK'')), m(k \<mapsto> v)) | _ \<Rightarrow> (None, m))
          else if f = ascii ''GET %b'' then
            (case as of [A_b k] \<Rightarrow> (Some (case m k of None \<Rightarrow> R_nil | Some v \<Rightarrow> R_string v), m) | _ \<Rightarrow> (None, m))
          else (case blank_words f [] of
              d # ks \<Rightarrow>
                if d = ascii ''DEL'' then
                  (Some (R_integer (of_nat (length (filter (\<lambda>k. m k \<noteq> None) (remdups ks))))),
                   \<lambda>k. if k \<in> set ks then None else m k)
                else (None, m)
            | [] \<Rightarrow> (None, m))
      | Argv ws \<Rightarrow> (None, m))"

lemma map_server_documented: "key_value_server map_server (\<lambda>m. m)"
proof -
  have card: "length (filter (\<lambda>k. m k \<noteq> None) (remdups ks)) = card (set ks \<inter> dom m)"
    for m :: "byte list \<rightharpoonup> byte list" and ks
  proof -
    have "set ks \<inter> dom m = set (filter (\<lambda>k. m k \<noteq> None) (remdups ks))" by auto
    then show ?thesis by (metis distinct_card distinct_filter distinct_remdups)
  qed
  have pct: "37 \<in> set (ascii ''SET %b %b'')" "37 \<in> set (ascii ''GET %b'')" by (simp_all add: ascii_def)
  have ne: "ascii ''GET %b'' \<noteq> ascii ''SET %b %b''" by (simp add: ascii_eq_iff)
  have "map_server (Format t []) m =
      (Some (R_integer (of_nat (card (set ks \<inter> dom m)))), m |` (- set ks))"
    if "37 \<notin> set t" "blank_words t [] = ascii ''DEL'' # ks" for t ks m
  proof -
    have "(\<lambda>k. if k \<in> set ks then None else m k) = m |` (- set ks)" by (auto simp: restrict_map_def)
    moreover have "t \<noteq> ascii ''SET %b %b''" "t \<noteq> ascii ''GET %b''" using that(1) pct by metis+
    ultimately show ?thesis using that(2) by (simp add: map_server_def card [symmetric])
  qed
  with ne show ?thesis unfolding key_value_server_def by (simp add: map_server_def)
qed

lemma redis_store_witness:
  "\<exists>r'. DEL_buffer map_server (ascii ''a b'') [ascii ''a'' \<mapsto> [1], ascii ''a b'' \<mapsto> [2]] = (Inr 1, r') \<and>
     r' (ascii ''a'') = None \<and> r' (ascii ''a b'') = Some [2]"
proof -
  have ab: "plain_key (ascii ''a'')" "plain_key (ascii ''b'')" by (simp_all add: plain_key_def ascii_def)
  have eq: "ascii ''a'' @ 32 # ascii ''b'' = ascii ''a b''" by (simp add: ascii_def)
  have "{ascii ''a'', ascii ''b''} \<inter> dom [ascii ''a'' \<mapsto> [1 :: byte], ascii ''a b'' \<mapsto> [2]] = {ascii ''a''}"
    by (auto simp: ascii_eq_iff)
  then have "card ({ascii ''a'', ascii ''b''} \<inter> dom [ascii ''a'' \<mapsto> [1 :: byte], ascii ''a b'' \<mapsto> [2]]) = 1"
    by (simp only: is_singletonI [THEN is_singleton_altdef [THEN iffD1]])
  with redis_store [OF map_server_documented, THEN conjunct2, THEN conjunct2, THEN conjunct2, rule_format, OF ab,
      where r = "[ascii ''a'' \<mapsto> [1], ascii ''a b'' \<mapsto> [2]]"]
  show ?thesis by (simp add: eq ascii_eq_iff)
qed

section \<open>Types of the results of scripts\<close>

text \<open>
  C30. Arrays of buffers keep their type.  What a script returns is the image of the reply, buffers
  for its leaves and arrays for its arrays, or the exception for the first error anywhere in
  it; every result is well typed.  On a well-typed array \<open>setBuffer\<close>, \<open>push_back\<close> and
  \<open>pop_back\<close> preserve that and succeed exactly on the type they are for, and
  \<open>pop_back\<close> undoes \<open>push_back\<close>; \<open>push_back\<close> of a plain buffer always throws.
\<close>

theorem buffer_array_types:
  assumes "well_typed a" "well_typed x"
  shows "(fst (evalInternal srv c cmd keys values r) =
      (case fst (srv (Argv (eval_argv c cmd keys values)) r) of
         None \<Rightarrow> Inl ConnectionException
       | Some rp \<Rightarrow> (case first_error rp of
           Some e \<Rightarrow> Inl (ReplyErrorException (cstr e)) | None \<Rightarrow> Inr (image rp)))) \<and>
    (\<forall>y. fst (evalInternal srv c cmd keys values r) = Inr y \<longrightarrow> well_typed y) \<and>
    (isBuffer a \<longrightarrow> (\<forall>b. \<exists>a'. setBuffer b a = Inr a' \<and> well_typed a' \<and> getBuffer a' = Inr b) \<and>
       \<not> is_value (push_back x a) \<and> \<not> is_value (pop_back a) \<and> \<not> is_value (ba_size a)) \<and>
    (isArray a \<longrightarrow> (\<exists>a' n. push_back x a = Inr a' \<and> well_typed a' \<and> pop_back a' = Inr (x, a) \<and>
       ba_size a = Inr n \<and> ba_size a' = Inr (Suc n) \<and> ba_at n a' = Inr x) \<and>
       \<not> is_value (setBuffer b a) \<and> \<not> is_value (getBuffer a)) \<and>
    (\<forall>y a'. pop_back a = Inr (y, a') \<longrightarrow> well_typed y \<and> well_typed a' \<and> push_back y a' = Inr a) \<and>
    \<not> is_value (push_back_buffer b a)"
proof -
  have eval: "fst (evalInternal srv c cmd keys values r) =
      (case fst (srv (Argv (eval_argv c cmd keys values)) r) of
         None \<Rightarrow> Inl ConnectionException
       | Some rp \<Rightarrow> (case first_error rp of
           Some e \<Rightarrow> Inl (ReplyErrorException (cstr e)) | None \<Rightarrow> Inr (image rp)))"
    by (auto simp: evalInternal_def lua_result split: option.splits prod.splits reply.splits)
  moreover have "well_typed y" if "fst (evalInternal srv c cmd keys values r) = Inr y" for y
    using that image_well_typed unfolding eval by (auto split: option.splits)
  moreover obtain t d as where a: "a = BufferArray t d as" by (cases a)
  ultimately show ?thesis using assms
    by (cases t; cases as rule: rev_cases)
      (auto simp: ba_defs isBuffer_def isArray_def nth_append is_value_iff butlast_append)
qed

lemma buffer_array_types_witness:
  "\<not> is_value (push_back_buffer [7] (BufferArray ARRAY [] [])) \<and>
   (\<exists>a'. push_back (BufferArray BUFFER [7] []) (BufferArray ARRAY [] []) = Inr a' \<and> ba_size a' = Inr 1) \<and>
   fst (EVAL (\<lambda>c r. (Some (R_array [R_integer 7, R_array [R_error [69, 0]]]), r)) [] [] [] ()) =
     Inl (ReplyErrorException [69])"
proof -
  have wt: "well_typed (BufferArray ARRAY [] [])" "well_typed (BufferArray BUFFER [7] [])" by simp_all
  let ?srv = "\<lambda>c r. (Some (R_array [R_integer 7, R_array [R_error [69, 0]]]), r)"
  have "\<not> is_value (push_back_buffer [7] (BufferArray ARRAY [] []))"
    by (rule buffer_array_types [OF wt, THEN conjunct2, THEN conjunct2, THEN conjunct2, THEN conjunct2, THEN conjunct2])
  moreover have "isArray (BufferArray ARRAY [] [])" by (simp add: isArray_def)
  then obtain a' n where "push_back (BufferArray BUFFER [7] []) (BufferArray ARRAY [] []) = Inr a'"
      "ba_size (BufferArray ARRAY [] []) = Inr n" "ba_size a' = Inr (Suc n)"
    using buffer_array_types [OF wt, THEN conjunct2, THEN conjunct2, THEN conjunct2, THEN conjunct1] by metis
  moreover from this(2) have "n = 0" by (simp add: ba_size_def checkType_def)
  moreover have "fst (evalInternal ?srv (ascii ''EVAL'') [] [] [] ()) = Inl (ReplyErrorException [69])"
    by (simp add: buffer_array_types [OF wt, THEN conjunct1] cstr_def)
  ultimately show ?thesis by (simp add: EVAL_def)
qed

end
