(* ===== verification/Redis_Connection.thy ===== *)
theory Redis_Connection
  imports Redis_Commands "HOL-Library.Multiset"
begin

text \<open>
  Connections and replies of \<open>rediscpp\<close> (\<open>Connection.cpp\<close>): each owns a pointer of
  \<open>hiredis\<close>, or none, and frees it.  A pointer is a value that is new at every allocation.
  Member functions return the pointers they free.
\<close>

section \<open>Replies\<close>

definition new_Reply :: "'p option \<Rightarrow> 'p option" where
  "new_Reply redis_reply = redis_reply"

definition Reply_destroy :: "'p option \<Rightarrow> 'p list" where
  "Reply_destroy m_redis_reply = (case m_redis_reply of None \<Rightarrow> [] | Some p \<Rightarrow> [p])"

text \<open>The new object and what is left of the old one.\<close>

definition Reply_move :: "'p option \<Rightarrow> 'p option \<times> 'p option" where
  "Reply_move rhs = (rhs, None)"

text \<open>Two different objects.\<close>

definition Reply_move_assign :: "'p option \<Rightarrow> 'p option \<Rightarrow> 'p option \<times> 'p option" where
  "Reply_move_assign this rhs = (rhs, this)"

definition getRedisReply :: "'p option \<Rightarrow> 'p option \<times> 'p list" where
  "getRedisReply m_redis_reply = (m_redis_reply, [])"

section \<open>Connections\<close>

definition new_Connection :: "'p option \<Rightarrow> 'p option" where
  "new_Connection redis_context = redis_context"

definition shutdown :: "'p option \<Rightarrow> 'p option \<times> 'p list" where
  "shutdown m_redis_context = (None, case m_redis_context of None \<Rightarrow> [] | Some p \<Rightarrow> [p])"

definition Connection_destroy :: "'p option \<Rightarrow> 'p list" where
  "Connection_destroy m_redis_context = snd (shutdown m_redis_context)"

definition Connection_move :: "'p option \<Rightarrow> 'p option \<times> 'p option" where
  "Connection_move rhs = (rhs, None)"

definition Connection_move_assign :: "'p option \<Rightarrow> 'p option \<Rightarrow> 'p option \<times> 'p option" where
  "Connection_move_assign this rhs = (rhs, this)"

text \<open>A connection is alive when the server answers \<open>PONG\<close>; every exception is a no.\<close>

definition keepAlive :: "'r server \<Rightarrow> 'r \<Rightarrow> bool \<times> 'r" where
  "keepAlive srv r = (case PING srv r of
       (Inl e, r') \<Rightarrow> (False, r')
     | (Inr str, r') \<Rightarrow> (if str = [] then False else cstr str = ascii ''PONG'', r'))"

definition reconnection :: "bool \<Rightarrow> 'r server \<Rightarrow> 'r \<Rightarrow> bool \<times> 'r" where
  "reconnection redisReconnect_ok srv r = (if \<not> redisReconnect_ok then (False, r) else keepAlive srv r)"

section \<open>Owners of pointers\<close>

text \<open>
  A program over objects of one such class: objects are made from a fresh pointer, move-constructed,
  move-assigned, used and destroyed.  \<open>None\<close> is an operation on an object that is not there.
\<close>

datatype 'p own_op = Make nat "'p option" | Move nat nat | Assign nat nat | Use nat | Destroy nat

type_synonym 'p own_state = "(nat \<rightharpoonup> 'p option) \<times> 'p list"

fun own_step ::
    "('p option \<Rightarrow> 'p option) \<Rightarrow> ('p option \<Rightarrow> 'p option \<times> 'p option) \<Rightarrow>
     ('p option \<Rightarrow> 'p option \<Rightarrow> 'p option \<times> 'p option) \<Rightarrow> ('p option \<Rightarrow> 'p option \<times> 'p list) \<Rightarrow>
     ('p option \<Rightarrow> 'p list) \<Rightarrow> 'p own_op \<Rightarrow> 'p own_state \<Rightarrow> 'p own_state option" where
  "own_step mk mv asg use del (Make i p) (m, fr) =
     (if m i = None then Some (m(i \<mapsto> mk p), fr) else None)"
| "own_step mk mv asg use del (Move i j) (m, fr) =
     (case m j of Some c \<Rightarrow>
        if m i = None then (case mv c of (a, b) \<Rightarrow> Some (m(i \<mapsto> a, j \<mapsto> b), fr)) else None
      | None \<Rightarrow> None)"
| "own_step mk mv asg use del (Assign i j) (m, fr) =
     (case m i of Some c \<Rightarrow>
        (case m j of Some d \<Rightarrow>
           if i = j then Some (m, fr) else (case asg c d of (a, b) \<Rightarrow> Some (m(i \<mapsto> a, j \<mapsto> b), fr))
         | None \<Rightarrow> None)
      | None \<Rightarrow> None)"
| "own_step mk mv asg use del (Use i) (m, fr) =
     (case m i of Some c \<Rightarrow> (case use c of (a, ps) \<Rightarrow> Some (m(i \<mapsto> a), fr @ ps)) | None \<Rightarrow> None)"
| "own_step mk mv asg use del (Destroy i) (m, fr) =
     (case m i of Some c \<Rightarrow> Some (m(i := None), fr @ del c) | None \<Rightarrow> None)"

fun own_run where
  "own_run step [] s = Some s"
| "own_run step (e # es) s = (case step e s of None \<Rightarrow> None | Some s' \<Rightarrow> own_run step es s')"

fun given :: "'p own_op list \<Rightarrow> 'p list" where
  "given [] = []"
| "given (Make i (Some p) # es) = p # given es"
| "given (e # es) = given es"

definition opt_mset :: "'p option \<Rightarrow> 'p multiset" where
  "opt_mset c = (case c of None \<Rightarrow> {#} | Some p \<Rightarrow> {#p#})"

lemma opt_mset_simps [simp]: "opt_mset None = {#}" "opt_mset (Some p) = {#p#}"
  by (simp_all add: opt_mset_def)

text \<open>The pointers that objects hold.\<close>

definition held :: "(nat \<rightharpoonup> 'p option) \<Rightarrow> 'p multiset" where
  "held m = (\<Sum>i\<in>dom m. opt_mset (the (m i)))"

lemma held_empty [simp]: "held Map.empty = {#}"
  by (simp add: held_def)

lemma held_new: "finite (dom m) \<Longrightarrow> m i = None \<Longrightarrow> held (m(i \<mapsto> c)) = held m + opt_mset c"
proof -
  assume "finite (dom m)" "m i = None"
  moreover from this have "(\<Sum>k\<in>dom m. opt_mset (the ((m(i \<mapsto> c)) k))) = held m"
    unfolding held_def by (intro sum.cong) auto
  ultimately show ?thesis by (simp add: held_def domIff add.commute)
qed

lemma held_del: "finite (dom m) \<Longrightarrow> m i = Some c \<Longrightarrow> held (m(i := None)) + opt_mset c = held m"
proof -
  assume m: "finite (dom m)" "m i = Some c"
  then have "held ((m(i := None))(i \<mapsto> c)) = held (m(i := None)) + opt_mset c"
    by (intro held_new) auto
  with m(2) show ?thesis by (simp add: fun_upd_idem)
qed

lemma held_upd:
  assumes "finite (dom m)" "m i = Some c"
  shows "held (m(i \<mapsto> d)) + opt_mset c = held m + opt_mset d"
proof -
  have "held (m(i \<mapsto> d)) = held (m(i := None)) + opt_mset d"
    using held_new [of "m(i := None)" i d] assms by simp
  with held_del [OF assms] show ?thesis by (simp add: ac_simps)
qed

text \<open>
  A class that owns pointers: constructing takes the pointer given, moving and assigning pass
  pointers on, and using or destroying an object frees what it no longer holds.
\<close>

locale owner =
  fixes mk :: "'p option \<Rightarrow> 'p option"
    and mv :: "'p option \<Rightarrow> 'p option \<times> 'p option"
    and asg :: "'p option \<Rightarrow> 'p option \<Rightarrow> 'p option \<times> 'p option"
    and use :: "'p option \<Rightarrow> 'p option \<times> 'p list"
    and del :: "'p option \<Rightarrow> 'p list"
  assumes mk: "mk p = p"
    and mv: "mv c = (a, b) \<Longrightarrow> opt_mset a + opt_mset b = opt_mset c"
    and asg: "asg c d = (a, b) \<Longrightarrow> opt_mset a + opt_mset b = opt_mset c + opt_mset d"
    and use: "use c = (a, ps) \<Longrightarrow> opt_mset a + mset ps = opt_mset c"
    and del: "mset (del c) = opt_mset c"
begin

lemma step_owns:
  assumes "own_step mk mv asg use del e (m, fr) = Some (m', fr')" "finite (dom m)"
  shows "finite (dom m') \<and> held m' + mset fr' = held m + mset fr + mset (given [e])"
proof (cases e)
  case (Make i p)
  then show ?thesis using assms
    by (cases p) (auto simp: mk held_new ac_simps split: if_splits)
next
  case (Move i j)
  with assms obtain c a b where m: "m j = Some c" "m i = None" "mv c = (a, b)" "m' = m(i \<mapsto> a, j \<mapsto> b)" "fr' = fr"
    by (auto split: option.splits if_splits prod.splits)
  then have "(m(i \<mapsto> a)) j = Some c" by auto
  then have "held (m(i \<mapsto> a, j \<mapsto> b)) + opt_mset c = held (m(i \<mapsto> a)) + opt_mset b"
    using assms(2) by (intro held_upd) auto
  with m assms(2) mv [OF m(3)] Move show ?thesis by (auto simp: held_new ac_simps)
next
  case (Assign i j)
  with assms obtain c d where cd: "m i = Some c" "m j = Some d"
    by (auto split: option.splits)
  show ?thesis
  proof (cases "i = j")
    case False
    obtain a b where ab: "asg c d = (a, b)" by fastforce
    have "held (m(i \<mapsto> a, j \<mapsto> b)) + opt_mset d = held (m(i \<mapsto> a)) + opt_mset b"
      using assms(2) cd False by (intro held_upd) auto
    moreover have "held (m(i \<mapsto> a)) + opt_mset c = held m + opt_mset a"
      using assms(2) cd by (intro held_upd) auto
    ultimately have "held (m(i \<mapsto> a, j \<mapsto> b)) + (opt_mset c + opt_mset d) = held m + (opt_mset a + opt_mset b)"
      by (metis add.assoc add.commute)
    with Assign assms cd False ab asg [OF ab] show ?thesis by auto
  qed (use Assign assms cd in auto)
next
  case (Use i)
  with assms obtain c a ps where m: "m i = Some c" "use c = (a, ps)" "m' = m(i \<mapsto> a)" "fr' = fr @ ps"
    by (auto split: option.splits prod.splits)
  have "held (m(i \<mapsto> a)) + (opt_mset a + mset ps) = held m + opt_mset a"
    using held_upd [OF assms(2) m(1)] use [OF m(2)] by simp
  with m assms(2) Use show ?thesis by (auto simp: ac_simps)
next
  case (Destroy i)
  with assms obtain c where m: "m i = Some c" "m' = m(i := None)" "fr' = fr @ del c"
    by (auto split: option.splits)
  with held_del [OF assms(2) m(1)] assms(2) Destroy show ?thesis by (auto simp: del ac_simps)
qed

lemma run_owns:
  assumes "own_run (own_step mk mv asg use del) es (m, fr) = Some (m', fr')" "finite (dom m)"
  shows "finite (dom m') \<and> held m' + mset fr' = held m + mset fr + mset (given es)"
  using assms
proof (induction es arbitrary: m fr)
  case (Cons e es)
  then obtain m1 fr1 where st: "own_step mk mv asg use del e (m, fr) = Some (m1, fr1)"
      and run: "own_run (own_step mk mv asg use del) es (m1, fr1) = Some (m', fr')"
    by (auto split: option.splits)
  from step_owns [OF st Cons.prems(2)] have "finite (dom m1)"
      and one: "held m1 + mset fr1 = held m + mset fr + mset (given [e])" by auto
  with Cons.IH [OF run] have "finite (dom m')" "held m' + mset fr' = held m1 + mset fr1 + mset (given es)" by auto
  moreover have "mset (given (e # es)) = mset (given [e]) + mset (given es)"
  proof (cases e)
    case (Make i p)
    then show ?thesis by (cases p) auto
  qed auto
  ultimately show ?case using one by (simp add: ac_simps)
qed simp

lemma freed_once:
  assumes run: "own_run (own_step mk mv asg use del) es (Map.empty, []) = Some (m, fr)"
    and new: "distinct (given es)"
  shows "distinct fr \<and> (\<forall>i c. m i = Some (Some c) \<longrightarrow> c \<notin> set fr \<and> (\<forall>j. m j = Some (Some c) \<longrightarrow> j = i))"
proof -
  have own: "finite (dom m)" "held m + mset fr = mset (given es)" using run_owns [OF run] by auto
  then have le: "count (held m) c + count (mset fr) c \<le> 1" for c
    using new by (metis count_union distinct_count_atmost_1 le_numeral_extra(4) order_refl zero_le_one)
  have "j = i" if ij: "m i = Some (Some c)" "m j = Some (Some c)" for i j c
  proof (rule ccontr)
    assume "j \<noteq> i"
    then have "held m = held (m(i := None, j := None)) + {#c#} + {#c#}"
      using ij own(1) held_del [of m i "Some c"] held_del [of "m(i := None)" j "Some c"] by simp
    with le [of c] show False by simp
  qed
  moreover have "c \<notin> set fr" if "m i = Some (Some c)" for i c
  proof -
    have "held m = held (m(i := None)) + {#c#}" using that own(1) held_del [of m i "Some c"] by simp
    with le [of c] have "count (mset fr) c = 0" by simp
    then show ?thesis by (simp add: count_mset_0_iff)
  qed
  moreover have "distinct fr"
  proof -
    have "count (mset fr) c \<le> 1" for c using le [of c] by simp
    then show ?thesis by (metis One_nat_def count_mset_0_iff distinct_count_atmost_1 le_SucE le_zero_eq)
  qed
  ultimately show ?thesis by blast
qed

end

interpretation reply: owner new_Reply Reply_move Reply_move_assign getRedisReply Reply_destroy
  by unfold_locales (auto simp: new_Reply_def Reply_move_def Reply_move_assign_def getRedisReply_def
      Reply_destroy_def split: option.splits)

interpretation connection: owner new_Connection Connection_move Connection_move_assign shutdown Connection_destroy
  by unfold_locales (auto simp: new_Connection_def Connection_move_def Connection_move_assign_def shutdown_def
      Connection_destroy_def split: option.splits)

lemma keepAlive_iff:
  "fst (keepAlive srv r) \<longleftrightarrow> (\<exists>s. fst (srv (Format (ascii ''PING'') []) r) = Some (R_status s) \<and> cstr s = ascii ''PONG'')"
proof -
  have [simp]: "cstr (cstr s) = cstr s" for s by (simp add: cstr_def)
  have "ascii ''PONG'' \<noteq> []" "cstr (ascii ''PONG'') = ascii ''PONG''" by (simp_all add: ascii_def cstr_def)
  then show ?thesis
    by (cases "fst (srv (Format (ascii ''PING'') []) r)" rule: want_status.cases)
      (auto simp: keepAlive_def PING_def redisCommand_def split: prod.splits if_splits)
qed

abbreviation Connection_step :: "'p own_op \<Rightarrow> 'p own_state \<Rightarrow> 'p own_state option" where
  "Connection_step \<equiv> own_step new_Connection Connection_move Connection_move_assign shutdown Connection_destroy"

abbreviation Reply_step :: "'p own_op \<Rightarrow> 'p own_state \<Rightarrow> 'p own_state option" where
  "Reply_step \<equiv> own_step new_Reply Reply_move Reply_move_assign getRedisReply Reply_destroy"

text \<open>
  C31. In every sequence of constructions, moves, assignments (also of an object to itself),
  shutdowns and destructions of connections, each context given to a constructor is either held by exactly
  one connection or has been freed exactly once, never both; once every connection is
  destroyed, all have been freed.  The same holds of replies.
\<close>

theorem contexts_freed_once:
  assumes conns: "own_run Connection_step es (Map.empty, []) = Some (m, fr)" "distinct (given es)"
    and reps: "own_run Reply_step rs (Map.empty, []) = Some (n, fq)" "distinct (given rs)"
  shows "held m + mset fr = mset (given es) \<and> distinct fr \<and>
    (\<forall>i c. m i = Some (Some c) \<longrightarrow> c \<notin> set fr \<and> (\<forall>j. m j = Some (Some c) \<longrightarrow> j = i)) \<and>
    (dom m = {} \<longrightarrow> mset fr = mset (given es)) \<and>
    held n + mset fq = mset (given rs) \<and> distinct fq \<and>
    (\<forall>i c. n i = Some (Some c) \<longrightarrow> c \<notin> set fq \<and> (\<forall>j. n j = Some (Some c) \<longrightarrow> j = i)) \<and>
    (dom n = {} \<longrightarrow> mset fq = mset (given rs))"
  using connection.run_owns [OF conns(1)] connection.freed_once [OF conns]
    reply.run_owns [OF reps(1)] reply.freed_once [OF reps] held_empty
  by (simp only: dom_eq_empty_conv finite.emptyI dom_empty mset.simps add_0_left) auto

lemma contexts_freed_once_witness:
  "\<exists>m fr. own_run Connection_step
      [Make 0 (Some 5), Move 1 0, Make 2 (Some 6), Assign 2 1, Assign 2 2, Use 1, Destroy 0, Destroy 1, Destroy 2]
      (Map.empty, []) = Some (m, fr) \<and> fr = [6, 5 :: nat] \<and> mset fr = {#5, 6#} \<and> distinct fr"
proof -
  let ?es = "[Make 0 (Some 5), Move 1 0, Make 2 (Some 6), Assign 2 1, Assign 2 2, Use 1,
      Destroy 0, Destroy 1, Destroy 2] :: nat own_op list"
  have run: "own_run Connection_step ?es (Map.empty, []) = Some (Map.empty, [6, 5])"
    by (simp add: new_Connection_def Connection_move_def Connection_move_assign_def shutdown_def
        Connection_destroy_def fun_upd_twist)
  have none: "own_run Reply_step [] (Map.empty, []) = Some (Map.empty, [] :: nat list)" by simp
  have "mset [6, 5 :: nat] = mset (given ?es) \<and> distinct [6, 5 :: nat]"
    using contexts_freed_once [OF run _ none] by simp
  with run show ?thesis by simp
qed

end
