(* ===== verification/Nel_Sock.thy ===== *)
theory Nel_Sock
  imports Byte_Buf "HOL-Library.Sublist"
begin

text \<open>
  A socket of \<open>nel\<close>, \<open>TSock.cpp\<close>, with the messages of \<open>CMessage.h\<close>.  All handlers of a socket run on the one
  \<open>io_service\<close> thread; a step is a call from another thread, which only posts, a posted
  handler, or the completion of an outstanding asynchronous operation with any result.
  The record keeps, beside the members, what Boost.Asio keeps: the outstanding operations,
  the posted handlers, and, in \<open>wire\<close>, the messages handed to \<open>async_write\<close>.  What a handler
  reports through the three callbacks is its list of notes.  The decoder
  is a function of a buffer passed by value, an argument.
\<close>

section \<open>State\<close>

record cmessage =
  m_msg_id :: "32 word"
  m_body :: "byte list"

datatype CLOSED_TYPE = NORMAL | TIMEOUT | ACTIVITY

datatype post = Post_send cmessage | Post_close

datatype sock_note = Note_closed | Note_timeout | Note_msg cmessage

record tsock =
  m_write_buffer :: "cmessage list"
  m_is_closed :: bool
  m_read_timeout_seconds :: "32 word"
  m_byte_buf :: byte_buf
  sock_open :: bool
  reading :: bool
  writing :: bool
  timer_armed :: bool
  posts :: "post list"
  wire :: "cmessage list"

definition new_TSock :: tsock where
  "new_TSock = \<lparr>m_write_buffer = [], m_is_closed = False, m_read_timeout_seconds = 0, m_byte_buf = bb_new,
     sock_open = True, reading = False, writing = False, timer_armed = False, posts = [], wire = []\<rparr>"

section \<open>Operations and handlers\<close>

definition setTimeoutTimer :: "tsock \<Rightarrow> tsock" where
  "setTimeoutTimer s = s\<lparr>timer_armed := True\<rparr>"

definition timeoutCancel :: "tsock \<Rightarrow> tsock" where
  "timeoutCancel s = s\<lparr>timer_armed := False\<rparr>"

definition doRead :: "tsock \<Rightarrow> tsock" where
  "doRead s = (if 0 <s m_read_timeout_seconds s then setTimeoutTimer s else s)\<lparr>reading := True\<rparr>"

definition doWrite :: "tsock \<Rightarrow> tsock" where
  "doWrite s = s\<lparr>writing := True, wire := wire s @ [hd (m_write_buffer s)]\<rparr>"

definition start :: "tsock \<Rightarrow> tsock" where
  "start s = doRead (s\<lparr>m_is_closed := False\<rparr>)"

definition sendMsg :: "cmessage \<Rightarrow> tsock \<Rightarrow> bool \<times> tsock" where
  "sendMsg msg s = (if m_is_closed s then (False, s) else (True, s\<lparr>posts := posts s @ [Post_send msg]\<rparr>))"

definition closeSocket :: "tsock \<Rightarrow> tsock" where
  "closeSocket s = s\<lparr>sock_open := False\<rparr>"

definition onClosed :: "CLOSED_TYPE \<Rightarrow> tsock \<Rightarrow> sock_note list \<times> tsock" where
  "onClosed type s =
     (if m_is_closed s then ([], s)
      else (case type of NORMAL \<Rightarrow> [Note_closed] | TIMEOUT \<Rightarrow> [Note_timeout] | ACTIVITY \<Rightarrow> [],
            closeSocket (s\<lparr>m_is_closed := True\<rparr>)))"

definition sock_shutdown :: "tsock \<Rightarrow> tsock" where
  "sock_shutdown s = (if m_is_closed s then s else s\<lparr>posts := posts s @ [Post_close]\<rparr>)"

fun run_post :: "post \<Rightarrow> tsock \<Rightarrow> sock_note list \<times> tsock" where
  "run_post (Post_send msg) s =
     (let wait_write = m_write_buffer s \<noteq> [];
          s' = s\<lparr>m_write_buffer := m_write_buffer s @ [msg]\<rparr>
      in ([], if \<not> wait_write then doWrite s' else s'))"
| "run_post Post_close s = onClosed ACTIVITY s"

text \<open>The handler of \<open>async_write\<close>, after an error or not.\<close>

definition write_done :: "bool \<Rightarrow> tsock \<Rightarrow> sock_note list \<times> tsock" where
  "write_done ok s =
     (let s1 = s\<lparr>writing := False\<rparr> in
      if \<not> ok then onClosed NORMAL s1
      else (let s2 = s1\<lparr>m_write_buffer := tl (m_write_buffer s1)\<rparr>
            in ([], if m_write_buffer s2 \<noteq> [] then doWrite s2 else s2)))"

text \<open>The handler of \<open>async_read_some\<close>: an error, or the bytes read.\<close>

definition read_done :: "(byte_buf \<Rightarrow> cmessage list) \<Rightarrow> byte list option \<Rightarrow> tsock \<Rightarrow> sock_note list \<times> tsock" where
  "read_done dec r s =
     (let s1 = timeoutCancel (s\<lparr>reading := False\<rparr>) in
      case r of
        None \<Rightarrow> onClosed NORMAL s1
      | Some data \<Rightarrow>
          (if data = [] then ([], doRead s1)
           else (let b = bb_append data (m_byte_buf s1)
                 in (map Note_msg (dec b), doRead (s1\<lparr>m_byte_buf := b\<rparr>)))))"

definition timer_fired :: "tsock \<Rightarrow> sock_note list \<times> tsock" where
  "timer_fired s = onClosed TIMEOUT (s\<lparr>timer_armed := False\<rparr>)"

section \<open>Steps\<close>

datatype sock_ev =
  E_send cmessage | E_shutdown | E_post | E_write bool | E_read "byte list option" | E_timer

fun sock_step :: "(byte_buf \<Rightarrow> cmessage list) \<Rightarrow> sock_ev \<Rightarrow> tsock \<Rightarrow> (sock_note list \<times> tsock) option" where
  "sock_step dec (E_send msg) s = Some ([], snd (sendMsg msg s))"
| "sock_step dec E_shutdown s = Some ([], sock_shutdown s)"
| "sock_step dec E_post s = (case posts s of [] \<Rightarrow> None | p # ps \<Rightarrow> Some (run_post p (s\<lparr>posts := ps\<rparr>)))"
| "sock_step dec (E_write ok) s = (if writing s then Some (write_done ok s) else None)"
| "sock_step dec (E_read r) s = (if reading s then Some (read_done dec r s) else None)"
| "sock_step dec E_timer s = (if timer_armed s then Some (timer_fired s) else None)"

fun sock_run :: "(byte_buf \<Rightarrow> cmessage list) \<Rightarrow> sock_ev list \<Rightarrow> tsock \<Rightarrow> (sock_note list \<times> tsock) option" where
  "sock_run dec [] s = Some ([], s)"
| "sock_run dec (e # es) s = (case sock_step dec e s of
      None \<Rightarrow> None
    | Some (ns, s1) \<Rightarrow> (case sock_run dec es s1 of None \<Rightarrow> None | Some (ns', s') \<Rightarrow> Some (ns @ ns', s')))"

section \<open>Writing\<close>

definition sends :: "post list \<Rightarrow> cmessage list" where
  "sends ps = concat (map (\<lambda>p. case p of Post_send m \<Rightarrow> [m] | Post_close \<Rightarrow> []) ps)"

lemma sock_sends_simps [simp]:
  "sends [] = []" "sends (ps @ qs) = sends ps @ sends qs"
  "sends (Post_send m # ps) = m # sends ps" "sends (Post_close # ps) = sends ps"
  by (simp_all add: sends_def)

text \<open>The messages of the calls of \<open>sendMsg\<close> that returned true.\<close>

definition accepts :: "sock_ev \<Rightarrow> tsock \<Rightarrow> cmessage list" where
  "accepts e s = (case e of E_send m \<Rightarrow> if m_is_closed s then [] else [m] | _ \<Rightarrow> [])"

fun accepted :: "(byte_buf \<Rightarrow> cmessage list) \<Rightarrow> sock_ev list \<Rightarrow> tsock \<Rightarrow> cmessage list" where
  "accepted dec [] s = []"
| "accepted dec (e # es) s = accepts e s @ (case sock_step dec e s of
      None \<Rightarrow> [] | Some (ns, s1) \<Rightarrow> accepted dec es s1)"

text \<open>What was accepted is what was written, what waits in the queue, and what is still posted.\<close>

definition queue_inv :: "cmessage list \<Rightarrow> tsock \<Rightarrow> bool" where
  "queue_inv acc s \<longleftrightarrow>
     (\<exists>written. acc = written @ m_write_buffer s @ sends (posts s) \<and> wire s = written @ take 1 (m_write_buffer s)) \<and>
     (writing s \<longrightarrow> m_write_buffer s \<noteq> []) \<and> (m_write_buffer s \<noteq> [] \<and> \<not> writing s \<longrightarrow> m_is_closed s)"

lemmas sock_defs = sendMsg_def sock_shutdown_def onClosed_def closeSocket_def doRead_def doWrite_def
  setTimeoutTimer_def timeoutCancel_def write_done_def read_done_def timer_fired_def Let_def

lemma queue_inv_transfer:
  "queue_inv acc s \<Longrightarrow> m_write_buffer s' = m_write_buffer s \<Longrightarrow> sends (posts s') = sends (posts s) \<Longrightarrow>
     wire s' = wire s \<Longrightarrow> writing s' = writing s \<Longrightarrow> (m_is_closed s \<longrightarrow> m_is_closed s') \<Longrightarrow> queue_inv acc s'"
  by (simp add: queue_inv_def)

lemma queue_inv_step:
  assumes "queue_inv acc s" "sock_step dec e s = Some (ns, s')"
  shows "queue_inv (acc @ accepts e s) s'"
proof (cases e)
  case (E_send m)
  with assms show ?thesis by (auto simp: queue_inv_def accepts_def sock_defs)
next
  case E_shutdown
  with assms show ?thesis
    by (auto simp: accepts_def sock_defs intro!: queue_inv_transfer [OF assms(1)] split: if_splits)
next
  case E_post
  with assms obtain p ps where p: "posts s = p # ps" "run_post p (s\<lparr>posts := ps\<rparr>) = (ns, s')"
    by (auto split: list.splits)
  show ?thesis
  proof (cases p)
    case (Post_send m)
    with p E_post assms(1) show ?thesis
      by (cases "m_write_buffer s") (auto simp: queue_inv_def accepts_def sock_defs)
  next
    case Post_close
    with p E_post assms(1) show ?thesis
      by (auto simp: accepts_def sock_defs intro!: queue_inv_transfer [OF assms(1)] split: if_splits)
  qed
next
  case (E_write ok)
  with assms obtain m ms where w: "writing s" "m_write_buffer s = m # ms" "write_done ok s = (ns, s')"
    by (auto simp: queue_inv_def neq_Nil_conv split: if_splits)
  with E_write assms(1) show ?thesis
    by (cases ms) (auto simp: queue_inv_def accepts_def sock_defs split: if_splits)
next
  case (E_read r)
  with assms show ?thesis
    by (auto simp: accepts_def sock_defs intro!: queue_inv_transfer [OF assms(1)] split: if_splits option.splits)
next
  case E_timer
  with assms show ?thesis
    by (auto simp: accepts_def sock_defs intro!: queue_inv_transfer [OF assms(1)] split: if_splits)
qed

lemma queue_inv_run:
  "queue_inv acc s \<Longrightarrow> sock_run dec es s = Some (ns, s') \<Longrightarrow> queue_inv (acc @ accepted dec es s) s'"
proof (induction es arbitrary: acc s ns)
  case (Cons e es)
  then obtain ns1 s1 ns2 where st: "sock_step dec e s = Some (ns1, s1)" and run: "sock_run dec es s1 = Some (ns2, s')"
    by (auto split: option.splits)
  from Cons.IH [OF queue_inv_step [OF Cons.prems(1) st] run] st show ?case by simp
qed simp

section \<open>Closing and reading\<close>

definition is_close :: "sock_note \<Rightarrow> bool" where
  "is_close n \<longleftrightarrow> n = Note_closed \<or> n = Note_timeout"

lemma is_close_simps [simp]: "is_close Note_closed" "is_close Note_timeout" "\<not> is_close (Note_msg m)"
  by (simp_all add: is_close_def)

lemma filter_is_close_msgs [simp]: "filter is_close (map Note_msg ms) = []"
  by (induction ms) simp_all

lemma close_step:
  assumes "sock_step dec e s = Some (ns, s')"
  shows "length (filter is_close ns) \<le> (if m_is_closed s then 0 else if m_is_closed s' then 1 else 0) \<and>
    (m_is_closed s \<longrightarrow> m_is_closed s')"
  using assms by (cases "(dec, e, s)" rule: sock_step.cases; cases "posts s"; cases "hd (posts s)")
    (auto simp: sock_defs split: if_splits option.splits CLOSED_TYPE.splits)

lemma close_run:
  "sock_run dec es s = Some (ns, s') \<Longrightarrow> length (filter is_close ns) \<le> (if m_is_closed s then 0 else 1)"
proof (induction es arbitrary: s ns)
  case (Cons e es)
  then obtain ns1 s1 ns2 where st: "sock_step dec e s = Some (ns1, s1)" and run: "sock_run dec es s1 = Some (ns2, s')"
      and ns: "ns = ns1 @ ns2"
    by (auto split: option.splits)
  from Cons.IH [OF run] close_step [OF st] ns show ?case by (auto split: if_splits)
qed simp

fun messages :: "sock_note list \<Rightarrow> cmessage list" where
  "messages [] = []"
| "messages (Note_msg m # ns) = m # messages ns"
| "messages (n # ns) = messages ns"

lemma messages_append [simp]: "messages (ns @ ns') = messages ns @ messages ns'"
  by (induction ns rule: messages.induct) simp_all

lemma messages_map [simp]: "messages (map Note_msg ms) = ms"
  by (induction ms) simp_all

text \<open>The reads that carried data.\<close>

fun reads :: "sock_ev list \<Rightarrow> byte list list" where
  "reads [] = []"
| "reads (E_read (Some d) # es) = (if d = [] then reads es else d # reads es)"
| "reads (e # es) = reads es"

lemma bb_append_bytes: "bb_append ys (bb_of_bytes xs) = bb_of_bytes (xs @ ys)"
  by (simp add: bb_append_def bb_of_bytes_def)

lemma read_step:
  assumes "sock_step dec e s = Some (ns, s')" "m_byte_buf s = bb_of_bytes xs"
  shows "messages ns = concat (map (\<lambda>d. dec (bb_of_bytes (xs @ d))) (reads [e])) \<and>
    m_byte_buf s' = bb_of_bytes (xs @ concat (reads [e]))"
  using assms by (cases "(dec, e, s)" rule: sock_step.cases; cases "posts s"; cases "hd (posts s)")
    (auto simp: sock_defs bb_append_bytes split: if_splits option.splits CLOSED_TYPE.splits)

fun decodings :: "(byte_buf \<Rightarrow> cmessage list) \<Rightarrow> byte list \<Rightarrow> byte list list \<Rightarrow> cmessage list" where
  "decodings dec xs [] = []"
| "decodings dec xs (d # ds) = dec (bb_of_bytes (xs @ d)) @ decodings dec (xs @ d) ds"

lemma read_run:
  "sock_run dec es s = Some (ns, s') \<Longrightarrow> m_byte_buf s = bb_of_bytes xs \<Longrightarrow>
     messages ns = decodings dec xs (reads es)"
proof (induction es arbitrary: s ns xs)
  case (Cons e es)
  then obtain ns1 s1 ns2 where st: "sock_step dec e s = Some (ns1, s1)" and run: "sock_run dec es s1 = Some (ns2, s')"
      and ns: "ns = ns1 @ ns2"
    by (auto split: option.splits)
  have "reads (e # es) = reads [e] @ reads es"
    by (cases "e # es" rule: reads.cases) auto
  moreover have "reads [e] = [] \<or> (\<exists>d. reads [e] = [d])" by (cases "[e]" rule: reads.cases) auto
  ultimately show ?case using read_step [OF st Cons.prems(2)] Cons.IH [OF run] ns by auto
qed simp

lemma decodings_count:
  assumes mono: "\<And>x y. prefix (dec (bb_of_bytes x)) (dec (bb_of_bytes (x @ y)))"
    and m: "m \<in> set (dec (bb_of_bytes xs))"
  shows "length ds \<le> count_list (decodings dec xs ds) m"
  using m
proof (induction ds arbitrary: xs)
  case (Cons d ds)
  from mono [of xs d] Cons.prems have "m \<in> set (dec (bb_of_bytes (xs @ d)))"
    using set_mono_prefix by blast
  moreover from this have "0 < count_list (dec (bb_of_bytes (xs @ d))) m"
    by (simp add: count_list_0_iff neq0_conv [symmetric])
  ultimately show ?case using Cons.IH [of "xs @ d"] by simp
qed simp

text \<open>
  C32. On a started socket, whatever its operations complete with and in whatever order: one write at
  most is outstanding, and the messages accepted are, in order, those written before, the queue
  and those posted, so that what goes out is a prefix of them, all of them once an open
  socket is idle.  The socket reports at most one end.  The decoder sees all the bytes since the start
  at every read, because it consumes from a copy of the buffer: a message that was complete
  after the first read is reported again at every later one.
\<close>

theorem sock_traffic:
  assumes run: "sock_run dec es (start new_TSock) = Some (ns, s)"
  shows "(\<exists>written. accepted dec es (start new_TSock) = written @ m_write_buffer s @ sends (posts s) \<and>
            wire s = written @ take 1 (m_write_buffer s)) \<and>
    prefix (wire s) (accepted dec es (start new_TSock)) \<and>
    (\<not> m_is_closed s \<longrightarrow> \<not> writing s \<longrightarrow> posts s = [] \<longrightarrow> wire s = accepted dec es (start new_TSock)) \<and>
    length (filter is_close ns) \<le> 1 \<and>
    messages ns = decodings dec [] (reads es) \<and>
    ((\<forall>x y. prefix (dec (bb_of_bytes x)) (dec (bb_of_bytes (x @ y)))) \<longrightarrow> reads es \<noteq> [] \<longrightarrow>
       m \<in> set (dec (bb_of_bytes (hd (reads es)))) \<longrightarrow> length (reads es) \<le> count_list (messages ns) m)"
proof -
  have "queue_inv [] (start new_TSock)"
    by (simp add: queue_inv_def start_def new_TSock_def sock_defs)
  from queue_inv_run [OF this run] have inv: "queue_inv (accepted dec es (start new_TSock)) s" by simp
  then obtain written where w: "accepted dec es (start new_TSock) = written @ m_write_buffer s @ sends (posts s)"
      "wire s = written @ take 1 (m_write_buffer s)" by (auto simp: queue_inv_def)
  have "prefix (wire s) (accepted dec es (start new_TSock))"
    unfolding w by (metis append.assoc append_take_drop_id prefixI)
  moreover have "m_byte_buf (start new_TSock) = bb_of_bytes []"
    by (simp add: start_def new_TSock_def sock_defs bb_new_def bb_of_bytes_def)
  from read_run [OF run this] have msgs: "messages ns = decodings dec [] (reads es)" .
  moreover have "length (reads es) \<le> count_list (messages ns) m"
    if mono: "\<forall>x y. prefix (dec (bb_of_bytes x)) (dec (bb_of_bytes (x @ y)))"
      and ne: "reads es \<noteq> []" and m: "m \<in> set (dec (bb_of_bytes (hd (reads es))))"
  proof -
    obtain d ds where rs: "reads es = d # ds" using ne by (cases "reads es") auto
    then have "0 < count_list (dec (bb_of_bytes d)) m"
      using m by (simp add: count_list_0_iff neq0_conv [symmetric])
    moreover have "length ds \<le> count_list (decodings dec d ds) m"
      using decodings_count [of dec m d ds] mono m rs by auto
    ultimately show ?thesis by (simp add: msgs rs)
  qed
  ultimately show ?thesis using close_run [OF run] inv w
    by (auto simp: queue_inv_def split: if_splits)
qed

text \<open>A decoder of one-byte messages.\<close>

definition byte_messages :: "byte_buf \<Rightarrow> cmessage list" where
  "byte_messages b = map (\<lambda>c. \<lparr>m_msg_id = ucast c, m_body = []\<rparr>) (drop (m_rpos b) (take (m_wpos b) (m_storage b)))"

lemma sock_traffic_witness:
  "\<exists>ns s. sock_run byte_messages [E_send \<lparr>m_msg_id = 1, m_body = [5]\<rparr>, E_read (Some [7]), E_post,
        E_read (Some [8]), E_write True, E_read None] (start new_TSock) = Some (ns, s) \<and>
     wire s = [\<lparr>m_msg_id = 1, m_body = [5]\<rparr>] \<and> 2 \<le> count_list (messages ns) \<lparr>m_msg_id = 7, m_body = []\<rparr>"
proof -
  let ?es = "[E_send \<lparr>m_msg_id = 1, m_body = [5]\<rparr>, E_read (Some [7]), E_post,
      E_read (Some [8]), E_write True, E_read None]"
  have run: "\<exists>ns s. sock_run byte_messages ?es (start new_TSock) = Some (ns, s) \<and> wire s = [\<lparr>m_msg_id = 1, m_body = [5]\<rparr>]"
    by (simp add: start_def new_TSock_def sock_defs)
  then obtain ns s where r: "sock_run byte_messages ?es (start new_TSock) = Some (ns, s)"
      "wire s = [\<lparr>m_msg_id = 1, m_body = [5]\<rparr>]" by blast
  have "\<forall>x y. prefix (byte_messages (bb_of_bytes x)) (byte_messages (bb_of_bytes (x @ y)))"
    by (simp add: byte_messages_def bb_of_bytes_def)
  moreover have "\<lparr>m_msg_id = 7, m_body = []\<rparr> \<in> set (byte_messages (bb_of_bytes [7]))"
    by (simp add: byte_messages_def bb_of_bytes_def)
  ultimately have "length (reads ?es) \<le> count_list (messages ns) \<lparr>m_msg_id = 7, m_body = []\<rparr>"
    using sock_traffic [OF r(1), THEN conjunct2, THEN conjunct2, THEN conjunct2, THEN conjunct2, THEN conjunct2] by simp
  with r show ?thesis by auto
qed

end
