(* ===== verification/Nel_Network.thy ===== *)
theory Nel_Network
  imports Nel_Sock Memory_Text
begin

text \<open>
  The network of \<open>nel\<close> over its sockets: servers and clients (\<open>NetServer.cpp\<close>, \<open>NetClient.cpp\<close>), the
  connection of a service (\<open>UnifiedConnection.cpp\<close>, \<open>TEndpoint.cpp\<close>), the callbacks of the user
  (\<open>CallbackManager.cpp\<close>) and the network that updates all connections
  (\<open>UnifiedNetwork.cpp\<close>).

  Objects behind shared pointers are numbered: sockets, clients and connections are lists of the
  network's state.  A hash map is the list of its pairs in some order of iteration.  The callbacks bound to
  a socket or a client name the connection they report to.  User callbacks are events of a log, which
  also names the socket they are about and the callback that was found, if any.
  Completions run on the thread of the \<open>io_service\<close>, everything else on that of the user, who
  calls \<open>update\<close>; a lock is only held to swap or append to one of the lists between the two.
\<close>

section \<open>State\<close>

record inet_addr =
  m_ip :: "byte list"
  m_port :: "16 word"

record endpoint =
  m_remote_addr :: inet_addr
  m_client :: "nat option"
  m_sock :: nat

definition TEndpoint_client :: "nat \<Rightarrow> nat \<Rightarrow> inet_addr \<Rightarrow> endpoint" where
  "TEndpoint_client client sock addr = \<lparr>m_remote_addr = addr, m_client = Some client, m_sock = sock\<rparr>"

definition TEndpoint_sock :: "nat \<Rightarrow> endpoint" where
  "TEndpoint_sock sock = \<lparr>m_remote_addr = \<lparr>m_ip = [], m_port = 0\<rparr>, m_client = None, m_sock = sock\<rparr>"

definition isClientSide :: "endpoint \<Rightarrow> bool" where
  "isClientSide e \<longleftrightarrow> m_client e \<noteq> None"

text \<open>\<open>connecting\<close> is the address an outstanding \<open>async_connect\<close> was given.\<close>

record net_client =
  cl_sock :: nat
  m_state :: "32 word"
  m_inet_addr :: inet_addr
  m_connect_cb :: "nat option"
  connecting :: "inet_addr option"

abbreviation CONNECTED :: "32 word" where "CONNECTED \<equiv> 0"
abbreviation IS_CONNECTING :: "32 word" where "IS_CONNECTING \<equiv> 1"
abbreviation DISCONNECT :: "32 word" where "DISCONNECT \<equiv> 2"

record connection =
  m_service_name :: "byte list"
  m_service_id :: "32 word"
  m_auto_retry :: bool
  m_endpoints :: "(nat \<times> endpoint) list"
  m_retry_endpoints :: "(nat \<times> endpoint) list"
  m_server :: bool
  m_client_addrs :: "inet_addr list"
  m_closed_sock :: "nat list"
  m_timeout_sock :: "nat list"
  m_new_msg :: "(nat \<times> cmessage) list"
  m_server_new_sock :: "nat list"
  m_client_connect_success :: "nat list"
  m_client_connect_fail :: "nat list"

text \<open>Callbacks are numbered.\<close>

record callback_manager =
  m_msg_cb_array :: "32 word \<rightharpoonup> nat"
  m_up_cbs :: "byte list \<rightharpoonup> nat"
  m_down_cbs :: "byte list \<rightharpoonup> nat"
  m_msg_decoder :: bool

datatype net_event = Up nat "nat option" | Down nat "nat option" | Msg nat cmessage "nat option"

record nel =
  socks :: "tsock list"
  bound :: "nat \<rightharpoonup> nat"
  clients :: "net_client list"
  conns :: "connection list"
  accepting :: "nat list"
  m_connections :: "(32 word \<times> nat) list"
  m_self_service_name :: "byte list"
  m_self_server_port :: "16 word"
  m_self_conn :: "nat option"
  m_initialised :: bool
  m_use_naming_service :: bool
  m_cb_manager :: callback_manager
  log :: "net_event list"

definition upd_conn :: "nat \<Rightarrow> (connection \<Rightarrow> connection) \<Rightarrow> nel \<Rightarrow> nel" where
  "upd_conn c f w = w\<lparr>conns := (conns w)[c := f (conns w ! c)]\<rparr>"

definition upd_sock :: "nat \<Rightarrow> tsock \<Rightarrow> nel \<Rightarrow> nel" where
  "upd_sock s x w = w\<lparr>socks := (socks w)[s := x]\<rparr>"

definition upd_client :: "nat \<Rightarrow> (net_client \<Rightarrow> net_client) \<Rightarrow> nel \<Rightarrow> nel" where
  "upd_client i f w = w\<lparr>clients := (clients w)[i := f (clients w ! i)]\<rparr>"

definition emit :: "net_event \<Rightarrow> nel \<Rightarrow> nel" where
  "emit e w = w\<lparr>log := log w @ [e]\<rparr>"

section \<open>Callbacks of the user\<close>

definition setMsgCallbackArray :: "(32 word \<rightharpoonup> nat) \<Rightarrow> callback_manager \<Rightarrow> callback_manager" where
  "setMsgCallbackArray cbs m = m\<lparr>m_msg_cb_array := cbs\<rparr>"

definition setServiceConnectCallback ::
    "byte list \<Rightarrow> nat \<Rightarrow> callback_manager \<Rightarrow> bool \<times> callback_manager" where
  "setServiceConnectCallback name cb m =
     (if m_up_cbs m name = None then (True, m\<lparr>m_up_cbs := (m_up_cbs m)(name \<mapsto> cb)\<rparr>) else (False, m))"

definition setServiceDisconnectCallback ::
    "byte list \<Rightarrow> nat \<Rightarrow> callback_manager \<Rightarrow> bool \<times> callback_manager" where
  "setServiceDisconnectCallback name cb m =
     (if m_down_cbs m name = None then (True, m\<lparr>m_down_cbs := (m_down_cbs m)(name \<mapsto> cb)\<rparr>) else (False, m))"

definition removeServiceConnectCallback :: "byte list \<Rightarrow> callback_manager \<Rightarrow> callback_manager" where
  "removeServiceConnectCallback name m = m\<lparr>m_up_cbs := (m_up_cbs m)(name := None)\<rparr>"

definition removeServiceDisconnectCallback :: "byte list \<Rightarrow> callback_manager \<Rightarrow> callback_manager" where
  "removeServiceDisconnectCallback name m = m\<lparr>m_down_cbs := (m_down_cbs m)(name := None)\<rparr>"

definition setByteToMessageCallback :: "bool \<Rightarrow> callback_manager \<Rightarrow> callback_manager" where
  "setByteToMessageCallback cb m = m\<lparr>m_msg_decoder := cb\<rparr>"

definition findUpCallback :: "byte list \<Rightarrow> callback_manager \<Rightarrow> nat option" where
  "findUpCallback name m = m_up_cbs m name"

definition findDownCallback :: "byte list \<Rightarrow> callback_manager \<Rightarrow> nat option" where
  "findDownCallback name m = m_down_cbs m name"

text \<open>The context of a callback: a service name.  The code always makes an empty one.\<close>

definition createMsgContext :: "nat \<Rightarrow> byte list" where
  "createMsgContext sock = []"

definition callbackServiceConnect :: "nat \<Rightarrow> byte list \<Rightarrow> nel \<Rightarrow> nel" where
  "callbackServiceConnect s ctx w = emit (Up s (findUpCallback ctx (m_cb_manager w))) w"

definition callbackServiceDisconnect :: "nat \<Rightarrow> byte list \<Rightarrow> nel \<Rightarrow> nel" where
  "callbackServiceDisconnect s ctx w = emit (Down s (findDownCallback ctx (m_cb_manager w))) w"

definition callbackMsg :: "nat \<Rightarrow> byte list \<Rightarrow> cmessage \<Rightarrow> nel \<Rightarrow> bool \<times> nel" where
  "callbackMsg s ctx msg w =
     (let it = m_msg_cb_array (m_cb_manager w) (m_msg_id msg) in (it \<noteq> None, emit (Msg s msg it) w))"

section \<open>What the sockets report\<close>

definition cbServerAccept :: "nat \<Rightarrow> nat \<Rightarrow> nel \<Rightarrow> nel" where
  "cbServerAccept c sock w =
     upd_conn c (\<lambda>x. x\<lparr>m_server_new_sock := m_server_new_sock x @ [sock]\<rparr>) (w\<lparr>bound := (bound w)(sock \<mapsto> c)\<rparr>)"

definition cbClientConnect :: "nat \<Rightarrow> bool \<Rightarrow> nat \<Rightarrow> nel \<Rightarrow> nel" where
  "cbClientConnect c ok i w =
     (if \<not> ok then upd_conn c (\<lambda>x. x\<lparr>m_client_connect_fail := m_client_connect_fail x @ [i]\<rparr>) w
      else upd_conn c (\<lambda>x. x\<lparr>m_client_connect_success := m_client_connect_success x @ [i]\<rparr>)
             (w\<lparr>bound := (bound w)(cl_sock (clients w ! i) \<mapsto> c)\<rparr>))"

definition cbSockTimeout :: "nat \<Rightarrow> nat \<Rightarrow> nel \<Rightarrow> nel" where
  "cbSockTimeout c s = upd_conn c (\<lambda>x. x\<lparr>m_timeout_sock := m_timeout_sock x @ [s]\<rparr>)"

definition cbSockClosed :: "nat \<Rightarrow> nat \<Rightarrow> nel \<Rightarrow> nel" where
  "cbSockClosed c s = upd_conn c (\<lambda>x. x\<lparr>m_closed_sock := m_closed_sock x @ [s]\<rparr>)"

definition cbReceivedMsg :: "nat \<Rightarrow> nat \<Rightarrow> cmessage \<Rightarrow> nel \<Rightarrow> nel" where
  "cbReceivedMsg c s msg = upd_conn c (\<lambda>x. x\<lparr>m_new_msg := m_new_msg x @ [(s, msg)]\<rparr>)"

fun notify :: "nat \<Rightarrow> nat \<Rightarrow> sock_note \<Rightarrow> nel \<Rightarrow> nel" where
  "notify c s Note_closed w = cbSockClosed c s w"
| "notify c s Note_timeout w = cbSockTimeout c s w"
| "notify c s (Note_msg m) w = cbReceivedMsg c s m w"

text \<open>A step of a socket; a report through a callback that was never set throws.\<close>

definition sock_event :: "(byte_buf \<Rightarrow> cmessage list) \<Rightarrow> nat \<Rightarrow> sock_ev \<Rightarrow> nel \<Rightarrow> nel option" where
  "sock_event dec s e w =
     (case sock_step dec e (socks w ! s) of
        None \<Rightarrow> None
      | Some (ns, x) \<Rightarrow>
          (case bound w s of
             Some c \<Rightarrow> Some (fold (notify c s) ns (upd_sock s x w))
           | None \<Rightarrow> if ns = [] then Some (upd_sock s x w) else None))"

section \<open>Servers and clients\<close>

text \<open>The handler of \<open>async_accept\<close>: after an error the server does not accept again.\<close>

definition accept_done :: "nat \<Rightarrow> bool \<Rightarrow> nel \<Rightarrow> nel" where
  "accept_done c ok w =
     (let w0 = w\<lparr>accepting := remove1 c (accepting w)\<rparr> in
      if ok then
        (let s = length (socks w0);
             w1 = cbServerAccept c s (w0\<lparr>socks := socks w0 @ [new_TSock]\<rparr>);
             w2 = upd_sock s (start (socks w1 ! s)) w1
         in w2\<lparr>accepting := accepting w2 @ [c]\<rparr>)
      else w0)"

text \<open>
  \<open>baddr.from_string\<close> is a static function that returns the address it reads; \<open>baddr\<close> itself stays
  the address of all zeros.  \<open>ip_ok\<close> says whether the text is an address, otherwise it throws.
\<close>

definition asyncConnect :: "(byte list \<Rightarrow> bool) \<Rightarrow> inet_addr \<Rightarrow> nat \<Rightarrow> nel \<Rightarrow> bool \<times> nel" where
  "asyncConnect ip_ok addr i w =
     (if \<not> ip_ok (m_ip addr) then (False, w)
      else (True, upd_client i (\<lambda>x. x\<lparr>m_state := IS_CONNECTING,
               connecting := Some \<lparr>m_ip = ascii ''0.0.0.0'', m_port = m_port addr\<rparr>\<rparr>) w))"

definition client_connect :: "(byte list \<Rightarrow> bool) \<Rightarrow> inet_addr \<Rightarrow> nat \<Rightarrow> nat \<Rightarrow> nel \<Rightarrow> bool \<times> nel" where
  "client_connect ip_ok addr c i w =
     (if m_state (clients w ! i) \<noteq> DISCONNECT then (False, w)
      else asyncConnect ip_ok addr i
             (upd_client i (\<lambda>x. x\<lparr>m_connect_cb := Some c, m_inet_addr := addr\<rparr>) w))"

definition reconnect :: "(byte list \<Rightarrow> bool) \<Rightarrow> nat \<Rightarrow> nel \<Rightarrow> bool \<times> nel" where
  "reconnect ip_ok i w =
     (if m_connect_cb (clients w ! i) = None then (False, w)
      else asyncConnect ip_ok (m_inet_addr (clients w ! i)) i w)"

text \<open>The handler of \<open>async_connect\<close>.\<close>

definition connect_done :: "nat \<Rightarrow> bool \<Rightarrow> nel \<Rightarrow> nel" where
  "connect_done i ok w =
     (let cl = clients w ! i; s = cl_sock cl;
          w1 = (if ok then upd_client i (\<lambda>x. x\<lparr>m_state := CONNECTED, connecting := None\<rparr>)
                             (upd_sock s (start (socks w ! s)) w)
                else upd_client i (\<lambda>x. x\<lparr>m_state := DISCONNECT, connecting := None\<rparr>) w)
      in case m_connect_cb cl of None \<Rightarrow> w1 | Some c \<Rightarrow> cbClientConnect c ok i w1)"

definition disconnect :: "nat \<Rightarrow> nel \<Rightarrow> nel" where
  "disconnect i w = (let s = cl_sock (clients w ! i) in upd_sock s (sock_shutdown (socks w ! s)) w)"

section \<open>Updating a connection\<close>

text \<open>\<open>m[k] = v\<close> and \<open>m.erase(k)\<close>.\<close>

definition hm_put :: "'k \<Rightarrow> 'v \<Rightarrow> ('k \<times> 'v) list \<Rightarrow> ('k \<times> 'v) list" where
  "hm_put k v m = (if k \<in> fst ` set m then map (\<lambda>(k', x). if k' = k then (k', v) else (k', x)) m else m @ [(k, v)])"

definition hm_erase :: "'k \<Rightarrow> ('k \<times> 'v) list \<Rightarrow> ('k \<times> 'v) list" where
  "hm_erase k m = filter (\<lambda>(k', x). k' \<noteq> k) m"

definition findEndpoint :: "nat \<Rightarrow> connection \<Rightarrow> endpoint option" where
  "findEndpoint sock x = map_of (m_endpoints x) sock"

definition findEndpoint_addr :: "inet_addr \<Rightarrow> connection \<Rightarrow> endpoint option" where
  "findEndpoint_addr addr x = map_option snd (find (\<lambda>(k, e). m_remote_addr e = addr) (m_endpoints x))"

definition findRetryEndpoint :: "nat \<Rightarrow> connection \<Rightarrow> endpoint option" where
  "findRetryEndpoint sock x = map_of (m_retry_endpoints x) sock"

definition findRetryEndpoint_addr :: "inet_addr \<Rightarrow> connection \<Rightarrow> endpoint option" where
  "findRetryEndpoint_addr addr x = map_option snd (find (\<lambda>(k, e). m_remote_addr e = addr) (m_retry_endpoints x))"

definition eraseEndpoint :: "nat \<Rightarrow> connection \<Rightarrow> connection" where
  "eraseEndpoint sock x = x\<lparr>m_endpoints := hm_erase sock (m_endpoints x)\<rparr>"

definition new_socket :: "nat \<Rightarrow> nat \<Rightarrow> nel \<Rightarrow> nel" where
  "new_socket c sock w =
     callbackServiceConnect sock (createMsgContext sock)
       (upd_conn c (\<lambda>x. x\<lparr>m_endpoints := hm_put sock (TEndpoint_sock sock) (m_endpoints x)\<rparr>) w)"

definition processServerNewSocket :: "nat \<Rightarrow> nel \<Rightarrow> nel" where
  "processServerNewSocket c w =
     fold (new_socket c) (m_server_new_sock (conns w ! c)) (upd_conn c (\<lambda>x. x\<lparr>m_server_new_sock := []\<rparr>) w)"

text \<open>The loop shared by closed and timed-out sockets; \<open>None\<close> is the failed assertion.\<close>

fun drop_sockets :: "nat \<Rightarrow> nat list \<Rightarrow> nel \<Rightarrow> nel option" where
  "drop_sockets c [] w = Some w"
| "drop_sockets c (sock # rest) w =
     (case findEndpoint sock (conns w ! c) of
        None \<Rightarrow> None
      | Some endpoint \<Rightarrow>
          drop_sockets c rest (callbackServiceDisconnect sock (createMsgContext sock)
            (upd_conn c (\<lambda>x. let x' = eraseEndpoint sock x in
               if m_auto_retry x' then x'\<lparr>m_retry_endpoints := hm_put sock endpoint (m_retry_endpoints x')\<rparr> else x') w)))"

definition processSockTimeout :: "nat \<Rightarrow> nel \<Rightarrow> nel option" where
  "processSockTimeout c w =
     drop_sockets c (m_timeout_sock (conns w ! c)) (upd_conn c (\<lambda>x. x\<lparr>m_timeout_sock := []\<rparr>) w)"

definition processSockClosed :: "nat \<Rightarrow> nel \<Rightarrow> nel option" where
  "processSockClosed c w =
     drop_sockets c (m_closed_sock (conns w ! c)) (upd_conn c (\<lambda>x. x\<lparr>m_closed_sock := []\<rparr>) w)"

text \<open>A weak pointer to a socket locks while something still owns it.\<close>

definition alive :: "nel \<Rightarrow> nat \<Rightarrow> bool" where
  "alive w s \<longleftrightarrow>
     reading (socks w ! s) \<or> writing (socks w ! s) \<or> timer_armed (socks w ! s) \<or> posts (socks w ! s) \<noteq> [] \<or>
     list_ex (\<lambda>x. s \<in> set (m_server_new_sock x @ m_closed_sock x @ m_timeout_sock x) \<or>
        s \<in> fst ` set (m_endpoints x @ m_retry_endpoints x)) (conns w) \<or>
     list_ex (\<lambda>x. list_ex (\<lambda>i. cl_sock (clients w ! i) = s) (m_client_connect_success x @ m_client_connect_fail x)) (conns w) \<or>
     list_ex (\<lambda>cl. connecting cl \<noteq> None \<and> cl_sock cl = s) (clients w)"

definition received :: "nat \<times> cmessage \<Rightarrow> nel \<Rightarrow> nel" where
  "received m w = (case m of (s, msg) \<Rightarrow> if \<not> alive w s then w else snd (callbackMsg s (createMsgContext s) msg w))"

definition processSockReceivedMsg :: "nat \<Rightarrow> nel \<Rightarrow> nel" where
  "processSockReceivedMsg c w =
     fold received (m_new_msg (conns w ! c)) (upd_conn c (\<lambda>x. x\<lparr>m_new_msg := []\<rparr>) w)"

definition connected :: "nat \<Rightarrow> nel \<Rightarrow> nel" where
  "connected i w = (let s = cl_sock (clients w ! i) in callbackServiceConnect s (createMsgContext s) w)"

definition processClientAsyncConnectSuccess :: "nat \<Rightarrow> nel \<Rightarrow> nel" where
  "processClientAsyncConnectSuccess c w =
     fold connected (m_client_connect_success (conns w ! c)) (upd_conn c (\<lambda>x. x\<lparr>m_client_connect_success := []\<rparr>) w)"

fun retry_later :: "nat \<Rightarrow> nat list \<Rightarrow> nel \<Rightarrow> nel option" where
  "retry_later c [] w = Some w"
| "retry_later c (i # rest) w =
     (if m_auto_retry (conns w ! c) then
        (let s = cl_sock (clients w ! i) in
         case findEndpoint s (conns w ! c) of
           None \<Rightarrow> None
         | Some endpoint \<Rightarrow> retry_later c rest
             (upd_conn c (\<lambda>x. x\<lparr>m_retry_endpoints := hm_put s endpoint (m_retry_endpoints x)\<rparr>) w))
      else retry_later c rest w)"

definition processClientAsyncConnectFail :: "nat \<Rightarrow> nel \<Rightarrow> nel option" where
  "processClientAsyncConnectFail c w =
     retry_later c (m_client_connect_fail (conns w ! c)) (upd_conn c (\<lambda>x. x\<lparr>m_client_connect_fail := []\<rparr>) w)"

text \<open>
  A reconnection that starts erases the entry and then reads the endpoint through a reference into
  it: undefined, like the failed assertion.
\<close>

fun auto_retry :: "(byte list \<Rightarrow> bool) \<Rightarrow> (nat \<times> endpoint) list \<Rightarrow> nel \<Rightarrow> nel option" where
  "auto_retry ip_ok [] w = Some w"
| "auto_retry ip_ok ((s, e) # rest) w =
     (case m_client e of
        None \<Rightarrow> None
      | Some i \<Rightarrow> (case reconnect ip_ok i w of
            (True, w') \<Rightarrow> None
          | (False, w') \<Rightarrow> auto_retry ip_ok rest w'))"

definition processClientAutoRetry :: "(byte list \<Rightarrow> bool) \<Rightarrow> nat \<Rightarrow> nel \<Rightarrow> nel option" where
  "processClientAutoRetry ip_ok c w = auto_retry ip_ok (m_retry_endpoints (conns w ! c)) w"

text \<open>The parts of an update, between which the other thread may run.\<close>

datatype part = P_new | P_closed | P_timeout | P_received | P_success | P_fail | P_retry

fun run_part :: "(byte list \<Rightarrow> bool) \<Rightarrow> nat \<Rightarrow> part \<Rightarrow> nel \<Rightarrow> nel option" where
  "run_part ip_ok c P_new w = Some (processServerNewSocket c w)"
| "run_part ip_ok c P_closed w = processSockClosed c w"
| "run_part ip_ok c P_timeout w = processSockTimeout c w"
| "run_part ip_ok c P_received w = Some (processSockReceivedMsg c w)"
| "run_part ip_ok c P_success w = Some (processClientAsyncConnectSuccess c w)"
| "run_part ip_ok c P_fail w = processClientAsyncConnectFail c w"
| "run_part ip_ok c P_retry w =
     (if m_auto_retry (conns w ! c) then processClientAutoRetry ip_ok c w else Some w)"

fun run_parts :: "(byte list \<Rightarrow> bool) \<Rightarrow> nat \<Rightarrow> part list \<Rightarrow> nel \<Rightarrow> nel option" where
  "run_parts ip_ok c [] w = Some w"
| "run_parts ip_ok c (p # ps) w = (case run_part ip_ok c p w of None \<Rightarrow> None | Some w' \<Rightarrow> run_parts ip_ok c ps w')"

definition conn_update :: "(byte list \<Rightarrow> bool) \<Rightarrow> nat \<Rightarrow> nel \<Rightarrow> nel option" where
  "conn_update ip_ok c w =
     run_parts ip_ok c [P_new, P_closed, P_timeout, P_received, P_success, P_fail, P_retry] w"

section \<open>The network\<close>

definition new_connection :: "32 word \<Rightarrow> byte list \<Rightarrow> bool \<Rightarrow> connection" where
  "new_connection service_id short_name auto = \<lparr>m_service_name = short_name, m_service_id = service_id,
     m_auto_retry = auto, m_endpoints = [], m_retry_endpoints = [], m_server = False, m_client_addrs = [],
     m_closed_sock = [], m_timeout_sock = [], m_new_msg = [], m_server_new_sock = [],
     m_client_connect_success = [], m_client_connect_fail = []\<rparr>"

definition new_UnifiedNetwork :: nel where
  "new_UnifiedNetwork = \<lparr>socks = [], bound = Map.empty, clients = [], conns = [], accepting = [],
     m_connections = [], m_self_service_name = [], m_self_server_port = 0, m_self_conn = None,
     m_initialised = False, m_use_naming_service = False,
     m_cb_manager = \<lparr>m_msg_cb_array = Map.empty, m_up_cbs = Map.empty, m_down_cbs = Map.empty, m_msg_decoder = False\<rparr>,
     log = []\<rparr>"

definition addServerEndpoint :: "nat \<Rightarrow> nel \<Rightarrow> nel" where
  "addServerEndpoint c = upd_conn c (\<lambda>x. x\<lparr>m_server := True\<rparr>)"

definition addClientEndpoint :: "nat \<Rightarrow> nat \<Rightarrow> inet_addr \<Rightarrow> nel \<Rightarrow> nel" where
  "addClientEndpoint c i addr w =
     (let s = cl_sock (clients w ! i)
      in upd_conn c (\<lambda>x. x\<lparr>m_endpoints := hm_put s (TEndpoint_client i s addr) (m_endpoints x),
                            m_client_addrs := m_client_addrs x @ [addr]\<rparr>) w)"

definition hasServiceAddr :: "inet_addr \<Rightarrow> connection \<Rightarrow> bool" where
  "hasServiceAddr addr x \<longleftrightarrow> list_ex (\<lambda>r. m_ip addr = m_ip r \<and> m_port addr = m_port r) (m_client_addrs x)"

text \<open>
  \<open>listen_ok\<close> says whether the acceptor can be made, \<open>naming_ok\<close> whether the naming service can be
  connected to.
\<close>

definition init :: "bool \<Rightarrow> bool \<Rightarrow> 32 word \<Rightarrow> byte list \<Rightarrow> inet_addr \<Rightarrow> bool \<Rightarrow> nel \<Rightarrow> bool \<times> nel" where
  "init listen_ok naming_ok service_id short_name addr use_ns w =
     (if m_initialised w then (False, w)
      else if \<not> m_msg_decoder (m_cb_manager w) then (False, w)
      else
        (let w1 = w\<lparr>m_self_server_port := m_port addr, m_self_service_name := short_name,
                    m_use_naming_service := use_ns\<rparr> in
         if \<not> listen_ok then (False, w1)
         else
           (let c = length (conns w1);
                w2 = w1\<lparr>conns := conns w1 @ [new_connection service_id short_name False],
                        accepting := accepting w1 @ [c]\<rparr>;
                w3 = (addServerEndpoint c w2)\<lparr>m_connections := hm_put service_id c (m_connections w2), m_self_conn := Some c\<rparr>
            in if use_ns \<and> short_name \<noteq> ascii ''ns'' \<and> \<not> naming_ok then (False, w3)
               else (True, w3\<lparr>m_initialised := True\<rparr>))))"

definition findConnection :: "32 word \<Rightarrow> nel \<Rightarrow> nat option" where
  "findConnection service_id w = map_of (m_connections w) service_id"

definition findConnection_name :: "byte list \<Rightarrow> nel \<Rightarrow> nat option" where
  "findConnection_name name w = map_option snd (find (\<lambda>(k, c). m_service_name (conns w ! c) = name) (m_connections w))"

text \<open>The state of a new client is not initialised: the argument \<open>junk\<close>.\<close>

definition new_NetClient :: "32 word \<Rightarrow> nel \<Rightarrow> nat \<times> nel" where
  "new_NetClient junk w =
     (length (clients w),
      w\<lparr>socks := socks w @ [new_TSock],
        clients := clients w @ [\<lparr>cl_sock = length (socks w), m_state = junk, m_inet_addr = \<lparr>m_ip = [], m_port = 0\<rparr>,
          m_connect_cb = None, connecting = None\<rparr>]\<rparr>)"

definition add_address :: "(byte list \<Rightarrow> bool) \<Rightarrow> 32 word \<Rightarrow> nat \<Rightarrow> inet_addr \<Rightarrow> nel \<Rightarrow> nel" where
  "add_address ip_ok junk c addr w =
     (if hasServiceAddr addr (conns w ! c) then w
      else (case new_NetClient junk w of (i, w1) \<Rightarrow>
        (case client_connect ip_ok addr c i w1 of (ok, w2) \<Rightarrow>
           if ok then addClientEndpoint c i addr w2 else w2)))"

definition addService ::
    "(byte list \<Rightarrow> bool) \<Rightarrow> 32 word \<Rightarrow> 32 word \<Rightarrow> byte list \<Rightarrow> inet_addr list \<Rightarrow> bool \<Rightarrow> nel \<Rightarrow> nel" where
  "addService ip_ok junk service_id name addr_list auto w =
     (case (case findConnection service_id w of
              Some c \<Rightarrow> (c, w)
            | None \<Rightarrow> (length (conns w), w\<lparr>conns := conns w @ [new_connection service_id name auto],
                  m_connections := hm_put service_id (length (conns w)) (m_connections w)\<rparr>))
      of (c, w1) \<Rightarrow> fold (add_address ip_ok junk c) addr_list w1)"

fun update_all :: "(byte list \<Rightarrow> bool) \<Rightarrow> (32 word \<times> nat) list \<Rightarrow> nel \<Rightarrow> nel option" where
  "update_all ip_ok [] w = Some w"
| "update_all ip_ok ((sid, c) # rest) w =
     (case conn_update ip_ok c w of None \<Rightarrow> None | Some w' \<Rightarrow> update_all ip_ok rest w')"

definition update :: "(byte list \<Rightarrow> bool) \<Rightarrow> nel \<Rightarrow> nel option" where
  "update ip_ok w = update_all ip_ok (m_connections w) w"

definition send_to_sock :: "nat \<Rightarrow> cmessage \<Rightarrow> nel \<Rightarrow> bool \<times> nel" where
  "send_to_sock s msg w = (case sendMsg msg (socks w ! s) of (ok, x) \<Rightarrow> (ok, upd_sock s x w))"

definition conn_sendMsg_sock :: "nat \<Rightarrow> nat \<Rightarrow> cmessage \<Rightarrow> nel \<Rightarrow> bool \<times> nel" where
  "conn_sendMsg_sock c sock msg w =
     (case findEndpoint sock (conns w ! c) of None \<Rightarrow> (False, w) | Some e \<Rightarrow> send_to_sock (m_sock e) msg w)"

definition conn_sendMsg :: "nat \<Rightarrow> inet_addr \<Rightarrow> cmessage \<Rightarrow> nel \<Rightarrow> bool \<times> nel" where
  "conn_sendMsg c addr msg w =
     (case findEndpoint_addr addr (conns w ! c) of None \<Rightarrow> (False, w) | Some e \<Rightarrow> send_to_sock (m_sock e) msg w)"

definition net_send :: "32 word \<Rightarrow> cmessage \<Rightarrow> inet_addr \<Rightarrow> nel \<Rightarrow> bool \<times> nel" where
  "net_send service_id msg addr w =
     (case findConnection service_id w of None \<Rightarrow> (False, w) | Some c \<Rightarrow> conn_sendMsg c addr msg w)"

definition setServiceName :: "byte list \<Rightarrow> connection \<Rightarrow> connection" where
  "setServiceName name x = x\<lparr>m_service_name := name\<rparr>"

definition setAutoRetry :: "bool \<Rightarrow> connection \<Rightarrow> connection" where
  "setAutoRetry auto x = x\<lparr>m_auto_retry := auto\<rparr>"

definition setServiceID :: "32 word \<Rightarrow> connection \<Rightarrow> connection" where
  "setServiceID service_id x = x\<lparr>m_service_id := service_id\<rparr>"

text \<open>The naming service never knows of a service.\<close>

definition getRegisterService :: "(byte list \<times> 32 word \<times> inet_addr list) list" where
  "getRegisterService = []"

definition net_connect :: "(byte list \<Rightarrow> bool) \<Rightarrow> 32 word \<Rightarrow> nel \<Rightarrow> nel" where
  "net_connect ip_ok junk w =
     (if \<not> m_use_naming_service w then w
      else fold (\<lambda>(name, sid, addrs) v. if name = m_self_service_name v then v else addService ip_ok junk sid name addrs False v)
             getRegisterService w)"

end
