(* ===== verification/Nel_Sessions.thy ===== *)
theory Nel_Sessions
  imports Nel_Network "HOL-Library.Multiset"
begin

text \<open>
  Runs of the network of \<open>nel\<close>: steps of the other thread between updates, the invariant of
  connections, sockets and clients, and what it says of the sessions reported to the user; and what
  goes wrong when completions fall within an update.
\<close>

section \<open>Runs\<close>

text \<open>
  A run in which no completion falls between the parts of an update, and no service retries.
\<close>

inductive nel_step :: "(byte_buf \<Rightarrow> cmessage list) \<Rightarrow> (byte list \<Rightarrow> bool) \<Rightarrow> nel \<Rightarrow> nel \<Rightarrow> bool"
  for dec :: "byte_buf \<Rightarrow> cmessage list" and ip_ok :: "byte list \<Rightarrow> bool" where
  accept: "c \<in> set (accepting w) \<Longrightarrow> nel_step dec ip_ok w (accept_done c ok w)"
| socket: "s < length (socks w) \<Longrightarrow> sock_event dec s e w = Some w' \<Longrightarrow> nel_step dec ip_ok w w'"
| connect: "i < length (clients w) \<Longrightarrow> connecting (clients w ! i) \<noteq> None \<Longrightarrow> nel_step dec ip_ok w (connect_done i ok w)"
| update: "update ip_ok w = Some w' \<Longrightarrow> nel_step dec ip_ok w w'"
| service: "nel_step dec ip_ok w (addService ip_ok junk service_id name addrs False w)"
| send: "nel_step dec ip_ok w (snd (net_send service_id msg addr w))"
| init: "nel_step dec ip_ok w (snd (init listen_ok naming_ok service_id name addr use_ns w))"
| callbacks: "nel_step dec ip_ok w (w\<lparr>m_cb_manager := m\<rparr>)"

definition nel_reachable :: "(byte_buf \<Rightarrow> cmessage list) \<Rightarrow> (byte list \<Rightarrow> bool) \<Rightarrow> nel \<Rightarrow> bool" where
  "nel_reachable dec ip_ok w \<longleftrightarrow> (nel_step dec ip_ok)\<^sup>*\<^sup>* new_UnifiedNetwork w"

text \<open>The connect and disconnect callbacks about a socket, true for a connect.\<close>

definition updowns :: "nat \<Rightarrow> net_event list \<Rightarrow> bool list" where
  "updowns s l = concat (map (\<lambda>e. case e of
      Up t cb \<Rightarrow> if t = s then [True] else [] | Down t cb \<Rightarrow> if t = s then [False] else [] | Msg t m cb \<Rightarrow> []) l)"

lemma updowns_simps [simp]:
  "updowns s [] = []" "updowns s (l @ l') = updowns s l @ updowns s l'"
  "updowns s [Up t cb] = (if t = s then [True] else [])"
  "updowns s [Down t cb] = (if t = s then [False] else [])"
  "updowns s [Msg t m cb] = []"
  by (simp_all add: updowns_def)

section \<open>The invariant\<close>

text \<open>
  \<open>P\<close> and \<open>N\<close> are what an update of connection \<open>a\<close> has taken out of the lists of closed and of new
  sockets and has yet to process.
\<close>

definition closing :: "nat \<Rightarrow> nat list \<Rightarrow> nel \<Rightarrow> nat \<Rightarrow> nat list" where
  "closing a P w c = (if c = a then P else []) @ m_closed_sock (conns w ! c) @ m_timeout_sock (conns w ! c)"

definition fresh :: "nat \<Rightarrow> nat list \<Rightarrow> nel \<Rightarrow> nat \<Rightarrow> nat list" where
  "fresh a N w c = (if c = a then N else []) @ m_server_new_sock (conns w ! c)"

definition eps :: "nel \<Rightarrow> nat \<Rightarrow> nat set" where
  "eps w c = fst ` set (m_endpoints (conns w ! c))"

definition client_socks :: "nel \<Rightarrow> nat set" where
  "client_socks w = cl_sock ` set (clients w)"

definition conn_ok :: "nat \<Rightarrow> nat list \<Rightarrow> nat list \<Rightarrow> nel \<Rightarrow> nat \<Rightarrow> bool" where
  "conn_ok a P N w c \<longleftrightarrow>
     distinct (closing a P w c) \<and> distinct (fresh a N w c) \<and> \<not> m_auto_retry (conns w ! c) \<and>
     (\<forall>s\<in>set (closing a P w c). bound w s = Some c \<and> m_is_closed (socks w ! s) \<and>
        (s \<in> set (fresh a N w c) \<or> s \<in> eps w c)) \<and>
     (\<forall>s\<in>set (fresh a N w c). bound w s = Some c \<and> s \<notin> client_socks w) \<and>
     (\<forall>i\<in>set (m_client_connect_success (conns w ! c)). i < length (clients w)) \<and>
     (\<forall>s\<in>eps w c. s < length (socks w))"

definition session_ok :: "nat \<Rightarrow> nat list \<Rightarrow> nel \<Rightarrow> nat \<Rightarrow> nat \<Rightarrow> bool" where
  "session_ok a N w s c \<longleftrightarrow>
     s \<in> set (fresh a N w c) \<and> s \<notin> eps w c \<and> updowns s (log w) = [] \<or>
     s \<notin> set (fresh a N w c) \<and> s \<in> eps w c \<and> updowns s (log w) = [True] \<or>
     s \<notin> set (fresh a N w c) \<and> s \<notin> eps w c \<and> updowns s (log w) = [True, False] \<and> m_is_closed (socks w ! s)"

definition sock_ok :: "nat \<Rightarrow> nat list \<Rightarrow> nel \<Rightarrow> nat \<Rightarrow> bool" where
  "sock_ok a N w s \<longleftrightarrow>
     (if s \<in> client_socks w then \<forall>c. bound w s = Some c \<longrightarrow> m_is_closed (socks w ! s) \<or> s \<in> eps w c
      else \<exists>c. bound w s = Some c \<and> session_ok a N w s c)"

definition client_ok :: "nel \<Rightarrow> net_client \<Rightarrow> bool" where
  "client_ok w x \<longleftrightarrow> cl_sock x < length (socks w) \<and>
     (connecting x \<noteq> None \<longrightarrow> bound w (cl_sock x) = None \<and>
        (\<exists>c. m_connect_cb x = Some c \<and> c < length (conns w) \<and> cl_sock x \<in> eps w c))"

definition ninv :: "nat \<Rightarrow> nat list \<Rightarrow> nat list \<Rightarrow> nel \<Rightarrow> bool" where
  "ninv a P N w \<longleftrightarrow>
     (\<forall>c<length (conns w). conn_ok a P N w c) \<and>
     (\<forall>s<length (socks w). sock_ok a N w s) \<and>
     (\<forall>s\<ge>length (socks w). bound w s = None \<and> updowns s (log w) = []) \<and>
     (\<forall>x\<in>set (clients w). client_ok w x) \<and> distinct (map cl_sock (clients w)) \<and>
     (\<forall>s c. bound w s = Some c \<longrightarrow> c < length (conns w)) \<and>
     (\<forall>(sid, c)\<in>set (m_connections w). c < length (conns w)) \<and>
     (\<forall>c\<in>set (accepting w). c < length (conns w))"

lemmas ninv_defs = ninv_def conn_ok_def sock_ok_def session_ok_def client_ok_def closing_def fresh_def eps_def
  client_socks_def

lemma conns_upd_conn [simp]:
  "conns (upd_conn c f w) = (conns w)[c := f (conns w ! c)]"
  "socks (upd_conn c f w) = socks w" "bound (upd_conn c f w) = bound w" "clients (upd_conn c f w) = clients w"
  "log (upd_conn c f w) = log w" "m_connections (upd_conn c f w) = m_connections w"
  "accepting (upd_conn c f w) = accepting w" "m_cb_manager (upd_conn c f w) = m_cb_manager w"
  by (simp_all add: upd_conn_def)

lemma socks_upd_sock [simp]:
  "socks (upd_sock s x w) = (socks w)[s := x]"
  "conns (upd_sock s x w) = conns w" "bound (upd_sock s x w) = bound w" "clients (upd_sock s x w) = clients w"
  "log (upd_sock s x w) = log w" "m_connections (upd_sock s x w) = m_connections w"
  "accepting (upd_sock s x w) = accepting w" "m_cb_manager (upd_sock s x w) = m_cb_manager w"
  by (simp_all add: upd_sock_def)

lemma log_emit [simp]:
  "log (emit e w) = log w @ [e]"
  "conns (emit e w) = conns w" "socks (emit e w) = socks w" "bound (emit e w) = bound w"
  "clients (emit e w) = clients w" "m_connections (emit e w) = m_connections w"
  "accepting (emit e w) = accepting w" "m_cb_manager (emit e w) = m_cb_manager w"
  by (simp_all add: emit_def)

lemma ninv_unused: "ninv a [] [] w \<longleftrightarrow> ninv 0 [] [] w"
  by (simp add: ninv_def conn_ok_def sock_ok_def session_ok_def closing_def fresh_def)

lemma keys_hm_put [simp]: "fst ` set (hm_put k v m) = insert k (fst ` set m)"
proof -
  have "fst ` set (map (\<lambda>(k', x). if k' = k then (k', v) else (k', x)) m) = fst ` set m"
    by (force simp: image_iff split: if_splits)
  then show ?thesis by (auto simp: hm_put_def)
qed

lemma keys_hm_erase [simp]: "fst ` set (hm_erase k m) = fst ` set m - {k}"
  by (force simp: hm_erase_def image_iff)

lemma findEndpoint_iff: "(findEndpoint s (conns w ! c) \<noteq> None) \<longleftrightarrow> s \<in> eps w c"
  by (simp add: findEndpoint_def eps_def map_of_eq_None_iff)

text \<open>What a connection and a socket depend on.\<close>

lemma conn_ok_frame:
  assumes "conn_ok a P N w k" "closing b P' w' k = closing a P w k" "fresh b N' w' k = fresh a N w k"
    and "m_auto_retry (conns w' ! k) = m_auto_retry (conns w ! k)"
    and "\<And>s. bound w s \<noteq> None \<Longrightarrow> bound w' s = bound w s"
    and "\<And>s. bound w s \<noteq> None \<Longrightarrow> m_is_closed (socks w ! s) \<Longrightarrow> m_is_closed (socks w' ! s)"
    and "eps w k \<subseteq> eps w' k" "\<And>s. bound w s \<noteq> None \<Longrightarrow> s \<in> client_socks w' \<Longrightarrow> s \<in> client_socks w"
    and "set (m_client_connect_success (conns w' ! k)) \<subseteq> set (m_client_connect_success (conns w ! k)) \<union> {..<length (clients w')}"
    and "length (clients w) \<le> length (clients w')"
    and "\<And>s. s \<in> eps w' k \<Longrightarrow> s \<in> eps w k \<or> s < length (socks w')" "length (socks w) \<le> length (socks w')"
  shows "conn_ok b P' N' w' k"
proof -
  have fr: "bound w s = Some k \<and> s \<notin> client_socks w" if "s \<in> set (fresh a N w k)" for s
    using assms(1) that by (simp add: conn_ok_def)
  have cl: "bound w s = Some k \<and> m_is_closed (socks w ! s) \<and> (s \<in> set (fresh a N w k) \<or> s \<in> eps w k)"
    if "s \<in> set (closing a P w k)" for s
    using assms(1) that by (simp add: conn_ok_def)
  have "bound w' s = Some k \<and> s \<notin> client_socks w'" if "s \<in> set (fresh a N w k)" for s
    using fr [OF that] assms(5,8) by (metis option.simps(3))
  moreover have "bound w' s = Some k \<and> m_is_closed (socks w' ! s) \<and> (s \<in> set (fresh a N w k) \<or> s \<in> eps w' k)"
    if "s \<in> set (closing a P w k)" for s
    using cl [OF that] assms(5,6,7) by (metis option.simps(3) subsetD)
  moreover have "i < length (clients w')" if "i \<in> set (m_client_connect_success (conns w' ! k))" for i
  proof -
    have "\<forall>i\<in>set (m_client_connect_success (conns w ! k)). i < length (clients w)"
      using assms(1) by (simp add: conn_ok_def)
    then show ?thesis using that assms(9,10) by fastforce
  qed
  moreover have "s < length (socks w')" if "s \<in> eps w' k" for s
  proof -
    have "\<forall>s\<in>eps w k. s < length (socks w)" using assms(1) by (simp add: conn_ok_def)
    with assms(11) [OF that] assms(12) show ?thesis by fastforce
  qed
  ultimately show ?thesis using assms(1-4) by (simp add: conn_ok_def)
qed

lemma session_ok_frame:
  assumes "session_ok a N w s c" "s \<in> set (fresh b N' w' c) \<longleftrightarrow> s \<in> set (fresh a N w c)" "s \<in> eps w' c \<longleftrightarrow> s \<in> eps w c"
    and "updowns s (log w') = updowns s (log w)"
    and "m_is_closed (socks w ! s) \<Longrightarrow> m_is_closed (socks w' ! s)"
  shows "session_ok b N' w' s c"
  using assms by (simp add: session_ok_def) metis

lemma ninvD:
  assumes "ninv a P N w"
  shows "\<And>k. k < length (conns w) \<Longrightarrow> conn_ok a P N w k"
    and "\<And>s. s < length (socks w) \<Longrightarrow> sock_ok a N w s"
    and "\<And>s. length (socks w) \<le> s \<Longrightarrow> bound w s = None \<and> updowns s (log w) = []"
    and "\<And>x. x \<in> set (clients w) \<Longrightarrow> client_ok w x"
    and "distinct (map cl_sock (clients w))"
    and "\<And>s c. bound w s = Some c \<Longrightarrow> s < length (socks w) \<and> c < length (conns w)"
    and "\<And>sid c. (sid, c) \<in> set (m_connections w) \<Longrightarrow> c < length (conns w)"
    and "\<And>c. c \<in> set (accepting w) \<Longrightarrow> c < length (conns w)"
proof -
  show "s < length (socks w) \<and> c < length (conns w)" if "bound w s = Some c" for s c
    using assms that unfolding ninv_def by (metis linorder_not_le option.simps(3))
qed (use assms in \<open>auto simp: ninv_def\<close>)

text \<open>A change of a socket that does not reopen it.\<close>

lemma closed_upd:
  "m_is_closed (xs ! t) \<Longrightarrow> (m_is_closed (xs ! s) \<longrightarrow> m_is_closed x) \<Longrightarrow> m_is_closed (xs[s := x] ! t)"
  by (cases "t = s"; cases "s < length xs") (auto simp: list_update_beyond)

lemma ninv_upd_sock:
  assumes inv: "ninv a P N w" and x: "m_is_closed (socks w ! s) \<longrightarrow> m_is_closed x"
  shows "ninv a P N (upd_sock s x w)"
proof -
  let ?w = "upd_sock s x w"
  have c: "m_is_closed ((socks w)[s := x] ! t)" if "m_is_closed (socks w ! t)" for t
    using closed_upd that x by blast
  have views: "closing a P ?w = closing a P w" "fresh a N ?w = fresh a N w" "eps ?w = eps w"
      "client_socks ?w = client_socks w"
    by (simp_all add: fun_eq_iff closing_def fresh_def eps_def client_socks_def)
  have "conn_ok a P N ?w k" if "k < length (conns w)" for k
    by (rule conn_ok_frame [OF ninvD(1) [OF inv that]]) (simp_all add: views c)
  moreover have "sock_ok a N ?w t" if "t < length (socks w)" for t
  proof -
    have "session_ok a N ?w t k" if "session_ok a N w t k" for k
      by (rule session_ok_frame [OF that]) (simp_all add: views c)
    with ninvD(2) [OF inv that] c show ?thesis by (auto simp: sock_ok_def views split: if_splits)
  qed
  moreover have "client_ok ?w y" if "y \<in> set (clients w)" for y
    using ninvD(4) [OF inv that] by (simp add: client_ok_def views)
  ultimately show ?thesis using inv by (simp add: ninv_def)
qed

text \<open>An update of a connection that leaves a member as it is.\<close>

lemma field_upd_conn: "(\<And>x. g (f x) = g x) \<Longrightarrow> g (conns (upd_conn c f w) ! k) = g (conns w ! k)"
  by (cases "k = c"; cases "c < length (conns w)") (auto simp: list_update_beyond)

lemma views_upd_conn:
  "(\<And>x. m_endpoints (f x) = m_endpoints x) \<Longrightarrow> eps (upd_conn c f w) = eps w"
  "(\<And>x. m_server_new_sock (f x) = m_server_new_sock x) \<Longrightarrow> fresh a N (upd_conn c f w) = fresh a N w"
  "(\<And>x. m_closed_sock (f x) = m_closed_sock x) \<Longrightarrow> (\<And>x. m_timeout_sock (f x) = m_timeout_sock x) \<Longrightarrow>
     closing a P (upd_conn c f w) = closing a P w"
  "client_socks (upd_conn c f w) = client_socks w"
  by (simp_all add: fun_eq_iff eps_def fresh_def closing_def client_socks_def field_upd_conn del: conns_upd_conn(1))

text \<open>A report of the end of a socket.\<close>

lemma views_sock:
  "closing a P (upd_sock s x w) = closing a P w" "fresh a N (upd_sock s x w) = fresh a N w"
  "eps (upd_sock s x w) = eps w" "client_socks (upd_sock s x w) = client_socks w"
  by (simp_all add: fun_eq_iff closing_def fresh_def eps_def client_socks_def)

lemma ninv_notify_end:
  assumes inv: "ninv a P N w" and b: "bound w s = Some c" "\<not> m_is_closed (socks w ! s)" "m_is_closed x"
    and n: "n = Note_closed \<or> n = Note_timeout"
  shows "ninv a P N (notify c s n (upd_sock s x w))"
proof -
  let ?v = "upd_sock s x w" let ?w = "notify c s n ?v"
  have s: "s < length (socks w)" and cl: "c < length (conns w)" using ninvD(6) [OF inv b(1)] by auto
  have inv': "ninv a P N ?v" using b by (intro ninv_upd_sock [OF inv]) auto
  have new: "s \<notin> set (closing a P w c)" using ninvD(1) [OF inv cl] b(2) by (auto simp: conn_ok_def)
  have here: "s \<in> set (fresh a N w c) \<or> s \<in> eps w c"
    using ninvD(2) [OF inv s] b by (auto simp: sock_ok_def session_ok_def split: if_splits)
  have same: "socks ?w = socks ?v" "bound ?w = bound ?v" "clients ?w = clients ?v" "log ?w = log ?v"
      "m_connections ?w = m_connections ?v" "accepting ?w = accepting ?v" "length (conns ?w) = length (conns ?v)"
    using n by (auto simp: cbSockClosed_def cbSockTimeout_def)
  have views: "fresh a N ?w = fresh a N ?v" "eps ?w = eps ?v" "client_socks ?w = client_socks ?v"
    using n by (auto simp: views_upd_conn cbSockClosed_def cbSockTimeout_def)
  have rest: "m_auto_retry (conns ?w ! k) = m_auto_retry (conns ?v ! k)"
      "m_client_connect_success (conns ?w ! k) = m_client_connect_success (conns ?v ! k)" for k
    using n by (auto simp: cbSockClosed_def cbSockTimeout_def field_upd_conn simp del: conns_upd_conn(1))
  have "conn_ok a P N ?w k" if k: "k < length (conns w)" for k
  proof (cases "k = c")
    case True
    have old: "conn_ok a P N ?v c" using ninvD(1) [OF inv', of c] cl by simp
    have "distinct (closing a P ?w c)" "set (closing a P ?w c) = insert s (set (closing a P ?v c))"
      using n cl new old unfolding conn_ok_def
      by (auto simp: closing_def cbSockClosed_def cbSockTimeout_def split: if_splits)
    with old True here b s show ?thesis by (simp add: conn_ok_def views views_sock same rest)
  next
    case False
    have "closing a P ?w k = closing a P ?v k"
      using n False by (auto simp: closing_def cbSockClosed_def cbSockTimeout_def nth_list_update)
    then show ?thesis
      by (intro conn_ok_frame [OF ninvD(1) [OF inv', of k]]) (use k in \<open>simp_all add: views same rest\<close>)
  qed
  moreover have "sock_ok a N ?w t" if "t < length (socks w)" for t
  proof -
    have "session_ok a N ?w t k" if "session_ok a N ?v t k" for k
      by (rule session_ok_frame [OF that]) (simp_all add: views same)
    with ninvD(2) [OF inv', of t] that show ?thesis by (auto simp: sock_ok_def views same split: if_splits)
  qed
  moreover have "client_ok ?w y" if "y \<in> set (clients w)" for y
    using ninvD(4) [OF inv', of y] that by (simp add: client_ok_def views same)
  ultimately show ?thesis using inv' unfolding ninv_def same by simp
qed

lemma ninv_new_msg:
  assumes inv: "ninv a P N w"
  shows "ninv a P N (upd_conn c (\<lambda>x. x\<lparr>m_new_msg := f x\<rparr>) w)"
proof -
  let ?w = "upd_conn c (\<lambda>x. x\<lparr>m_new_msg := f x\<rparr>) w"
  have views: "closing a P ?w = closing a P w" "fresh a N ?w = fresh a N w" "eps ?w = eps w"
      "client_socks ?w = client_socks w"
    by (simp_all add: views_upd_conn)
  have "conn_ok a P N ?w k" if "k < length (conns w)" for k
    by (rule conn_ok_frame [OF ninvD(1) [OF inv that]]) (simp_all add: views field_upd_conn del: conns_upd_conn(1))
  moreover have "sock_ok a N ?w t" if "t < length (socks w)" for t
  proof -
    have "session_ok a N ?w t k" if "session_ok a N w t k" for k
      by (rule session_ok_frame [OF that]) (simp_all add: views)
    with ninvD(2) [OF inv that] show ?thesis by (auto simp: sock_ok_def views split: if_splits)
  qed
  moreover have "client_ok ?w y" if "y \<in> set (clients w)" for y
    using ninvD(4) [OF inv that] by (simp add: client_ok_def views)
  ultimately show ?thesis using inv by (simp add: ninv_def)
qed

lemma step_notes:
  assumes "sock_step dec e x = Some (ns, y)"
  shows "(m_is_closed x \<longrightarrow> m_is_closed y) \<and> ((\<exists>ms. ns = map Note_msg ms) \<or>
    (ns = [Note_closed] \<or> ns = [Note_timeout]) \<and> \<not> m_is_closed x \<and> m_is_closed y)"
  using assms by (cases "(dec, e, x)" rule: sock_step.cases; cases "posts x"; cases "hd (posts x)")
    (auto simp: sock_defs split: if_splits option.splits CLOSED_TYPE.splits)

lemma ninv_messages: "ninv a P N w \<Longrightarrow> ninv a P N (fold (notify c s) (map Note_msg ms) w)"
  by (induction ms arbitrary: w) (simp_all add: cbReceivedMsg_def ninv_new_msg)

lemma ninv_sock_event:
  assumes inv: "ninv a P N w" and ev: "sock_event dec s e w = Some w'"
  shows "ninv a P N w'"
proof -
  obtain ns x where st: "sock_step dec e (socks w ! s) = Some (ns, x)"
    using ev by (auto simp: sock_event_def split: option.splits)
  note sn = step_notes [OF st]
  show ?thesis
  proof (cases "bound w s")
    case None
    with ev st have "w' = upd_sock s x w" by (auto simp: sock_event_def split: if_splits)
    with inv sn show ?thesis by (simp add: ninv_upd_sock)
  next
    case (Some c)
    with ev st have w': "w' = fold (notify c s) ns (upd_sock s x w)" by (simp add: sock_event_def)
    from sn consider ms where "ns = map Note_msg ms" | n where "ns = [n]" "n = Note_closed \<or> n = Note_timeout"
      "\<not> m_is_closed (socks w ! s)" "m_is_closed x" by blast
    then show ?thesis
    proof cases
      case 1
      with inv sn show ?thesis unfolding w' by (simp add: ninv_messages ninv_upd_sock)
    next
      case 2
      have "fold (notify c s) ns (upd_sock s x w) = notify c s n (upd_sock s x w)" using 2(1) by simp
      with ninv_notify_end [OF inv Some 2(3,4,2)] show ?thesis unfolding w' by simp
    qed
  qed
qed

section \<open>Updates keep the invariant\<close>

text \<open>A callback about a client, a message, or nothing a session is made of.\<close>

lemma ninv_emit:
  assumes inv: "ninv a P N w" and e: "\<And>s. updowns s [e] = [] \<or> s \<in> client_socks w \<and> s < length (socks w)"
  shows "ninv a P N (emit e w)"
proof -
  let ?w = "emit e w"
  have views: "closing a P ?w = closing a P w" "fresh a N ?w = fresh a N w" "eps ?w = eps w"
      "client_socks ?w = client_socks w"
    by (simp_all add: fun_eq_iff closing_def fresh_def eps_def client_socks_def)
  have "conn_ok a P N ?w k" if "k < length (conns w)" for k
    by (rule conn_ok_frame [OF ninvD(1) [OF inv that]]) (simp_all add: views)
  moreover have "sock_ok a N ?w t" if "t < length (socks w)" for t
  proof (cases "t \<in> client_socks w")
    case True
    with ninvD(2) [OF inv that] show ?thesis by (simp add: sock_ok_def views)
  next
    case False
    then have "updowns t (log ?w) = updowns t (log w)" using e [of t] by auto
    then have "session_ok a N ?w t k" if "session_ok a N w t k" for k
      by (intro session_ok_frame [OF that]) (simp_all add: views)
    with ninvD(2) [OF inv that] show ?thesis by (auto simp: sock_ok_def views split: if_splits)
  qed
  moreover have "client_ok ?w y" if "y \<in> set (clients w)" for y
    using ninvD(4) [OF inv that] by (simp add: client_ok_def views)
  moreover have "updowns s (log ?w) = []" if "length (socks w) \<le> s" for s
    using ninvD(3) [OF inv that] e [of s] that by auto
  ultimately show ?thesis using inv by (simp add: ninv_def)
qed

text \<open>An update of the connection whose lists are being processed.\<close>

lemma ninv_upd_conn:
  assumes inv: "ninv a P N w" and c: "c < length (conns w)"
    and conn: "conn_ok c P' N' (upd_conn c f w) c"
    and others: "\<And>k. k \<noteq> c \<Longrightarrow> k = a \<Longrightarrow> P = [] \<and> N = []"
    and l: "\<And>s. updowns s l \<noteq> [] \<Longrightarrow> s < length (socks w) \<and> (s \<in> client_socks w \<or> bound w s = Some c)"
    and session: "\<And>s. bound w s = Some c \<Longrightarrow> s \<notin> client_socks w \<Longrightarrow> session_ok a N w s c \<Longrightarrow>
       session_ok c N' ((upd_conn c f w)\<lparr>log := log w @ l\<rparr>) s c"
    and eps: "\<And>s. s \<in> client_socks w \<Longrightarrow> s \<in> eps w c \<Longrightarrow> s \<in> eps (upd_conn c f w) c \<or>
       bound w s \<noteq> None \<and> m_is_closed (socks w ! s)"
  shows "ninv c P' N' ((upd_conn c f w)\<lparr>log := log w @ l\<rparr>)"
proof -
  let ?v = "upd_conn c f w" let ?w = "?v\<lparr>log := log w @ l\<rparr>"
  have same: "closing c P' ?w = closing c P' ?v" "fresh c N' ?w = fresh c N' ?v" "eps ?w = eps ?v"
      "client_socks ?w = client_socks w"
    by (simp_all add: fun_eq_iff closing_def fresh_def eps_def client_socks_def)
  have views: "closing c P' ?v k = closing a P w k" "fresh c N' ?v k = fresh a N w k" "eps ?v k = eps w k" if "k \<noteq> c" for k
    using that others [OF that] by (auto simp: closing_def fresh_def eps_def)
  have "conn_ok c P' N' ?w k" if "k < length (conns w)" for k
  proof (cases "k = c")
    case True
    have "conn_ok c P' N' ?w c" by (rule conn_ok_frame [OF conn]) (simp_all add: same, simp add: client_socks_def)
    with True show ?thesis by simp
  next
    case False
    show ?thesis
      by (rule conn_ok_frame [OF ninvD(1) [OF inv that]]) (use False in \<open>simp_all add: same views\<close>)
  qed
  moreover have "sock_ok c N' ?w s" if "s < length (socks w)" for s
  proof (cases "s \<in> client_socks w")
    case True
    with ninvD(2) [OF inv that] eps [OF True] views(3) show ?thesis
      by (fastforce simp: sock_ok_def same)
  next
    case False
    with ninvD(2) [OF inv that] obtain k where k: "bound w s = Some k" "session_ok a N w s k"
      by (auto simp: sock_ok_def)
    have "session_ok c N' ?w s k"
    proof (cases "k = c")
      case other: False
      have "updowns s l = []" using l [of s] False k(1) other by auto
      then show ?thesis
        by (intro session_ok_frame [OF k(2)]) (simp_all add: same views [OF other])
    qed (use k session False in auto)
    with k False show ?thesis by (auto simp: sock_ok_def same)
  qed
  moreover have "client_ok ?w y" if y: "y \<in> set (clients w)" for y
  proof -
    have "cl_sock y \<in> eps w k \<Longrightarrow> bound w (cl_sock y) = None \<Longrightarrow> cl_sock y \<in> eps ?v k" for k
      using y eps [of "cl_sock y"] views(3) [of k] by (cases "k = c") (auto simp: client_socks_def)
    with ninvD(4) [OF inv y] show ?thesis by (auto simp: client_ok_def same)
  qed
  moreover have "updowns s (log ?w) = []" if "length (socks w) \<le> s" for s
    using ninvD(3) [OF inv that] l [of s] that by auto
  ultimately show ?thesis using inv by (simp add: ninv_def)
qed

lemma ninv_swap_new:
  assumes inv: "ninv c [] [] w" and c: "c < length (conns w)"
  shows "ninv c [] (m_server_new_sock (conns w ! c)) (upd_conn c (\<lambda>x. x\<lparr>m_server_new_sock := []\<rparr>) w)"
proof -
  let ?v = "upd_conn c (\<lambda>x. x\<lparr>m_server_new_sock := []\<rparr>) w" let ?N = "m_server_new_sock (conns w ! c)"
  have views: "fresh c ?N ?v c = fresh c [] w c" "closing c [] ?v = closing c [] w" "eps ?v = eps w"
      "client_socks ?v = client_socks w"
    using c by (simp_all add: fresh_def views_upd_conn)
  have "conn_ok c [] ?N ?v c"
    by (rule conn_ok_frame [OF ninvD(1) [OF inv c]]) (use c in \<open>simp_all add: views\<close>)
  moreover have "session_ok c ?N (?v\<lparr>log := log w @ []\<rparr>) s c" if "session_ok c [] w s c" for s
    by (rule session_ok_frame [OF that]) (use views c in \<open>simp_all add: fresh_def eps_def\<close>)
  ultimately have "ninv c [] ?N (?v\<lparr>log := log w @ []\<rparr>)"
    by (intro ninv_upd_conn [OF inv c]) (auto simp: views)
  then show ?thesis by (simp add: upd_conn_def)
qed

lemma ninv_new_socket:
  assumes inv: "ninv c [] (s # N) w" and c: "c < length (conns w)"
  shows "ninv c [] N (new_socket c s w)"
proof -
  let ?f = "\<lambda>x. x\<lparr>m_endpoints := hm_put s (TEndpoint_sock s) (m_endpoints x)\<rparr>"
  let ?v = "upd_conn c ?f w"
  have ok: "conn_ok c [] (s # N) w c" by (rule ninvD(1) [OF inv c])
  then have s: "bound w s = Some c" "s \<notin> client_socks w" "s \<notin> set (fresh c N w c)"
    by (auto simp: conn_ok_def fresh_def)
  have views: "fresh c N ?v = fresh c N w" "closing c [] ?v = closing c [] w" "client_socks ?v = client_socks w"
      "eps ?v c = insert s (eps w c)"
    using c by (simp_all add: views_upd_conn, simp add: eps_def)
  have fr: "fresh c (s # N) w c = s # fresh c N w c" by (simp add: fresh_def)
  have sl: "s < length (socks w)" using ninvD(6) [OF inv s(1)] by simp
  have session: "session_ok c (s # N) w s c"
    using ninvD(2) [OF inv sl] s by (auto simp: sock_ok_def)
  have "conn_ok c [] N ?v c"
    using ok c sl unfolding conn_ok_def views fr by (auto simp: views)
  moreover have "session_ok c N (?v\<lparr>log := log w @ [Up s cb]\<rparr>) t c" if "session_ok c (s # N) w t c" for t cb
  proof -
    have eq: "fresh c N (?v\<lparr>log := log w @ [Up s cb]\<rparr>) c = fresh c N w c" "eps (?v\<lparr>log := log w @ [Up s cb]\<rparr>) c = insert s (eps w c)"
      using c by (simp_all add: fresh_def eps_def)
    show ?thesis
      using that s(3) session unfolding session_ok_def eq fr by (cases "t = s") (auto simp: upd_conn_def)
  qed
  ultimately have "ninv c [] N (?v\<lparr>log := log w @ [Up s cb]\<rparr>)" for cb
    using s sl by (intro ninv_upd_conn [OF inv c]) (auto simp: views updowns_def split: if_splits)
  then show ?thesis by (simp add: new_socket_def callbackServiceConnect_def emit_def)
qed

lemma frame_new_socket [simp]:
  "length (conns (new_socket c s w)) = length (conns w)"
  "c < length (conns w) \<Longrightarrow> m_server_new_sock (conns (new_socket c s w) ! c) = m_server_new_sock (conns w ! c)"
  by (simp_all add: new_socket_def callbackServiceConnect_def)

lemma ninv_new_sockets:
  "ninv c [] N w \<Longrightarrow> c < length (conns w) \<Longrightarrow> ninv c [] [] (fold (new_socket c) N w) \<and>
     length (conns (fold (new_socket c) N w)) = length (conns w) \<and>
     m_server_new_sock (conns (fold (new_socket c) N w) ! c) = m_server_new_sock (conns w ! c)"
  by (induction N arbitrary: w) (simp_all add: ninv_new_socket)

lemma ninv_processServerNewSocket:
  assumes inv: "ninv c [] [] w" and c: "c < length (conns w)"
  shows "ninv c [] [] (processServerNewSocket c w) \<and> length (conns (processServerNewSocket c w)) = length (conns w) \<and>
    m_server_new_sock (conns (processServerNewSocket c w) ! c) = []"
  using ninv_new_sockets [OF ninv_swap_new [OF inv c]] c by (simp add: processServerNewSocket_def)

lemma ninv_swap_closed:
  assumes inv: "ninv c [] [] w" and c: "c < length (conns w)"
  shows "ninv c (m_closed_sock (conns w ! c)) [] (upd_conn c (\<lambda>x. x\<lparr>m_closed_sock := []\<rparr>) w)"
    and "ninv c (m_timeout_sock (conns w ! c)) [] (upd_conn c (\<lambda>x. x\<lparr>m_timeout_sock := []\<rparr>) w)"
proof -
  have all: "ninv c P [] (upd_conn c f w)"
    if "mset (closing c P (upd_conn c f w) c) = mset (closing c [] w c)"
      and f: "\<And>x. m_endpoints (f x) = m_endpoints x" "\<And>x. m_server_new_sock (f x) = m_server_new_sock x"
        "\<And>x. m_auto_retry (f x) = m_auto_retry x" "\<And>x. m_client_connect_success (f x) = m_client_connect_success x"
    for P f
  proof -
    let ?v = "upd_conn c f w"
    have views: "fresh c [] ?v = fresh c [] w" "eps ?v = eps w" "client_socks ?v = client_socks w"
        "m_auto_retry (conns ?v ! c) = m_auto_retry (conns w ! c)"
        "m_client_connect_success (conns ?v ! c) = m_client_connect_success (conns w ! c)"
      using f by (simp_all add: views_upd_conn field_upd_conn del: conns_upd_conn(1))
    have "distinct (closing c P ?v c) = distinct (closing c [] w c)" "set (closing c P ?v c) = set (closing c [] w c)"
      using that(1) by (metis mset_eq_imp_distinct_iff, metis mset_eq_setD)
    then have "conn_ok c P [] ?v c"
      using ninvD(1) [OF inv c] by (simp add: conn_ok_def views del: conns_upd_conn(1))
    moreover have "session_ok c [] (?v\<lparr>log := log w @ []\<rparr>) s c" if "session_ok c [] w s c" for s
      by (rule session_ok_frame [OF that]) (use c f in \<open>simp_all add: fresh_def eps_def\<close>)
    ultimately have "ninv c P [] (?v\<lparr>log := log w @ []\<rparr>)"
      by (intro ninv_upd_conn [OF inv c]) (auto simp: views)
    then show ?thesis by (simp add: upd_conn_def)
  qed
  show "ninv c (m_closed_sock (conns w ! c)) [] (upd_conn c (\<lambda>x. x\<lparr>m_closed_sock := []\<rparr>) w)"
    using c by (intro all) (simp_all add: closing_def)
  show "ninv c (m_timeout_sock (conns w ! c)) [] (upd_conn c (\<lambda>x. x\<lparr>m_timeout_sock := []\<rparr>) w)"
    using c by (intro all) (simp_all add: closing_def)
qed

text \<open>A closed socket of a connection without new ones has its endpoint.\<close>

lemma ninv_drop_socket:
  assumes inv: "ninv c (s # P) [] w" and c: "c < length (conns w)" and none: "m_server_new_sock (conns w ! c) = []"
  shows "\<exists>endpoint w'. findEndpoint s (conns w ! c) = Some endpoint \<and>
    drop_sockets c (s # P) w = drop_sockets c P w' \<and> ninv c P [] w' \<and>
    length (conns w') = length (conns w) \<and> m_server_new_sock (conns w' ! c) = []"
proof -
  have ok: "conn_ok c (s # P) [] w c" by (rule ninvD(1) [OF inv c])
  have fr: "fresh c [] w c = []" using none by (simp add: fresh_def)
  have s: "bound w s = Some c" "m_is_closed (socks w ! s)" "s \<in> eps w c" "s \<notin> set (closing c P w c)"
    using ok by (auto simp: conn_ok_def fr) (auto simp: closing_def)
  have sl: "s < length (socks w)" using ninvD(6) [OF inv s(1)] by simp
  obtain endpoint where ep: "findEndpoint s (conns w ! c) = Some endpoint"
    using s(3) findEndpoint_iff [of s w c] by auto
  let ?f = "eraseEndpoint s" let ?v = "upd_conn c ?f w"
  let ?w' = "callbackServiceDisconnect s (createMsgContext s) ?v"
  have auto: "\<not> m_auto_retry (conns w ! c)" using ok by (simp add: conn_ok_def)
  then have "drop_sockets c (s # P) w = drop_sockets c P ?w'"
    by (simp add: ep upd_conn_def eraseEndpoint_def)
  moreover have views: "fresh c [] ?v = fresh c [] w" "closing c P ?v = closing c P w" "client_socks ?v = client_socks w"
      "eps ?v c = eps w c - {s}"
    using c by (simp_all add: views_upd_conn eraseEndpoint_def, simp add: eps_def eraseEndpoint_def)
  have cl: "closing c (s # P) w c = s # closing c P w c" by (simp add: closing_def)
  have "m_client_connect_success (conns ?v ! c) = m_client_connect_success (conns w ! c)"
      "m_auto_retry (conns ?v ! c) = m_auto_retry (conns w ! c)"
    using c by (simp_all add: eraseEndpoint_def)
  then have "conn_ok c P [] ?v c"
    using ok s(4) unfolding conn_ok_def views cl fr by auto
  moreover have "session_ok c [] (?v\<lparr>log := log w @ [Down s cb]\<rparr>) t c" if "session_ok c [] w t c" for t cb
  proof -
    have "fresh c [] (?v\<lparr>log := log w @ [Down s cb]\<rparr>) c = fresh c [] w c" "eps (?v\<lparr>log := log w @ [Down s cb]\<rparr>) c = eps w c - {s}"
      using c by (simp_all add: fresh_def eps_def eraseEndpoint_def)
    with that s show ?thesis
      unfolding session_ok_def fr by (cases "t = s") (auto simp: upd_conn_def)
  qed
  ultimately have "ninv c P [] (?v\<lparr>log := log w @ [Down s cb]\<rparr>)" for cb
    using s sl by (intro ninv_upd_conn [OF inv c]) (auto simp: views updowns_def split: if_splits)
  then have "ninv c P [] ?w'" by (simp add: callbackServiceDisconnect_def emit_def)
  moreover have "m_server_new_sock (conns ?w' ! c) = []" "length (conns ?w') = length (conns w)"
    using c none by (simp_all add: callbackServiceDisconnect_def eraseEndpoint_def)
  ultimately show ?thesis
    using ep \<open>drop_sockets c (s # P) w = drop_sockets c P ?w'\<close> by blast
qed

lemma ninv_drop_sockets:
  "ninv c P [] w \<Longrightarrow> c < length (conns w) \<Longrightarrow> m_server_new_sock (conns w ! c) = [] \<Longrightarrow>
     \<exists>w'. drop_sockets c P w = Some w' \<and> ninv c [] [] w' \<and> length (conns w') = length (conns w) \<and>
       m_server_new_sock (conns w' ! c) = []"
proof (induction P arbitrary: w)
  case (Cons s P)
  from ninv_drop_socket [OF Cons.prems] obtain w1 where w1: "drop_sockets c (s # P) w = drop_sockets c P w1"
      "ninv c P [] w1" "length (conns w1) = length (conns w)" "m_server_new_sock (conns w1 ! c) = []" by blast
  with Cons.IH [OF w1(2)] Cons.prems(2) show ?case by auto
qed simp

lemma ninv_drop_fields:
  assumes inv: "ninv c [] [] w" and c: "c < length (conns w)"
    and f: "\<And>x. m_endpoints (f x) = m_endpoints x" "\<And>x. m_server_new_sock (f x) = m_server_new_sock x"
        "\<And>x. m_auto_retry (f x) = m_auto_retry x" "\<And>x. m_closed_sock (f x) = m_closed_sock x"
        "\<And>x. m_timeout_sock (f x) = m_timeout_sock x"
        "\<And>x. set (m_client_connect_success (f x)) \<subseteq> set (m_client_connect_success x)"
  shows "ninv c [] [] (upd_conn c f w)"
proof -
  let ?v = "upd_conn c f w"
  have views: "fresh c [] ?v = fresh c [] w" "eps ?v = eps w" "client_socks ?v = client_socks w"
      "closing c [] ?v = closing c [] w" "m_auto_retry (conns ?v ! c) = m_auto_retry (conns w ! c)"
    using f by (simp_all add: views_upd_conn field_upd_conn del: conns_upd_conn(1))
  have "set (m_client_connect_success (conns ?v ! c)) \<subseteq> set (m_client_connect_success (conns w ! c))"
    using c f(6) by simp
  then have "conn_ok c [] [] ?v c"
    by (intro conn_ok_frame [OF ninvD(1) [OF inv c]]) (auto simp: views simp del: conns_upd_conn(1))
  moreover have "session_ok c [] (?v\<lparr>log := log w @ []\<rparr>) s c" if "session_ok c [] w s c" for s
    by (rule session_ok_frame [OF that]) (use c f in \<open>simp_all add: fresh_def eps_def\<close>)
  ultimately have "ninv c [] [] (?v\<lparr>log := log w @ []\<rparr>)"
    by (intro ninv_upd_conn [OF inv c]) (auto simp: views)
  then show ?thesis by (simp add: upd_conn_def)
qed

lemma ninv_received:
  "ninv a P N w \<Longrightarrow> ninv a P N (received m w) \<and> length (conns (received m w)) = length (conns w)"
  by (cases m) (auto simp: received_def callbackMsg_def Let_def intro: ninv_emit)

lemma ninv_receiveds:
  "ninv a P N w \<Longrightarrow> ninv a P N (fold received ms w) \<and> length (conns (fold received ms w)) = length (conns w)"
  by (induction ms arbitrary: w) (simp_all add: ninv_received)

lemma ninv_processSockReceivedMsg:
  "ninv c [] [] w \<Longrightarrow> c < length (conns w) \<Longrightarrow>
     ninv c [] [] (processSockReceivedMsg c w) \<and> length (conns (processSockReceivedMsg c w)) = length (conns w)"
  unfolding processSockReceivedMsg_def
  using ninv_receiveds [of c "[]" "[]" "upd_conn c (\<lambda>x. x\<lparr>m_new_msg := []\<rparr>) w"] by (simp add: ninv_drop_fields)

lemma ninv_connected:
  assumes inv: "ninv a P N w" and i: "i < length (clients w)"
  shows "ninv a P N (connected i w) \<and> length (conns (connected i w)) = length (conns w) \<and>
    clients (connected i w) = clients w"
proof -
  have "cl_sock (clients w ! i) \<in> client_socks w" "cl_sock (clients w ! i) < length (socks w)"
    using ninvD(4) [OF inv, of "clients w ! i"] i by (auto simp: client_socks_def client_ok_def)
  then show ?thesis
    by (auto simp: connected_def callbackServiceConnect_def Let_def updowns_def intro!: ninv_emit [OF inv] split: if_splits)
qed

lemma ninv_connecteds:
  "ninv a P N w \<Longrightarrow> \<forall>i\<in>set L. i < length (clients w) \<Longrightarrow>
     ninv a P N (fold connected L w) \<and> length (conns (fold connected L w)) = length (conns w)"
  by (induction L arbitrary: w) (simp_all add: ninv_connected)

lemma ninv_processSuccess:
  assumes inv: "ninv c [] [] w" and c: "c < length (conns w)"
  shows "ninv c [] [] (processClientAsyncConnectSuccess c w) \<and>
    length (conns (processClientAsyncConnectSuccess c w)) = length (conns w)"
proof -
  have "\<forall>i\<in>set (m_client_connect_success (conns w ! c)). i < length (clients w)"
    using ninvD(1) [OF inv c] by (simp add: conn_ok_def)
  moreover have "ninv c [] [] (upd_conn c (\<lambda>x. x\<lparr>m_client_connect_success := []\<rparr>) w)"
    by (rule ninv_drop_fields [OF inv c]) simp_all
  ultimately show ?thesis
    unfolding processClientAsyncConnectSuccess_def
    using ninv_connecteds [of c "[]" "[]" "upd_conn c (\<lambda>x. x\<lparr>m_client_connect_success := []\<rparr>) w"] by simp
qed

lemma retry_later_off: "\<not> m_auto_retry (conns w ! c) \<Longrightarrow> retry_later c L w = Some w"
  by (induction L) simp_all

lemma ninv_processFail:
  assumes inv: "ninv c [] [] w" and c: "c < length (conns w)"
  shows "\<exists>w'. processClientAsyncConnectFail c w = Some w' \<and> ninv c [] [] w' \<and>
    length (conns w') = length (conns w)"
proof -
  have "\<not> m_auto_retry (conns w ! c)" using ninvD(1) [OF inv c] by (simp add: conn_ok_def)
  moreover have "ninv c [] [] (upd_conn c (\<lambda>x. x\<lparr>m_client_connect_fail := []\<rparr>) w)"
    by (rule ninv_drop_fields [OF inv c]) simp_all
  ultimately show ?thesis using c by (simp add: processClientAsyncConnectFail_def retry_later_off)
qed

lemma ninv_conn_update:
  assumes inv: "ninv c [] [] w" and c: "c < length (conns w)"
  shows "\<exists>w'. conn_update ip_ok c w = Some w' \<and> ninv c [] [] w' \<and> length (conns w') = length (conns w)"
proof -
  define w1 where "w1 = processServerNewSocket c w"
  have 1: "ninv c [] [] w1" "length (conns w1) = length (conns w)" "m_server_new_sock (conns w1 ! c) = []"
    using ninv_processServerNewSocket [OF inv c] by (simp_all add: w1_def)
  obtain w2 where 2: "processSockClosed c w1 = Some w2" "ninv c [] [] w2" "length (conns w2) = length (conns w)"
      "m_server_new_sock (conns w2 ! c) = []"
    using ninv_drop_sockets [OF ninv_swap_closed(1) [OF 1(1)]] 1 c by (auto simp: processSockClosed_def)
  obtain w3 where 3: "processSockTimeout c w2 = Some w3" "ninv c [] [] w3" "length (conns w3) = length (conns w)"
    using ninv_drop_sockets [OF ninv_swap_closed(2) [OF 2(2)]] 2 c by (auto simp: processSockTimeout_def)
  define w4 where "w4 = processSockReceivedMsg c w3"
  have 4: "ninv c [] [] w4" "length (conns w4) = length (conns w)"
    using ninv_processSockReceivedMsg [OF 3(2)] 3 c by (simp_all add: w4_def)
  define w5 where "w5 = processClientAsyncConnectSuccess c w4"
  have 5: "ninv c [] [] w5" "length (conns w5) = length (conns w)"
    using ninv_processSuccess [OF 4(1)] 4 c by (simp_all add: w5_def)
  obtain w6 where 6: "processClientAsyncConnectFail c w5 = Some w6" "ninv c [] [] w6" "length (conns w6) = length (conns w)"
    using ninv_processFail [OF 5(1)] 5 c by auto
  have "\<not> m_auto_retry (conns w6 ! c)" using ninvD(1) [OF 6(2)] 6(3) c by (simp add: conn_ok_def)
  with 2 3 6 show ?thesis
    by (simp add: conn_update_def w1_def [symmetric] w4_def [symmetric] w5_def [symmetric])
qed

lemma ninv_update_all:
  "ninv 0 [] [] w \<Longrightarrow> \<forall>(sid, c)\<in>set L. c < length (conns w) \<Longrightarrow>
     \<exists>w'. update_all ip_ok L w = Some w' \<and> ninv 0 [] [] w'"
proof (induction L arbitrary: w)
  case (Cons p L)
  obtain sid c where p: "p = (sid, c)" by (cases p)
  have "ninv c [] [] w" "c < length (conns w)" using Cons.prems p ninv_unused by auto
  from ninv_conn_update [OF this] obtain w' where w': "conn_update ip_ok c w = Some w'" "ninv c [] [] w'"
      "length (conns w') = length (conns w)" by blast
  with Cons.IH [of w'] Cons.prems p ninv_unused show ?case by auto
qed simp

lemma ninv_update: "ninv 0 [] [] w \<Longrightarrow> \<exists>w'. update ip_ok w = Some w' \<and> ninv 0 [] [] w'"
  unfolding update_def by (rule ninv_update_all) (auto dest: ninvD(7))

section \<open>The other steps keep the invariant\<close>

text \<open>New objects and changed lists that no connection or socket looks at.\<close>

lemma ninv_extend:
  assumes inv: "ninv 0 [] [] w"
    and "conns w' = conns w @ cs" "\<And>x. x \<in> set cs \<Longrightarrow> \<exists>sid name. x = (new_connection sid name False)\<lparr>m_server := m_server x\<rparr>"
    and "socks w' = socks w" "bound w' = bound w" "clients w' = clients w" "log w' = log w"
    and "\<And>sid c. (sid, c) \<in> set (m_connections w') \<Longrightarrow> c < length (conns w')"
    and "\<And>c. c \<in> set (accepting w') \<Longrightarrow> c < length (conns w')"
  shows "ninv 0 [] [] w'"
proof -
  have old: "closing 0 [] w' k = closing 0 [] w k" "fresh 0 [] w' k = fresh 0 [] w k" "eps w' k = eps w k"
      "m_auto_retry (conns w' ! k) = m_auto_retry (conns w ! k)"
      "m_client_connect_success (conns w' ! k) = m_client_connect_success (conns w ! k)" if "k < length (conns w)" for k
    using assms(2) that by (simp_all add: closing_def fresh_def eps_def nth_append)
  have cs: "client_socks w' = client_socks w" using assms(6) by (simp add: client_socks_def)
  have "conn_ok 0 [] [] w' k" if k: "k < length (conns w')" for k
  proof (cases "k < length (conns w)")
    case True
    show ?thesis
      by (rule conn_ok_frame [OF ninvD(1) [OF inv True]]) (simp_all add: old [OF True] assms(4-6) cs)
  next
    case False
    then have "conns w' ! k \<in> set cs" using k assms(2) by (simp add: nth_append)
    then obtain sid name where "conns w' ! k = (new_connection sid name False)\<lparr>m_server := m_server (conns w' ! k)\<rparr>"
      using assms(3) by blast
    then have "m_closed_sock (conns w' ! k) = []" "m_timeout_sock (conns w' ! k) = []" "m_server_new_sock (conns w' ! k) = []"
        "\<not> m_auto_retry (conns w' ! k)" "m_client_connect_success (conns w' ! k) = []" "m_endpoints (conns w' ! k) = []"
      by (metis new_connection_def connection.simps connection.update_convs)+
    then show ?thesis by (simp add: conn_ok_def closing_def fresh_def eps_def)
  qed
  moreover have "sock_ok 0 [] w' s" if s: "s < length (socks w)" for s
  proof -
    have "session_ok 0 [] w' s k" if "session_ok 0 [] w s k" "bound w s = Some k" for k
      using ninvD(6) [OF inv that(2)]
      by (intro session_ok_frame [OF that(1)]) (simp_all add: old assms)
    moreover have "k < length (conns w)" if "bound w s = Some k" for k using ninvD(6) [OF inv that] by simp
    ultimately show ?thesis using ninvD(2) [OF inv s] old assms(4,5)
      by (fastforce simp: sock_ok_def cs split: if_splits)
  qed
  moreover have "client_ok w' y" if "y \<in> set (clients w)" for y
    using ninvD(4) [OF inv that] old assms by (fastforce simp: client_ok_def)
  moreover have "c < length (conns w')" if "bound w' s = Some c" for s c
    using ninvD(6) [OF inv, of s c] that assms(2,5) by simp
  ultimately show ?thesis using inv assms(4-9) unfolding ninv_def by auto
qed

lemma ninv_accept_done:
  assumes inv: "ninv 0 [] [] w" and c: "c \<in> set (accepting w)"
  shows "ninv 0 [] [] (accept_done c ok w)"
proof (cases ok)
  case False
  then have "conns (accept_done c ok w) = conns w @ []" by (simp add: accept_done_def)
  with inv False show ?thesis
    by (intro ninv_extend [OF inv])
      (auto simp: accept_done_def dest: ninvD(7) [OF inv] intro: ninvD(8) [OF inv set_remove1_subset [THEN subsetD]])
next
  case True
  let ?s = "length (socks w)" let ?w = "accept_done c ok w"
  have cl: "c < length (conns w)" by (rule ninvD(8) [OF inv c])
  have ns: "bound w ?s = None" "updowns ?s (log w) = []" using ninvD(3) [OF inv, of ?s] by auto
  have nc: "?s \<notin> client_socks w" using ninvD(4) [OF inv] by (force simp: client_socks_def client_ok_def)
  have w: "socks ?w = socks w @ [start new_TSock]" "bound ?w = (bound w)(?s \<mapsto> c)" "clients ?w = clients w"
      "log ?w = log w" "m_connections ?w = m_connections w" "length (conns ?w) = length (conns w)"
      "set (accepting ?w) \<subseteq> insert c (set (accepting w))"
      "conns ?w = (conns w)[c := (conns w ! c)\<lparr>m_server_new_sock := m_server_new_sock (conns w ! c) @ [?s]\<rparr>]"
    using True by (auto simp: accept_done_def cbServerAccept_def Let_def dest: notin_set_remove1)
  have views: "closing 0 [] ?w k = closing 0 [] w k" "eps ?w k = eps w k"
      "fresh 0 [] ?w k = fresh 0 [] w k @ (if k = c then [?s] else [])"
      "m_auto_retry (conns ?w ! k) = m_auto_retry (conns w ! k)"
      "m_client_connect_success (conns ?w ! k) = m_client_connect_success (conns w ! k)" for k
    using cl by (auto simp: closing_def eps_def fresh_def w(8) nth_list_update)
  have cs: "client_socks ?w = client_socks w" by (simp add: client_socks_def w)
  have bnd: "bound w t = Some k \<Longrightarrow> t < ?s" for t k using ninvD(6) [OF inv] by blast
  have "conn_ok 0 [] [] ?w k" if "k < length (conns w)" for k
  proof -
    have old: "conn_ok 0 [] [] w k" by (rule ninvD(1) [OF inv that])
    have "bound ?w t = Some k \<and> m_is_closed (socks ?w ! t) \<and> (t \<in> set (fresh 0 [] ?w k) \<or> t \<in> eps ?w k)"
      if "t \<in> set (closing 0 [] w k)" for t
    proof -
      have "bound w t = Some k" "m_is_closed (socks w ! t)" "t \<in> set (fresh 0 [] w k) \<or> t \<in> eps w k"
        using old that by (auto simp: conn_ok_def)
      with bnd [of t k] show ?thesis by (auto simp: w nth_append views)
    qed
    moreover have "bound ?w t = Some k \<and> t \<notin> client_socks w" if "t \<in> set (fresh 0 [] ?w k)" for t
    proof (cases "t \<in> set (fresh 0 [] w k)")
      case True
      with old have "bound w t = Some k" "t \<notin> client_socks w" by (auto simp: conn_ok_def)
      with bnd [of t k] show ?thesis by (simp add: w)
    qed (use that nc w in \<open>auto simp: views split: if_splits\<close>)
    moreover have "?s \<notin> set (fresh 0 [] w k)" using old ns(1) by (auto simp: conn_ok_def)
    ultimately show ?thesis using old by (auto simp: conn_ok_def views cs w(1-7) less_SucI)
  qed
  moreover have "sock_ok 0 [] ?w t" if t: "t < length (socks ?w)" for t
  proof (cases "t = ?s")
    case True
    have "?s \<notin> eps w c" using ninvD(1) [OF inv cl] by (auto simp: conn_ok_def)
    with True ns show ?thesis by (auto simp: sock_ok_def session_ok_def cs nc w views)
  next
    case False
    then have tl: "t < ?s" using t by (simp add: w)
    have "session_ok 0 [] ?w t k" if "session_ok 0 [] w t k" for k
      by (rule session_ok_frame [OF that]) (use False tl in \<open>auto simp: views w nth_append\<close>)
    with ninvD(2) [OF inv tl] False tl show ?thesis by (auto simp: sock_ok_def cs w views nth_append split: if_splits)
  qed
  moreover have "client_ok ?w y" if "y \<in> set (clients w)" for y
    using ninvD(4) [OF inv that] by (auto simp: client_ok_def w views)
  moreover have "bound ?w t = None \<and> updowns t (log ?w) = []" if "length (socks ?w) \<le> t" for t
    using ninvD(3) [OF inv, of t] that by (simp add: w)
  ultimately show ?thesis
    using inv cl w(3-7) ninvD(7,8) [OF inv] unfolding ninv_def by (auto simp: w(2) dest: ninvD(6) [OF inv])
qed

lemma map_cl_sock_upd:
  "cl_sock (f (xs ! i)) = cl_sock (xs ! i) \<Longrightarrow> map cl_sock (xs[i := f (xs ! i)]) = map cl_sock xs"
  by (metis list_update_id map_update)

lemma ninv_connect_done:
  assumes inv: "ninv 0 [] [] w" and i: "i < length (clients w)" and pending: "connecting (clients w ! i) \<noteq> None"
  shows "ninv 0 [] [] (connect_done i ok w)"
proof -
  let ?w = "connect_done i ok w" let ?x = "clients w ! i" let ?s = "cl_sock ?x"
  have "client_ok w ?x" using ninvD(4) [OF inv] i by simp
  then obtain c where c: "m_connect_cb ?x = Some c" "c < length (conns w)" "?s \<in> eps w c" "bound w ?s = None"
      and sl: "?s < length (socks w)" using pending by (auto simp: client_ok_def)
  have conns: "conns ?w = (conns w)[c := (conns w ! c)\<lparr>m_client_connect_success := m_client_connect_success (conns w ! c) @ (if ok then [i] else []),
      m_client_connect_fail := m_client_connect_fail (conns w ! c) @ (if ok then [] else [i])\<rparr>]"
    using c by (auto simp: connect_done_def cbClientConnect_def Let_def upd_client_def upd_conn_def upd_sock_def)
  have w: "bound ?w = (if ok then (bound w)(?s \<mapsto> c) else bound w)" "log ?w = log w"
      "m_connections ?w = m_connections w" "accepting ?w = accepting w" "length (conns ?w) = length (conns w)"
      "length (socks ?w) = length (socks w)"
      "clients ?w = (clients w)[i := ?x\<lparr>m_state := if ok then CONNECTED else DISCONNECT, connecting := None\<rparr>]"
      "\<And>t. t \<noteq> ?s \<Longrightarrow> socks ?w ! t = socks w ! t"
    using c i by (auto simp: connect_done_def cbClientConnect_def Let_def upd_client_def upd_conn_def upd_sock_def)
  have cs: "map cl_sock (clients ?w) = map cl_sock (clients w)"
    unfolding w(7)
    by (rule map_cl_sock_upd [where f = "\<lambda>x. x\<lparr>m_state := if ok then CONNECTED else DISCONNECT, connecting := None\<rparr>"]) simp
  then have css: "client_socks ?w = client_socks w" by (metis client_socks_def list.set_map)
  have views: "closing 0 [] ?w k = closing 0 [] w k" "eps ?w k = eps w k" "fresh 0 [] ?w k = fresh 0 [] w k"
      "m_auto_retry (conns ?w ! k) = m_auto_retry (conns w ! k)"
      "set (m_client_connect_success (conns ?w ! k)) \<subseteq> insert i (set (m_client_connect_success (conns w ! k)))" for k
    using c by (auto simp: closing_def eps_def fresh_def conns nth_list_update)
  have lc: "length (clients ?w) = length (clients w)" by (simp add: w)
  have closed: "m_is_closed (socks ?w ! t)" if "bound w t \<noteq> None" "m_is_closed (socks w ! t)" for t
    using that w(8) c(4) by metis
  have "conn_ok 0 [] [] ?w k" if "k < length (conns w)" for k
    by (rule conn_ok_frame [OF ninvD(1) [OF inv that]])
      (use views(5) [of k] c i closed in \<open>auto simp: views(1-4) css lc w(1,6)\<close>)
  moreover have "sock_ok 0 [] ?w t" if t: "t < length (socks w)" for t
  proof (cases "t \<in> client_socks w")
    case True
    with ninvD(2) [OF inv t] have "\<forall>k. bound w t = Some k \<longrightarrow> m_is_closed (socks w ! t) \<or> t \<in> eps w k"
      by (simp add: sock_ok_def)
    with c True show ?thesis by (cases "t = ?s") (auto simp: sock_ok_def css views w)
  next
    case False
    then have ts: "t \<noteq> ?s" using i by (auto simp: client_socks_def)
    have "session_ok 0 [] ?w t k" if "session_ok 0 [] w t k" for k
      by (rule session_ok_frame [OF that]) (use ts in \<open>simp_all add: views w\<close>)
    with ninvD(2) [OF inv t] False ts show ?thesis by (auto simp: sock_ok_def css w)
  qed
  moreover have "client_ok ?w y" if y: "y \<in> set (clients ?w)" for y
  proof -
    obtain j where j: "j < length (clients w)" "y = clients ?w ! j" using y lc by (metis in_set_conv_nth)
    show ?thesis
    proof (cases "j = i")
      case True
      with j i sl show ?thesis by (simp add: client_ok_def w)
    next
      case False
      then have y': "y = clients w ! j" "y \<in> set (clients w)" using j by (simp_all add: w)
      have "cl_sock y \<noteq> ?s" using ninvD(5) [OF inv] False j i y'
        by (simp add: distinct_conv_nth) metis
      with ninvD(4) [OF inv y'(2)] show ?thesis by (auto simp: client_ok_def w views)
    qed
  qed
  moreover have "bound ?w t = None \<and> updowns t (log ?w) = []" if "length (socks w) \<le> t" for t
    using ninvD(3) [OF inv that] sl that by (auto simp: w)
  moreover have "k < length (conns w)" if "bound ?w t = Some k" for t k
    using that ninvD(6) [OF inv, of t k] c by (auto simp: w split: if_splits)
  ultimately show ?thesis
    using inv ninvD(7,8) [OF inv] unfolding ninv_def cs by (auto simp: w(2-6))
qed

text \<open>A new client, its socket, and, if it connects, its endpoint.\<close>

lemma ninv_add_address:
  assumes inv: "ninv 0 [] [] w" and c: "c < length (conns w)"
  shows "ninv 0 [] [] (add_address ip_ok junk c addr w) \<and> length (conns (add_address ip_ok junk c addr w)) = length (conns w)"
proof (cases "hasServiceAddr addr (conns w ! c)")
  case True
  with inv show ?thesis by (simp add: add_address_def)
next
  case False
  let ?w = "add_address ip_ok junk c addr w" let ?s = "length (socks w)"
  define good where "good \<longleftrightarrow> junk = DISCONNECT \<and> ip_ok (m_ip addr)"
  obtain x where w: "clients ?w = clients w @ [x]" "cl_sock x = ?s" "socks ?w = socks w @ [new_TSock]"
      "bound ?w = bound w" "log ?w = log w" "m_connections ?w = m_connections w" "accepting ?w = accepting w"
      "connecting x \<noteq> None \<longrightarrow> good \<and> m_connect_cb x = Some c"
      "conns ?w = (if good then (conns w)[c := (conns w ! c)\<lparr>m_endpoints := hm_put ?s (TEndpoint_client (length (clients w)) ?s addr)
         (m_endpoints (conns w ! c)), m_client_addrs := m_client_addrs (conns w ! c) @ [addr]\<rparr>] else conns w)"
    using False unfolding good_def
    by (cases "junk = DISCONNECT"; cases "ip_ok (m_ip addr)")
      (simp_all add: add_address_def new_NetClient_def client_connect_def asyncConnect_def addClientEndpoint_def
        upd_client_def upd_conn_def Let_def list_update_append)
  have lc: "length (conns ?w) = length (conns w)" by (simp add: w(9))
  have views: "closing 0 [] ?w k = closing 0 [] w k" "fresh 0 [] ?w k = fresh 0 [] w k"
      "m_auto_retry (conns ?w ! k) = m_auto_retry (conns w ! k)"
      "m_client_connect_success (conns ?w ! k) = m_client_connect_success (conns w ! k)"
      "eps ?w k = (if good \<and> k = c then insert ?s (eps w k) else eps w k)" for k
    using c by (auto simp: closing_def fresh_def eps_def w(9) nth_list_update)
  have css: "client_socks ?w = insert ?s (client_socks w)" by (simp add: client_socks_def w)
  have ns: "bound w ?s = None" "updowns ?s (log w) = []" using ninvD(3) [OF inv, of ?s] by auto
  have bnd: "t < ?s" if "bound w t = Some k" for t k using ninvD(6) [OF inv that] by simp
  have nc: "?s \<notin> cl_sock ` set (clients w)" using ninvD(4) [OF inv] by (force simp: client_ok_def)
  have "conn_ok 0 [] [] ?w k" if "k < length (conns w)" for k
    by (rule conn_ok_frame [OF ninvD(1) [OF inv that]])
      (auto simp: views css w(1,3,4) nth_append dest: bnd split: if_splits)
  moreover have "sock_ok 0 [] ?w t" if t: "t < length (socks ?w)" for t
  proof (cases "t = ?s")
    case True
    with ns show ?thesis by (simp add: sock_ok_def css w)
  next
    case False
    then have tl: "t < ?s" using t by (simp add: w)
    have "session_ok 0 [] ?w t k" if "session_ok 0 [] w t k" for k
      by (rule session_ok_frame [OF that]) (use False tl in \<open>simp_all add: views w nth_append\<close>)
    with ninvD(2) [OF inv tl] False tl show ?thesis
      by (auto simp: sock_ok_def css views w nth_append split: if_splits)
  qed
  moreover have "client_ok ?w y" if y: "y \<in> set (clients ?w)" for y
  proof (cases "y = x")
    case True
    with w(8) ns c lc show ?thesis by (auto simp: client_ok_def w(2-4) views)
  next
    case False
    then have "y \<in> set (clients w)" using y by (simp add: w)
    with ninvD(4) [OF inv] show ?thesis by (fastforce simp: client_ok_def w(3,4) views lc)
  qed
  moreover have "bound ?w t = None \<and> updowns t (log ?w) = []" if "length (socks ?w) \<le> t" for t
    using ninvD(3) [OF inv, of t] that by (simp add: w)
  moreover have "distinct (map cl_sock (clients ?w))" using ninvD(5) [OF inv] nc by (simp add: w)
  ultimately have "ninv 0 [] [] ?w"
    using inv ninvD(6-8) [OF inv] unfolding ninv_def lc by (auto simp: w(4,6,7))
  with lc show ?thesis by simp
qed

lemma ninv_add_addresses:
  "ninv 0 [] [] w \<Longrightarrow> c < length (conns w) \<Longrightarrow> ninv 0 [] [] (fold (add_address ip_ok junk c) addrs w)"
  by (induction addrs arbitrary: w) (simp_all add: ninv_add_address)

lemma set_hm_put: "(k', c') \<in> set (hm_put k c m) \<Longrightarrow> (k', c') \<in> set m \<or> c' = c"
  by (auto simp: hm_put_def split: if_splits)

lemma ninv_addService:
  assumes inv: "ninv 0 [] [] w"
  shows "ninv 0 [] [] (addService ip_ok junk service_id name addrs False w)"
proof (cases "findConnection service_id w")
  case (Some c)
  then have "(service_id, c) \<in> set (m_connections w)" by (simp add: findConnection_def map_of_SomeD)
  from ninvD(7) [OF inv this] inv Some show ?thesis by (simp add: addService_def ninv_add_addresses)
next
  case None
  let ?w = "w\<lparr>conns := conns w @ [new_connection service_id name False],
      m_connections := hm_put service_id (length (conns w)) (m_connections w)\<rparr>"
  have "ninv 0 [] [] ?w"
  proof (rule ninv_extend [OF inv, of ?w "[new_connection service_id name False]"])
    show "\<exists>sid n. x = (new_connection sid n False)\<lparr>m_server := m_server x\<rparr>"
      if "x \<in> set [new_connection service_id name False]" for x
      using that by (intro exI [of _ service_id] exI [of _ name]) simp
    show "k < length (conns ?w)" if "(sid, k) \<in> set (m_connections ?w)" for sid k
      using set_hm_put [of sid k service_id "length (conns w)" "m_connections w"] that ninvD(7) [OF inv, of sid k] by auto
    show "k < length (conns ?w)" if "k \<in> set (accepting ?w)" for k
      using ninvD(8) [OF inv, of k] that by simp
  qed simp_all
  with None show ?thesis by (simp add: addService_def ninv_add_addresses)
qed

lemma ninv_send:
  assumes inv: "ninv 0 [] [] w"
  shows "ninv 0 [] [] (snd (net_send service_id msg addr w))"
proof -
  have "ninv 0 [] [] (snd (send_to_sock s msg w))" for s
    using ninv_upd_sock [OF inv, of s "snd (sendMsg msg (socks w ! s))"]
    by (simp add: send_to_sock_def sendMsg_def split: prod.splits if_splits)
  with inv show ?thesis by (simp add: net_send_def conn_sendMsg_def split: option.splits)
qed

lemma ninv_init:
  assumes inv: "ninv 0 [] [] w"
  shows "ninv 0 [] [] (snd (init listen_ok naming_ok service_id name addr use_ns w))"
proof -
  have plain: "ninv 0 [] [] w'" if "conns w' = conns w" "socks w' = socks w" "bound w' = bound w" "clients w' = clients w"
      "log w' = log w" "m_connections w' = m_connections w" "accepting w' = accepting w" for w'
    by (rule ninv_extend [OF inv, of w' "[]"]) (use that ninvD(7,8) [OF inv] in auto)
  have extended: "ninv 0 [] [] w'" if "conns w' = conns w @ [(new_connection service_id name False)\<lparr>m_server := True\<rparr>]"
      "socks w' = socks w" "bound w' = bound w" "clients w' = clients w" "log w' = log w"
      "m_connections w' = hm_put service_id (length (conns w)) (m_connections w)"
      "accepting w' = accepting w @ [length (conns w)]" for w'
  proof (rule ninv_extend [OF inv that(1)])
    show "\<exists>sid n. x = (new_connection sid n False)\<lparr>m_server := m_server x\<rparr>"
      if "x \<in> set [(new_connection service_id name False)\<lparr>m_server := True\<rparr>]" for x
      using that by (intro exI [of _ service_id] exI [of _ name]) simp
    show "k < length (conns w')" if "(sid, k) \<in> set (m_connections w')" for sid k
      using that \<open>m_connections w' = _\<close> set_hm_put [of sid k service_id "length (conns w)" "m_connections w"]
        ninvD(7) [OF inv, of sid k] \<open>conns w' = _\<close> by auto
    show "k < length (conns w')" if "k \<in> set (accepting w')" for k
      using that \<open>accepting w' = _\<close> ninvD(8) [OF inv, of k] \<open>conns w' = _\<close> by auto
  qed (use that in simp_all)
  show ?thesis
  proof (cases "m_initialised w \<or> \<not> m_msg_decoder (m_cb_manager w) \<or> \<not> listen_ok")
    case True
    then show ?thesis by (auto simp: init_def Let_def inv intro!: plain)
  next
    case False
    then show ?thesis by (auto simp: init_def Let_def addServerEndpoint_def upd_conn_def intro!: extended)
  qed
qed

lemma ninv_reachable: "nel_reachable dec ip_ok w \<Longrightarrow> ninv 0 [] [] w"
  unfolding nel_reachable_def
proof (induction rule: rtranclp_induct)
  case base
  show ?case by (simp add: ninv_def new_UnifiedNetwork_def)
next
  case (step v w)
  from step(2) show ?case
  proof cases
    case (update)
    with ninv_update [OF step(3), of ip_ok] show ?thesis by auto
  next
    case (callbacks m)
    then show ?thesis
      by (intro ninv_extend [OF step(3), of w "[]"]) (auto dest: ninvD(7,8) [OF step(3)])
  qed (use step(3) in \<open>simp_all add: ninv_accept_done ninv_connect_done ninv_addService ninv_send ninv_init ninv_sock_event\<close>)
qed

section \<open>Sessions\<close>

text \<open>
  C33. When completions fall between updates and no service retries, an update never fails its
  assertions, and every socket a server accepted is reported connected once, then disconnected at
  most once, in this order: while it waits it has no endpoint and no report, while it is
  connected it has its endpoint, and once it is disconnected it is closed and has none.
\<close>

theorem nel_sessions:
  assumes reach: "nel_reachable dec ip_ok w"
  shows "(\<exists>w'. update ip_ok w = Some w') \<and>
    (\<forall>s. s \<in> {..<length (socks w)} - client_socks w \<longrightarrow> (\<exists>c. bound w s = Some c \<and>
       (updowns s (log w) = [] \<and> s \<in> set (m_server_new_sock (conns w ! c)) \<and> s \<notin> eps w c \<or>
        updowns s (log w) = [True] \<and> s \<notin> set (m_server_new_sock (conns w ! c)) \<and> s \<in> eps w c \<or>
        updowns s (log w) = [True, False] \<and> s \<notin> set (m_server_new_sock (conns w ! c)) \<and> s \<notin> eps w c \<and>
          m_is_closed (socks w ! s))))"
proof -
  note inv = ninv_reachable [OF reach]
  have "\<exists>c. bound w s = Some c \<and>
       (updowns s (log w) = [] \<and> s \<in> set (m_server_new_sock (conns w ! c)) \<and> s \<notin> eps w c \<or>
        updowns s (log w) = [True] \<and> s \<notin> set (m_server_new_sock (conns w ! c)) \<and> s \<in> eps w c \<or>
        updowns s (log w) = [True, False] \<and> s \<notin> set (m_server_new_sock (conns w ! c)) \<and> s \<notin> eps w c \<and>
          m_is_closed (socks w ! s))"
    if "s < length (socks w)" "s \<notin> client_socks w" for s
    using ninvD(2) [OF inv that(1)] that(2) by (auto simp: sock_ok_def session_ok_def fresh_def)
  with ninv_update [OF inv] show ?thesis by auto
qed

text \<open>A network with a server for service 7, one accepted socket, and an update.\<close>

definition server_net :: nel where
  "server_net = snd (init True True 7 [97] \<lparr>m_ip = [], m_port = 80\<rparr> False
     (new_UnifiedNetwork\<lparr>m_cb_manager := (m_cb_manager new_UnifiedNetwork)\<lparr>m_msg_decoder := True\<rparr>\<rparr>))"

lemma server_net_reachable: "nel_reachable dec ip_ok server_net"
proof -
  let ?w = "new_UnifiedNetwork\<lparr>m_cb_manager := (m_cb_manager new_UnifiedNetwork)\<lparr>m_msg_decoder := True\<rparr>\<rparr>"
  have "(nel_step dec ip_ok)\<^sup>*\<^sup>* new_UnifiedNetwork ?w" by (rule r_into_rtranclp, rule nel_step.callbacks)
  then show ?thesis unfolding nel_reachable_def server_net_def
    by (rule rtranclp.rtrancl_into_rtrancl) (rule nel_step.init)
qed

lemma server_net_simps:
  "conns server_net = [(new_connection 7 [97] False)\<lparr>m_server := True\<rparr>]" "accepting server_net = [0]"
  "m_connections server_net = [(7, 0)]" "socks server_net = []" "clients server_net = []" "log server_net = []"
  by (simp_all add: server_net_def init_def new_UnifiedNetwork_def addServerEndpoint_def upd_conn_def hm_put_def)

lemma nel_sessions_witness:
  "\<exists>w'. update (\<lambda>_. True) (accept_done 0 True server_net) = Some w'"
proof -
  have "nel_reachable (\<lambda>_. []) (\<lambda>_. True) (accept_done 0 True server_net)"
    using server_net_reachable [of "\<lambda>_. []" "\<lambda>_. True"] unfolding nel_reachable_def
    by (rule rtranclp.rtrancl_into_rtrancl) (rule nel_step.accept, simp add: server_net_simps)
  from nel_sessions [OF this, THEN conjunct1] show ?thesis .
qed

section \<open>Races\<close>

lemma new_sockets_frame:
  "c < length (conns w) \<Longrightarrow> m_closed_sock (conns (fold (new_socket c) N w) ! c) = m_closed_sock (conns w ! c) \<and>
     socks (fold (new_socket c) N w) = socks w \<and> length (conns (fold (new_socket c) N w)) = length (conns w)"
  by (induction N arbitrary: w) (simp_all add: new_socket_def callbackServiceConnect_def)

lemma closed_during_update:
  assumes reach: "nel_reachable dec ip_ok w" and c: "c \<in> set (accepting w)"
    and none: "m_closed_sock (conns w ! c) = []"
  shows "\<exists>w3. sock_event dec (length (socks w)) (E_read None) (accept_done c True (processServerNewSocket c w)) = Some w3 \<and>
      processSockClosed c w3 = None"
proof -
  note inv = ninv_reachable [OF reach]
  have cl: "c < length (conns w)" by (rule ninvD(8) [OF inv c])
  let ?s = "length (socks w)" let ?w1 = "processServerNewSocket c w" let ?w2 = "accept_done c True ?w1"
  have w1: "ninv c [] [] ?w1" "length (conns ?w1) = length (conns w)"
    using ninv_processServerNewSocket [of c w] inv cl ninv_unused [of c w] by auto
  have w1': "socks ?w1 = socks w" "m_closed_sock (conns ?w1 ! c) = []"
    using new_sockets_frame [of c "upd_conn c (\<lambda>x. x\<lparr>m_server_new_sock := []\<rparr>) w"] cl none
    by (simp_all add: processServerNewSocket_def)
  have ne: "?s \<notin> eps ?w1 c" using ninvD(1) [OF w1(1), of c] cl w1(2) by (auto simp: conn_ok_def w1')
  have w2: "socks ?w2 ! ?s = start new_TSock" "bound ?w2 ?s = Some c" "length (conns ?w2) = length (conns w)"
      "m_closed_sock (conns ?w2 ! c) = []" "eps ?w2 c = eps ?w1 c"
    using cl w1(2) w1' by (simp_all add: accept_done_def cbServerAccept_def Let_def eps_def nth_append list_update_append)
  let ?x = "snd (read_done dec None (start new_TSock))"
  let ?w3 = "cbSockClosed c ?s (upd_sock ?s ?x ?w2)"
  have "sock_step dec (E_read None) (socks ?w2 ! ?s) = Some ([Note_closed], ?x)"
    by (simp add: w2 start_def new_TSock_def sock_defs)
  then have "sock_event dec ?s (E_read None) ?w2 = Some ?w3" by (simp add: sock_event_def w2)
  moreover have "findEndpoint ?s (conns ?w2 ! c) = None" using findEndpoint_iff [of ?s ?w2 c] ne w2(5) by blast
  then have "processSockClosed c ?w3 = None"
    using cl w2 by (simp add: processSockClosed_def cbSockClosed_def findEndpoint_def)
  ultimately show ?thesis by blast
qed

lemma closed_before_connected:
  fixes addr :: inet_addr
  assumes ip: "ip_ok (m_ip addr)"
  shows "\<exists>v s. nel_reachable dec ip_ok v \<and> s \<in> client_socks v \<and> updowns s (log v) = [False, True]"
proof -
  let ?u0 = new_UnifiedNetwork
  let ?u1 = "addService ip_ok DISCONNECT 7 [97] [addr] False ?u0"
  let ?u2 = "connect_done 0 True ?u1"
  note comp = new_UnifiedNetwork_def addService_def findConnection_def add_address_def new_connection_def hasServiceAddr_def
    new_NetClient_def client_connect_def asyncConnect_def addClientEndpoint_def upd_client_def upd_conn_def hm_put_def
    connect_done_def cbClientConnect_def upd_sock_def sock_event_def start_def new_TSock_def sock_defs cbSockClosed_def
  have u2: "length (socks ?u1) = 1" "connecting (clients ?u1 ! 0) \<noteq> None" "length (clients ?u1) = 1"
    using ip by (simp_all add: comp)
  have "\<exists>u3. sock_event dec 0 (E_read None) ?u2 = Some u3" using ip by (simp add: comp)
  then obtain u3 where u3: "sock_event dec 0 (E_read None) ?u2 = Some u3" by blast
  have r3: "nel_reachable dec ip_ok u3"
  proof -
    have "nel_step dec ip_ok ?u0 ?u1" by (rule nel_step.service)
    moreover have "nel_step dec ip_ok ?u1 ?u2" by (rule nel_step.connect) (use u2 in simp_all)
    moreover have "nel_step dec ip_ok ?u2 u3" by (rule nel_step.socket [OF _ u3]) (use ip in \<open>simp add: comp\<close>)
    ultimately show ?thesis
      unfolding nel_reachable_def by (blast intro: converse_rtranclp_into_rtranclp rtranclp.rtrancl_refl)
  qed
  obtain v where v: "update ip_ok u3 = Some v" using ninv_update [OF ninv_reachable [OF r3]] by blast
  with r3 have "nel_reachable dec ip_ok v"
    unfolding nel_reachable_def by (meson nel_step.update rtranclp.rtrancl_into_rtrancl)
  moreover have "0 \<in> client_socks v \<and> updowns 0 (log v) = [False, True]"
    using v u3 ip
    by (auto simp: comp update_def conn_update_def processServerNewSocket_def processSockClosed_def
        processSockTimeout_def processSockReceivedMsg_def processClientAsyncConnectSuccess_def
        processClientAsyncConnectFail_def findEndpoint_def eraseEndpoint_def hm_erase_def TEndpoint_client_def
        callbackServiceDisconnect_def callbackServiceConnect_def emit_def connected_def client_socks_def updowns_def)
  ultimately show ?thesis by blast
qed

text \<open>
  The assertion of an update fails when a socket is accepted and closed between the part
  that takes the new sockets and the part that takes the closed ones.  And a socket that connects to another
  service and closes again before the next update is reported disconnected first and
  connected afterwards.
\<close>

lemma nel_update_races:
  fixes addr :: inet_addr
  assumes reach: "nel_reachable dec ip_ok w" and c: "c \<in> set (accepting w)"
    and none: "m_closed_sock (conns w ! c) = []" and ip: "ip_ok (m_ip addr)"
  shows "(\<exists>w3. sock_event dec (length (socks w)) (E_read None) (accept_done c True (processServerNewSocket c w)) = Some w3 \<and>
      processSockClosed c w3 = None) \<and>
    (\<exists>v s. nel_reachable dec ip_ok v \<and> s \<in> client_socks v \<and> updowns s (log v) = [False, True])"
  using closed_during_update [OF reach c none] closed_before_connected [of ip_ok addr dec, OF ip] by blast

lemma nel_update_races_witness:
  "\<exists>w3. sock_event (\<lambda>_. []) 0 (E_read None) (accept_done 0 True (processServerNewSocket 0 server_net)) = Some w3 \<and>
     processSockClosed 0 w3 = None"
proof -
  have "m_closed_sock (conns server_net ! 0) = []" by (simp add: server_net_simps new_connection_def)
  with nel_update_races [OF server_net_reachable [of "\<lambda>_. []" "\<lambda>_. True"], of 0, THEN conjunct1]
  show ?thesis by (simp add: server_net_simps)
qed

end
