(* ===== verification/Nel_Naming.thy ===== *)
theory Nel_Naming
  imports Memory_Text
begin

text \<open>
  The client of the naming service of \<open>nel\<close> (\<open>NamingClient.cpp\<close>) and the wire format of its messages
  (\<open>ns/NSTools.cpp\<close>).  Protocol Buffers is an argument: the names of its message types and the
  parser and serialiser of each.  The timer of the reconnection is a class that is not in the
  repository and is left out.
\<close>

section \<open>Messages\<close>

text \<open>The name of the type, a NUL, and the serialised message.\<close>

definition ns_encode :: "('m \<Rightarrow> byte list) \<Rightarrow> ('m \<Rightarrow> byte list option) \<Rightarrow> 'm \<Rightarrow> byte list" where
  "ns_encode GetTypeName serialize msg =
     (case serialize msg of None \<Rightarrow> [] | Some body \<Rightarrow> GetTypeName msg @ [0] @ body)"

fun find_nul :: "byte list \<Rightarrow> nat \<Rightarrow> nat option" where
  "find_nul [] i = None"
| "find_nul (b # bs) i = (if b = 0 then Some i else find_nul bs (Suc i))"

definition ns_decode :: "(byte list \<Rightarrow> (byte list \<Rightarrow> 'm option) option) \<Rightarrow> byte list \<Rightarrow> (byte list \<times> 'm) option" where
  "ns_decode FindMessageTypeByName src =
     (case find_nul src 0 of
        None \<Rightarrow> None
      | Some pos \<Rightarrow>
          if pos = 0 then None
          else (let msg_name = take (pos - 1) src in
                case FindMessageTypeByName msg_name of
                  None \<Rightarrow> None
                | Some parse \<Rightarrow> map_option (\<lambda>m. (msg_name, m)) (parse (drop (pos + 1) src))))"

section \<open>The client\<close>

datatype STATE = CONNECTING | CONNECTED | DISCONNECT | SHUTDOWN

datatype read_op = Read_head | Read_body

record naming_client =
  m_state :: STATE
  m_read_body :: "byte list"
  sock_open :: bool
  pending :: "read_op option"

definition new_NamingClient :: naming_client where
  "new_NamingClient = \<lparr>m_state = DISCONNECT, m_read_body = [], sock_open = True, pending = None\<rparr>"

definition isConnected :: "naming_client \<Rightarrow> bool" where
  "isConnected c \<longleftrightarrow> m_state c = DISCONNECT"

definition close :: "naming_client \<Rightarrow> naming_client" where
  "close c = c\<lparr>sock_open := False\<rparr>"

definition doRead :: "naming_client \<Rightarrow> naming_client" where
  "doRead c = c\<lparr>pending := Some Read_head\<rparr>"

text \<open>The second read also goes into the four bytes of the head.\<close>

definition doReadBody :: "naming_client \<Rightarrow> naming_client" where
  "doReadBody c = c\<lparr>pending := Some Read_body\<rparr>"

text \<open>\<open>ip_ok\<close> says whether the text of the address can be read.\<close>

definition asyncConnect :: "bool \<Rightarrow> naming_client \<Rightarrow> bool \<times> naming_client" where
  "asyncConnect ip_ok c = (if \<not> ip_ok then (False, c\<lparr>m_state := DISCONNECT\<rparr>) else (True, c\<lparr>m_state := CONNECTING\<rparr>))"

definition connect_done :: "bool \<Rightarrow> naming_client \<Rightarrow> naming_client" where
  "connect_done ok c = (if ok then doRead c else c)"

text \<open>The handlers of the two reads: an error, or the four bytes read.\<close>

definition head_done :: "byte list option \<Rightarrow> naming_client \<Rightarrow> naming_client" where
  "head_done r c =
     (case r of
        None \<Rightarrow> close c
      | Some head \<Rightarrow>
          (let body_len = un_le head :: 32 word in
           if body_len <s 4 then close c
           else if body_len = 4 then doRead c
           else doReadBody (c\<lparr>m_read_body := vec_resize (unat (body_len - 4)) (m_read_body c)\<rparr>)))"

definition body_done :: "byte list option \<Rightarrow> naming_client \<Rightarrow> naming_client" where
  "body_done r c =
     (case r of
        None \<Rightarrow> close c
      | Some head \<Rightarrow>
          (let body_len = un_le head :: 32 word in
           if body_len <s 4 then close c
           else if body_len = 4 then doRead c
           else doReadBody (c\<lparr>m_read_body := vec_resize (unat (body_len - 4)) (m_read_body c)\<rparr>)))"

definition read_event :: "byte list option \<Rightarrow> naming_client \<Rightarrow> naming_client option" where
  "read_event r c =
     (case pending c of
        None \<Rightarrow> None
      | Some Read_head \<Rightarrow> Some (head_done r (c\<lparr>pending := None\<rparr>))
      | Some Read_body \<Rightarrow> Some (body_done r (c\<lparr>pending := None\<rparr>)))"

fun read_events :: "byte list option list \<Rightarrow> naming_client \<Rightarrow> naming_client option" where
  "read_events [] c = Some c"
| "read_events (r # rs) c = (case read_event r c of None \<Rightarrow> None | Some c' \<Rightarrow> read_events rs c')"

lemma find_nul_append: "0 \<notin> set n \<Longrightarrow> find_nul (n @ 0 # b) i = Some (i + length n)"
  by (induction n arbitrary: i) auto

lemma vec_resize_zeros: "set v \<subseteq> {0} \<Longrightarrow> b \<in> set (vec_resize k v) \<Longrightarrow> b = 0"
  using set_take_subset [of k v] by (auto simp: vec_resize_def)

lemma read_events_zeros:
  "read_events rs c = Some c' \<Longrightarrow> set (m_read_body c) \<subseteq> {0} \<Longrightarrow>
     set (m_read_body c') \<subseteq> {0} \<and> m_state c' = m_state c"
proof (induction rs arbitrary: c)
  case (Cons r rs)
  then obtain c1 where st: "read_event r c = Some c1" and run: "read_events rs c1 = Some c'"
    by (auto split: option.splits)
  have "set (m_read_body c1) \<subseteq> {0} \<and> m_state c1 = m_state c"
    using st Cons.prems(2) vec_resize_zeros [OF Cons.prems(2)]
    by (auto simp: read_event_def head_done_def body_done_def close_def doRead_def doReadBody_def Let_def
        split: option.splits read_op.splits if_splits)
  with Cons.IH [OF run] show ?case by auto
qed simp

lemma ns_decode_encode:
  assumes "GetTypeName m \<noteq> []" "0 \<notin> set (GetTypeName m)" "serialize m = Some body"
  shows "ns_decode f (ns_encode GetTypeName serialize m) =
      (case f (butlast (GetTypeName m)) of None \<Rightarrow> None
       | Some parse \<Rightarrow> map_option (\<lambda>x. (butlast (GetTypeName m), x)) (parse body))"
proof -
  have "take (length (GetTypeName m) - 1) (GetTypeName m) = butlast (GetTypeName m)"
    "drop (length (GetTypeName m) + 1) (GetTypeName m @ 0 # body) = body"
    by (simp_all add: butlast_conv_take)
  with assms find_nul_append [OF assms(2), of body 0] show ?thesis
    by (simp add: ns_decode_def ns_encode_def Let_def cong: option.case_cong)
qed

text \<open>
  Messages of the naming service are lost.  Decoding an encoded message looks its type up under a
  name that lacks the last letter, so it is the message only when the truncated name parses it; with
  a registry of the full name alone it is refused.  And whatever a connected client reads, the
  body it keeps is all zeros, its state stays \<open>CONNECTING\<close>, and \<open>isConnected\<close> is false,
  although it was true before.
\<close>

lemma naming_loses_messages:
  assumes msg: "GetTypeName m \<noteq> []" "0 \<notin> set (GetTypeName m)" "serialize m = Some body"
    and conn: "asyncConnect True new_NamingClient = (ok, c)"
    and reads: "read_events rs (connect_done True c) = Some c'"
  shows "ns_decode lookup (ns_encode GetTypeName serialize m) =
      (case lookup (butlast (GetTypeName m)) of None \<Rightarrow> None
       | Some parse \<Rightarrow> map_option (\<lambda>x. (butlast (GetTypeName m), x)) (parse body)) \<and>
    ns_decode (\<lambda>n. if n = GetTypeName m then Some parse1 else None) (ns_encode GetTypeName serialize m) = None \<and>
    set (m_read_body c') \<subseteq> {0} \<and> m_state c' = CONNECTING \<and> \<not> isConnected c' \<and> isConnected new_NamingClient"
proof -
  have "butlast (GetTypeName m) \<noteq> GetTypeName m"
    using msg(1) by (metis append_butlast_last_id append_self_conv list.distinct(1))
  moreover have "set (m_read_body (connect_done True c)) \<subseteq> {0}" "m_state (connect_done True c) = CONNECTING"
    using conn by (auto simp: asyncConnect_def new_NamingClient_def connect_done_def doRead_def)
  ultimately show ?thesis using read_events_zeros [OF reads]
    by (auto simp: isConnected_def new_NamingClient_def ns_decode_encode [where serialize = serialize and GetTypeName = GetTypeName and m = m, OF msg])
qed

lemma naming_loses_messages_witness:
  "ns_decode (\<lambda>n. if n = [65, 66] then Some Some else None) (ns_encode (\<lambda>m. [65, 66]) Some [7 :: byte]) = None \<and>
   (\<exists>c'. read_events [Some [6, 0, 0, 0], Some [9, 9, 9, 9]] (connect_done True (snd (asyncConnect True new_NamingClient))) = Some c' \<and>
     m_state c' = CONNECTING \<and> set (m_read_body c') \<subseteq> {0})"
proof -
  have "\<exists>c'. read_events [Some [6, 0, 0, 0], Some [9, 9, 9, 9]] (connect_done True (snd (asyncConnect True new_NamingClient))) = Some c'"
    by (auto simp: asyncConnect_def new_NamingClient_def connect_done_def doRead_def doReadBody_def close_def
        read_event_def head_done_def body_done_def Let_def)
  then obtain c' where c': "read_events [Some [6, 0, 0, 0], Some [9, 9, 9, 9]]
      (connect_done True (snd (asyncConnect True new_NamingClient))) = Some c'" by blast
  note T = naming_loses_messages [where GetTypeName = "\<lambda>m. [65, 66]" and m = "[7]" and serialize = Some and body = "[7]",
      OF _ _ _ prod.collapse [symmetric] c']
  show ?thesis using T c' by auto
qed

end
