(* ===== verification/Auto_Buffer.thy ===== *)
theory Auto_Buffer
  imports Zylib_Prelude
begin

text \<open>
  The buffer \<open>zysoft/src/zysoft/memory/auto_buffer.h\<close>: up to \<open>N\<close> elements live in an array inside the
  object, more of them in a block of the allocator.  Objects and blocks are numbered, since the object points
  into itself or to a block; an element that was never written is \<open>None\<close>.  The allocator
  may throw; it records of each block that is given back its size and the size it was told.
\<close>

section \<open>Memory\<close>

datatype pointer = Internal nat | Block nat

record 'a auto_buffer =
  m_internal :: "'a option list"
  m_buffer :: pointer
  m_items :: nat
  m_external :: bool

record 'a memory =
  objs :: "nat \<rightharpoonup> 'a auto_buffer"
  heap :: "nat \<rightharpoonup> 'a option list"
  next_block :: nat
  given_back :: "(nat \<times> nat) list"

datatype ab_error = Bad_alloc | Undefined

definition deref :: "pointer \<Rightarrow> 'a memory \<Rightarrow> 'a option list option" where
  "deref p m = (case p of Internal i \<Rightarrow> map_option m_internal (objs m i) | Block b \<Rightarrow> heap m b)"

definition ab_alloc :: "bool \<Rightarrow> nat \<Rightarrow> 'a memory \<Rightarrow> ab_error + pointer \<times> 'a memory" where
  "ab_alloc available n m =
     (if \<not> available then Inl Bad_alloc
      else Inr (Block (next_block m), m\<lparr>heap := (heap m)(next_block m \<mapsto> replicate n None), next_block := Suc (next_block m)\<rparr>))"

definition ab_dealloc :: "pointer \<Rightarrow> nat \<Rightarrow> 'a memory \<Rightarrow> ab_error + 'a memory" where
  "ab_dealloc p n m =
     (case p of
        Internal i \<Rightarrow> Inl Undefined
      | Block b \<Rightarrow> (case heap m b of
            None \<Rightarrow> Inl Undefined
          | Some blk \<Rightarrow> Inr (m\<lparr>heap := (heap m)(b := None), given_back := given_back m @ [(length blk, n)]\<rparr>)))"

text \<open>\<open>memcpy\<close> of \<open>len\<close> elements into the block \<open>s\<close>.\<close>

definition block_copy :: "pointer \<Rightarrow> pointer \<Rightarrow> nat \<Rightarrow> 'a memory \<Rightarrow> ab_error + 'a memory" where
  "block_copy s d len m =
     (case s of
        Internal i \<Rightarrow> Inl Undefined
      | Block b \<Rightarrow> (case (heap m b, deref d m) of
            (Some dst, Some src) \<Rightarrow>
              if length dst < len \<or> length src < len then Inl Undefined
              else Inr (m\<lparr>heap := (heap m)(b \<mapsto> take len src @ drop len dst)\<rparr>)
          | _ \<Rightarrow> Inl Undefined))"

definition ab_realloc :: "bool \<Rightarrow> pointer \<Rightarrow> nat \<Rightarrow> nat \<Rightarrow> 'a memory \<Rightarrow> ab_error + pointer \<times> 'a memory" where
  "ab_realloc available current_p current_n new_n m =
     res_bind (ab_alloc available new_n m) (\<lambda>(new_p, m1).
     res_bind (block_copy new_p current_p current_n m1) (\<lambda>m2.
     res_bind (ab_dealloc current_p current_n m2) (\<lambda>m3. Inr (new_p, m3))))"

section \<open>Operations\<close>

text \<open>The constructor compares with \<open><\<close> to choose the memory and with \<open>>\<close> to remember the choice.\<close>

definition ab_construct :: "nat \<Rightarrow> nat \<Rightarrow> nat \<Rightarrow> bool \<Rightarrow> ('a :: zero) memory \<Rightarrow> ab_error + 'a memory" where
  "ab_construct N i n available m =
     (let inner = replicate N (Some 0) in
      if n < N then
        Inr (m\<lparr>objs := (objs m)(i \<mapsto> \<lparr>m_internal = inner, m_buffer = Internal i, m_items = n, m_external = N < n\<rparr>)\<rparr>)
      else res_bind (ab_alloc available n m) (\<lambda>(p, m1).
        Inr (m1\<lparr>objs := (objs m1)(i \<mapsto> \<lparr>m_internal = inner, m_buffer = p, m_items = n, m_external = N < n\<rparr>),
                 heap := (case p of Block b \<Rightarrow> (heap m1)(b \<mapsto> replicate n (Some 0)) | Internal j \<Rightarrow> heap m1)\<rparr>)))"

definition ab_destroy :: "nat \<Rightarrow> 'a auto_buffer \<Rightarrow> 'a memory \<Rightarrow> ab_error + 'a memory" where
  "ab_destroy i x m =
     res_bind (if m_external x then ab_dealloc (m_buffer x) (m_items x) m else Inr m) (\<lambda>m1.
       Inr (m1\<lparr>objs := (objs m1)(i := None)\<rparr>))"

definition ab_put :: "nat \<Rightarrow> 'a auto_buffer \<Rightarrow> 'a memory \<Rightarrow> 'a memory" where
  "ab_put i x m = m\<lparr>objs := (objs m)(i \<mapsto> x)\<rparr>"

definition ab_resize :: "nat \<Rightarrow> nat \<Rightarrow> nat \<Rightarrow> bool \<Rightarrow> 'a auto_buffer \<Rightarrow> 'a memory \<Rightarrow> ab_error + 'a memory" where
  "ab_resize N i n available x m =
     (if n = 0 then
        (if m_external x then
           res_bind (ab_dealloc (m_buffer x) (m_items x) m) (\<lambda>m1.
             Inr (ab_put i (x\<lparr>m_external := False, m_buffer := Internal i, m_items := n\<rparr>) m1))
         else Inr (ab_put i (x\<lparr>m_items := n\<rparr>) m))
      else if m_items x < n then
        (if m_external x then
           res_bind (ab_realloc available (m_buffer x) (m_items x) n m) (\<lambda>(p, m1).
             Inr (ab_put i (x\<lparr>m_buffer := p, m_items := n\<rparr>) m1))
         else if N < n then
           res_bind (ab_alloc available n m) (\<lambda>(p, m1).
           res_bind (block_copy p (m_buffer x) (m_items x) m1) (\<lambda>m2.
             Inr (ab_put i (x\<lparr>m_buffer := p, m_external := True, m_items := n\<rparr>) m2)))
         else Inr (ab_put i (x\<lparr>m_items := n\<rparr>) m))
      else Inr (ab_put i (x\<lparr>m_items := n\<rparr>) m))"

definition ab_swap :: "nat \<Rightarrow> nat \<Rightarrow> 'a auto_buffer \<Rightarrow> 'a auto_buffer \<Rightarrow> 'a memory \<Rightarrow> 'a memory" where
  "ab_swap i j x y m = m\<lparr>objs := (objs m)(i \<mapsto> y, j \<mapsto> x)\<rparr>"

definition ab_empty :: "'a auto_buffer \<Rightarrow> bool" where
  "ab_empty x \<longleftrightarrow> m_items x = 0"

text \<open>\<open>operator[]\<close>: the element, if the memory pointed to has it.\<close>

definition ab_at :: "nat \<Rightarrow> 'a auto_buffer \<Rightarrow> 'a memory \<Rightarrow> 'a option option" where
  "ab_at k x m = (case deref (m_buffer x) m of
     None \<Rightarrow> None | Some mem \<Rightarrow> if k < length mem then Some (mem ! k) else None)"

text \<open>\<open>begin()\<close> to \<open>end()\<close>; \<open>cbegin()\<close> to \<open>cend()\<close> is always empty.\<close>

definition ab_range :: "'a auto_buffer \<Rightarrow> 'a memory \<Rightarrow> 'a option list option" where
  "ab_range x m = (case deref (m_buffer x) m of
     None \<Rightarrow> None | Some mem \<Rightarrow> if m_items x \<le> length mem then Some (take (m_items x) mem) else None)"

definition ab_crange :: "'a auto_buffer \<Rightarrow> 'a memory \<Rightarrow> 'a option list option" where
  "ab_crange x m = map_option (drop (m_items x)) (ab_range x m)"

datatype ab_op = Construct nat nat bool | Resize nat nat bool | Destroy nat

text \<open>\<open>None\<close>: the object is there already, or is not there.\<close>

fun ab_step :: "nat \<Rightarrow> ab_op \<Rightarrow> ('a :: zero) memory \<Rightarrow> (ab_error + 'a memory) option" where
  "ab_step N (Construct i n available) m = (if objs m i = None then Some (ab_construct N i n available m) else None)"
| "ab_step N (Resize i n available) m = (case objs m i of None \<Rightarrow> None | Some x \<Rightarrow> Some (ab_resize N i n available x m))"
| "ab_step N (Destroy i) m = (case objs m i of None \<Rightarrow> None | Some x \<Rightarrow> Some (ab_destroy i x m))"

section \<open>The invariant\<close>

definition obj_ok :: "nat \<Rightarrow> 'a memory \<Rightarrow> nat \<Rightarrow> 'a auto_buffer \<Rightarrow> bool" where
  "obj_ok N m i x \<longleftrightarrow> length (m_internal x) = N \<and>
     (if m_external x then \<exists>b blk. m_buffer x = Block b \<and> heap m b = Some blk \<and> m_items x \<le> length blk
      else m_buffer x = Internal i \<and> m_items x \<le> N)"

definition owns :: "'a auto_buffer \<Rightarrow> nat \<Rightarrow> bool" where
  "owns x b \<longleftrightarrow> m_external x \<and> m_buffer x = Block b"

definition ab_inv :: "nat \<Rightarrow> 'a memory \<Rightarrow> bool" where
  "ab_inv N m \<longleftrightarrow>
     (\<forall>i x. objs m i = Some x \<longrightarrow> obj_ok N m i x) \<and>
     (\<forall>i j x y b. objs m i = Some x \<longrightarrow> objs m j = Some y \<longrightarrow> owns x b \<longrightarrow> owns y b \<longrightarrow> i = j) \<and>
     (\<forall>b. heap m b \<noteq> None \<longrightarrow> (\<exists>i x. objs m i = Some x \<and> owns x b)) \<and>
     (\<forall>b\<ge>next_block m. heap m b = None)"

lemmas ab_defs = ab_alloc_def ab_dealloc_def ab_realloc_def block_copy_def ab_put_def deref_def

lemma ab_invD:
  assumes "ab_inv N m"
  shows "objs m i = Some x \<Longrightarrow> obj_ok N m i x"
    and "objs m i = Some x \<Longrightarrow> objs m j = Some y \<Longrightarrow> owns x b \<Longrightarrow> owns y b \<Longrightarrow> i = j"
    and "heap m b = Some blk \<Longrightarrow> \<exists>i x. objs m i = Some x \<and> owns x b"
    and "next_block m \<le> b \<Longrightarrow> heap m b = None"
  using assms unfolding ab_inv_def by blast+

text \<open>
  One object changes, with the block it owns before, if any, given up, and the block it owns
  after, if any, its own or new.
\<close>

lemma ab_inv_change:
  assumes inv: "ab_inv N m" and ok: "obj_ok N m' i x'"
    and objs: "objs m' = (objs m)(i := r)" "r = None \<or> r = Some x'"
    and heap: "\<And>b. (\<exists>y. objs m i = Some y \<and> owns y b) \<or> next_block m \<le> b \<or> heap m' b = heap m b"
    and old: "\<And>b y. objs m i = Some y \<Longrightarrow> owns y b \<Longrightarrow> heap m' b = None \<or> r = Some x' \<and> owns x' b"
    and new: "\<And>b. r = Some x' \<Longrightarrow> owns x' b \<Longrightarrow> b < next_block m' \<and> (next_block m \<le> b \<or> (\<exists>y. objs m i = Some y \<and> owns y b))"
    and fresh: "\<And>b. next_block m \<le> b \<Longrightarrow> heap m' b = None \<or> r = Some x' \<and> owns x' b"
    and nxt: "next_block m \<le> next_block m'"
  shows "ab_inv N m' \<and> (\<forall>j y. j \<noteq> i \<longrightarrow> objs m j = Some y \<longrightarrow> ab_range y m' = ab_range y m)"
proof -
  have free: "b < next_block m \<and> heap m' b = heap m b" if jy: "objs m j = Some y" "owns y b" "j \<noteq> i" for j y b
  proof -
    obtain blk where "heap m b = Some blk" using ab_invD(1) [OF inv jy(1)] jy(2) by (auto simp: obj_ok_def owns_def)
    moreover have "\<not> (\<exists>y. objs m i = Some y \<and> owns y b)" using ab_invD(2) [OF inv jy(1) _ jy(2)] jy(3) by blast
    ultimately show ?thesis using heap [of b] ab_invD(4) [OF inv, of b] by force
  qed
  have "obj_ok N m' j y" if "objs m' j = Some y" for j y
  proof (cases "j = i")
    case True
    with that objs ok show ?thesis by auto
  next
    case False
    then have j: "objs m j = Some y" using that objs by simp
    with ab_invD(1) [OF inv j] free [OF j _ False] show ?thesis
      by (auto simp: obj_ok_def owns_def split: if_splits)
  qed
  moreover have "j = k" if "objs m' j = Some y" "objs m' k = Some z" "owns y b" "owns z b" for j k y z b
  proof -
    have other: "j' = i \<or> objs m j' = Some y'" if "objs m' j' = Some y'" for j' y'
      using that objs by (auto split: if_splits)
    have mine: "r = Some x' \<and> y' = x'" if "objs m' i = Some y'" for y' using that objs by auto
    have clash: False if jk: "objs m' i = Some y'" "owns y' b" "objs m j' = Some z'" "owns z' b" "j' \<noteq> i" for y' z' j'
    proof -
      have "next_block m \<le> b \<or> (\<exists>y. objs m i = Some y \<and> owns y b)" using new [of b] mine [OF jk(1)] jk(2) by blast
      moreover have "b < next_block m" using free [OF jk(3-5)] by simp
      ultimately show False using ab_invD(2) [OF inv jk(3) _ jk(4)] jk(5) by fastforce
    qed
    show ?thesis
    proof (cases "j = i \<or> k = i")
      case True
      then show ?thesis
        using clash [of y k z] clash [of z j y] other [OF that(1)] other [OF that(2)] that by blast
    next
      case False
      with other [OF that(1)] other [OF that(2)] have "objs m j = Some y" "objs m k = Some z" by blast+
      from ab_invD(2) [OF inv this that(3,4)] show ?thesis .
    qed
  qed
  moreover have "\<exists>j y. objs m' j = Some y \<and> owns y b" if b: "heap m' b \<noteq> None" for b
  proof (cases "next_block m \<le> b")
    case True
    with fresh b objs show ?thesis by (metis fun_upd_same)
  next
    case False
    then consider y where "objs m i = Some y" "owns y b" | "heap m' b = heap m b" using heap [of b] by blast
    then show ?thesis
    proof cases
      case 1
      with old b objs show ?thesis by (metis fun_upd_same)
    next
      case 2
      then obtain blk where "heap m b = Some blk" using b by auto
      from ab_invD(3) [OF inv this] obtain j y where j: "objs m j = Some y" "owns y b" by blast
      with old b objs show ?thesis by (cases "j = i") (metis fun_upd_same, metis fun_upd_other)
    qed
  qed
  moreover have "heap m' b = None" if b: "next_block m' \<le> b" for b
    using fresh [of b] new [of b] b nxt by force
  ultimately have "ab_inv N m'" unfolding ab_inv_def by blast
  moreover have "ab_range y m' = ab_range y m" if j: "j \<noteq> i" "objs m j = Some y" for j y
  proof -
    have "deref (m_buffer y) m' = deref (m_buffer y) m"
      using ab_invD(1) [OF inv j(2)] free [OF j(2) _ j(1)] objs j by (auto simp: obj_ok_def owns_def deref_def split: if_splits)
    then show ?thesis by (simp add: ab_range_def)
  qed
  ultimately show ?thesis by blast
qed

definition others_same :: "nat \<Rightarrow> 'a memory \<Rightarrow> 'a memory \<Rightarrow> bool" where
  "others_same i m m' \<longleftrightarrow> (\<forall>j y. j \<noteq> i \<longrightarrow> objs m j = Some y \<longrightarrow> objs m' j = Some y \<and> ab_range y m' = ab_range y m)"

lemma construct_ok:
  assumes inv: "ab_inv N m" and i: "objs m i = None" and n: "n \<noteq> N"
  shows "\<not> available \<and> ab_construct N i n available m = Inl Bad_alloc \<or>
    (\<exists>m' x'. ab_construct N i n available m = Inr m' \<and> ab_inv N m' \<and> objs m' = (objs m)(i \<mapsto> x') \<and>
       ab_range x' m' = Some (replicate n (Some 0)) \<and> others_same i m m')"
proof (cases "n < N")
  case True
  let ?x = "\<lparr>m_internal = replicate N (Some 0), m_buffer = Internal i, m_items = n, m_external = N < n\<rparr>"
  let ?m = "m\<lparr>objs := (objs m)(i \<mapsto> ?x)\<rparr>"
  have "ab_inv N ?m \<and> (\<forall>j y. j \<noteq> i \<longrightarrow> objs m j = Some y \<longrightarrow> ab_range y ?m = ab_range y m)"
    by (rule ab_inv_change [where i = i and x' = ?x and r = "Some ?x", OF inv])
      (use True i ab_invD(4) [OF inv] in \<open>auto simp: obj_ok_def owns_def\<close>)
  moreover have "ab_construct N i n available m = Inr ?m" using True by (simp add: ab_construct_def)
  moreover have "ab_range ?x ?m = Some (replicate n (Some 0))" using True by (simp add: ab_range_def deref_def)
  ultimately show ?thesis by (auto simp: others_same_def)
next
  case False
  let ?b = "next_block m"
  let ?x = "\<lparr>m_internal = replicate N (Some 0), m_buffer = Block ?b, m_items = n, m_external = N < n\<rparr>"
  let ?m = "m\<lparr>heap := (heap m)(?b \<mapsto> replicate n (Some 0)), next_block := Suc ?b, objs := (objs m)(i \<mapsto> ?x)\<rparr>"
  have "ab_inv N ?m \<and> (\<forall>j y. j \<noteq> i \<longrightarrow> objs m j = Some y \<longrightarrow> ab_range y ?m = ab_range y m)"
    by (rule ab_inv_change [where i = i and x' = ?x and r = "Some ?x", OF inv])
      (use False n i ab_invD(4) [OF inv] in \<open>auto simp: obj_ok_def owns_def\<close>)
  then have "ab_inv N ?m \<and> others_same i m ?m" by (simp add: others_same_def)
  moreover have "ab_construct N i n available m = (if available then Inr ?m else Inl Bad_alloc)"
    using False by (simp add: ab_construct_def ab_alloc_def)
  moreover have "ab_range ?x ?m = Some (replicate n (Some 0))" by (simp add: ab_range_def deref_def)
  ultimately show ?thesis by (cases available) (simp_all, blast)
qed

lemma destroy_ok:
  assumes inv: "ab_inv N m" and x: "objs m i = Some x"
  shows "\<exists>m'. ab_destroy i x m = Inr m' \<and> ab_inv N m' \<and> objs m' = (objs m)(i := None) \<and> others_same i m m'"
proof (cases "m_external x")
  case True
  then obtain b blk where b: "m_buffer x = Block b" "heap m b = Some blk"
    using ab_invD(1) [OF inv x] by (auto simp: obj_ok_def)
  let ?m = "m\<lparr>heap := (heap m)(b := None), given_back := given_back m @ [(length blk, m_items x)], objs := (objs m)(i := None)\<rparr>"
  have "ab_inv N ?m \<and> (\<forall>j y. j \<noteq> i \<longrightarrow> objs m j = Some y \<longrightarrow> ab_range y ?m = ab_range y m)"
    by (rule ab_inv_change [where i = i and r = None and x' = "\<lparr>m_internal = replicate N None, m_buffer = Internal i, m_items = 0, m_external = False\<rparr>", OF inv])
      (use True b x ab_invD(4) [OF inv] in \<open>auto simp: obj_ok_def owns_def\<close>)
  then have "ab_inv N ?m \<and> others_same i m ?m" by (simp add: others_same_def)
  moreover have "ab_destroy i x m = Inr ?m" using True b by (simp add: ab_destroy_def ab_dealloc_def)
  ultimately show ?thesis by auto
next
  case False
  let ?m = "m\<lparr>objs := (objs m)(i := None)\<rparr>"
  have "ab_inv N ?m \<and> (\<forall>j y. j \<noteq> i \<longrightarrow> objs m j = Some y \<longrightarrow> ab_range y ?m = ab_range y m)"
    by (rule ab_inv_change [where i = i and r = None and x' = "\<lparr>m_internal = replicate N None, m_buffer = Internal i, m_items = 0, m_external = False\<rparr>", OF inv])
      (use False x ab_invD(4) [OF inv] in \<open>auto simp: obj_ok_def owns_def\<close>)
  then have "ab_inv N ?m \<and> others_same i m ?m" by (simp add: others_same_def)
  moreover have "ab_destroy i x m = Inr ?m" using False by (simp add: ab_destroy_def)
  ultimately show ?thesis by auto
qed

lemma put_ok:
  assumes inv: "ab_inv N m" and x: "objs m i = Some x" and x': "m_internal x' = m_internal x" "m_external x' = m_external x"
      "m_buffer x' = m_buffer x" and ok: "obj_ok N m i x'"
  shows "ab_inv N (ab_put i x' m) \<and> others_same i m (ab_put i x' m)"
proof -
  let ?m = "ab_put i x' m"
  have "ab_inv N ?m \<and> (\<forall>j y. j \<noteq> i \<longrightarrow> objs m j = Some y \<longrightarrow> ab_range y ?m = ab_range y m)"
    by (rule ab_inv_change [where i = i and r = "Some x'" and x' = x', OF inv])
      (use x x' ok ab_invD(4) [OF inv] ab_invD(1) [OF inv x] in \<open>auto simp: obj_ok_def owns_def ab_put_def not_le [symmetric]\<close>)
  then show ?thesis by (auto simp: others_same_def ab_put_def)
qed

definition keeps_prefix :: "nat \<Rightarrow> nat \<Rightarrow> 'a option list option \<Rightarrow> 'a option list option \<Rightarrow> bool" where
  "keeps_prefix old n r r' \<longleftrightarrow> (\<exists>c c'. r = Some c \<and> r' = Some c' \<and> length c = old \<and> length c' = n \<and>
     take (min old n) c' = take (min old n) c)"

lemma range_ok:
  assumes "obj_ok N m i x" "objs m i = Some x"
  shows "\<exists>mem. deref (m_buffer x) m = Some mem \<and> m_items x \<le> length mem \<and> ab_range x m = Some (take (m_items x) mem)"
  using assms by (auto simp: obj_ok_def ab_range_def deref_def split: if_splits)

lemma resize_put:
  assumes inv: "ab_inv N m" and x: "objs m i = Some x" and n: "if m_external x then n \<le> m_items x else n \<le> N"
  shows "\<exists>m' x'. ab_put i (x\<lparr>m_items := n\<rparr>) m = m' \<and> ab_inv N m' \<and> objs m' = (objs m)(i \<mapsto> x') \<and> others_same i m m' \<and>
    m_items x' = n \<and> keeps_prefix (m_items x) n (ab_range x m) (ab_range x' m')"
proof -
  let ?x = "x\<lparr>m_items := n\<rparr>" let ?m = "ab_put i ?x m"
  have ok: "obj_ok N m i x" by (rule ab_invD(1) [OF inv x])
  then have ok': "obj_ok N m i ?x" using n by (auto simp: obj_ok_def split: if_splits)
  have inv': "ab_inv N ?m \<and> others_same i m ?m" by (rule put_ok [OF inv x _ _ _ ok']) simp_all
  obtain mem where mem: "deref (m_buffer x) m = Some mem" "m_items x \<le> length mem" "ab_range x m = Some (take (m_items x) mem)"
    using range_ok [OF ok x] by blast
  have "deref (m_buffer x) ?m = Some mem" "n \<le> length mem"
    using mem ok ok' x by (auto simp: obj_ok_def deref_def ab_put_def split: if_splits)
  then have "ab_range ?x ?m = Some (take n mem)" by (simp add: ab_range_def)
  then have "keeps_prefix (m_items x) n (ab_range x m) (ab_range ?x ?m)"
    using mem \<open>n \<le> length mem\<close> by (simp add: keeps_prefix_def min.commute)
  with inv' show ?thesis by (intro exI [of _ ?m] exI [of _ ?x]) (simp add: ab_put_def)
qed

lemma resize_zero:
  assumes inv: "ab_inv N m" and x: "objs m i = Some x" and ext: "m_external x"
  shows "\<exists>m' x'. ab_resize N i 0 available x m = Inr m' \<and> ab_inv N m' \<and> objs m' = (objs m)(i \<mapsto> x') \<and>
    others_same i m m' \<and> m_items x' = 0 \<and> keeps_prefix (m_items x) 0 (ab_range x m) (ab_range x' m')"
proof -
  obtain b blk where b: "m_buffer x = Block b" "heap m b = Some blk" and len: "length (m_internal x) = N"
    using ab_invD(1) [OF inv x] ext by (auto simp: obj_ok_def)
  let ?x = "x\<lparr>m_external := False, m_buffer := Internal i, m_items := 0\<rparr>"
  let ?m = "m\<lparr>heap := (heap m)(b := None), given_back := given_back m @ [(length blk, m_items x)], objs := (objs m)(i \<mapsto> ?x)\<rparr>"
  have "ab_inv N ?m \<and> (\<forall>j y. j \<noteq> i \<longrightarrow> objs m j = Some y \<longrightarrow> ab_range y ?m = ab_range y m)"
    by (rule ab_inv_change [where i = i and r = "Some ?x" and x' = ?x, OF inv])
      (use ext b x len ab_invD(4) [OF inv] in \<open>auto simp: obj_ok_def owns_def\<close>)
  moreover have "ab_resize N i 0 available x m = Inr ?m"
    using ext b by (simp add: ab_resize_def ab_dealloc_def ab_put_def)
  moreover have "keeps_prefix (m_items x) 0 (ab_range x m) (ab_range ?x ?m)"
    using range_ok [OF ab_invD(1) [OF inv x] x] by (auto simp: keeps_prefix_def ab_range_def [of ?x] deref_def)
  ultimately show ?thesis by (intro exI [of _ ?m] exI [of _ ?x]) (simp add: others_same_def)
qed

lemma resize_grow:
  assumes inv: "ab_inv N m" and x: "objs m i = Some x" and n: "m_items x < n" "m_external x \<or> N < n"
  shows "\<not> available \<and> ab_resize N i n available x m = Inl Bad_alloc \<or>
    (\<exists>m' x'. ab_resize N i n available x m = Inr m' \<and> ab_inv N m' \<and> objs m' = (objs m)(i \<mapsto> x') \<and>
      others_same i m m' \<and> m_items x' = n \<and> keeps_prefix (m_items x) n (ab_range x m) (ab_range x' m'))"
proof (cases available)
  case False
  then show ?thesis using n by (auto simp: ab_resize_def ab_realloc_def ab_alloc_def)
next
  case True
  let ?b = "next_block m"
  obtain mem where mem: "deref (m_buffer x) m = Some mem" "m_items x \<le> length mem" "ab_range x m = Some (take (m_items x) mem)"
    using range_ok [OF ab_invD(1) [OF inv x] x] by blast
  have len: "length (m_internal x) = N" using ab_invD(1) [OF inv x] by (simp add: obj_ok_def)
  let ?new = "take (m_items x) mem @ drop (m_items x) (replicate n None)"
  let ?x = "x\<lparr>m_buffer := Block ?b, m_external := True, m_items := n\<rparr>"
  have range: "ab_range ?x m' = Some ?new" if "heap m' ?b = Some ?new" for m'
    using that n mem(2) by (simp add: ab_range_def deref_def)
  have prefix: "keeps_prefix (m_items x) n (ab_range x m) (ab_range ?x m')" if "heap m' ?b = Some ?new" for m'
    using range [OF that] mem n by (simp add: keeps_prefix_def)
  have deref': "deref (m_buffer x) (m\<lparr>heap := (heap m)(?b \<mapsto> r), next_block := k\<rparr>) = Some mem" for r k
    using mem(1) ab_invD(4) [OF inv, of ?b] by (auto simp: deref_def split: pointer.splits)
  show ?thesis
  proof (cases "m_external x")
    case ext: True
    then obtain b where b: "m_buffer x = Block b" "heap m b = Some mem"
      using ab_invD(1) [OF inv x] mem(1) by (auto simp: obj_ok_def deref_def)
    have bn: "b \<noteq> ?b" using b ab_invD(4) [OF inv, of ?b] by auto
    let ?m = "m\<lparr>next_block := Suc ?b, heap := (heap m)(?b \<mapsto> ?new, b := None),
        given_back := given_back m @ [(length mem, m_items x)], objs := (objs m)(i \<mapsto> ?x)\<rparr>"
    have xe: "?x = x\<lparr>m_buffer := Block ?b, m_items := n\<rparr>" by (rule auto_buffer.equality) (simp_all add: ext)
    have "ab_inv N ?m \<and> (\<forall>j y. j \<noteq> i \<longrightarrow> objs m j = Some y \<longrightarrow> ab_range y ?m = ab_range y m)"
      by (rule ab_inv_change [where i = i and r = "Some ?x" and x' = ?x, OF inv])
        (use ext b bn x n len mem(2) ab_invD(4) [OF inv] in \<open>auto simp: obj_ok_def owns_def\<close>)
    moreover have "ab_resize N i n available x m = Inr ?m"
      using ext b bn n True mem(2) deref' [where r = "replicate n None" and k = "Suc ?b"]
      by (simp add: ab_resize_def ab_realloc_def ab_alloc_def block_copy_def ab_dealloc_def ab_put_def xe
          fun_upd_twist)
    moreover have "keeps_prefix (m_items x) n (ab_range x m) (ab_range ?x ?m)" using bn by (intro prefix) simp
    ultimately show ?thesis by (intro disjI2 exI [of _ ?m] exI [of _ ?x]) (simp add: others_same_def)
  next
    case ext: False
    then have big: "N < n" using n by simp
    let ?m = "m\<lparr>heap := (heap m)(?b \<mapsto> ?new), next_block := Suc ?b, objs := (objs m)(i \<mapsto> ?x)\<rparr>"
    have "ab_inv N ?m \<and> (\<forall>j y. j \<noteq> i \<longrightarrow> objs m j = Some y \<longrightarrow> ab_range y ?m = ab_range y m)"
      by (rule ab_inv_change [where i = i and r = "Some ?x" and x' = ?x, OF inv])
        (use ext x n len mem(2) ab_invD(4) [OF inv] in \<open>auto simp: obj_ok_def owns_def\<close>)
    moreover have "ab_resize N i n available x m = Inr ?m"
      using ext big n True mem(2) deref' [where r = "replicate n None" and k = "Suc ?b"]
      by (simp add: ab_resize_def ab_alloc_def block_copy_def ab_put_def)
    moreover have "keeps_prefix (m_items x) n (ab_range x m) (ab_range ?x ?m)" by (intro prefix) simp
    ultimately show ?thesis by (intro disjI2 exI [of _ ?m] exI [of _ ?x]) (simp add: others_same_def)
  qed
qed

lemma resize_ok:
  assumes inv: "ab_inv N m" and x: "objs m i = Some x"
  shows "\<not> available \<and> ab_resize N i n available x m = Inl Bad_alloc \<or>
    (\<exists>m' x'. ab_resize N i n available x m = Inr m' \<and> ab_inv N m' \<and> objs m' = (objs m)(i \<mapsto> x') \<and>
      others_same i m m' \<and> m_items x' = n \<and> keeps_prefix (m_items x) n (ab_range x m) (ab_range x' m'))"
proof -
  have ok: "obj_ok N m i x" by (rule ab_invD(1) [OF inv x])
  consider "n = 0" "m_external x" | "m_items x < n" "m_external x \<or> N < n"
    | "if m_external x then n \<le> m_items x else n \<le> N" "\<not> (n = 0 \<and> m_external x)"
      "\<not> (m_items x < n \<and> (m_external x \<or> N < n))"
    using ok by (fastforce simp: obj_ok_def split: if_splits)
  then show ?thesis
  proof cases
    case 1
    with resize_zero [OF inv x, of available] show ?thesis by simp
  next
    case 2
    then show ?thesis by (rule resize_grow [OF inv x])
  next
    case 3
    then have "ab_resize N i n available x m = Inr (ab_put i (x\<lparr>m_items := n\<rparr>) m)"
      by (auto simp: ab_resize_def split: if_splits)
    with resize_put [OF inv x 3(1)] show ?thesis by auto
  qed
qed

inductive ab_reachable :: "nat \<Rightarrow> ('a :: zero) memory \<Rightarrow> bool" for N :: nat where
  init: "ab_reachable N \<lparr>objs = Map.empty, heap = Map.empty, next_block = 0, given_back = []\<rparr>"
| step: "ab_reachable N m \<Longrightarrow> ab_step N op m = Some (Inr m') \<Longrightarrow> (\<forall>i a. op \<noteq> Construct i N a) \<Longrightarrow> ab_reachable N m'"

lemma step_ok:
  assumes inv: "ab_inv N m" and st: "ab_step N op m = Some r" and op: "\<forall>i a. op \<noteq> Construct i N a"
  shows "r = Inl Bad_alloc \<or> (\<exists>m'. r = Inr m' \<and> ab_inv N m')"
proof (cases op)
  case (Construct i n a)
  with st op have "objs m i = None" "n \<noteq> N" "r = ab_construct N i n a m" by (auto split: if_splits)
  with construct_ok [OF inv this(1,2), of a] show ?thesis by auto
next
  case (Resize i n a)
  with st obtain x where "objs m i = Some x" "r = ab_resize N i n a x m" by (auto split: option.splits)
  with resize_ok [OF inv this(1), of a n] show ?thesis by auto
next
  case (Destroy i)
  with st obtain x where "objs m i = Some x" "r = ab_destroy i x m" by (auto split: option.splits)
  with destroy_ok [OF inv this(1)] show ?thesis by auto
qed

lemma reachable_inv: "ab_reachable N m \<Longrightarrow> ab_inv N m"
proof (induction rule: ab_reachable.induct)
  case init
  show ?case by (simp add: ab_inv_def)
next
  case (step m op m')
  from step_ok [OF step.IH step.hyps(2,3)] show ?case by auto
qed

text \<open>
  C34. Buffers that are not constructed with exactly \<open>N\<close> elements and not swapped are safe: every
  element of every buffer is in memory, the next operation does what it should or throws because the
  allocator does, resizing keeps the common prefix and the other buffers, and when the last buffer is
  gone so are all blocks.  A buffer constructed with \<open>N\<close> elements leaks its block.  Swapping two
  small buffers leaves each pointing into the other, dangling once that is destroyed.
  And a block whose buffer was made smaller is given back with the wrong size.
\<close>

theorem auto_buffer_memory:
  fixes m :: "('a :: zero) memory"
  assumes reach: "ab_reachable N m"
  shows "(\<forall>i x. objs m i = Some x \<longrightarrow> (\<exists>c. ab_range x m = Some c \<and> length c = m_items x) \<and>
        (\<forall>k<m_items x. ab_at k x m \<noteq> None)) \<and>
    (\<forall>op r. ab_step N op m = Some r \<longrightarrow> (\<forall>i a. op \<noteq> Construct i N a) \<longrightarrow> r \<noteq> Inl Undefined) \<and>
    (\<forall>i x n a m'. objs m i = Some x \<longrightarrow> ab_resize N i n a x m = Inr m' \<longrightarrow> others_same i m m' \<and>
        (\<exists>x'. objs m' i = Some x' \<and> keeps_prefix (m_items x) n (ab_range x m) (ab_range x' m'))) \<and>
    (objs m = Map.empty \<longrightarrow> heap m = Map.empty) \<and>
    (objs m i = None \<longrightarrow> (\<exists>m1 x m2. ab_construct N i N True m = Inr m1 \<and> objs m1 i = Some x \<and>
        ab_destroy i x m1 = Inr m2 \<and> heap m2 (next_block m) = Some (replicate N (Some 0)))) \<and>
    (objs m i = Some x \<longrightarrow> objs m j = Some y \<longrightarrow> i \<noteq> j \<longrightarrow> \<not> m_external x \<longrightarrow> \<not> m_external y \<longrightarrow>
        (\<exists>m2. ab_destroy j x (ab_swap i j x y m) = Inr m2 \<and> objs m2 i = Some y \<and> ab_at 0 y m2 = None)) \<and>
    (objs m i = Some x \<longrightarrow> m_external x \<longrightarrow> 0 < n \<longrightarrow> n < m_items x \<longrightarrow>
        (\<exists>m1 x1 m2 size. ab_resize N i n True x m = Inr m1 \<and> objs m1 i = Some x1 \<and> ab_destroy i x1 m1 = Inr m2 \<and>
           given_back m2 = given_back m @ [(size, n)] \<and> n < size))"
proof (intro conjI allI impI)
  note inv = reachable_inv [OF reach]
  have range: "\<exists>mem. deref (m_buffer z) m = Some mem \<and> m_items z \<le> length mem \<and> ab_range z m = Some (take (m_items z) mem)"
    if "objs m k = Some z" for k z
    by (rule range_ok [OF ab_invD(1) [OF inv that] that])
  show "\<exists>c. ab_range z m = Some c \<and> length c = m_items z" if "objs m k = Some z" for k z
    using range [OF that] by auto
  show "ab_at l z m \<noteq> None" if "objs m k = Some z" "l < m_items z" for k z l
    using range [OF that(1)] that(2) by (auto simp: ab_at_def)
  show "r \<noteq> Inl Undefined" if "ab_step N op m = Some r" "\<forall>i a. op \<noteq> Construct i N a" for op r
    using step_ok [OF inv that] by auto
  show "others_same k m m'" "\<exists>z'. objs m' k = Some z' \<and> keeps_prefix (m_items z) l (ab_range z m) (ab_range z' m')"
    if "objs m k = Some z" "ab_resize N k l a z m = Inr m'" for k z l a m'
    using resize_ok [OF inv that(1), of a l] that(2) by auto
  show "heap m = Map.empty" if "objs m = Map.empty"
    using ab_invD(3) [OF inv] that by (metis ext not_None_eq option.simps(3))
  show "\<exists>m1 x m2. ab_construct N i N True m = Inr m1 \<and> objs m1 i = Some x \<and>
      ab_destroy i x m1 = Inr m2 \<and> heap m2 (next_block m) = Some (replicate N (Some 0))" if "objs m i = None"
    by (simp add: ab_construct_def ab_alloc_def ab_destroy_def)
  show "\<exists>m2. ab_destroy j x (ab_swap i j x y m) = Inr m2 \<and> objs m2 i = Some y \<and> ab_at 0 y m2 = None"
    if "objs m i = Some x" "objs m j = Some y" "i \<noteq> j" "\<not> m_external x" "\<not> m_external y"
    using ab_invD(1) [OF inv that(2)] that by (auto simp: obj_ok_def ab_destroy_def ab_swap_def ab_at_def deref_def)
  show "\<exists>m1 x1 m2 size. ab_resize N i n True x m = Inr m1 \<and> objs m1 i = Some x1 \<and> ab_destroy i x1 m1 = Inr m2 \<and>
      given_back m2 = given_back m @ [(size, n)] \<and> n < size"
    if "objs m i = Some x" "m_external x" "0 < n" "n < m_items x"
    using ab_invD(1) [OF inv that(1)] that
    by (auto simp: obj_ok_def ab_destroy_def ab_resize_def ab_put_def ab_dealloc_def)
qed

lemma auto_buffer_memory_witness:
  "\<exists>m1 x m2. ab_construct 4 0 4 True (\<lparr>objs = Map.empty, heap = Map.empty, next_block = 0, given_back = []\<rparr> :: int memory) = Inr m1 \<and>
     objs m1 0 = Some x \<and> ab_destroy 0 x m1 = Inr m2 \<and> heap m2 0 = Some [Some 0, Some 0, Some 0, Some 0]"
  using auto_buffer_memory [OF ab_reachable.init [of 4, where 'a = int], THEN conjunct2, THEN conjunct2, THEN conjunct2,
      THEN conjunct2, THEN conjunct1, rule_format, of 0]
  by (simp add: numeral_eq_Suc)

end
