(* ===== verification/Game_Timer.thy ===== *)
theory Game_Timer
  imports Zylib_Prelude "HOL-Library.Multiset"
begin

text \<open>
  The timers of the game and login servers, \<open>game_server/world/TimerService.cpp\<close>.  The service keeps a sorted list of
  what remains to wait of each timer, and how much time has passed that was not yet subtracted.  A callback may
  add timers, so it may change the list and the time while the service iterates over the list; the parameter
  \<open>cb\<close> gives the timers that each callback adds.
\<close>

section \<open>Model\<close>

record 'f timer_task =
  m_fun :: 'f
  m_time :: u32

record 'f timer_service =
  m_time_passed :: u32
  m_timers :: "'f timer_task list"

definition new_TimerService :: "'f timer_service" where
  "new_TimerService = \<lparr>m_time_passed = 0, m_timers = []\<rparr>"

text \<open>\<open>timerRotation\<close> without calls, on the list.\<close>

definition wait_less :: "u32 \<Rightarrow> 'f timer_task \<Rightarrow> 'f timer_task" where
  "wait_less p x = (if m_time x \<le> p then x\<lparr>m_time := 0\<rparr> else x\<lparr>m_time := m_time x - p\<rparr>)"

definition timerRotation_false :: "'f timer_service \<Rightarrow> 'f timer_service" where
  "timerRotation_false s =
     (if m_time_passed s = 0 then s
      else s\<lparr>m_timers := map (wait_less (m_time_passed s)) (m_timers s)\<rparr>)"

text \<open>
  \<open>std::lower_bound\<close> on a sorted list, and \<open>addTimer\<close>.  The number is the place of the element to which the
  iterator of a running \<open>timerRotation\<close> points, which moves when the new timer comes before it.
\<close>

definition lower_bound :: "'f timer_task list \<Rightarrow> u32 \<Rightarrow> nat" where
  "lower_bound xs t = length (takeWhile (\<lambda>x. m_time x < t) xs)"

definition addTimer :: "'f \<times> u32 \<Rightarrow> nat \<times> 'f timer_service \<Rightarrow> nat \<times> 'f timer_service" where
  "addTimer ft is =
     (let (i, s) = is; (f, tk) = ft;
          s1 = (if m_time_passed s \<noteq> 0 then (timerRotation_false s)\<lparr>m_time_passed := 0\<rparr> else s);
          p = lower_bound (m_timers s1) tk
      in (if p \<le> i then Suc i else i,
          s1\<lparr>m_timers := take p (m_timers s1) @ \<lparr>m_fun = f, m_time = tk\<rparr> # drop p (m_timers s1)\<rparr>))"

definition addTimers :: "('f \<times> u32) list \<Rightarrow> nat \<times> 'f timer_service \<Rightarrow> nat \<times> 'f timer_service" where
  "addTimers fts = fold addTimer fts"

definition erase_at :: "nat \<Rightarrow> 'a list \<Rightarrow> 'a list" where
  "erase_at i xs = take i xs @ drop (Suc i) xs"

text \<open>
  What remains to wait of each timer.  \<open>addTimer\<close> inserts into this list, and it neither changes what the iterator
  points to nor which timers after it are due: that is why the loop below ends.
\<close>

definition remaining :: "'f timer_service \<Rightarrow> 'f timer_task list" where
  "remaining s = map (wait_less (m_time_passed s)) (m_timers s)"

definition still_due :: "nat \<Rightarrow> 'f timer_task list \<Rightarrow> 'f timer_task list" where
  "still_due i xs = filter (\<lambda>x. m_time x = 0) (drop i xs)"

lemma wait_less_simps [simp]:
  "wait_less 0 = (\<lambda>x. x)" "m_fun (wait_less p x) = m_fun x" "m_time (wait_less p x) = 0 \<longleftrightarrow> m_time x \<le> p"
  "wait_less p (x\<lparr>m_time := 0\<rparr>) = x\<lparr>m_time := 0\<rparr>"
  by (auto simp: wait_less_def fun_eq_iff)

lemma remaining_simps [simp]:
  "length (remaining s) = length (m_timers s)" "m_time_passed s = 0 \<Longrightarrow> remaining s = m_timers s"
  by (simp_all add: remaining_def)

lemma insort_lower_bound: "insort_key m_time x xs = take (lower_bound xs (m_time x)) xs @ x # drop (lower_bound xs (m_time x)) xs"
  by (induction xs) (auto simp: lower_bound_def not_le)

lemma lower_bound_le: "lower_bound xs t \<le> length xs"
  by (simp add: lower_bound_def length_takeWhile_le)

lemma lower_bound_0 [simp]: "lower_bound xs 0 = 0"
  by (cases xs) (simp_all add: lower_bound_def)

lemma addTimer_eq:
  "addTimer (f, tk) (i, s) = (if lower_bound (remaining s) tk \<le> i then Suc i else i,
     s\<lparr>m_time_passed := 0, m_timers := insort_key m_time \<lparr>m_fun = f, m_time = tk\<rparr> (remaining s)\<rparr>)"
  by (cases "m_time_passed s = 0")
    (auto simp: addTimer_def timerRotation_false_def remaining_def Let_def insort_lower_bound intro!: timer_service.equality)

lemma addTimer_step:
  assumes i: "i < length (m_timers s)" "m_time (remaining s ! i) = 0"
  obtains j s' where "addTimer (f, tk) (i, s) = (j, s')" "m_time_passed s' = 0"
    "m_timers s' = insort_key m_time \<lparr>m_fun = f, m_time = tk\<rparr> (remaining s)"
    "j < length (m_timers s')" "m_timers s' ! j = remaining s ! i"
    "still_due (Suc j) (m_timers s') = still_due (Suc i) (remaining s)"
    "j = (if lower_bound (remaining s) tk \<le> i then Suc i else i)"
proof -
  let ?p = "lower_bound (remaining s) tk" let ?j = "if ?p \<le> i then Suc i else i"
  let ?x = "\<lparr>m_fun = f, m_time = tk\<rparr>"
  let ?ys = "take ?p (remaining s) @ ?x # drop ?p (remaining s)"
  have len: "?p \<le> length (m_timers s)" using lower_bound_le [of "remaining s"] by simp
  have "addTimer (f, tk) (i, s) = (?j, s\<lparr>m_time_passed := 0, m_timers := ?ys\<rparr>)"
    by (simp add: addTimer_eq insort_lower_bound)
  moreover have "?ys ! ?j = remaining s ! i" using i len by (auto simp: nth_append min_def)
  moreover have "still_due (Suc ?j) ?ys = still_due (Suc i) (remaining s)"
  proof (cases "?p \<le> i")
    case True
    then show ?thesis using len by (simp add: still_due_def min_def Suc_diff_le)
  next
    case False
    then have "tk \<noteq> 0" by auto
    moreover have "drop (Suc i) (remaining s) = drop (Suc i) (take ?p (remaining s)) @ drop ?p (remaining s)"
      using False by (metis append_take_drop_id drop_append diff_is_0_eq' drop_0 length_take len not_le Suc_leI min_absorb2 remaining_simps(1))
    ultimately show ?thesis using False len by (simp add: still_due_def)
  qed
  moreover have "?ys = insort_key m_time ?x (remaining s)" by (simp add: insort_lower_bound)
  ultimately show ?thesis using i len by (intro that [of ?j "s\<lparr>m_time_passed := 0, m_timers := ?ys\<rparr>"]) auto
qed

definition insert_timers :: "('f \<times> u32) list \<Rightarrow> 'f timer_task list \<Rightarrow> 'f timer_task list" where
  "insert_timers = fold (\<lambda>(f, tk). insort_key m_time \<lparr>m_fun = f, m_time = tk\<rparr>)"

lemma insert_timers_simps [simp]:
  "insert_timers [] xs = xs"
  "insert_timers ((f, tk) # fts) xs = insert_timers fts (insort_key m_time \<lparr>m_fun = f, m_time = tk\<rparr> xs)"
  "insert_timers (fts @ gts) xs = insert_timers gts (insert_timers fts xs)"
  by (simp_all add: insert_timers_def)

lemma sorted_insert_timers: "sorted (map m_time xs) \<Longrightarrow> sorted (map m_time (insert_timers fts xs))"
  by (induction fts arbitrary: xs) (auto simp: sorted_insort_key)

text \<open>What a rotation keeps when the iterator is at a timer that it erases.\<close>

definition kept :: "nat \<Rightarrow> 'f timer_task list \<Rightarrow> 'f timer_task list" where
  "kept i xs = take i xs @ filter (\<lambda>x. m_time x \<noteq> 0) (drop (Suc i) xs)"

lemma insort_key_append_less: "\<forall>u \<in> set us. f u < f x \<Longrightarrow> insort_key f x (us @ vs) = us @ insort_key f x vs"
  by (induction us) auto

lemma kept_insort:
  assumes i: "i < length xs" "m_time (xs ! i) = 0" and sorted: "sorted (map m_time xs)"
  shows "kept (if lower_bound xs (m_time x) \<le> i then Suc i else i) (insort_key m_time x xs) = insort_key m_time x (kept i xs)"
proof (cases "m_time x = 0")
  case True
  have front: "insort_key m_time x zs = x # zs" for zs using True by (cases zs) simp_all
  show ?thesis unfolding front by (simp add: True kept_def)
next
  case False
  define us c vs where split: "us = take i xs" "c = xs ! i" "vs = drop (Suc i) xs"
  have xs: "xs = us @ c # vs" "length us = i" using i id_take_nth_drop [OF i(1)] by (simp_all add: split)
  have "m_time u = 0" if "u \<in> set (us @ [c])" for u
  proof -
    have "m_time u \<le> m_time c" using that sorted by (auto simp: xs(1) sorted_append)
    then show ?thesis using i(2) by (simp add: split)
  qed
  then have small: "\<forall>u \<in> set (us @ [c]). m_time u < m_time x" using False by (auto simp: word_gt_0)
  then have ys: "insort_key m_time x xs = us @ c # insort_key m_time x vs"
    using insort_key_append_less [of "us @ [c]" m_time x vs] by (simp add: xs)
  have "\<not> lower_bound xs (m_time x) \<le> i" using small xs by (simp add: lower_bound_def)
  moreover have "sorted (map m_time vs)" using sorted by (simp add: xs sorted_append)
  ultimately show ?thesis
    using small False insort_key_append_less [of us m_time x "filter (\<lambda>x. m_time x \<noteq> 0) vs"]
    by (simp add: kept_def ys xs(2) filter_insort) (simp add: xs)
qed

lemma addTimers_step:
  assumes "i < length (m_timers s)" "m_time (remaining s ! i) = 0"
  obtains j s' where "addTimers fts (i, s) = (j, s')" "j < length (m_timers s')"
    "remaining s' ! j = remaining s ! i" "still_due (Suc j) (remaining s') = still_due (Suc i) (remaining s)"
    "remaining s' = insert_timers fts (remaining s)"
    "sorted (map m_time (remaining s)) \<longrightarrow> kept j (remaining s') = insert_timers fts (kept i (remaining s))"
    "m_time_passed s' = 0 \<or> j = i \<and> m_time_passed s' = m_time_passed s"
  using assms
proof (induction fts arbitrary: i s thesis)
  case Nil
  show ?case by (rule Nil.prems(1) [of i s]) (use Nil.prems(2) in \<open>simp_all add: addTimers_def\<close>)
next
  case (Cons ft fts)
  obtain f tk where ft: "ft = (f, tk)" by force
  let ?x = "\<lparr>m_fun = f, m_time = tk\<rparr>"
  obtain j s' where one: "addTimer (f, tk) (i, s) = (j, s')" "m_time_passed s' = 0"
    "m_timers s' = insort_key m_time ?x (remaining s)"
    "j < length (m_timers s')" "m_timers s' ! j = remaining s ! i"
    "still_due (Suc j) (m_timers s') = still_due (Suc i) (remaining s)"
    "j = (if lower_bound (remaining s) tk \<le> i then Suc i else i)"
    by (rule addTimer_step [OF Cons.prems(2,3)])
  have r: "remaining s' = m_timers s'" using one(2) by simp
  have zero: "m_time (remaining s' ! j) = 0" using one Cons.prems(3) by simp
  obtain k s'' where more:
    "addTimers fts (j, s') = (k, s'')" "k < length (m_timers s'')" "remaining s'' ! k = remaining s' ! j"
    "still_due (Suc k) (remaining s'') = still_due (Suc j) (remaining s')"
    "remaining s'' = insert_timers fts (remaining s')"
    "sorted (map m_time (remaining s')) \<longrightarrow> kept k (remaining s'') = insert_timers fts (kept j (remaining s'))"
    "m_time_passed s'' = 0 \<or> k = j \<and> m_time_passed s'' = m_time_passed s'"
    by (rule Cons.IH [OF _ one(4) zero]) (rule that)
  have kept: "kept j (m_timers s') = insort_key m_time ?x (kept i (remaining s))" if "sorted (map m_time (remaining s))"
    using kept_insort [of i "remaining s" ?x] Cons.prems(2,3) that one(3,7) by simp
  show ?case
  proof (rule Cons.prems(1))
    show "addTimers (ft # fts) (i, s) = (k, s'')" using more(1) one(1) by (simp add: ft addTimers_def)
    show "sorted (map m_time (remaining s)) \<longrightarrow> kept k (remaining s'') = insert_timers (ft # fts) (kept i (remaining s))"
      using more(6) kept one(3) by (simp add: ft r sorted_insort_key)
    show "m_time_passed s'' = 0 \<or> k = i \<and> m_time_passed s'' = m_time_passed s" using more(7) one(2) by auto
  qed (use more(2-5) one(3-6) in \<open>simp_all add: ft r\<close>)
qed

lemma remaining_set_zero:
  "i < length (m_timers s) \<Longrightarrow> m_time (m_timers s ! i) \<le> m_time_passed s \<Longrightarrow>
    remaining (s\<lparr>m_timers := (m_timers s)[i := (m_timers s ! i)\<lparr>m_time := 0\<rparr>]\<rparr>) = remaining s"
  by (simp add: remaining_def map_update) (simp add: wait_less_def list_update_same_conv)

lemma still_due_Suc:
  "i < length xs \<Longrightarrow> still_due i xs = (if m_time (xs ! i) = 0 then xs ! i # still_due (Suc i) xs else still_due (Suc i) xs)"
  by (simp add: still_due_def Cons_nth_drop_Suc [symmetric])

lemma drop_erase_at: "j < length xs \<Longrightarrow> drop j (erase_at j xs) = drop (Suc j) xs"
  by (simp add: erase_at_def min_def)

lemma sorted_erase_at:
  assumes "sorted (map f xs)"
  shows "sorted (map f (erase_at j xs))"
proof (cases "j < length xs")
  case True
  have "sorted (map f (take j xs @ xs ! j # drop (Suc j) xs))" using assms id_take_nth_drop [OF True] by simp
  then show ?thesis by (simp add: erase_at_def sorted_append)
next
  case False
  then show ?thesis using assms by (simp add: erase_at_def)
qed

lemma length_erase_at: "j < length xs \<Longrightarrow> length (erase_at j xs) = length xs - 1"
  by (simp add: erase_at_def)

lemma remaining_erase [simp]: "remaining (s\<lparr>m_timers := erase_at j (m_timers s)\<rparr>) = erase_at j (remaining s)"
  by (simp add: remaining_def erase_at_def take_map drop_map)

lemma still_due_erase [simp]: "j < length xs \<Longrightarrow> still_due j (erase_at j xs) = still_due (Suc j) xs"
  by (simp add: still_due_def drop_erase_at)

text \<open>The loop of \<open>timerRotation(true)\<close>; the result has the callbacks in the order of their calls.\<close>

function rotation_loop :: "('f \<Rightarrow> ('f \<times> u32) list) \<Rightarrow> nat \<Rightarrow> 'f timer_service \<Rightarrow> 'f list \<times> 'f timer_service" where
  "rotation_loop cb i s =
     (if length (m_timers s) \<le> i then ([], s)
      else let x = m_timers s ! i in
        if m_time x \<le> m_time_passed s then
          let (i1, s1) = addTimers (cb (m_fun x)) (i, s\<lparr>m_timers := (m_timers s)[i := x\<lparr>m_time := 0\<rparr>]\<rparr>);
              (fs, s2) = rotation_loop cb i1 (s1\<lparr>m_timers := erase_at i1 (m_timers s1)\<rparr>)
          in (m_fun x # fs, s2)
        else rotation_loop cb (Suc i) (s\<lparr>m_timers := (m_timers s)[i := x\<lparr>m_time := m_time x - m_time_passed s\<rparr>]\<rparr>))"
  by pat_completeness auto

termination
proof (relation "measures [\<lambda>(cb, i, s). length (still_due i (remaining s)), \<lambda>(cb, i, s). length (m_timers s) - i]")
  fix cb :: "'f \<Rightarrow> ('f \<times> u32) list" and i and s s1 :: "'f timer_service" and x y j
  assume i: "\<not> length (m_timers s) \<le> i" and x: "x = m_timers s ! i" "m_time x \<le> m_time_passed s"
    and y: "y = addTimers (cb (m_fun x)) (i, s\<lparr>m_timers := (m_timers s)[i := x\<lparr>m_time := 0\<rparr>]\<rparr>)" "(j, s1) = y"
  let ?s = "s\<lparr>m_timers := (m_timers s)[i := x\<lparr>m_time := 0\<rparr>]\<rparr>"
  have s: "remaining ?s = remaining s" using remaining_set_zero [of i s] i x by simp
  have zero: "m_time (remaining s ! i) = 0" using i x by (simp add: remaining_def)
  obtain j' s' where js: "addTimers (cb (m_fun x)) (i, ?s) = (j', s')" "j' < length (m_timers s')"
    "still_due (Suc j') (remaining s') = still_due (Suc i) (remaining ?s)"
    by (rule addTimers_step [of i ?s "cb (m_fun x)"]) (use i zero s in auto)
  then have "j = j'" "s1 = s'" using y by simp_all
  then have "length (still_due j (remaining (s1\<lparr>m_timers := erase_at j (m_timers s1)\<rparr>))) < length (still_due i (remaining s))"
    using js s zero i still_due_Suc [of i "remaining s"] by simp
  then show "((cb, j, s1\<lparr>m_timers := erase_at j (m_timers s1)\<rparr>), cb, i, s)
      \<in> measures [\<lambda>(cb, i, s). length (still_due i (remaining s)), \<lambda>(cb, i, s). length (m_timers s) - i]"
    by simp
next
  fix cb :: "'f \<Rightarrow> ('f \<times> u32) list" and i and s :: "'f timer_service" and x
  assume i: "\<not> length (m_timers s) \<le> i" and x: "x = m_timers s ! i" "\<not> m_time x \<le> m_time_passed s"
  let ?s = "s\<lparr>m_timers := (m_timers s)[i := x\<lparr>m_time := m_time x - m_time_passed s\<rparr>]\<rparr>"
  have "still_due (Suc i) (remaining ?s) = still_due (Suc i) (remaining s)"
    by (simp add: still_due_def remaining_def drop_map)
  moreover have "m_time (remaining s ! i) \<noteq> 0" using i x by (simp add: remaining_def)
  ultimately show "((cb, Suc i, ?s), cb, i, s)
      \<in> measures [\<lambda>(cb, i, s). length (still_due i (remaining s)), \<lambda>(cb, i, s). length (m_timers s) - i]"
    using i still_due_Suc [of i "remaining s"] by simp
qed simp

declare rotation_loop.simps [simp del]

text \<open>The list during a rotation, with the timers before the iterator already reduced.\<close>

definition midway :: "nat \<Rightarrow> 'f timer_service \<Rightarrow> 'f timer_task list" where
  "midway i s = take i (m_timers s) @ drop i (remaining s)"

definition loop_inv :: "nat \<Rightarrow> 'f timer_service \<Rightarrow> bool" where
  "loop_inv i s \<longleftrightarrow> i \<le> length (m_timers s) \<and> sorted (map m_time (midway i s)) \<and>
     (m_time_passed s = 0 \<or> i = 0 \<or> still_due i (remaining s) = [])"

lemma midway_remaining: "m_time_passed s = 0 \<or> i = 0 \<Longrightarrow> midway i s = remaining s"
  by (auto simp: midway_def)

lemma rotation_loop_outcome:
  assumes "loop_inv i s" "rotation_loop cb i s = (fs, s')"
  shows "fs = map m_fun (still_due i (remaining s)) \<and>
    m_timers s' = insert_timers (concat (map cb fs)) (take i (m_timers s) @ filter (\<lambda>x. m_time x \<noteq> 0) (drop i (remaining s)))"
  using assms
proof (induction cb i s arbitrary: fs s' rule: rotation_loop.induct)
  case (1 cb i s)
  let ?x = "m_timers s ! i" let ?s = "s\<lparr>m_timers := (m_timers s)[i := ?x\<lparr>m_time := 0\<rparr>]\<rparr>"
  note inv = "1.prems"(1) [unfolded loop_inv_def]
  consider "length (m_timers s) \<le> i" | "i < length (m_timers s)" "m_time ?x \<le> m_time_passed s"
    | "i < length (m_timers s)" "\<not> m_time ?x \<le> m_time_passed s" by linarith
  then show ?case
  proof cases
    case 1
    then show ?thesis using "1.prems" inv by (simp add: still_due_def rotation_loop.simps)
  next
    case 2
    have s0: "remaining ?s = remaining s" by (rule remaining_set_zero [OF 2])
    have xi: "m_time (remaining s ! i) = 0" "m_fun (remaining s ! i) = m_fun ?x" using 2 by (simp_all add: remaining_def)
    then have due: "still_due i (remaining s) = remaining s ! i # still_due (Suc i) (remaining s)"
      using 2 still_due_Suc [of i "remaining s"] by simp
    then have i0: "m_time_passed s = 0 \<or> i = 0" using inv by auto
    have sorted: "sorted (map m_time (remaining s))" using inv midway_remaining [OF i0] by simp
    obtain j s1 where add: "addTimers (cb (m_fun ?x)) (i, ?s) = (j, s1)" "j < length (m_timers s1)"
      "still_due (Suc j) (remaining s1) = still_due (Suc i) (remaining s)"
      "remaining s1 = insert_timers (cb (m_fun ?x)) (remaining s)"
      "kept j (remaining s1) = insert_timers (cb (m_fun ?x)) (kept i (remaining s))"
      "m_time_passed s1 = 0 \<or> j = 0"
      by (rule addTimers_step [of i ?s "cb (m_fun ?x)"]) (use 2 xi s0 sorted i0 in auto)
    let ?s2 = "s1\<lparr>m_timers := erase_at j (m_timers s1)\<rparr>"
    obtain fs1 where run: "rotation_loop cb j ?s2 = (fs1, s')" "fs = m_fun ?x # fs1"
      using "1.prems"(2) 2 add(1) unfolding rotation_loop.simps [of cb i s] by (auto simp: Let_def split: prod.splits)
    have j0: "m_time_passed ?s2 = 0 \<or> j = 0" using add(6) by simp
    have "sorted (map m_time (remaining s1))" unfolding add(4) by (rule sorted_insert_timers [OF sorted])
    then have "sorted (map m_time (erase_at j (remaining s1)))" by (rule sorted_erase_at)
    then have inv2: "loop_inv j ?s2"
      unfolding loop_inv_def midway_remaining [OF j0] using add(2) j0 by (auto simp: length_erase_at)
    have tk: "take j (m_timers ?s2) @ filter (\<lambda>x. m_time x \<noteq> 0) (drop j (remaining ?s2)) = kept j (remaining s1)"
    proof -
      have "take j (m_timers ?s2) = take j (remaining s1)" using add(2,6) by (auto simp: erase_at_def)
      then show ?thesis using add(2) by (simp add: kept_def drop_erase_at)
    qed
    have ki: "take i (m_timers s) @ filter (\<lambda>x. m_time x \<noteq> 0) (drop i (remaining s)) = kept i (remaining s)"
      using 2 xi i0 by (auto simp: kept_def Cons_nth_drop_Suc [symmetric])
    have "\<not> length (m_timers s) \<le> i" using 2 by simp
    note ih = "1.IH"(1) [OF this refl 2(2) add(1) [symmetric] refl inv2 run(1)]
    have "still_due j (remaining ?s2) = still_due (Suc i) (remaining s)" using add(2,3) by simp
    with ih have "fs1 = map m_fun (still_due (Suc i) (remaining s))" by simp
    moreover have "m_timers s' = insert_timers (concat (map cb fs1)) (insert_timers (cb (m_fun ?x)) (kept i (remaining s)))"
      using ih unfolding tk add(5) by simp
    ultimately show ?thesis unfolding ki using due xi run(2) by simp
  next
    case 3
    let ?s3 = "s\<lparr>m_timers := (m_timers s)[i := ?x\<lparr>m_time := m_time ?x - m_time_passed s\<rparr>]\<rparr>"
    have x: "wait_less (m_time_passed s) ?x = ?x\<lparr>m_time := m_time ?x - m_time_passed s\<rparr>" using 3 by (simp add: wait_less_def)
    have nz: "m_time (remaining s ! i) \<noteq> 0" using 3 by (simp add: remaining_def)
    have dr: "drop i (remaining s) = wait_less (m_time_passed s) ?x # drop (Suc i) (remaining s)"
      using 3 by (simp add: remaining_def Cons_nth_drop_Suc [symmetric])
    have rest: "drop (Suc i) (remaining ?s3) = drop (Suc i) (remaining s)" by (simp add: remaining_def drop_map)
    have tk: "take (Suc i) (m_timers ?s3) = take i (m_timers s) @ [wait_less (m_time_passed s) ?x]"
      using 3 by (simp add: x take_Suc_conv_app_nth)
    have "sorted (map m_time (drop i (remaining s)))" using inv by (simp add: midway_def sorted_append)
    then have none: "still_due i (remaining s) = []" "still_due (Suc i) (remaining s) = []"
      using nz 3 unfolding still_due_def dr
      by (auto simp: filter_empty_conv remaining_def simp flip: word_le_0_iff)
    have mid: "midway (Suc i) ?s3 = midway i s" unfolding midway_def tk rest dr by simp
    have inv3: "loop_inv (Suc i) ?s3"
      using inv 3 none(2) rest unfolding loop_inv_def mid by (simp add: still_due_def)
    have go: "\<not> length (m_timers s) \<le> i" using 3 by simp
    have run: "rotation_loop cb (Suc i) ?s3 = (fs, s')"
      using "1.prems"(2) 3 unfolding rotation_loop.simps [of cb i s] by (simp add: Let_def)
    note ih = "1.IH"(2) [OF go refl 3(2) inv3 run]
    have "fs = []" using ih none(2) unfolding still_due_def rest by simp
    moreover have "filter (\<lambda>x. m_time x \<noteq> 0) (drop i (remaining s)) =
        wait_less (m_time_passed s) ?x # filter (\<lambda>x. m_time x \<noteq> 0) (drop (Suc i) (remaining s))"
      unfolding dr using 3 by simp
    ultimately show ?thesis using ih none(1) unfolding rest tk by simp
  qed
qed

section \<open>Heartbeats\<close>

definition timerRotation_true :: "('f \<Rightarrow> ('f \<times> u32) list) \<Rightarrow> 'f timer_service \<Rightarrow> 'f list \<times> 'f timer_service" where
  "timerRotation_true cb s = (if m_time_passed s = 0 then ([], s) else rotation_loop cb 0 s)"

definition timer_heartbeat :: "('f \<Rightarrow> ('f \<times> u32) list) \<Rightarrow> u32 \<Rightarrow> 'f timer_service \<Rightarrow> 'f list \<times> 'f timer_service" where
  "timer_heartbeat cb diff s =
     (if m_timers s = [] then ([], s)
      else let s1 = s\<lparr>m_time_passed := m_time_passed s + diff\<rparr> in
        if m_time_passed s1 < m_time (hd (m_timers s1)) then ([], s1)
        else let (fs, s2) = timerRotation_true cb s1 in (fs, s2\<lparr>m_time_passed := 0\<rparr>))"

datatype 'f timer_op = Add 'f u32 | Beat u32

fun timer_run :: "('f \<Rightarrow> ('f \<times> u32) list) \<Rightarrow> 'f timer_op list \<Rightarrow> 'f timer_service \<Rightarrow> 'f list list \<times> 'f timer_service" where
  "timer_run cb [] s = ([], s)"
| "timer_run cb (Add f tk # ops) s = timer_run cb ops (snd (addTimer (f, tk) (0, s)))"
| "timer_run cb (Beat d # ops) s =
     (let (fs, s1) = timer_heartbeat cb d s; (log, s2) = timer_run cb ops s1 in (fs # log, s2))"

section \<open>The schedule\<close>

text \<open>
  What the service promises: a clock and a list of deadlines.  A heartbeat advances the clock and calls the timers
  whose deadlines have come, in the order of the deadlines and the latest first among equal ones.  Timers that the
  callbacks add start at the new time, and none of them is called in the same heartbeat.
\<close>

type_synonym 'f schedule = "nat \<times> ('f \<times> nat) list"

definition spec_add :: "'f \<times> u32 \<Rightarrow> 'f schedule \<Rightarrow> 'f schedule" where
  "spec_add ft TL = (fst TL, insort_key snd (fst ft, fst TL + unat (snd ft)) (snd TL))"

definition spec_beat :: "('f \<Rightarrow> ('f \<times> u32) list) \<Rightarrow> u32 \<Rightarrow> 'f schedule \<Rightarrow> 'f list \<times> 'f schedule" where
  "spec_beat cb d TL =
     (if d = 0 then ([], TL)
      else let now = fst TL + unat d; fs = map fst (filter (\<lambda>x. snd x \<le> now) (snd TL))
        in (fs, fold spec_add (concat (map cb fs)) (now, filter (\<lambda>x. now < snd x) (snd TL))))"

fun spec_run :: "('f \<Rightarrow> ('f \<times> u32) list) \<Rightarrow> 'f timer_op list \<Rightarrow> 'f schedule \<Rightarrow> 'f list list" where
  "spec_run cb [] TL = []"
| "spec_run cb (Add f tk # ops) TL = spec_run cb ops (spec_add (f, tk) TL)"
| "spec_run cb (Beat d # ops) TL = (let (fs, TL1) = spec_beat cb d TL in fs # spec_run cb ops TL1)"

definition scheduled_at :: "nat \<Rightarrow> 'f timer_task \<Rightarrow> 'f \<times> nat" where
  "scheduled_at T x = (m_fun x, T + unat (m_time x))"

definition schedule_of :: "nat \<Rightarrow> 'f timer_service \<Rightarrow> 'f schedule" where
  "schedule_of T s = (T, map (scheduled_at T) (remaining s))"

text \<open>Durations below \<open>2 ^ 31\<close> are never enough for the time passed to wrap.\<close>

definition timers_inv :: "'f timer_service \<Rightarrow> bool" where
  "timers_inv s \<longleftrightarrow> sorted (map m_time (m_timers s)) \<and>
     (m_time_passed s = 0 \<or> m_timers s \<noteq> [] \<and> (\<forall>x \<in> set (m_timers s). m_time_passed s < m_time x)) \<and>
     (\<forall>x \<in> set (m_timers s). m_time x \<le> 2 ^ 31)"

lemma fst_scheduled_at [simp]: "fst (scheduled_at T x) = m_fun x"
  by (simp add: scheduled_at_def)

lemma scheduled_insort:
  "map (scheduled_at T) (insort_key m_time \<lparr>m_fun = f, m_time = tk\<rparr> xs) =
    insort_key snd (f, T + unat tk) (map (scheduled_at T) xs)"
  by (induction xs) (auto simp: scheduled_at_def word_le_nat_alt)

lemma scheduled_insert:
  "fold spec_add fts (T, map (scheduled_at T) xs) = (T, map (scheduled_at T) (insert_timers fts xs))"
  by (induction fts arbitrary: xs) (auto simp: spec_add_def scheduled_insort [symmetric])

lemma addTimer_schedule: "schedule_of T (snd (addTimer (f, tk) (i, s))) = spec_add (f, tk) (schedule_of T s)"
  by (simp add: addTimer_eq schedule_of_def spec_add_def scheduled_insort)

lemma sorted_wait_less: "sorted (map m_time xs) \<Longrightarrow> sorted (map m_time (map (wait_less p) xs))"
  by (induction xs) (auto simp: wait_less_def word_le_nat_alt unat_sub not_le word_less_nat_alt split: if_splits)

lemma set_insert_timers: "set (insert_timers fts xs) = (\<lambda>(f, tk). \<lparr>m_fun = f, m_time = tk\<rparr>) ` set fts \<union> set xs"
  by (induction fts arbitrary: xs) (auto simp: set_insort_key)

lemma wait_less_bound: "m_time x \<le> b \<Longrightarrow> m_time (wait_less p x) \<le> b"
  by (auto simp: wait_less_def word_le_nat_alt unat_sub not_le word_less_nat_alt)

lemma addTimer_inv:
  assumes "timers_inv s" "tk \<le> 2 ^ 31"
  shows "timers_inv (snd (addTimer (f, tk) (i, s)))"
  using assms sorted_wait_less [of "m_timers s" "m_time_passed s"] wait_less_bound [of _ "2 ^ 31" "m_time_passed s"]
  by (auto simp: timers_inv_def addTimer_eq sorted_insort_key set_insort_key remaining_def)

lemma unat_passed: "m_time x \<le> 2 ^ 31 \<Longrightarrow> p = 0 \<or> p < m_time x \<Longrightarrow> unat d < 2 ^ 31 \<Longrightarrow> unat (p + d :: u32) = unat p + unat d"
  by (subst unat_add_lem [symmetric]) (auto simp: word_le_nat_alt word_less_nat_alt)

lemma scheduled_wait:
  assumes "p = 0 \<or> p < m_time x" "unat (p + d) = unat p + unat d"
  shows "snd (scheduled_at T (wait_less p x)) \<le> T + unat d \<longleftrightarrow> m_time x \<le> p + d"
    "\<not> m_time x \<le> p + d \<Longrightarrow> scheduled_at T (wait_less p x) = scheduled_at (T + unat d) (wait_less (p + d) x)"
  using assms by (auto simp: scheduled_at_def wait_less_def word_le_nat_alt word_less_nat_alt unat_sub)

lemma heartbeat_schedule:
  assumes inv: "timers_inv s" and d: "unat d < 2 ^ 31" and cb: "\<forall>f. \<forall>(g, tk) \<in> set (cb f). tk \<le> 2 ^ 31"
    and beat: "timer_heartbeat cb d s = (fs, s')"
  shows "timers_inv s' \<and> spec_beat cb d (schedule_of T s) = (fs, schedule_of (T + unat d) s')"
proof (cases "m_timers s = []")
  case True
  then show ?thesis using inv beat
    by (auto simp: timers_inv_def timer_heartbeat_def spec_beat_def schedule_of_def remaining_def)
next
  case False
  let ?p = "m_time_passed s" let ?s1 = "s\<lparr>m_time_passed := ?p + d\<rparr>"
  have sorted: "sorted (map m_time (m_timers s))" and small: "\<forall>x \<in> set (m_timers s). m_time x \<le> 2 ^ 31"
    and passed: "\<forall>x \<in> set (m_timers s). ?p = 0 \<or> ?p < m_time x"
    using inv by (auto simp: timers_inv_def)
  from False obtain x xs where ts: "m_timers s = x # xs" by (cases "m_timers s") auto
  then have pd: "unat (?p + d) = unat ?p + unat d" using unat_passed [of x ?p d] small passed d by simp
  have el: "snd (scheduled_at T (wait_less ?p y)) \<le> T + unat d \<longleftrightarrow> m_time y \<le> ?p + d"
    "T + unat d < snd (scheduled_at T (wait_less ?p y)) \<longleftrightarrow> \<not> m_time y \<le> ?p + d"
    "\<not> m_time y \<le> ?p + d \<Longrightarrow> scheduled_at T (wait_less ?p y) = scheduled_at (T + unat d) (wait_less (?p + d) y)"
    if "y \<in> set (m_timers s)" for y
    using scheduled_wait [OF _ pd, of y T] passed that by (auto simp: not_le [symmetric])
  have due: "map fst (filter (\<lambda>y. snd y \<le> T + unat d) (map (scheduled_at T) (remaining s))) =
      map m_fun (filter (\<lambda>y. m_time y \<le> ?p + d) (m_timers s))"
    by (simp add: remaining_def filter_map comp_def el cong: filter_cong)
  have left: "filter (\<lambda>y. T + unat d < snd y) (map (scheduled_at T) (remaining s)) =
      map (scheduled_at (T + unat d)) (map (wait_less (?p + d)) (filter (\<lambda>y. \<not> m_time y \<le> ?p + d) (m_timers s)))"
    using el(2,3) by (simp add: remaining_def filter_map comp_def cong: filter_cong)
  have spec: "spec_beat cb d (schedule_of T s) = (if d = 0 then ([], schedule_of T s) else
      let fs = map m_fun (filter (\<lambda>y. m_time y \<le> ?p + d) (m_timers s)) in
      (fs, T + unat d, map (scheduled_at (T + unat d)) (insert_timers (concat (map cb fs))
        (map (wait_less (?p + d)) (filter (\<lambda>y. \<not> m_time y \<le> ?p + d) (m_timers s))))))"
    unfolding spec_beat_def schedule_of_def fst_conv snd_conv due left scheduled_insert Let_def by simp
  show ?thesis
  proof (cases "?p + d < m_time x")
    case True
    then have none: "\<forall>y \<in> set (m_timers s). ?p + d < m_time y" using sorted ts by auto
    then have "filter (\<lambda>y. m_time y \<le> ?p + d) (m_timers s) = []"
      "filter (\<lambda>y. \<not> m_time y \<le> ?p + d) (m_timers s) = m_timers s" by (auto simp: filter_empty_conv not_le filter_id_conv)
    moreover have "fs = []" "s' = ?s1" using beat ts True by (auto simp: timer_heartbeat_def)
    ultimately show ?thesis using spec none inv ts
      by (auto simp: timers_inv_def schedule_of_def remaining_def)
  next
    case False
    show ?thesis
    proof (cases "?p + d = 0")
      case True
      then have "d = 0" "?p = 0" using pd by (simp_all add: unat_eq_zero [symmetric])
      then have "fs = []" "s' = s"
        using beat ts by (auto simp: timer_heartbeat_def timerRotation_true_def Let_def split: if_splits)
      then show ?thesis using inv spec \<open>d = 0\<close> by simp
    next
      case pos: False
      have "d \<noteq> 0" using False passed ts pos by auto
      obtain s2 where loop: "rotation_loop cb 0 ?s1 = (fs, s2)" "s' = s2\<lparr>m_time_passed := 0\<rparr>"
        using beat ts False pos by (auto simp: timer_heartbeat_def timerRotation_true_def Let_def split: prod.splits)
      have "loop_inv 0 ?s1" using sorted_wait_less [OF sorted] by (simp add: loop_inv_def midway_def remaining_def)
      from rotation_loop_outcome [OF this loop(1)]
      have fs: "fs = map m_fun (filter (\<lambda>y. m_time y \<le> ?p + d) (m_timers s))"
        and ms: "m_timers s' = insert_timers (concat (map cb fs))
          (map (wait_less (?p + d)) (filter (\<lambda>y. \<not> m_time y \<le> ?p + d) (m_timers s)))"
        by (simp_all add: still_due_def remaining_def filter_map comp_def loop(2))
      have "sorted (map m_time (m_timers s'))" unfolding ms
        by (intro sorted_insert_timers sorted_wait_less sorted_filter sorted)
      moreover have "\<forall>y \<in> set (m_timers s'). m_time y \<le> 2 ^ 31"
        unfolding ms set_insert_timers using cb small by (fastforce intro: wait_less_bound)
      ultimately have "timers_inv s'" by (simp add: timers_inv_def loop(2))
      moreover have "remaining s' = m_timers s'" by (simp add: loop(2))
      ultimately show ?thesis using spec \<open>d \<noteq> 0\<close> by (simp add: schedule_of_def ms Let_def flip: fs)
    qed
  qed
qed

lemma timer_run_schedule:
  assumes "timers_inv s" "\<forall>f. \<forall>(g, tk) \<in> set (cb f). tk \<le> 2 ^ 31"
    "\<forall>op \<in> set ops. case op of Add f tk \<Rightarrow> tk \<le> 2 ^ 31 | Beat d \<Rightarrow> d < 2 ^ 31"
  shows "fst (timer_run cb ops s) = spec_run cb ops (schedule_of T s)"
  using assms
proof (induction cb ops s arbitrary: T rule: timer_run.induct)
  case (2 cb f tk ops s)
  then show ?case using addTimer_inv [of s tk f 0] by (simp add: addTimer_schedule)
next
  case (3 cb d ops s)
  obtain fs s1 where beat: "timer_heartbeat cb d s = (fs, s1)" by force
  have "unat d < 2 ^ 31" using 3(4) by (simp add: word_less_nat_alt)
  from heartbeat_schedule [OF 3(2) this 3(3) beat, of T] 3 beat
  show ?case by (auto split: prod.splits)
qed simp

text \<open>
  C35. From the first heartbeat on, the timer service makes the calls of its schedule: each timer at
  the first heartbeat, with time to pass, at which its deadline has come, in the order of the deadlines, whatever
  timers the callbacks add.  With longer durations the time passed may wrap, and a timer that is due is not called.
\<close>

theorem timer_service_schedule:
  assumes "\<forall>f. \<forall>(g, tk) \<in> set (cb f). tk \<le> 2 ^ 31"
    "\<forall>op \<in> set ops. case op of Add f tk \<Rightarrow> tk \<le> 2 ^ 31 | Beat d \<Rightarrow> d < 2 ^ 31"
  shows "fst (timer_run cb ops new_TimerService) = spec_run cb ops (0, []) \<and>
    fst (timer_run (\<lambda>_. []) [Add f 4294967295, Beat 4294967294, Beat 2] new_TimerService) = [[], []] \<and>
    spec_run (\<lambda>_. []) [Add f 4294967295, Beat 4294967294, Beat 2] (0, []) = [[], [f]]"
proof (intro conjI)
  have "timers_inv (new_TimerService :: 'a timer_service)" by (simp add: timers_inv_def new_TimerService_def)
  from timer_run_schedule [OF this assms, of 0] show "fst (timer_run cb ops new_TimerService) = spec_run cb ops (0, [])"
    by (simp add: schedule_of_def new_TimerService_def remaining_def)
  show "fst (timer_run (\<lambda>_. []) [Add f 4294967295, Beat 4294967294, Beat 2] new_TimerService) = [[], []]"
    by (simp add: new_TimerService_def addTimer_def timer_heartbeat_def timerRotation_true_def lower_bound_def Let_def)
  show "spec_run (\<lambda>_. []) [Add f 4294967295, Beat 4294967294, Beat 2] (0, []) = [[], [f]]"
    by (simp add: spec_add_def spec_beat_def Let_def)
qed

lemma timer_service_schedule_witness:
  "fst (timer_run (\<lambda>f. if f = (0 :: nat) then [(1, 5), (2, 0)] else []) [Add 0 10, Add 3 10, Beat 4, Add 4 6, Beat 6, Beat 5]
     new_TimerService) = [[], [4, 3, 0], [2, 1]]"
  by (subst timer_service_schedule [THEN conjunct1]) (simp_all add: spec_add_def spec_beat_def Let_def)

end
