(* ===== verification/Game_Net.thy ===== *)
theory Game_Net
  imports Memory_Text Interfaces
begin

text \<open>
  The frames of the game and login servers: \<open>game_server/net/NetworkService.cpp\<close>, which sends them, and
  \<open>game_server/net/ServerHandler.cpp\<close>, which reads a head of eight bytes and then the body that the head announces.
  An asynchronous read completes with exactly the bytes that were asked for, or with an error.
\<close>

section \<open>Sending\<close>

record net_msg =
  m_msg_id :: u32
  m_data :: "byte list"

datatype send_result = Not_sent | Length_error | Overrun | Sent "byte list"

text \<open>
  \<open>NetworkService::sendMessage\<close> on a live connection.  The length is computed as an \<open>int32_t\<close>; a negative one makes
  \<open>resize\<close> throw, and one that wrapped to something small makes \<open>memcpy\<close> write past the end.
\<close>

definition sendMessage :: "u32 \<Rightarrow> byte list \<Rightarrow> send_result" where
  "sendMessage msg_id msg =
     (if msg = [] then Not_sent
      else let total_len = word_of_nat (4 + 4 + length msg) :: u32 in
        if sint total_len < 0 then Length_error
        else if unat total_len < 8 + length msg then Overrun
        else Sent (le_bytes 4 total_len @ le_bytes 4 msg_id @ msg))"

section \<open>Reading\<close>

record server_handler =
  m_read_head :: "byte list"
  m_read_body :: "byte list"
  m_total_len :: u32
  h_msg_id :: u32

definition new_ServerHandler :: server_handler where
  "new_ServerHandler = \<lparr>m_read_head = replicate 8 0, m_read_body = [], m_total_len = 0, h_msg_id = 0\<rparr>"

text \<open>The completion of \<open>readHead\<close>: whether the body is read next, or \<open>onClosed\<close> was called.\<close>

definition head_read :: "byte list option \<Rightarrow> server_handler \<Rightarrow> bool \<times> server_handler" where
  "head_read got h = (case got of
       None \<Rightarrow> (False, h)
     | Some bs \<Rightarrow>
         let h1 = h\<lparr>m_read_head := bs, m_total_len := un_le (take 4 bs), h_msg_id := un_le (take 4 (drop 4 bs))\<rparr> in
         if sint (m_total_len h1) \<le> 8 \<or> 1024 < sint (m_total_len h1) then (False, h1)
         else (True, h1\<lparr>m_read_body := vec_resize (nat (sint (m_total_len h1)) - 8 + 1) (m_read_body h1)\<rparr>))"

text \<open>The completion of \<open>readBody\<close>: the message that the world is given, if any, and the handler for the next head.\<close>

definition body_read :: "byte list option \<Rightarrow> server_handler \<Rightarrow> net_msg option \<times> server_handler" where
  "body_read got h = (case got of
       None \<Rightarrow> (None, h)
     | Some bs \<Rightarrow>
         let body = bs @ drop (length bs) (m_read_body h) in
         (map_option (\<lambda>s. \<lparr>m_msg_id = h_msg_id h, m_data = s\<rparr>) (c_string body),
          h\<lparr>m_read_head := replicate 8 0, m_read_body := []\<rparr>))"

text \<open>A connection whose peer sends \<open>bs\<close>: the messages delivered, and whether the handler closed it.\<close>

function serve :: "byte list \<Rightarrow> server_handler \<Rightarrow> net_msg list \<times> bool" where
  "serve bs h =
     (if length bs < 8 then ([], False)
      else let (more, h1) = head_read (Some (take 8 bs)) h; n = length (m_read_body h1) - 1 in
        if \<not> more then ([], True)
        else if length (drop 8 bs) < n then ([], False)
        else let (msg, h2) = body_read (Some (take n (drop 8 bs))) h1 in
          case msg of
            None \<Rightarrow> ([], True)
          | Some m \<Rightarrow> let (ms, closed) = serve (drop n (drop 8 bs)) h2 in (m # ms, closed))"
  by pat_completeness auto

termination
  by (relation "measure (\<lambda>(bs, h). length bs)") auto

declare serve.simps [simp del]

section \<open>What arrives\<close>

definition sendable :: "byte list \<Rightarrow> bool" where
  "sendable msg \<longleftrightarrow> msg \<noteq> [] \<and> length msg < 2 ^ 31 - 8"

definition frame :: "u32 \<times> byte list \<Rightarrow> byte list" where
  "frame p = (case sendMessage (fst p) (snd p) of Sent bs \<Rightarrow> bs | _ \<Rightarrow> [])"

lemma sint_small:
  assumes "n < 2 ^ 31"
  shows "unat (word_of_nat n :: u32) = n" "sint (word_of_nat n :: u32) = int n"
proof -
  show n: "unat (word_of_nat n :: u32) = n" using assms by (simp add: unsigned_of_nat take_bit_nat_eq_self)
  then have "uint (word_of_nat n :: u32) = int n" by (metis uint_nat)
  then show "sint (word_of_nat n :: u32) = int n" using assms by (simp add: sint_uint signed_take_bit_int_eq_self)
qed

lemma frame_eq:
  assumes "sendable msg"
  shows "sendMessage i msg = Sent (frame (i, msg))"
    "frame (i, msg) = le_bytes 4 (word_of_nat (8 + length msg) :: u32) @ le_bytes 4 i @ msg"
proof -
  have "4 + 4 + length msg < 2 ^ 31" using assms by (simp add: sendable_def)
  from sint_small [OF this]
  have "sendMessage i msg = Sent (le_bytes 4 (word_of_nat (8 + length msg) :: u32) @ le_bytes 4 i @ msg)"
    using assms by (simp add: sendMessage_def sendable_def Let_def)
  then show "sendMessage i msg = Sent (frame (i, msg))"
    "frame (i, msg) = le_bytes 4 (word_of_nat (8 + length msg) :: u32) @ le_bytes 4 i @ msg" by (simp_all add: frame_def)
qed

lemma overrun:
  assumes "2 ^ 32 - 8 \<le> length msg" "length msg < 2 ^ 32"
  shows "sendMessage i msg = Overrun"
proof -
  define n where "n = 4 + 4 + length msg - 2 ^ 32"
  have n: "4 + 4 + length msg = 2 ^ 32 + n" "n < 8" using assms by (simp_all add: n_def)
  have w: "word_of_nat (4 + 4 + length msg) = (word_of_nat n :: u32)"
    by (rule unsigned_word_eqI) (use n(1) in \<open>simp add: unsigned_of_nat take_bit_eq_mod del: of_nat_add\<close>)
  show ?thesis using assms n sint_small [of n] unfolding sendMessage_def Let_def w by auto
qed

lemma head_of_frame:
  assumes "sendable msg"
  shows "take 8 (frame (i, msg) @ bs) = le_bytes 4 (word_of_nat (8 + length msg) :: u32) @ le_bytes 4 i"
    "drop 8 (frame (i, msg) @ bs) = msg @ bs" "8 \<le> length (frame (i, msg) @ bs)"
  by (simp_all add: frame_eq [OF assms])

lemma head_read_frame:
  assumes "sendable msg" "m_read_body h = []"
  shows "\<exists>h1. head_read (Some (take 8 (frame (i, msg) @ bs))) h = (length msg \<le> 1016, h1) \<and>
    (length msg \<le> 1016 \<longrightarrow> h_msg_id h1 = i \<and> m_read_body h1 = replicate (length msg + 1) 0)"
proof -
  have "8 + length msg < 2 ^ 31" using assms(1) by (simp add: sendable_def)
  note len = sint_small(2) [OF this, unfolded of_nat_add, simplified]
  show ?thesis
    using assms len unfolding head_of_frame [OF assms(1)]
    by (simp add: head_read_def Let_def un_le_le_bytes vec_resize_def sendable_def nat_add_distrib)
qed

lemma serve_frame:
  assumes "sendable msg" "length msg \<le> 1016" "m_read_body h = []"
  shows "\<exists>h2. m_read_body h2 = [] \<and> serve (frame (i, msg) @ bs) h =
    (let (ms, closed) = serve bs h2 in (\<lparr>m_msg_id = i, m_data = takeWhile (\<lambda>b. b \<noteq> 0) msg\<rparr> # ms, closed))"
proof -
  obtain h1 where h1: "head_read (Some (take 8 (frame (i, msg) @ bs))) h = (True, h1)" "h_msg_id h1 = i"
    "m_read_body h1 = replicate (length msg + 1) 0"
    using head_read_frame [OF assms(1,3), of i bs] assms(2) by auto
  have "drop (length msg) (m_read_body h1) = [0]" unfolding h1(3) drop_replicate by simp
  then have body: "body_read (Some msg) h1 = (Some \<lparr>m_msg_id = i, m_data = takeWhile (\<lambda>b. b \<noteq> 0) msg\<rparr>,
      h1\<lparr>m_read_head := replicate 8 0, m_read_body := []\<rparr>)"
    by (simp add: body_read_def h1(2) Let_def c_string_terminated)
  have "serve (frame (i, msg) @ bs) h =
    (let (ms, closed) = serve bs (h1\<lparr>m_read_head := replicate 8 0, m_read_body := []\<rparr>) in
      (\<lparr>m_msg_id = i, m_data = takeWhile (\<lambda>b. b \<noteq> 0) msg\<rparr> # ms, closed))"
    using head_of_frame [OF assms(1), of i bs] h1 body
    by (subst serve.simps) (simp del: replicate.simps add: Let_def not_less split: prod.splits)
  then show ?thesis by (intro exI [of _ "h1\<lparr>m_read_head := replicate 8 0, m_read_body := []\<rparr>"]) simp
qed

lemma serve_frames:
  assumes "\<forall>(i, msg) \<in> set ps. sendable msg \<and> length msg \<le> 1016" "m_read_body h = []"
  shows "\<exists>h2. m_read_body h2 = [] \<and> serve (concat (map frame ps) @ bs) h =
    (let (ms, closed) = serve bs h2 in (map (\<lambda>(i, msg). \<lparr>m_msg_id = i, m_data = takeWhile (\<lambda>b. b \<noteq> 0) msg\<rparr>) ps @ ms, closed))"
  using assms
proof (induction ps arbitrary: h)
  case Nil
  then show ?case by auto
next
  case (Cons p ps)
  obtain i msg where p: "p = (i, msg)" by force
  obtain h2 where "m_read_body h2 = []" "serve (frame (i, msg) @ (concat (map frame ps) @ bs)) h =
    (let (ms, closed) = serve (concat (map frame ps) @ bs) h2 in (\<lparr>m_msg_id = i, m_data = takeWhile (\<lambda>b. b \<noteq> 0) msg\<rparr> # ms, closed))"
    using serve_frame [of msg h i "concat (map frame ps) @ bs"] Cons.prems p by auto
  moreover obtain h3 where "m_read_body h3 = []" "serve (concat (map frame ps) @ bs) h2 =
    (let (ms, closed) = serve bs h3 in (map (\<lambda>(i, msg). \<lparr>m_msg_id = i, m_data = takeWhile (\<lambda>b. b \<noteq> 0) msg\<rparr>) ps @ ms, closed))"
    using Cons.IH [of h2] Cons.prems calculation(1) by auto
  ultimately show ?case by (intro exI [of _ h3]) (simp add: p split: prod.splits)
qed

text \<open>
  C36. Whatever the sizes, every message sent by one server and read by another is delivered in order with its
  number and the bytes before its first NUL, up to the first message of more than 1016 bytes, at which the reader closes
  the connection.  To send \<open>2 ^ 32 - 8\<close> bytes or more overruns the buffer.
\<close>

theorem game_frames:
  assumes "\<forall>(i, msg) \<in> set ps. sendable msg \<and> length msg \<le> 1016"
  shows "serve (concat (map frame ps)) new_ServerHandler =
      (map (\<lambda>(i, msg). \<lparr>m_msg_id = i, m_data = takeWhile (\<lambda>b. b \<noteq> 0) msg\<rparr>) ps, False) \<and>
    (sendable big \<longrightarrow> 1016 < length big \<longrightarrow> serve (concat (map frame ps) @ frame (j, big) @ bs) new_ServerHandler =
      (map (\<lambda>(i, msg). \<lparr>m_msg_id = i, m_data = takeWhile (\<lambda>b. b \<noteq> 0) msg\<rparr>) ps, True)) \<and>
    (\<forall>(i, msg) \<in> set ps. sendMessage i msg = Sent (frame (i, msg))) \<and>
    (2 ^ 32 - 8 \<le> length huge \<longrightarrow> length huge < 2 ^ 32 \<longrightarrow> sendMessage j huge = Overrun)"
proof (intro conjI impI)
  have new: "m_read_body new_ServerHandler = []" by (simp add: new_ServerHandler_def)
  obtain h where "serve (concat (map frame ps) @ []) new_ServerHandler =
    (let (ms, closed) = serve [] h in (map (\<lambda>(i, msg). \<lparr>m_msg_id = i, m_data = takeWhile (\<lambda>b. b \<noteq> 0) msg\<rparr>) ps @ ms, closed))"
    using serve_frames [OF assms new] by blast
  then show "serve (concat (map frame ps)) new_ServerHandler =
      (map (\<lambda>(i, msg). \<lparr>m_msg_id = i, m_data = takeWhile (\<lambda>b. b \<noteq> 0) msg\<rparr>) ps, False)"
    by (simp add: serve.simps [of "[]"])
  show "\<forall>(i, msg) \<in> set ps. sendMessage i msg = Sent (frame (i, msg))" using assms frame_eq(1) by auto
  show "sendMessage j huge = Overrun" if "2 ^ 32 - 8 \<le> length huge" "length huge < 2 ^ 32" using that by (rule overrun)
  assume big: "sendable big" "1016 < length big"
  obtain h where h: "m_read_body h = []" "serve (concat (map frame ps) @ frame (j, big) @ bs) new_ServerHandler =
    (let (ms, closed) = serve (frame (j, big) @ bs) h in (map (\<lambda>(i, msg). \<lparr>m_msg_id = i, m_data = takeWhile (\<lambda>b. b \<noteq> 0) msg\<rparr>) ps @ ms, closed))"
    using serve_frames [OF assms new] by blast
  obtain h1 where "head_read (Some (take 8 (frame (j, big) @ bs))) h = (False, h1)"
    using head_read_frame [OF big(1) h(1), of j bs] big(2) by auto
  then have "serve (frame (j, big) @ bs) h = ([], True)"
    using head_of_frame(3) [OF big(1), of j bs] by (subst serve.simps) (simp add: Let_def not_less)
  then show "serve (concat (map frame ps) @ frame (j, big) @ bs) new_ServerHandler =
      (map (\<lambda>(i, msg). \<lparr>m_msg_id = i, m_data = takeWhile (\<lambda>b. b \<noteq> 0) msg\<rparr>) ps, True)" by (simp add: h(2))
qed

lemma game_frames_witness:
  "serve (frame (3, [104, 105]) @ frame (4, [97, 0, 98]) @ frame (1, replicate 1017 7)) new_ServerHandler =
    ([\<lparr>m_msg_id = 3, m_data = [104, 105]\<rparr>, \<lparr>m_msg_id = 4, m_data = [97]\<rparr>], True)"
  using game_frames [of "[(3, [104, 105]), (4, [97, 0, 98])]" "replicate 1017 7" 1 "[]"]
  by (simp add: sendable_def)

end
