(* ===== verification/Game_World.thy ===== *)
theory Game_World
  imports Game_Net
begin

text \<open>
  The world of the game and login servers: \<open>game_server/world/World.cpp\<close>, \<open>WorldSession.cpp\<close>, \<open>WorldMsg.cpp\<close> and
  \<open>WorldMsgDispatcher.cpp\<close>.  The network thread hands over new connections, messages and closed
  connections under a lock; the heartbeat of the world takes each of these collections in a phase of its own.
  Connections are numbers, ordered as \<open>std::owner_less\<close> orders them.  A session has one owner at a
  time, so it is a value; what the handlers do is a list of events.
\<close>

section \<open>Sessions and messages\<close>

datatype SESSION_STATE = CLOSED | UNLOGIN | LOGIN | IGNORE

datatype session_fun = reqPing | reqRtt | reqRegister | reqLogin

record session_cb =
  cb_state :: SESSION_STATE
  cb_fun :: "session_fun option"

definition m_slots :: "(u32 \<times> SESSION_STATE \<times> session_fun) list" where
  "m_slots = [(1, IGNORE, reqPing), (2, IGNORE, reqRtt), (3, UNLOGIN, reqRegister), (4, UNLOGIN, reqLogin)]"

text \<open>\<open>std::map::insert\<close> keeps what is there.\<close>

definition dispatcher_init :: "u32 \<Rightarrow> session_cb option" where
  "dispatcher_init = fold (\<lambda>(cmd, st, f) m. if m cmd = None then m(cmd \<mapsto> \<lparr>cb_state = st, cb_fun = Some f\<rparr>) else m) m_slots Map.empty"

definition findRegCallback :: "u32 \<Rightarrow> session_cb" where
  "findRegCallback cmd = (case dispatcher_init cmd of
     None \<Rightarrow> \<lparr>cb_state = UNLOGIN, cb_fun = None\<rparr> | Some cb \<Rightarrow> cb)"

record world_msg =
  w_conn :: nat
  w_network_msg :: net_msg
  w_session_fun :: session_cb

record world_session =
  s_conn :: nat
  s_state :: SESSION_STATE
  s_msgs :: "world_msg list"

datatype world_event = Handled nat session_fun net_msg | Reply nat send_result

definition new_WorldSession :: "nat \<Rightarrow> world_session" where
  "new_WorldSession conn = \<lparr>s_conn = conn, s_state = UNLOGIN, s_msgs = []\<rparr>"

definition isClosed :: "world_session \<Rightarrow> bool" where
  "isClosed s \<longleftrightarrow> s_state s = CLOSED"

definition closed :: "world_session \<Rightarrow> world_session" where
  "closed s = s\<lparr>s_state := CLOSED\<rparr>"

definition postMsg :: "world_msg \<Rightarrow> world_session \<Rightarrow> world_session" where
  "postMsg msg s = s\<lparr>s_msgs := s_msgs s @ [msg]\<rparr>"

text \<open>The filter is true for what is to be dropped.\<close>

definition WorldMsgFilter :: "world_session \<Rightarrow> world_msg \<Rightarrow> bool" where
  "WorldMsgFilter s msg =
     (if cb_state (w_session_fun msg) = IGNORE then False else s_state s \<noteq> cb_state (w_session_fun msg))"

text \<open>The handlers; only \<open>reqPing\<close> does something.\<close>

definition hahah :: "byte list" where
  "hahah = [32, 104, 97, 104, 97, 104]"

fun visitor :: "session_fun \<Rightarrow> net_msg \<Rightarrow> world_session \<Rightarrow> world_event list \<times> world_session" where
  "visitor reqPing msg s = ([Reply (s_conn s) (sendMessage 1 (m_data msg @ hahah))], s)"
| "visitor reqRtt msg s = ([], s)"
| "visitor reqRegister msg s = ([], s)"
| "visitor reqLogin msg s = ([], s)"

fun session_loop :: "world_msg list \<Rightarrow> world_session \<Rightarrow> world_event list \<times> world_session" where
  "session_loop [] s = ([], s\<lparr>s_msgs := []\<rparr>)"
| "session_loop (msg # msgs) s =
     (if isClosed s then ([], s\<lparr>s_msgs := msg # msgs\<rparr>)
      else case cb_fun (w_session_fun msg) of
          None \<Rightarrow> session_loop msgs s
        | Some f \<Rightarrow>
            let (es, s1) = visitor f (w_network_msg msg) s; (es2, s2) = session_loop msgs s1
            in (Handled (s_conn s) f (w_network_msg msg) # es @ es2, s2))"

definition session_heartbeat :: "world_session \<Rightarrow> world_event list \<times> world_session" where
  "session_heartbeat s = session_loop (s_msgs s) s"

section \<open>The world\<close>

record 't world =
  m_world_msgs :: "world_msg list"
  m_sessions :: "(nat \<times> world_session) list"
  m_new_conn :: "world_session list"
  m_closed_conn :: "nat list"
  m_task :: "'t list"
  events :: "world_event list"

definition new_World :: "'t world" where
  "new_World = \<lparr>m_world_msgs = [], m_sessions = [], m_new_conn = [], m_closed_conn = [], m_task = [], events = []\<rparr>"

definition networkAccept :: "nat \<Rightarrow> 't world \<Rightarrow> 't world" where
  "networkAccept hdl w = w\<lparr>m_new_conn := m_new_conn w @ [new_WorldSession hdl]\<rparr>"

definition networkReceviedMsg :: "nat \<Rightarrow> net_msg \<Rightarrow> 't world \<Rightarrow> 't world" where
  "networkReceviedMsg hdl msg w =
     (let session_fun = findRegCallback (m_msg_id msg) in
      if cb_fun session_fun = None then w
      else w\<lparr>m_world_msgs := m_world_msgs w @ [\<lparr>w_conn = hdl, w_network_msg = msg, w_session_fun = session_fun\<rparr>]\<rparr>)"

definition close_later :: "nat \<Rightarrow> 't world \<Rightarrow> 't world" where
  "close_later conn w = w\<lparr>m_closed_conn := insort_insert conn (m_closed_conn w)\<rparr>"

definition networkTimeout :: "nat \<Rightarrow> 't world \<Rightarrow> 't world" where
  "networkTimeout conn w = close_later conn w"

definition networkClosed :: "nat \<Rightarrow> 't world \<Rightarrow> 't world" where
  "networkClosed conn w = close_later conn w"

definition shutdownSession :: "world_session \<Rightarrow> 't world \<Rightarrow> 't world" where
  "shutdownSession s w = close_later (s_conn s) w"

definition postTask :: "'t \<Rightarrow> 't world \<Rightarrow> 't world" where
  "postTask t w = w\<lparr>m_task := m_task w @ [t]\<rparr>"

definition findSession :: "nat \<Rightarrow> 't world \<Rightarrow> world_session option" where
  "findSession conn w = map_of (m_sessions w) conn"

definition put_session :: "nat \<Rightarrow> world_session \<Rightarrow> 't world \<Rightarrow> 't world" where
  "put_session conn s w = w\<lparr>m_sessions := map (\<lambda>(k, x). if k = conn then (k, s) else (k, x)) (m_sessions w)\<rparr>"

definition processNewConn :: "'t world \<Rightarrow> 't world" where
  "processNewConn w =
     fold (\<lambda>s w. if findSession (s_conn s) w = None then w\<lparr>m_sessions := insort_key fst (s_conn s, s) (m_sessions w)\<rparr> else w)
       (m_new_conn w) (w\<lparr>m_new_conn := []\<rparr>)"

definition close_one :: "nat \<Rightarrow> 't world \<Rightarrow> 't world" where
  "close_one conn w = (case findSession conn w of
     None \<Rightarrow> w | Some s \<Rightarrow> if \<not> isClosed s then put_session conn (closed s) w else w)"

definition processClosedConn :: "'t world \<Rightarrow> 't world" where
  "processClosedConn w = fold close_one (m_closed_conn w) (w\<lparr>m_closed_conn := []\<rparr>)"

text \<open>A task may post tasks and shut sessions down; the parameter \<open>cb\<close> says what it does.\<close>

datatype 't world_cmd = Post_task 't | Shutdown_session world_session

fun run_cmd :: "'t world_cmd \<Rightarrow> 't world \<Rightarrow> 't world" where
  "run_cmd (Post_task t) w = postTask t w"
| "run_cmd (Shutdown_session s) w = shutdownSession s w"

definition processTask :: "('t \<Rightarrow> 't world_cmd list) \<Rightarrow> 't world \<Rightarrow> 't world" where
  "processTask cb w = fold (\<lambda>t. fold run_cmd (cb t)) (m_task w) (w\<lparr>m_task := []\<rparr>)"

definition dispatch_one :: "world_msg \<Rightarrow> 't world \<Rightarrow> 't world" where
  "dispatch_one msg w = (case findSession (w_conn msg) w of
     None \<Rightarrow> w
   | Some s \<Rightarrow> if WorldMsgFilter s msg then w else put_session (w_conn msg) (postMsg msg s) w)"

definition dispatchMsg :: "'t world \<Rightarrow> 't world" where
  "dispatchMsg w = fold dispatch_one (m_world_msgs w) (w\<lparr>m_world_msgs := []\<rparr>)"

fun beat_sessions :: "(nat \<times> world_session) list \<Rightarrow> world_event list \<times> (nat \<times> world_session) list" where
  "beat_sessions [] = ([], [])"
| "beat_sessions ((k, s) # ss) =
     (let (es, s1) = (if \<not> isClosed s then session_heartbeat s else ([], s));
          (es2, ss2) = beat_sessions ss
      in (es @ es2, if isClosed s1 then ss2 else (k, s1) # ss2))"

definition heartbeat_sessions :: "'t world \<Rightarrow> 't world" where
  "heartbeat_sessions w = (let (es, ss) = beat_sessions (m_sessions w) in w\<lparr>m_sessions := ss, events := events w @ es\<rparr>)"

definition world_heartbeat :: "('t \<Rightarrow> 't world_cmd list) \<Rightarrow> 't world \<Rightarrow> 't world" where
  "world_heartbeat cb w =
     heartbeat_sessions (dispatchMsg (processTask cb (processClosedConn (processNewConn w))))"

text \<open>How long \<open>run\<close> sleeps after a heartbeat, in milliseconds.\<close>

definition next_sleep :: "u32 \<Rightarrow> u32 \<Rightarrow> u32" where
  "next_sleep diff_time previous_sleep_time =
     (if diff_time < 50 + previous_sleep_time then 50 + previous_sleep_time - diff_time else 0)"

section \<open>The network thread\<close>

datatype 't net_event = Accept nat | Received nat net_msg | Timeout nat | Closed_conn nat | Post 't

fun net_apply :: "'t net_event \<Rightarrow> 't world \<Rightarrow> 't world" where
  "net_apply (Accept c) w = networkAccept c w"
| "net_apply (Received c msg) w = networkReceviedMsg c msg w"
| "net_apply (Timeout c) w = networkTimeout c w"
| "net_apply (Closed_conn c) w = networkClosed c w"
| "net_apply (Post t) w = postTask t w"

text \<open>The phases of the heartbeat, between which the network thread may run.\<close>

definition phases :: "('t \<Rightarrow> 't world_cmd list) \<Rightarrow> ('t world \<Rightarrow> 't world) list" where
  "phases cb = [processNewConn, processClosedConn, processTask cb, dispatchMsg, heartbeat_sessions]"

datatype 't label = Net "'t net_event" | Tick

fun world_exec :: "('t \<Rightarrow> 't world_cmd list) \<Rightarrow> 't label list \<Rightarrow> nat \<times> 't world \<Rightarrow> nat \<times> 't world" where
  "world_exec cb [] st = st"
| "world_exec cb (Net e # ls) (pc, w) = world_exec cb ls (pc, net_apply e w)"
| "world_exec cb (Tick # ls) (pc, w) = world_exec cb ls ((pc + 1) mod 5, (phases cb ! pc) w)"

section \<open>Messages in order\<close>

definition handled :: "nat \<Rightarrow> world_event list \<Rightarrow> (session_fun \<times> net_msg) list" where
  "handled c es = concat (map (\<lambda>e. case e of Handled c' f m \<Rightarrow> if c' = c then [(f, m)] else [] | Reply _ _ \<Rightarrow> []) es)"

definition call_of :: "world_msg \<Rightarrow> (session_fun \<times> net_msg) list" where
  "call_of x = (case cb_fun (w_session_fun x) of None \<Rightarrow> [] | Some f \<Rightarrow> [(f, w_network_msg x)])"

definition msgs_of :: "nat \<Rightarrow> world_msg list \<Rightarrow> (session_fun \<times> net_msg) list" where
  "msgs_of c ms = concat (map call_of (filter (\<lambda>x. w_conn x = c) ms))"

definition queued :: "nat \<Rightarrow> 't world \<Rightarrow> (session_fun \<times> net_msg) list" where
  "queued c w = (case findSession c w of None \<Rightarrow> [] | Some s \<Rightarrow> msgs_of c (s_msgs s))"

text \<open>Everything of a connection that the world has handled or may still handle.\<close>

definition course :: "nat \<Rightarrow> 't world \<Rightarrow> (session_fun \<times> net_msg) list" where
  "course c w = handled c (events w) @ queued c w @ msgs_of c (m_world_msgs w)"

fun received :: "nat \<Rightarrow> 't label list \<Rightarrow> (session_fun \<times> net_msg) list" where
  "received c [] = []"
| "received c (Net (Received c' m) # ls) =
     (if c' = c then (case cb_fun (findRegCallback (m_msg_id m)) of None \<Rightarrow> [] | Some f \<Rightarrow> [(f, m)]) else []) @ received c ls"
| "received c (l # ls) = received c ls"

definition session_ok :: "nat \<Rightarrow> world_session \<Rightarrow> bool" where
  "session_ok k s \<longleftrightarrow> s_conn s = k \<and> (\<forall>m \<in> set (s_msgs s). w_conn m = k)"

definition world_ok :: "'t world \<Rightarrow> bool" where
  "world_ok w \<longleftrightarrow> sorted (map fst (m_sessions w)) \<and> distinct (map fst (m_sessions w)) \<and>
     (\<forall>(k, s) \<in> set (m_sessions w). session_ok k s) \<and> (\<forall>s \<in> set (m_new_conn w). s = new_WorldSession (s_conn s))"

lemma msgs_of_simps [simp]:
  "msgs_of c [] = []" "msgs_of c (x # xs) = (if w_conn x = c then call_of x else []) @ msgs_of c xs"
  "msgs_of c (xs @ ys) = msgs_of c xs @ msgs_of c ys"
  by (simp_all add: msgs_of_def)

lemma handled_simps [simp]:
  "handled c [] = []" "handled c (Handled c' f m # es) = (if c' = c then [(f, m)] else []) @ handled c es"
  "handled c (Reply c' r # es) = handled c es" "handled c (es @ es') = handled c es @ handled c es'"
  by (simp_all add: handled_def)

lemma map_of_replace:
  "map_of (map (\<lambda>(k, x). if k = c then (k, s) else (k, x)) xs) c' =
    (if c' = c then map_option (\<lambda>_. s) (map_of xs c) else map_of xs c')"
  by (induction xs) auto

lemma put_session_simps [simp]:
  "findSession c' (put_session c s w) = (if c' = c then map_option (\<lambda>_. s) (findSession c w) else findSession c' w)"
  "map fst (m_sessions (put_session c s w)) = map fst (m_sessions w)"
  "m_world_msgs (put_session c s w) = m_world_msgs w" "m_new_conn (put_session c s w) = m_new_conn w"
  "m_closed_conn (put_session c s w) = m_closed_conn w" "m_task (put_session c s w) = m_task w"
  "events (put_session c s w) = events w"
  by (auto simp: put_session_def findSession_def map_of_replace comp_def case_prod_beta intro!: map_cong)

lemma world_ok_session: "world_ok w \<Longrightarrow> findSession c w = Some s \<Longrightarrow> session_ok c s"
  by (auto simp: world_ok_def findSession_def dest!: map_of_SomeD)

lemma world_ok_put: "world_ok w \<Longrightarrow> session_ok c s \<Longrightarrow> world_ok (put_session c s w)"
  using put_session_simps(2) [of c s w] by (auto simp: world_ok_def simp del: put_session_simps(2)) (auto simp: put_session_def split: if_splits)

lemma visitor_frame: "visitor f m s = (es, s') \<Longrightarrow> s' = s \<and> handled c es = []"
  by (cases f) auto

lemma session_loop_open:
  "\<not> isClosed s \<Longrightarrow> session_loop msgs s = (es, s') \<Longrightarrow> s' = s\<lparr>s_msgs := []\<rparr> \<and>
    handled c es = (if s_conn s = c then concat (map call_of msgs) else [])"
proof (induction msgs arbitrary: es s')
  case (Cons msg msgs)
  obtain es2 s2 where rest: "session_loop msgs s = (es2, s2)" by force
  show ?case
  proof (cases "cb_fun (w_session_fun msg)")
    case None
    then show ?thesis using Cons rest by (simp add: call_of_def)
  next
    case (Some f)
    obtain es1 s1 where "visitor f (w_network_msg msg) s = (es1, s1)" by force
    with visitor_frame [OF this] show ?thesis using Cons.IH [OF Cons.prems(1)] Cons.prems rest Some
      by (auto simp: call_of_def split: prod.splits)
  qed
qed auto

lemma beat_sessions_handled:
  assumes "distinct (map fst ss)" "\<forall>(k, s) \<in> set ss. session_ok k s" "beat_sessions ss = (es, ss')"
  shows "ss' = map (\<lambda>(k, s). (k, s\<lparr>s_msgs := []\<rparr>)) (filter (\<lambda>(k, s). \<not> isClosed s) ss) \<and>
    handled c es = (case map_of ss c of None \<Rightarrow> [] | Some s \<Rightarrow> if isClosed s then [] else msgs_of c (s_msgs s))"
  using assms
proof (induction ss arbitrary: es ss')
  case (Cons p ss)
  obtain k s where p: "p = (k, s)" by force
  obtain es2 ss2 where rest: "beat_sessions ss = (es2, ss2)" by force
  have ih: "ss2 = map (\<lambda>(k, s). (k, s\<lparr>s_msgs := []\<rparr>)) (filter (\<lambda>(k, s). \<not> isClosed s) ss)"
    "handled c es2 = (case map_of ss c of None \<Rightarrow> [] | Some s \<Rightarrow> if isClosed s then [] else msgs_of c (s_msgs s))"
    using Cons.IH [OF _ _ rest] Cons.prems by auto
  show ?case
  proof (cases "isClosed s")
    case True
    have "map_of ss k = None" using Cons.prems(1) p by (simp add: map_of_eq_None_iff)
    with True ih Cons.prems(3) rest p show ?thesis by (auto split: prod.splits)
  next
    case False
    obtain es1 s1 where loop: "session_loop (s_msgs s) s = (es1, s1)" by force
    have k: "s_conn s = k" "filter (\<lambda>x. w_conn x = k) (s_msgs s) = s_msgs s" "map_of ss k = None"
      using Cons.prems(1,2) p by (auto simp: session_ok_def map_of_eq_None_iff filter_id_conv)
    from session_loop_open [OF False loop, of c] False ih Cons.prems(3) rest p loop k
    show ?thesis by (auto simp: session_heartbeat_def isClosed_def msgs_of_def)
  qed
qed simp

lemma heartbeat_sessions_ok:
  assumes "world_ok w"
  shows "world_ok (heartbeat_sessions w)"
    "m_sessions (heartbeat_sessions w) = map (\<lambda>(k, s). (k, s\<lparr>s_msgs := []\<rparr>)) (filter (\<lambda>(k, s). \<not> isClosed s) (m_sessions w))"
    "handled c (events (heartbeat_sessions w)) = handled c (events w) @
      (case findSession c w of None \<Rightarrow> [] | Some s \<Rightarrow> if isClosed s then [] else msgs_of c (s_msgs s))"
    "m_new_conn (heartbeat_sessions w) = m_new_conn w" "m_closed_conn (heartbeat_sessions w) = m_closed_conn w"
    "m_task (heartbeat_sessions w) = m_task w" "m_world_msgs (heartbeat_sessions w) = m_world_msgs w"
proof -
  obtain es ss where b: "beat_sessions (m_sessions w) = (es, ss)" by force
  from assms have ok: "sorted (map fst (m_sessions w))" "distinct (map fst (m_sessions w))"
    "\<forall>(k, s) \<in> set (m_sessions w). session_ok k s" "\<forall>s \<in> set (m_new_conn w). s = new_WorldSession (s_conn s)"
    by (simp_all add: world_ok_def)
  note out = beat_sessions_handled [OF ok(2,3) b]
  show eq: "m_sessions (heartbeat_sessions w) = map (\<lambda>(k, s). (k, s\<lparr>s_msgs := []\<rparr>)) (filter (\<lambda>(k, s). \<not> isClosed s) (m_sessions w))"
    using out by (simp add: heartbeat_sessions_def b)
  have "map fst (m_sessions (heartbeat_sessions w)) = map fst (filter (\<lambda>(k, s). \<not> isClosed s) (m_sessions w))"
    unfolding eq by (simp add: comp_def case_prod_beta)
  then have "sorted (map fst (m_sessions (heartbeat_sessions w)))" "distinct (map fst (m_sessions (heartbeat_sessions w)))"
    using ok(1,2) by (simp_all add: sorted_filter distinct_map_filter)
  moreover have "\<forall>(k, s) \<in> set (m_sessions (heartbeat_sessions w)). session_ok k s"
    using ok(3) unfolding eq by (auto simp: session_ok_def)
  ultimately show "world_ok (heartbeat_sessions w)" using ok(4) by (simp add: world_ok_def heartbeat_sessions_def b)
qed (use beat_sessions_handled [of "m_sessions w" _ _ c] assms in
    \<open>auto simp: heartbeat_sessions_def findSession_def world_ok_def split: prod.splits\<close>)

lemma subseq_middle: "subseq (a @ c) (a @ b @ c)"
  by (intro list_emb_append_mono subseq_drop_many) simp_all

lemma world_ok_upd [simp]:
  "world_ok (w\<lparr>m_closed_conn := cs\<rparr>) = world_ok w" "world_ok (w\<lparr>m_world_msgs := ms\<rparr>) = world_ok w"
  "world_ok (w\<lparr>m_task := ts\<rparr>) = world_ok w" "findSession c (w\<lparr>m_closed_conn := cs\<rparr>) = findSession c w"
  "findSession c (w\<lparr>m_world_msgs := ms\<rparr>) = findSession c w" "findSession c (w\<lparr>m_task := ts\<rparr>) = findSession c w"
  "findSession c (w\<lparr>m_new_conn := ss\<rparr>) = findSession c w"
  by (simp_all add: world_ok_def findSession_def)

lemma course_heartbeat:
  assumes "world_ok w"
  shows "subseq (course c (heartbeat_sessions w)) (course c w)"
proof -
  have "s_msgs s = []" if "findSession c (heartbeat_sessions w) = Some s" for s
    using map_of_SomeD [OF that [unfolded findSession_def]] assms by (auto simp: heartbeat_sessions_ok(2))
  then have "queued c (heartbeat_sessions w) = []" by (auto simp: queued_def split: option.split)
  then show ?thesis using assms
    by (auto simp: course_def heartbeat_sessions_ok queued_def intro: subseq_middle split: option.split)
qed

lemma session_ok_new: "session_ok c (new_WorldSession c)"
  by (simp add: session_ok_def new_WorldSession_def)

lemma map_of_insort:
  assumes "map_of xs c = None"
  shows "map_of (insort_key fst (c, s) xs) c' = (if c' = c then Some s else map_of xs c')"
  using assms by (induction xs) (auto split: if_splits)

lemma new_conns_ok:
  assumes "world_ok w" "m_new_conn w = []" "\<forall>s \<in> set ss. s = new_WorldSession (s_conn s)"
  defines "w' \<equiv> fold (\<lambda>s w. if findSession (s_conn s) w = None
    then w\<lparr>m_sessions := insort_key fst (s_conn s, s) (m_sessions w)\<rparr> else w) ss w"
  shows "world_ok w' \<and> findSession c w' = (case findSession c w of
      None \<Rightarrow> if c \<in> s_conn ` set ss then Some (new_WorldSession c) else None | Some s \<Rightarrow> Some s) \<and>
    m_new_conn w' = [] \<and> m_closed_conn w' = m_closed_conn w \<and> m_task w' = m_task w \<and>
    m_world_msgs w' = m_world_msgs w \<and> events w' = events w"
  using assms(1-3) unfolding w'_def
proof (induction ss arbitrary: w)
  case (Cons s ss)
  let ?w = "if findSession (s_conn s) w = None then w\<lparr>m_sessions := insort_key fst (s_conn s, s) (m_sessions w)\<rparr> else w"
  have ok: "world_ok ?w"
    using Cons.prems session_ok_new [of "s_conn s"]
    by (auto simp: world_ok_def findSession_def map_of_eq_None_iff sorted_insort_key set_insort_key distinct_insort_key)
  have find: "findSession c ?w = (case findSession c w of
      None \<Rightarrow> if c = s_conn s then Some s else None | Some s \<Rightarrow> Some s)"
    by (auto simp: findSession_def map_of_insort split: option.split)
  have s: "s = new_WorldSession (s_conn s)" using Cons.prems(3) by simp
  from Cons.IH [OF ok] Cons.prems s show ?case by (auto simp: find split: option.split)
qed (auto split: option.split)

lemma processNewConn_ok:
  assumes "world_ok w"
  shows "world_ok (processNewConn w)"
    "findSession c (processNewConn w) = (case findSession c w of
      None \<Rightarrow> if c \<in> s_conn ` set (m_new_conn w) then Some (new_WorldSession c) else None | Some s \<Rightarrow> Some s)"
    "m_new_conn (processNewConn w) = []" "m_closed_conn (processNewConn w) = m_closed_conn w"
    "m_task (processNewConn w) = m_task w" "m_world_msgs (processNewConn w) = m_world_msgs w"
    "events (processNewConn w) = events w"
  using new_conns_ok [of "w\<lparr>m_new_conn := []\<rparr>" "m_new_conn w"] assms
  by (auto simp: processNewConn_def world_ok_def findSession_def)

lemma close_one_ok:
  assumes "world_ok w"
  shows "world_ok (close_one c' w)"
    "findSession c (close_one c' w) = map_option (\<lambda>s. if c = c' then closed s else s) (findSession c w)"
    "m_new_conn (close_one c' w) = m_new_conn w" "m_closed_conn (close_one c' w) = m_closed_conn w"
    "m_task (close_one c' w) = m_task w" "m_world_msgs (close_one c' w) = m_world_msgs w" "events (close_one c' w) = events w"
  using assms world_ok_session [OF assms, of c']
  by (cases "c = c'"; auto simp: close_one_def session_ok_def closed_def isClosed_def option.map_ident
      intro!: world_ok_put split: option.splits)+

lemma closed_conns_ok:
  "world_ok w \<Longrightarrow> (let w' = fold close_one cs w in world_ok w' \<and>
    findSession c w' = map_option (\<lambda>s. if c \<in> set cs then closed s else s) (findSession c w) \<and>
    m_new_conn w' = m_new_conn w \<and> m_closed_conn w' = m_closed_conn w \<and> m_task w' = m_task w \<and>
    m_world_msgs w' = m_world_msgs w \<and> events w' = events w)"
  by (induction cs arbitrary: w) (auto simp: close_one_ok Let_def option.map_comp option.map_ident closed_def intro!: map_option_cong)

lemma processClosedConn_ok:
  assumes "world_ok w"
  shows "world_ok (processClosedConn w)"
    "findSession c (processClosedConn w) = map_option (\<lambda>s. if c \<in> set (m_closed_conn w) then closed s else s) (findSession c w)"
    "m_new_conn (processClosedConn w) = m_new_conn w" "m_closed_conn (processClosedConn w) = []"
    "m_task (processClosedConn w) = m_task w" "m_world_msgs (processClosedConn w) = m_world_msgs w"
    "events (processClosedConn w) = events w"
  using closed_conns_ok [of "w\<lparr>m_closed_conn := []\<rparr>" "m_closed_conn w"] assms
  by (simp_all add: processClosedConn_def Let_def)

lemma run_cmds_ok:
  "world_ok w \<Longrightarrow> (let w' = fold run_cmd cmds w in world_ok w' \<and> findSession c w' = findSession c w \<and>
    m_new_conn w' = m_new_conn w \<and> m_world_msgs w' = m_world_msgs w \<and> events w' = events w)"
proof (induction cmds arbitrary: w)
  case (Cons cmd cmds)
  have "world_ok (run_cmd cmd w) \<and> findSession c (run_cmd cmd w) = findSession c w \<and>
    m_new_conn (run_cmd cmd w) = m_new_conn w \<and> m_world_msgs (run_cmd cmd w) = m_world_msgs w \<and> events (run_cmd cmd w) = events w"
    using Cons.prems by (cases cmd) (simp_all add: postTask_def shutdownSession_def close_later_def)
  with Cons.IH [of "run_cmd cmd w"] show ?case by (simp add: Let_def)
qed (simp add: Let_def)

lemma processTask_ok:
  assumes "world_ok w"
  shows "world_ok (processTask cb w)" "findSession c (processTask cb w) = findSession c w"
    "m_new_conn (processTask cb w) = m_new_conn w" "m_world_msgs (processTask cb w) = m_world_msgs w"
    "events (processTask cb w) = events w"
proof -
  have "(let w' = fold (\<lambda>t. fold run_cmd (cb t)) ts w in world_ok w' \<and> findSession c w' = findSession c w \<and>
    m_new_conn w' = m_new_conn w \<and> m_world_msgs w' = m_world_msgs w \<and> events w' = events w)" if "world_ok w" for ts w
    using that run_cmds_ok by (induction ts arbitrary: w) (auto simp: Let_def)
  from this [of "w\<lparr>m_task := []\<rparr>" "m_task w"] assms
  show "world_ok (processTask cb w)" "findSession c (processTask cb w) = findSession c w"
    "m_new_conn (processTask cb w) = m_new_conn w" "m_world_msgs (processTask cb w) = m_world_msgs w"
    "events (processTask cb w) = events w" by (simp_all add: processTask_def Let_def)
qed

definition passes :: "world_session \<Rightarrow> world_msg list \<Rightarrow> world_msg list" where
  "passes s ms = filter (\<lambda>m. w_conn m = s_conn s \<and> \<not> WorldMsgFilter s m) ms"

lemma dispatch_one_ok:
  assumes "world_ok w"
  shows "world_ok (dispatch_one m w)"
    "findSession c (dispatch_one m w) = map_option (\<lambda>s. s\<lparr>s_msgs := s_msgs s @ passes s [m]\<rparr>) (findSession c w)"
    "m_new_conn (dispatch_one m w) = m_new_conn w" "m_closed_conn (dispatch_one m w) = m_closed_conn w"
    "m_task (dispatch_one m w) = m_task w" "m_world_msgs (dispatch_one m w) = m_world_msgs w" "events (dispatch_one m w) = events w"
proof -
  show "world_ok (dispatch_one m w)"
  proof (cases "findSession (w_conn m) w")
    case (Some s)
    have "session_ok (w_conn m) (postMsg m s)"
      using world_ok_session [OF assms Some] by (simp add: session_ok_def postMsg_def)
    then show ?thesis using assms Some world_ok_put [OF assms] by (simp add: dispatch_one_def)
  qed (use assms in \<open>simp add: dispatch_one_def\<close>)
  show "findSession c (dispatch_one m w) = map_option (\<lambda>s. s\<lparr>s_msgs := s_msgs s @ passes s [m]\<rparr>) (findSession c w)"
  proof (cases "findSession c w")
    case (Some s)
    have "s_conn s = c" using world_ok_session [OF assms Some] by (simp add: session_ok_def)
    then show ?thesis using Some by (auto simp: dispatch_one_def passes_def postMsg_def split: option.split)
  qed (auto simp: dispatch_one_def split: option.split)
qed (auto simp: dispatch_one_def split: option.split)

lemma dispatch_all_ok:
  "world_ok w \<Longrightarrow> (let w' = fold dispatch_one ms w in world_ok w' \<and>
    findSession c w' = map_option (\<lambda>s. s\<lparr>s_msgs := s_msgs s @ passes s ms\<rparr>) (findSession c w) \<and>
    m_new_conn w' = m_new_conn w \<and> m_closed_conn w' = m_closed_conn w \<and> m_task w' = m_task w \<and>
    m_world_msgs w' = m_world_msgs w \<and> events w' = events w)"
proof (induction ms arbitrary: w)
  case Nil
  then show ?case by (simp add: passes_def Let_def option.map_ident)
next
  case (Cons m ms)
  have "passes (s\<lparr>s_msgs := xs\<rparr>) ms = passes s ms" for s xs by (simp add: passes_def WorldMsgFilter_def)
  moreover have "passes s (m # ms) = passes s [m] @ passes s ms" for s by (simp add: passes_def)
  ultimately show ?case using Cons.IH [OF dispatch_one_ok(1) [OF Cons.prems]] Cons.prems
    by (simp add: dispatch_one_ok Let_def option.map_comp comp_def)
qed

lemma dispatchMsg_ok:
  assumes "world_ok w"
  shows "world_ok (dispatchMsg w)"
    "findSession c (dispatchMsg w) = map_option (\<lambda>s. s\<lparr>s_msgs := s_msgs s @ passes s (m_world_msgs w)\<rparr>) (findSession c w)"
    "m_new_conn (dispatchMsg w) = m_new_conn w" "m_closed_conn (dispatchMsg w) = m_closed_conn w"
    "m_task (dispatchMsg w) = m_task w" "m_world_msgs (dispatchMsg w) = []" "events (dispatchMsg w) = events w"
proof -
  have "world_ok (w\<lparr>m_world_msgs := []\<rparr>)" using assms by simp
  note all = dispatch_all_ok [OF this, of "m_world_msgs w", unfolded Let_def, folded dispatchMsg_def]
  show "world_ok (dispatchMsg w)"
    "findSession c (dispatchMsg w) = map_option (\<lambda>s. s\<lparr>s_msgs := s_msgs s @ passes s (m_world_msgs w)\<rparr>) (findSession c w)"
    "m_new_conn (dispatchMsg w) = m_new_conn w" "m_closed_conn (dispatchMsg w) = m_closed_conn w"
    "m_task (dispatchMsg w) = m_task w" "m_world_msgs (dispatchMsg w) = []" "events (dispatchMsg w) = events w"
    using all [of c] by simp_all
qed

lemmas phase_simps = processNewConn_ok processClosedConn_ok processTask_ok dispatchMsg_ok heartbeat_sessions_ok

text \<open>No phase adds to the course of a connection or changes its order.\<close>

lemma msgs_of_passes: "s_conn s = c \<Longrightarrow> subseq (msgs_of c (passes s ms)) (msgs_of c ms)"
  by (induction ms) (auto simp: passes_def intro: list_emb_append_mono subseq_drop_many)

lemma queued_some: "findSession c w = Some s \<Longrightarrow> queued c w = msgs_of c (s_msgs s)"
  and queued_none: "findSession c w = None \<Longrightarrow> queued c w = []"
  by (simp_all add: queued_def)

lemma course_phase:
  assumes "world_ok w" "pc < 5"
  shows "world_ok ((phases cb ! pc) w) \<and> subseq (course c ((phases cb ! pc) w)) (course c w)"
proof -
  consider "pc = 0" | "pc = 1" | "pc = 2" | "pc = 3" | "pc = 4" using assms(2) by linarith
  then show ?thesis
  proof cases
    case 1
    then show ?thesis using assms(1)
      by (auto simp: phases_def processNewConn_ok course_def queued_def new_WorldSession_def split: option.split)
  next
    case 2
    then show ?thesis using assms(1)
      by (auto simp: phases_def processClosedConn_ok course_def queued_def closed_def split: option.split)
  next
    case 3
    then show ?thesis using assms(1) by (simp add: phases_def processTask_ok course_def queued_def)
  next
    case 4
    have "subseq (queued c (dispatchMsg w)) (queued c w @ msgs_of c (m_world_msgs w))"
    proof (cases "findSession c w")
      case (Some s)
      have "s_conn s = c" using world_ok_session [OF assms(1) Some] by (simp add: session_ok_def)
      from msgs_of_passes [OF this] show ?thesis
        using assms(1) Some by (simp add: queued_def dispatchMsg_ok list_emb_append_mono)
    qed (use assms(1) in \<open>simp add: queued_def dispatchMsg_ok\<close>)
    then show ?thesis using 4 assms(1) by (simp add: phases_def dispatchMsg_ok course_def list_emb_append_mono)
  next
    case 5
    then show ?thesis using assms(1) by (simp add: phases_def course_heartbeat heartbeat_sessions_ok)
  qed
qed

definition active :: "nat \<Rightarrow> 't world \<Rightarrow> bool" where
  "active c w \<longleftrightarrow> findSession c w \<noteq> None \<or> c \<in> s_conn ` set (m_new_conn w) \<or> handled c (events w) \<noteq> []"

lemma findSession_heartbeat:
  assumes "world_ok w"
  shows "findSession c (heartbeat_sessions w) = (case findSession c w of
    None \<Rightarrow> None | Some s \<Rightarrow> if isClosed s then None else Some (s\<lparr>s_msgs := []\<rparr>))"
proof -
  have "map_of (map (\<lambda>(k, s). (k, s\<lparr>s_msgs := []\<rparr>)) (filter (\<lambda>(k, s). \<not> isClosed s) xs)) c =
      (case map_of xs c of None \<Rightarrow> None | Some s \<Rightarrow> if isClosed s then None else Some (s\<lparr>s_msgs := []\<rparr>))"
    if "distinct (map fst xs)" for xs :: "(nat \<times> world_session) list"
    using that
  proof (induction xs)
    case (Cons p xs)
    have "map_of xs (fst p) = None" using Cons.prems by (cases p) (simp add: map_of_eq_None_iff)
    then show ?case using Cons by (cases p) (auto split: option.split)
  qed simp
  from this [of "m_sessions w"] assms show ?thesis
    by (simp add: heartbeat_sessions_ok(2) findSession_def world_ok_def)
qed

lemma active_phase:
  assumes "world_ok w" "pc < 5" "active c ((phases cb ! pc) w)"
  shows "active c w"
proof -
  consider "pc = 0" | "pc = 1" | "pc = 2" | "pc = 3" | "pc = 4" using assms(2) by linarith
  then show ?thesis
    using assms(1,3)
    by cases (auto simp: phases_def active_def processNewConn_ok processClosedConn_ok processTask_ok dispatchMsg_ok
        heartbeat_sessions_ok(3,4) findSession_heartbeat split: option.splits if_splits)
qed

lemma net_course:
  "world_ok w \<Longrightarrow> world_ok (net_apply e w) \<and> course c (net_apply e w) = course c w @ received c [Net e] \<and>
    (active c (net_apply e w) \<longrightarrow> active c w \<or> e = Accept c)"
proof (cases e)
  case (Accept c')
  assume "world_ok w"
  then show ?thesis using Accept session_ok_new
    by (auto simp: networkAccept_def course_def queued_def findSession_def world_ok_def active_def new_WorldSession_def)
next
  case (Received c' msg)
  assume "world_ok w"
  then show ?thesis using Received
    by (auto simp: networkReceviedMsg_def course_def queued_def active_def call_of_def Let_def split: option.split)
qed (auto simp: networkTimeout_def networkClosed_def close_later_def postTask_def course_def queued_def active_def)

lemma received_Cons: "received c (l # ls) = received c [l] @ received c ls"
  by (cases "(c, l # ls)" rule: received.cases) auto

lemma world_exec_course:
  assumes "world_ok w" "pc < 5" "world_exec cb ls (pc, w) = (pc', w')"
  shows "world_ok w' \<and> subseq (course c w') (course c w @ received c ls) \<and>
    (active c w' \<longrightarrow> active c w \<or> Net (Accept c) \<in> set ls)"
  using assms
proof (induction ls arbitrary: pc w)
  case (Cons l ls)
  show ?case
  proof (cases l)
    case (Net e)
    from net_course [OF Cons.prems(1), of e c] Cons.IH [of "net_apply e w" pc] Cons.prems Net
    show ?thesis by (subst received_Cons) auto
  next
    case Tick
    let ?w = "(phases cb ! pc) w"
    from course_phase [OF Cons.prems(1,2), of cb c] have ok: "world_ok ?w" "subseq (course c ?w) (course c w)" by auto
    from Cons.IH [OF ok(1), of "(pc + 1) mod 5"] Cons.prems Tick
    have "world_ok w'" "subseq (course c w') (course c ?w @ received c ls)"
      "active c w' \<longrightarrow> active c ?w \<or> Net (Accept c) \<in> set ls" by auto
    moreover have "subseq (course c ?w @ received c ls) (course c w @ received c ls)"
      using ok(2) by (intro list_emb_append_mono) simp_all
    with calculation(2) have "subseq (course c w') (course c w @ received c ls)" by (rule subseq_order.order_trans)
    then show ?thesis using calculation(1,3) active_phase [OF Cons.prems(1,2), of c cb] Tick by auto
  qed
qed simp

text \<open>
  C37. However the network thread and the phases of the heartbeat interleave, the messages of a connection that
  are handled are among those received from it that have a handler, in the order received and each at most once, there
  are none unless the connection was accepted, and a connection never has two sessions.
\<close>

theorem world_in_order:
  assumes "world_exec cb ls (0, new_World) = (pc, w)"
  shows "subseq (handled c (events w)) (received c ls) \<and>
    (handled c (events w) \<noteq> [] \<longrightarrow> Net (Accept c) \<in> set ls) \<and> distinct (map fst (m_sessions w))"
proof -
  have "world_ok (new_World :: 'a world)" by (simp add: world_ok_def new_World_def)
  from world_exec_course [OF this _ assms, of c]
  have "world_ok w" "subseq (course c w) (received c ls)" "active c w \<longrightarrow> Net (Accept c) \<in> set ls"
    by (simp_all add: course_def queued_def active_def new_World_def findSession_def)
  moreover from this(2) have "subseq (handled c (events w)) (received c ls)"
    unfolding course_def by (rule subseq_order.order_trans [rotated]) (simp add: prefix_imp_subseq)
  ultimately show ?thesis by (auto simp: active_def world_ok_def)
qed

lemma world_in_order_witness:
  "subseq (handled 7 (events (snd (world_exec (\<lambda>_ :: unit. []) [Net (Accept 7), Tick, Tick, Net (Received 7 \<lparr>m_msg_id = 2, m_data = []\<rparr>), Tick, Tick, Tick]
      (0, new_World)))))
    (received 7 ([Net (Accept 7), Tick, Tick, Net (Received 7 \<lparr>m_msg_id = 2, m_data = []\<rparr>), Tick, Tick, Tick] :: unit label list))"
  by (rule world_in_order [where cb = "\<lambda>_. []", OF surjective_pairing, THEN conjunct1])

section \<open>Heartbeats without interruption\<close>

text \<open>The worlds between heartbeats when the network thread does not run within one.\<close>

inductive world_reachable :: "('t \<Rightarrow> 't world_cmd list) \<Rightarrow> 't world \<Rightarrow> bool" for cb where
  new: "world_reachable cb new_World"
| net: "world_reachable cb w \<Longrightarrow> world_reachable cb (net_apply e w)"
| beat: "world_reachable cb w \<Longrightarrow> world_reachable cb (world_heartbeat cb w)"

definition idle :: "'t world \<Rightarrow> bool" where
  "idle w \<longleftrightarrow> world_ok w \<and> (\<forall>c s. findSession c w = Some s \<longrightarrow> s_state s = UNLOGIN \<and> s_msgs s = []) \<and>
     (\<forall>m \<in> set (m_world_msgs w). cb_state (w_session_fun m) \<in> {IGNORE, UNLOGIN})"

lemma findRegCallback_state: "cb_state (findRegCallback cmd) \<in> {IGNORE, UNLOGIN}"
  by (auto simp: findRegCallback_def dispatcher_init_def m_slots_def)

lemma idle_net: "idle w \<Longrightarrow> idle (net_apply e w)"
  using net_course [of w e] findRegCallback_state
  by (cases e)
    (auto simp: idle_def networkAccept_def networkReceviedMsg_def networkTimeout_def networkClosed_def close_later_def
      postTask_def Let_def findSession_def)

lemma msgs_of_all_pass:
  "s_conn s = c \<Longrightarrow> \<forall>m \<in> set ms. \<not> WorldMsgFilter s m \<Longrightarrow> msgs_of c (passes s ms) = msgs_of c ms"
  by (induction ms) (auto simp: passes_def)

lemma heartbeat_idle:
  fixes cb
  assumes idle: "idle w"
  defines "w' \<equiv> world_heartbeat cb w"
  shows "idle w'"
    "findSession c w' = (if (findSession c w \<noteq> None \<or> c \<in> s_conn ` set (m_new_conn w)) \<and> c \<notin> set (m_closed_conn w)
      then Some (new_WorldSession c) else None)"
    "handled c (events w') = handled c (events w) @ (if findSession c w' = None then [] else msgs_of c (m_world_msgs w))"
    "m_new_conn w' = []" "m_world_msgs w' = []"
proof -
  have ok: "world_ok w" and old: "findSession c w = Some s \<Longrightarrow> s = new_WorldSession c" for c s
    using idle world_ok_session [of w c s] by (auto simp: idle_def session_ok_def new_WorldSession_def intro!: world_session.equality)
  define u where "u = processTask cb (processClosedConn (processNewConn w))"
  have u: "world_ok u" "m_new_conn u = []" "m_world_msgs u = m_world_msgs w" "events u = events w"
    using ok by (simp_all add: u_def phase_simps)
  have find: "findSession c u = (if findSession c w \<noteq> None \<or> c \<in> s_conn ` set (m_new_conn w) then
      Some (if c \<in> set (m_closed_conn w) then closed (new_WorldSession c) else new_WorldSession c) else None)" for c
    using ok old by (auto simp: u_def phase_simps closed_def split: option.split)
  have w': "w' = heartbeat_sessions (dispatchMsg u)" by (simp add: w'_def world_heartbeat_def u_def)
  have pass: "\<not> WorldMsgFilter (new_WorldSession c) m" if "m \<in> set (m_world_msgs w)" for c m
    using that idle by (auto simp: idle_def WorldMsgFilter_def new_WorldSession_def)
  show live: "findSession c w' = (if (findSession c w \<noteq> None \<or> c \<in> s_conn ` set (m_new_conn w)) \<and> c \<notin> set (m_closed_conn w)
      then Some (new_WorldSession c) else None)" for c
    using u(1) unfolding w' by (simp add: findSession_heartbeat dispatchMsg_ok find isClosed_def closed_def new_WorldSession_def)
  show "m_new_conn w' = []" "m_world_msgs w' = []" using u(1,2) unfolding w' by (simp_all add: phase_simps)
  have "world_ok w'" using u(1) unfolding w' by (simp add: phase_simps)
  then show "idle w'" using live \<open>m_world_msgs w' = []\<close> by (auto simp: idle_def new_WorldSession_def split: if_splits)
  show "handled c (events w') = handled c (events w) @ (if findSession c w' = None then [] else msgs_of c (m_world_msgs w))"
    using u msgs_of_all_pass [of "new_WorldSession c" c "m_world_msgs w"] pass unfolding live unfolding w'
    by (auto simp: heartbeat_sessions_ok(3) dispatchMsg_ok find isClosed_def closed_def new_WorldSession_def)
qed

lemma reachable_idle: "world_reachable cb w \<Longrightarrow> idle w"
proof (induction rule: world_reachable.induct)
  case new
  show ?case by (simp add: idle_def world_ok_def new_World_def findSession_def)
qed (simp_all add: idle_net heartbeat_idle)

text \<open>
  C38. When the network thread does not run within a heartbeat, the heartbeat serves exactly the
  connections that were accepted and not closed: these have a session afterwards, and all their waiting messages that
  have a handler are handled, in order; of the other connections nothing is handled.
\<close>

theorem world_serves:
  assumes "world_reachable cb w"
  shows "(findSession c (world_heartbeat cb w) \<noteq> None \<longleftrightarrow>
      (findSession c w \<noteq> None \<or> c \<in> s_conn ` set (m_new_conn w)) \<and> c \<notin> set (m_closed_conn w)) \<and>
    handled c (events (world_heartbeat cb w)) = handled c (events w) @
      (if findSession c (world_heartbeat cb w) = None then [] else msgs_of c (m_world_msgs w)) \<and>
    m_world_msgs (world_heartbeat cb w) = [] \<and> m_new_conn (world_heartbeat cb w) = []"
  using heartbeat_idle(2,3) [OF reachable_idle [OF assms], where cb = cb and c = c]
    heartbeat_idle(4,5) [OF reachable_idle [OF assms], where cb = cb] by auto

definition ping :: net_msg where
  "ping = \<lparr>m_msg_id = 2, m_data = []\<rparr>"

lemma world_serves_witness:
  "handled 7 (events (world_heartbeat (\<lambda>_ :: unit. []) (net_apply (Received 7 ping) (net_apply (Accept 7) new_World)))) = [(reqRtt, ping)]"
proof -
  let ?w = "net_apply (Received 7 ping) (net_apply (Accept 7) new_World) :: unit world"
  have reach: "world_reachable (\<lambda>_. []) ?w" by (intro world_reachable.intros)
  show ?thesis
    using world_serves [OF reach, of 7]
    by (simp add: networkReceviedMsg_def networkAccept_def new_World_def findRegCallback_def dispatcher_init_def m_slots_def
        ping_def findSession_def new_WorldSession_def call_of_def)
qed

text \<open>Heartbeats alone, when no task is waiting.\<close>

lemma processTask_none: "m_task w = [] \<Longrightarrow> processTask cb w = w"
  by (simp add: processTask_def)

lemma heartbeats_alone:
  fixes cb
  assumes "idle w" "m_task w = []" "m_closed_conn w = []" "m_world_msgs w = []" "findSession c w \<noteq> None \<or> c \<in> s_conn ` set (m_new_conn w)"
  defines "v n \<equiv> (world_heartbeat cb ^^ n) w"
  shows "idle (v n) \<and> m_task (v n) = [] \<and> m_closed_conn (v n) = [] \<and> m_world_msgs (v n) = [] \<and>
    (findSession c (v n) \<noteq> None \<or> c \<in> s_conn ` set (m_new_conn (v n))) \<and> handled c (events (v n)) = handled c (events w)"
proof (induction n)
  case (Suc n)
  have ok: "world_ok (v n)" using Suc by (simp add: idle_def)
  then have "m_task (world_heartbeat cb (v n)) = []" "m_closed_conn (world_heartbeat cb (v n)) = []"
    using Suc by (simp_all add: world_heartbeat_def phase_simps processTask_none)
  then show ?case
    using heartbeat_idle(1,4,5) [of "v n" cb] heartbeat_idle(2,3) [of "v n" c cb] Suc by (simp add: v_def)
qed (use assms(1-5) in \<open>simp add: v_def\<close>)

text \<open>
  If the network thread accepts a connection, receives its message and closes it while a heartbeat is between
  its first two phases, the message is lost and the closing too: the connection has a session after every later
  heartbeat, for ever, and nothing of it is handled.
\<close>

lemma world_race:
  fixes cb :: "'t \<Rightarrow> 't world_cmd list"
  assumes reach: "world_reachable cb w" and c: "findSession c w = None" "c \<notin> s_conn ` set (m_new_conn w)" and task: "m_task w = []"
    and late: "world_exec cb [Tick, Net (Accept c), Net (Received c msg), Net (Closed_conn c), Tick, Tick, Tick, Tick] (0, w) = (pc, v)"
  shows "pc = 0 \<and> (\<forall>n. findSession c ((world_heartbeat cb ^^ Suc n) v) \<noteq> None \<and>
    handled c (events ((world_heartbeat cb ^^ n) v)) = handled c (events w))"
proof
  have idle: "idle w" by (rule reachable_idle [OF reach])
  define w1 where "w1 = processNewConn w"
  define w2 where "w2 = net_apply (Closed_conn c) (net_apply (Received c msg) (net_apply (Accept c) w1))"
  have v: "v = heartbeat_sessions (dispatchMsg (processTask cb (processClosedConn w2)))" and "pc = 0"
    using late by (simp_all add: phases_def w1_def w2_def)
  show "pc = 0" by fact
  have ok1: "world_ok w1" using idle by (simp add: w1_def idle_def phase_simps)
  have "idle w1" using idle processNewConn_ok [of w]
    by (auto simp: idle_def w1_def phase_simps new_WorldSession_def split: option.splits if_splits)
  then have idle2: "idle w2" by (simp add: w2_def idle_net del: net_apply.simps)
  then have ok2: "world_ok w2" by (simp add: idle_def)
  have w2: "findSession c w2 = None" "m_new_conn w2 = [new_WorldSession c]" "m_task w2 = []" "events w2 = events w"
    using c task idle
    by (simp_all add: w2_def w1_def networkClosed_def close_later_def networkReceviedMsg_def networkAccept_def Let_def
        processNewConn_ok idle_def findSession_def [symmetric])
  have v': "m_new_conn v = [new_WorldSession c]" "m_task v = []" "m_closed_conn v = []" "m_world_msgs v = []" "world_ok v"
    "handled c (events v) = handled c (events w)"
    using ok2 w2 unfolding v by (simp_all add: phase_simps processTask_none)
  have "s_state s = UNLOGIN \<and> s_msgs s = []" if "findSession k v = Some s" for k s
    using that idle2 ok2 unfolding v
    by (auto simp: phase_simps findSession_heartbeat idle_def closed_def isClosed_def split: option.splits if_splits)
  then have "idle v" using v' by (simp add: idle_def)
  note alone = heartbeats_alone [OF this v'(2-4), where c = c and cb = cb]
  show "\<forall>n. findSession c ((world_heartbeat cb ^^ Suc n) v) \<noteq> None \<and>
    handled c (events ((world_heartbeat cb ^^ n) v)) = handled c (events w)"
  proof (intro allI conjI)
    fix n
    have "c \<in> s_conn ` set (m_new_conn v)" by (simp add: v' new_WorldSession_def)
    note a = alone [where n = n]
    then show "handled c (events ((world_heartbeat cb ^^ n) v)) = handled c (events w)" using v' \<open>c \<in> _\<close> by simp
    show "findSession c ((world_heartbeat cb ^^ Suc n) v) \<noteq> None"
      using a \<open>c \<in> _\<close> heartbeat_idle(2) [of "(world_heartbeat cb ^^ n) v" c cb] by simp
  qed
qed

lemma world_race_witness:
  "\<exists>v. world_exec (\<lambda>_ :: unit. []) [Tick, Net (Accept 7), Net (Received 7 ping), Net (Closed_conn 7), Tick, Tick, Tick, Tick] (0, new_World) = (0, v) \<and>
     findSession 7 ((world_heartbeat (\<lambda>_. []) ^^ Suc 9) v) \<noteq> None \<and> handled 7 (events ((world_heartbeat (\<lambda>_. []) ^^ 9) v)) = []"
proof -
  obtain pc v where run: "world_exec (\<lambda>_ :: unit. []) [Tick, Net (Accept 7), Net (Received 7 ping), Net (Closed_conn 7), Tick, Tick, Tick, Tick]
      (0, new_World) = (pc, v)" by force
  have none: "findSession 7 (new_World :: unit world) = None" "7 \<notin> s_conn ` set (m_new_conn (new_World :: unit world))"
    "m_task (new_World :: unit world) = []" by (simp_all add: new_World_def findSession_def)
  note race = world_race [OF world_reachable.new none run]
  have "handled 7 (events (new_World :: unit world)) = []" by (simp add: new_World_def)
  then have "handled 7 (events ((world_heartbeat (\<lambda>_. []) ^^ 9) v)) = []" using race by metis
  moreover have "findSession 7 ((world_heartbeat (\<lambda>_. []) ^^ Suc 9) v) \<noteq> None" "pc = 0" using race by blast+
  ultimately show ?thesis using run by blast
qed

end
