(* ===== verification/Event_Server.thy ===== *)
theory Event_Server
  imports Zylib_Prelude "HOL-Library.Sublist"
begin

text \<open>
  The event server, \<open>eventserver\<close>: sessions over the events of \<open>libevent\<close>, and tasks that other threads
  submit.  A session is known to the outside by the number of its socket and a sequence number; inside, it is a
  pointer, here its place in the list of all sessions ever created.  The events of a session
  belong to it: \<open>event_add\<close> makes them pending, they fire once, and \<open>event_del\<close> and \<open>event_free\<close> make them not pending.
  A buffer is the list of its bytes; what \<open>evbuffer_read\<close> and \<open>evbuffer_write\<close> return is an argument.
\<close>

section \<open>Session numbers\<close>

datatype event_session_id = EventSessionID (m_fd: int) (m_seq_id: int)

lemma event_session_id_eq: "a = b \<longleftrightarrow> m_fd a = m_fd b \<and> m_seq_id a = m_seq_id b"
  by (cases a; cases b) simp

definition sid_less :: "event_session_id \<Rightarrow> event_session_id \<Rightarrow> bool" where
  "sid_less a rhs = (if m_fd a = m_fd rhs then m_seq_id a < m_seq_id rhs else m_fd a < m_fd rhs)"

text \<open>It is the order of the keys of the maps.\<close>

instantiation event_session_id :: linorder
begin

definition less_event_session_id :: "event_session_id \<Rightarrow> event_session_id \<Rightarrow> bool" where
  "less_event_session_id = sid_less"

definition less_eq_event_session_id :: "event_session_id \<Rightarrow> event_session_id \<Rightarrow> bool" where
  "less_eq_event_session_id a rhs \<longleftrightarrow> a < rhs \<or> a = rhs"

instance
  by standard (auto simp: less_event_session_id_def sid_less_def less_eq_event_session_id_def event_session_id_eq split: if_splits)

end

definition is_valid :: "event_session_id \<Rightarrow> bool" where
  "is_valid sid \<longleftrightarrow> m_fd sid \<noteq> 0 \<or> m_seq_id sid \<noteq> 0"

section \<open>Sessions\<close>

text \<open>What a session does to others: calls of its handler, bytes on its socket, writes that
  failed for good, and submitted tasks.\<close>

datatype 'm report = Handle "'m option list" | Close | Timeout

datatype 'm out = Report "'m report" | Sent "byte list" | Write_failed | Accepted "byte list" | Shutdown_self

record 'm ev_session =
  m_shutdown :: bool
  m_wait_writen :: bool
  m_sid :: event_session_id
  m_received_buffer :: "byte list"
  m_send_buffer :: "byte list"
  m_msg_queue :: "'m list"
  read_pending :: bool
  write_pending :: bool

definition new_EventSession :: "event_session_id \<Rightarrow> 'm ev_session" where
  "new_EventSession sid = \<lparr>m_shutdown = False, m_wait_writen = False, m_sid = sid, m_received_buffer = [],
     m_send_buffer = [], m_msg_queue = [], read_pending = False, write_pending = False\<rparr>"

definition addEvent_read :: "'m ev_session \<Rightarrow> 'm ev_session" where
  "addEvent_read x = x\<lparr>read_pending := True\<rparr>"

definition addEvent_write :: "'m ev_session \<Rightarrow> 'm ev_session" where
  "addEvent_write x = x\<lparr>write_pending := True, m_wait_writen := True\<rparr>"

definition appendResponse :: "byte list \<Rightarrow> 'm ev_session \<Rightarrow> 'm out list \<times> 'm ev_session" where
  "appendResponse resp x = ([Accepted resp], x\<lparr>m_send_buffer := m_send_buffer x @ resp\<rparr>)"

definition ev_shutdown :: "'m ev_session \<Rightarrow> 'm out list \<times> 'm ev_session" where
  "ev_shutdown x = (if m_shutdown x then ([], x) else ([Shutdown_self], x\<lparr>m_shutdown := True\<rparr>))"

definition ev_release :: "'m ev_session \<Rightarrow> bool \<times> 'm ev_session" where
  "ev_release x =
     (let x1 = x\<lparr>m_shutdown := True\<rparr> in
      if m_wait_writen x1 then (False, x1) else (True, x1\<lparr>read_pending := False, write_pending := False\<rparr>))"

text \<open>\<open>EventMsgDecoder::take\<close>, \<open>n\<close> times; a message that is not there is a null pointer.\<close>

fun take_msg :: "'m list \<Rightarrow> 'm option \<times> 'm list" where
  "take_msg [] = (None, [])"
| "take_msg (m # ms) = (Some m, ms)"

fun take_msgs :: "nat \<Rightarrow> 'm list \<Rightarrow> 'm option list \<times> 'm list" where
  "take_msgs 0 q = ([], q)"
| "take_msgs (Suc n) q = (let (m, q1) = take_msg q; (ms, q2) = take_msgs n q1 in (m # ms, q2))"

text \<open>
  \<open>onRead\<close>: \<open>None\<close> is the timeout, \<open>Some []\<close> the end of the stream or an error.  The decoder, which the handler
  installs, is a parameter: it returns a count, the messages it puts into its queue, and what it leaves in the buffer.
\<close>

definition onRead :: "(byte list \<Rightarrow> int \<times> 'm list \<times> byte list) \<Rightarrow> byte list option \<Rightarrow> 'm ev_session \<Rightarrow> 'm out list \<times> 'm ev_session" where
  "onRead decode got x0 =
     (let x = x0\<lparr>read_pending := False\<rparr> in
      if m_shutdown x then ([], x)
      else case got of
          None \<Rightarrow> (let (os, x1) = ev_shutdown x in (Report Timeout # os, x1))
        | Some bytes \<Rightarrow>
            if bytes \<noteq> [] then
              let (msg_count, new, rest) = decode (m_received_buffer x @ bytes);
                  x1 = x\<lparr>m_received_buffer := rest, m_msg_queue := m_msg_queue x @ new\<rparr>
              in if 0 \<le> msg_count then
                   let (msgs, q) = take_msgs (nat msg_count) (m_msg_queue x1)
                   in (if 0 < msg_count then [Report (Handle msgs)] else [], addEvent_read (x1\<lparr>m_msg_queue := q\<rparr>))
                 else let (os, x2) = ev_shutdown x1 in (Report Close # os, x2)
            else let (os, x1) = ev_shutdown x in (Report Close # os, x1))"

datatype write_result = Wrote nat | Again | Broken

text \<open>\<open>getSize\<close> converts the length of the buffer to an \<open>int\<close>.\<close>

definition write_len :: "'m ev_session \<Rightarrow> int" where
  "write_len x = sint (word_of_nat (length (m_send_buffer x)) :: 32 word)"

text \<open>
  The loop of \<open>onWrite\<close> with the results of its calls of \<open>evbuffer_write\<close>: \<open>None\<close> if they are not those of one loop.
\<close>

fun write_loop :: "write_result list \<Rightarrow> 'm ev_session \<Rightarrow> ('m out list \<times> 'm ev_session) option" where
  "write_loop [] x = (if write_len x \<le> 0 then Some ([], x) else None)"
| "write_loop (r # rs) x =
     (if write_len x \<le> 0 then None
      else case r of
          Wrote n \<Rightarrow>
            if 0 < n \<and> n \<le> length (m_send_buffer x) then
              map_option (\<lambda>(os, x1). (Sent (take n (m_send_buffer x)) # os, x1))
                (write_loop rs (x\<lparr>m_send_buffer := drop n (m_send_buffer x)\<rparr>))
            else None
        | Again \<Rightarrow> if rs = [] then Some ([], addEvent_write x) else None
        | Broken \<Rightarrow> if rs = [] then (let (os, x1) = ev_shutdown x in Some (Write_failed # Report Close # os, x1)) else None)"

definition onWrite :: "write_result list \<Rightarrow> 'm ev_session \<Rightarrow> ('m out list \<times> 'm ev_session) option" where
  "onWrite rs x =
     map_option (\<lambda>(os, x1). (if \<not> m_wait_writen x1 \<and> m_shutdown x1 then os @ [Shutdown_self] else os, x1))
       (write_loop rs (x\<lparr>m_wait_writen := False, write_pending := False\<rparr>))"

definition asyncWrite :: "write_result list \<Rightarrow> 'm ev_session \<Rightarrow> ('m out list \<times> 'm ev_session) option" where
  "asyncWrite rs x = (if m_wait_writen x then (if rs = [] then Some ([], x) else None) else onWrite rs x)"

section \<open>The server\<close>

datatype ev_task = EventSendTask event_session_id "byte list" | EventShutdownSessionTask event_session_id

record 'm ev_server =
  m_next_seq :: int
  m_sessions :: "event_session_id \<rightharpoonup> nat"
  objects :: "'m ev_session option list"
  m_event_tasks :: "ev_task list"
  outs :: "(nat \<times> 'm out) list"
  closed_fds :: "int list"
  refused_fds :: "int list"

definition new_EventServer :: "'m ev_server" where
  "new_EventServer = \<lparr>m_next_seq = 0, m_sessions = Map.empty, objects = [], m_event_tasks = [], outs = [], closed_fds = [], refused_fds = []\<rparr>"

definition submitTask :: "ev_task \<Rightarrow> 'm ev_server \<Rightarrow> 'm ev_server" where
  "submitTask t s = s\<lparr>m_event_tasks := m_event_tasks s @ [t]\<rparr>"

definition sendResponse :: "event_session_id \<Rightarrow> byte list \<Rightarrow> 'm ev_server \<Rightarrow> 'm ev_server" where
  "sendResponse sid resp s = submitTask (EventSendTask sid resp) s"

definition shutdownSession :: "event_session_id \<Rightarrow> 'm ev_server \<Rightarrow> 'm ev_server" where
  "shutdownSession sid s = submitTask (EventShutdownSessionTask sid) s"

text \<open>What session \<open>i\<close> did takes effect: it is recorded, and \<open>shutdownSession\<close> submits its task.\<close>

fun emit :: "nat \<Rightarrow> event_session_id \<Rightarrow> 'm out list \<Rightarrow> 'm ev_server \<Rightarrow> 'm ev_server" where
  "emit i sid [] s = s"
| "emit i sid (o1 # os) s =
     emit i sid os ((if o1 = Shutdown_self then shutdownSession sid s else s)\<lparr>outs := outs s @ [(i, o1)]\<rparr>)"

definition put_object :: "nat \<Rightarrow> 'm out list \<times> 'm ev_session \<Rightarrow> 'm ev_server \<Rightarrow> 'm ev_server" where
  "put_object i r s = emit i (m_sid (snd r)) (fst r) (s\<lparr>objects := (objects s)[i := Some (snd r)]\<rparr>)"

definition createSession :: "int \<Rightarrow> 'm ev_server \<Rightarrow> nat \<times> 'm ev_server" where
  "createSession fd s =
     (let seq = (if m_next_seq s = 2 ^ 31 - 1 then 0 else m_next_seq s) + 1; sid = EventSessionID fd seq;
          i = length (objects s)
      in (i, s\<lparr>m_next_seq := seq, objects := objects s @ [Some (new_EventSession sid)],
            m_sessions := (if m_sessions s sid = None then (m_sessions s)(sid \<mapsto> i) else m_sessions s)\<rparr>))"

definition findSession :: "event_session_id \<Rightarrow> 'm ev_server \<Rightarrow> nat option" where
  "findSession sid s = m_sessions s sid"

definition eraseSession :: "event_session_id \<Rightarrow> 'm ev_server \<Rightarrow> 'm ev_server" where
  "eraseSession sid s = s\<lparr>m_sessions := (m_sessions s)(sid := None)\<rparr>"

definition object :: "nat \<Rightarrow> 'm ev_server \<Rightarrow> 'm ev_session option" where
  "object i s = (if i < length (objects s) then objects s ! i else None)"

text \<open>\<open>delete session\<close>: the events are freed with it, and the socket is closed.\<close>

definition delete_session :: "nat \<Rightarrow> 'm ev_session \<Rightarrow> 'm ev_server \<Rightarrow> 'm ev_server" where
  "delete_session i x s = s\<lparr>objects := (objects s)[i := None], closed_fds := closed_fds s @ [m_fd (m_sid x)]\<rparr>"

text \<open>
  \<open>onAccept\<close> with what \<open>accept\<close> returned and whether the socket could be made non-blocking; if not, it is closed and
  no session is created.
\<close>

definition onAccept :: "int option \<Rightarrow> bool \<Rightarrow> 'm ev_server \<Rightarrow> 'm ev_server" where
  "onAccept client_fd nonblocking s = (case client_fd of
       None \<Rightarrow> s
     | Some fd \<Rightarrow>
         if \<not> nonblocking then s\<lparr>refused_fds := refused_fds s @ [fd]\<rparr>
         else let (i, s1) = createSession fd s in
           s1\<lparr>objects := (objects s1)[i := map_option addEvent_read (objects s1 ! i)]\<rparr>)"

text \<open>
  Running a task with the results of the writes it makes.  What goes wrong is either that these are not the results of
  one run, or that a deleted session is used.
\<close>

datatype ev_fault = No_such_run | Use_after_delete

definition run_send :: "event_session_id \<Rightarrow> byte list \<Rightarrow> write_result list \<Rightarrow> 'm ev_server \<Rightarrow> ev_fault + 'm ev_server" where
  "run_send sid resp rs s = (case findSession sid s of
       None \<Rightarrow> if rs = [] then Inr s else Inl No_such_run
     | Some i \<Rightarrow> (case object i s of
         None \<Rightarrow> Inl Use_after_delete
       | Some x \<Rightarrow>
           if m_shutdown x then (if rs = [] then Inr s else Inl No_such_run)
           else let (os, x1) = appendResponse resp x in
             (case asyncWrite rs x1 of
                None \<Rightarrow> Inl No_such_run
              | Some (os2, x2) \<Rightarrow> Inr (put_object i (os @ os2, x2) s))))"

definition run_shutdown :: "event_session_id \<Rightarrow> 'm ev_server \<Rightarrow> ev_fault + 'm ev_server" where
  "run_shutdown sid s = (case findSession sid s of
       None \<Rightarrow> Inr s
     | Some i \<Rightarrow> (case object i s of
         None \<Rightarrow> Inl Use_after_delete
       | Some x \<Rightarrow>
           (let (released, x1) = ev_release x in
            if released then Inr (delete_session i x1 (eraseSession sid s)) else Inr (put_object i ([], x1) s))))"

fun run_task :: "ev_task \<Rightarrow> write_result list \<Rightarrow> 'm ev_server \<Rightarrow> ev_fault + 'm ev_server" where
  "run_task (EventSendTask sid resp) rs s = run_send sid resp rs s"
| "run_task (EventShutdownSessionTask sid) rs s = (if rs = [] then run_shutdown sid s else Inl No_such_run)"

text \<open>
  \<open>executeTask\<close> runs tasks until none is left, also those that the tasks submit; \<open>rss\<close> has the results of the writes of
  each.
\<close>

fun executeTask :: "write_result list list \<Rightarrow> 'm ev_server \<Rightarrow> ev_fault + 'm ev_server" where
  "executeTask [] s = (if m_event_tasks s = [] then Inr s else Inl No_such_run)"
| "executeTask (rs # rss) s = (case m_event_tasks s of
       [] \<Rightarrow> Inl No_such_run
     | t # ts \<Rightarrow> res_bind (run_task t rs (s\<lparr>m_event_tasks := ts\<rparr>)) (executeTask rss))"

text \<open>
  The loop of \<open>libevent\<close> and other threads, which may submit tasks between any two steps, also between the tasks of one
  \<open>executeTask\<close>.  The system never returns the number of an open socket from \<open>accept\<close>.
\<close>

inductive ev_step :: "(byte list \<Rightarrow> int \<times> 'm list \<times> byte list) \<Rightarrow> 'm ev_server \<Rightarrow> 'm ev_server \<Rightarrow> bool" for decode where
  accept: "\<forall>x. Some x \<in> set (objects s) \<longrightarrow> m_fd (m_sid x) \<noteq> fd \<Longrightarrow> ev_step decode s (onAccept (Some fd) nonblocking s)"
| readable: "object i s = Some x \<Longrightarrow> read_pending x \<Longrightarrow> ev_step decode s (put_object i (onRead decode got x) s)"
| writable: "object i s = Some x \<Longrightarrow> write_pending x \<Longrightarrow> onWrite rs x = Some r \<Longrightarrow> ev_step decode s (put_object i r s)"
| send: "ev_step decode s (sendResponse sid resp s)"
| close: "ev_step decode s (shutdownSession sid s)"
| task: "m_event_tasks s = t # ts \<Longrightarrow> run_task t rs (s\<lparr>m_event_tasks := ts\<rparr>) = Inr s' \<Longrightarrow> ev_step decode s s'"

definition ev_reachable :: "(byte list \<Rightarrow> int \<times> 'm list \<times> byte list) \<Rightarrow> 'm ev_server \<Rightarrow> bool" where
  "ev_reachable decode = (ev_step decode)\<^sup>*\<^sup>* new_EventServer"


lemma executeTask_steps: "executeTask rss s = Inr s' \<Longrightarrow> (ev_step decode)\<^sup>*\<^sup>* s s' \<and> m_event_tasks s' = []"
proof (induction rss arbitrary: s)
  case (Cons rs rss)
  then obtain t ts s1 where t: "m_event_tasks s = t # ts" "run_task t rs (s\<lparr>m_event_tasks := ts\<rparr>) = Inr s1"
    "executeTask rss s1 = Inr s'" by (auto simp: res_bind_eq_Inr split: list.splits)
  from ev_step.task [OF t(1,2)] Cons.IH [OF t(3)] show ?case by (meson converse_rtranclp_into_rtranclp)
qed (auto split: if_splits)

section \<open>One session\<close>

definition accepted_of :: "'m out list \<Rightarrow> byte list" where
  "accepted_of os = concat (map (\<lambda>e. case e of Accepted bs \<Rightarrow> bs | _ \<Rightarrow> []) os)"

definition sent_of :: "'m out list \<Rightarrow> byte list" where
  "sent_of os = concat (map (\<lambda>e. case e of Sent bs \<Rightarrow> bs | _ \<Rightarrow> []) os)"

definition is_end :: "'m out \<Rightarrow> bool" where
  "is_end e \<longleftrightarrow> e = Report Close \<or> e = Report Timeout"

definition ends :: "'m out list \<Rightarrow> nat" where
  "ends os = length (filter is_end os)"

lemma out_simps [simp]:
  "accepted_of [] = []" "sent_of [] = []" "ends [] = 0"
  "accepted_of (os @ os') = accepted_of os @ accepted_of os'" "sent_of (os @ os') = sent_of os @ sent_of os'"
  "ends (os @ os') = ends os + ends os'"
  "accepted_of (Accepted bs # os) = bs @ accepted_of os" "accepted_of (Sent bs # os) = accepted_of os"
  "accepted_of (Report r # os) = accepted_of os" "accepted_of (Shutdown_self # os) = accepted_of os"
  "sent_of (Accepted bs # os) = sent_of os" "sent_of (Sent bs # os) = bs @ sent_of os"
  "sent_of (Report r # os) = sent_of os" "sent_of (Shutdown_self # os) = sent_of os"
  "ends (Accepted bs # os) = ends os" "ends (Sent bs # os) = ends os" "ends (Shutdown_self # os) = ends os"
  "accepted_of (Write_failed # os) = accepted_of os" "sent_of (Write_failed # os) = sent_of os" "ends (Write_failed # os) = ends os"
  "ends (Report (Handle ms) # os) = ends os" "ends (Report Close # os) = Suc (ends os)" "ends (Report Timeout # os) = Suc (ends os)"
  by (simp_all add: accepted_of_def sent_of_def ends_def is_end_def)

definition failure_reported :: "'m out list \<Rightarrow> bool" where
  "failure_reported os \<longleftrightarrow> (Write_failed \<in> set os \<longrightarrow> 0 < ends os)"

lemma failure_reported_simps [simp]:
  "failure_reported []" "failure_reported (Sent bs # os) = failure_reported os" "failure_reported (Accepted bs # os) = failure_reported os"
  "failure_reported (Shutdown_self # os) = failure_reported os" "failure_reported (Report (Handle ms) # os) = failure_reported os"
  "failure_reported (Report Close # os)" "failure_reported (Report Timeout # os)"
  "failure_reported (Write_failed # Report Close # os)"
  by (simp_all add: failure_reported_def)

lemma failure_reported_append: "failure_reported h \<Longrightarrow> failure_reported os \<Longrightarrow> failure_reported (h @ os)"
  by (auto simp: failure_reported_def)

text \<open>
  What holds of a live session with the history \<open>os\<close>: every byte accepted was sent or is in the buffer, it waits exactly while
  its write event is pending, it was reported closed at most once, or twice when it waited to write in between, and if a write failed it was reported closed.
\<close>

definition session_inv :: "'m out list \<Rightarrow> 'm ev_session \<Rightarrow> bool" where
  "session_inv os x \<longleftrightarrow> accepted_of os = sent_of os @ m_send_buffer x \<and> write_pending x = m_wait_writen x \<and>
     ends os \<le> (if \<not> m_shutdown x then 0 else if m_wait_writen x then 1 else 2) \<and> failure_reported os"

text \<open>
  A session leaves bytes in its buffer only while it waits to write them, after a write failed, or when the buffer has
  so many bytes that \<open>getSize\<close> is not positive.
\<close>

definition unsent_ok :: "'m out list \<Rightarrow> 'm ev_session \<Rightarrow> bool" where
  "unsent_ok os x \<longleftrightarrow> m_wait_writen x \<or> Write_failed \<in> set os \<or> write_len x \<le> 0"

lemma sint_of_length: "n < 2 ^ 31 \<Longrightarrow> sint (word_of_nat n :: 32 word) = int n"
  by (simp add: signed_of_nat signed_take_bit_int_eq_self)

lemma write_len_small: "length (m_send_buffer x) < 2 ^ 31 \<Longrightarrow> write_len x = int (length (m_send_buffer x))"
  by (simp add: write_len_def sint_of_length)

lemma write_len_cong: "m_send_buffer x = m_send_buffer y \<Longrightarrow> write_len x = write_len y"
  by (simp add: write_len_def)

lemma write_len_le0: "write_len x \<le> 0 \<Longrightarrow> m_send_buffer x = [] \<or> 2 ^ 31 \<le> length (m_send_buffer x)"
  using write_len_small [of x] by (cases "length (m_send_buffer x) < 2 ^ 31") auto

text \<open>A step of a session: its number stays, and it asks to be deleted when it is shut down and no longer waits.\<close>

definition session_step :: "'m ev_session \<Rightarrow> 'm out list \<Rightarrow> 'm ev_session \<Rightarrow> bool" where
  "session_step x os x' \<longleftrightarrow> m_sid x' = m_sid x \<and> (\<forall>h. session_inv h x \<longrightarrow> session_inv (h @ os) x') \<and>
     (\<forall>h. unsent_ok h x \<longrightarrow> unsent_ok (h @ os) x') \<and>
     (m_shutdown x' \<and> \<not> m_wait_writen x' \<longrightarrow> m_shutdown x \<and> \<not> m_wait_writen x \<or> Shutdown_self \<in> set os) \<and>
     (m_shutdown x \<longrightarrow> m_shutdown x')"

lemma unsent_ok_mono: "unsent_ok os x \<Longrightarrow> unsent_ok (h @ os) x"
  by (auto simp: unsent_ok_def)

lemma unsent_ok_same:
  "unsent_ok h x \<Longrightarrow> m_send_buffer x' = m_send_buffer x \<Longrightarrow> m_wait_writen x' = m_wait_writen x \<Longrightarrow> unsent_ok (h @ os) x'"
  by (auto simp: unsent_ok_def write_len_def)

lemma onRead_buffer:
  "m_send_buffer (snd (onRead decode got x)) = m_send_buffer x" "m_wait_writen (snd (onRead decode got x)) = m_wait_writen x"
  by (auto simp: onRead_def ev_shutdown_def addEvent_read_def Let_def split: option.split prod.split)

lemma onRead_step: "session_step x (fst (onRead decode got x)) (snd (onRead decode got x))"
proof -
  have "\<forall>h. unsent_ok h x \<longrightarrow> unsent_ok (h @ fst (onRead decode got x)) (snd (onRead decode got x))"
    by (simp add: unsent_ok_same onRead_buffer)
  then show ?thesis
    by (simp only: session_step_def)
      (auto simp: session_inv_def failure_reported_append onRead_def ev_shutdown_def addEvent_read_def Let_def split: option.split prod.split)
qed

lemma write_loop_unsent: "write_loop rs x = Some (os, x') \<Longrightarrow> unsent_ok os x'"
proof (induction rs arbitrary: x os)
  case (Cons r rs)
  show ?case
  proof (cases r)
    case (Wrote n)
    with Cons.prems obtain os1 where "write_loop rs (x\<lparr>m_send_buffer := drop n (m_send_buffer x)\<rparr>) = Some (os1, x')"
      and os: "os = Sent (take n (m_send_buffer x)) # os1" by (auto split: if_splits)
    from unsent_ok_mono [OF Cons.IH [OF this(1)], of "[Sent (take n (m_send_buffer x))]"] os show ?thesis by simp
  qed (use Cons.prems in \<open>auto simp: addEvent_write_def unsent_ok_def Let_def split: if_splits prod.splits\<close>)
qed (simp add: unsent_ok_def split: if_splits)

lemma onWrite_unsent:
  assumes "onWrite rs x = Some (os, x')"
  shows "unsent_ok (h @ os) x'"
proof -
  obtain os1 where "write_loop rs (x\<lparr>m_wait_writen := False, write_pending := False\<rparr>) = Some (os1, x')" "set os1 \<subseteq> set os"
    using assms by (force simp: onWrite_def split: if_splits)
  with write_loop_unsent [of rs _ os1 x'] show ?thesis by (auto simp: unsent_ok_def)
qed

lemma write_loop_outcome:
  "write_loop rs x = Some (os, x') \<Longrightarrow> \<not> m_wait_writen x \<Longrightarrow> \<not> write_pending x \<Longrightarrow>
    m_sid x' = m_sid x \<and> failure_reported os \<and> accepted_of os = [] \<and> sent_of os @ m_send_buffer x' = m_send_buffer x \<and> write_pending x' = m_wait_writen x' \<and>
    (if m_wait_writen x' then m_shutdown x' = m_shutdown x \<and> ends os = 0
     else ends os = 0 \<and> m_shutdown x' = m_shutdown x \<or> ends os = 1 \<and> m_shutdown x' \<and> (m_shutdown x \<or> Shutdown_self \<in> set os))"
proof (induction rs arbitrary: x os)
  case (Cons r rs)
  show ?case
  proof (cases r)
    case (Wrote n)
    with Cons.prems obtain os1 where n: "n \<le> length (m_send_buffer x)"
      and rest: "write_loop rs (x\<lparr>m_send_buffer := drop n (m_send_buffer x)\<rparr>) = Some (os1, x')"
      and os: "os = Sent (take n (m_send_buffer x)) # os1"
      by (auto split: if_splits)
    from Cons.IH [OF rest] Cons.prems(2,3) show ?thesis by (auto simp: os)
  qed (use Cons.prems in \<open>auto simp: addEvent_write_def ev_shutdown_def Let_def split: if_splits\<close>)
qed (auto split: if_splits)

lemma onWrite_step:
  assumes "onWrite rs x = Some (os, x')" "m_shutdown x \<longrightarrow> m_wait_writen x"
  shows "session_step x os x'"
proof -
  obtain os1 where loop: "write_loop rs (x\<lparr>m_wait_writen := False, write_pending := False\<rparr>) = Some (os1, x')"
    and os: "os = (if \<not> m_wait_writen x' \<and> m_shutdown x' then os1 @ [Shutdown_self] else os1)"
    using assms(1) by (auto simp: onWrite_def)
  from assms(2) write_loop_outcome [OF loop] onWrite_unsent [OF assms(1)] show ?thesis
    by (auto simp: session_step_def session_inv_def failure_reported_append os split: if_splits)
qed

lemma run_send_step:
  assumes "asyncWrite rs (x\<lparr>m_send_buffer := m_send_buffer x @ resp\<rparr>) = Some (os, x')" "\<not> m_shutdown x"
  shows "session_step x (Accepted resp # os) x'"
proof -
  let ?x = "x\<lparr>m_send_buffer := m_send_buffer x @ resp\<rparr>"
  have "session_step ?x [] ?x" by (simp add: session_step_def)
  with assms onWrite_step [of rs ?x os x'] have "session_step ?x os x'" by (auto simp: asyncWrite_def split: if_splits)
  moreover have "unsent_ok (h @ Accepted resp # os) x'" for h
    using assms onWrite_unsent [of rs ?x os x' "h @ [Accepted resp]"] by (auto simp: asyncWrite_def unsent_ok_def split: if_splits)
  moreover have "session_inv (h @ [Accepted resp]) ?x" if "session_inv h x" for h using that by (auto simp: session_inv_def failure_reported_append split: if_splits)
  ultimately show ?thesis using assms(2) by (fastforce simp: session_step_def)
qed

section \<open>All sessions\<close>

definition history :: "nat \<Rightarrow> 'm ev_server \<Rightarrow> 'm out list" where
  "history i s = map snd (filter (\<lambda>p. fst p = i) (outs s))"

text \<open>The invariant of the server; the sessions of \<open>excused\<close> may be shut down with no task to delete them.\<close>

definition live_ok :: "event_session_id set \<Rightarrow> 'm ev_server \<Rightarrow> nat \<Rightarrow> 'm ev_session \<Rightarrow> bool" where
  "live_ok excused s i x \<longleftrightarrow> m_sessions s (m_sid x) = Some i \<and> session_inv (history i s) x \<and>
     unsent_ok (history i s) x \<and>
     (m_shutdown x \<and> \<not> m_wait_writen x \<longrightarrow> m_sid x \<in> excused \<or> EventShutdownSessionTask (m_sid x) \<in> set (m_event_tasks s))"

definition gone_ok :: "'m ev_server \<Rightarrow> nat \<Rightarrow> bool" where
  "gone_ok s i \<longleftrightarrow> prefix (sent_of (history i s)) (accepted_of (history i s)) \<and> ends (history i s) \<le> 2 \<and> failure_reported (history i s) \<and>
     (accepted_of (history i s) = sent_of (history i s) \<or> Write_failed \<in> set (history i s) \<or>
      length (sent_of (history i s)) + 2 ^ 31 \<le> length (accepted_of (history i s)))"

definition server_inv :: "event_session_id set \<Rightarrow> 'm ev_server \<Rightarrow> bool" where
  "server_inv excused s \<longleftrightarrow>
     (\<forall>sid i. m_sessions s sid = Some i \<longrightarrow> (\<exists>x. object i s = Some x \<and> m_sid x = sid)) \<and>
     (\<forall>i x. object i s = Some x \<longrightarrow> live_ok excused s i x) \<and>
     (\<forall>i j x y. object i s = Some x \<longrightarrow> object j s = Some y \<longrightarrow> m_fd (m_sid x) = m_fd (m_sid y) \<longrightarrow> i = j) \<and>
     (\<forall>i. object i s = None \<longrightarrow> gone_ok s i) \<and> (\<forall>i \<ge> length (objects s). history i s = []) \<and>
     length (closed_fds s) = length (filter (\<lambda>x. x = None) (objects s))"

lemma server_invD:
  assumes "server_inv excused s"
  shows "m_sessions s sid = Some i \<Longrightarrow> \<exists>x. object i s = Some x \<and> m_sid x = sid"
    "object i s = Some x \<Longrightarrow> live_ok excused s i x"
    "object i s = Some x \<Longrightarrow> object j s = Some y \<Longrightarrow> m_fd (m_sid x) = m_fd (m_sid y) \<Longrightarrow> i = j"
    "object i s = None \<Longrightarrow> gone_ok s i" "length (objects s) \<le> i \<Longrightarrow> history i s = []"
    "length (closed_fds s) = length (filter (\<lambda>x. x = None) (objects s))"
  using assms unfolding server_inv_def by blast+

lemma emit_eq:
  "emit i sid os s = s\<lparr>m_event_tasks := m_event_tasks s @ map (\<lambda>_. EventShutdownSessionTask sid) (filter (\<lambda>e. e = Shutdown_self) os),
     outs := outs s @ map (Pair i) os\<rparr>"
  by (induction os arbitrary: s) (auto simp: shutdownSession_def submitTask_def intro!: ev_server.equality)

lemma object_simps:
  "object j (put_object i r s) = (if j = i \<and> i < length (objects s) then Some (snd r) else object j s)"
  "m_sessions (put_object i r s) = m_sessions s" "length (objects (put_object i r s)) = length (objects s)"
  "closed_fds (put_object i r s) = closed_fds s"
  "history j (put_object i r s) = (if j = i then history i s @ fst r else history j s)"
  by (auto simp: put_object_def emit_eq object_def history_def filter_map comp_def)

lemma put_object_tasks:
  "set (m_event_tasks (put_object i r s)) = set (m_event_tasks s) \<union>
    (if Shutdown_self \<in> set (fst r) then {EventShutdownSessionTask (m_sid (snd r))} else {})"
  by (auto simp: put_object_def emit_eq)

lemma filter_None_update:
  "i < length xs \<Longrightarrow> xs ! i = Some x \<Longrightarrow> length (filter (\<lambda>x. x = None) (xs[i := Some y])) = length (filter (\<lambda>x. x = None) xs)"
  "i < length xs \<Longrightarrow> xs ! i = Some x \<Longrightarrow> length (filter (\<lambda>x. x = None) (xs[i := None])) = Suc (length (filter (\<lambda>x. x = None) xs))"
  by (induction xs arbitrary: i) (auto split: nat.splits simp: less_Suc_eq_0_disj)

lemma objects_put: "objects (put_object i r s) = (objects s)[i := Some (snd r)]"
  by (simp add: put_object_def emit_eq)

lemma object_Some: "object i s = Some x \<longleftrightarrow> i < length (objects s) \<and> objects s ! i = Some x"
  by (auto simp: object_def split: if_splits)

lemma server_inv_put:
  assumes inv: "server_inv excused s" and x: "object i s = Some x" and step: "session_step x os x'"
  shows "server_inv excused (put_object i (os, x') s)"
proof -
  have i: "i < length (objects s)" "objects s ! i = Some x" using x by (simp_all add: object_Some)
  have sid: "m_sid x' = m_sid x" using step by (simp add: session_step_def)
  have new: "live_ok excused (put_object i (os, x') s) i x'"
    using server_invD(2) [OF inv x] step i(1) by (auto simp: live_ok_def session_step_def object_simps put_object_tasks)
  have old: "live_ok excused (put_object i (os, x') s) j y" if "j \<noteq> i" "object j s = Some y" for j y
    using server_invD(2) [OF inv that(2)] that(1) by (auto simp: live_ok_def object_simps put_object_tasks)
  have ids: "m_fd (m_sid z) = m_fd (m_sid x')" if "object i (put_object i (os, x') s) = Some z" for z
    using that i by (simp add: object_simps)
  show ?thesis
    unfolding server_inv_def
  proof (intro conjI allI impI)
    show "\<exists>y. object j (put_object i (os, x') s) = Some y \<and> m_sid y = sid'"
      if "m_sessions (put_object i (os, x') s) sid' = Some j" for sid' j
      using server_invD(1) [OF inv, of sid' j] that x i sid by (auto simp: object_simps)
    show "live_ok excused (put_object i (os, x') s) j y" if "object j (put_object i (os, x') s) = Some y" for j y
      using that new old i by (cases "j = i") (auto simp: object_simps)
    show "j = k" if "object j (put_object i (os, x') s) = Some y" "object k (put_object i (os, x') s) = Some z"
      "m_fd (m_sid y) = m_fd (m_sid z)" for j k y z
      using server_invD(3) [OF inv] that x i sid by (auto simp: object_simps split: if_splits)
    show "gone_ok (put_object i (os, x') s) j" if "object j (put_object i (os, x') s) = None" for j
      using server_invD(4) [OF inv, of j] that i x by (auto simp: object_simps gone_ok_def split: if_splits)
    show "history j (put_object i (os, x') s) = []" if "length (objects (put_object i (os, x') s)) \<le> j" for j
      using server_invD(5) [OF inv, of j] that i by (auto simp: object_simps)
    show "length (closed_fds (put_object i (os, x') s)) = length (filter (\<lambda>x. x = None) (objects (put_object i (os, x') s)))"
      using server_invD(6) [OF inv] filter_None_update(1) [OF i, of x'] by (simp add: objects_put object_simps)
  qed
qed

lemma tasks_frame [simp]:
  "object i (s\<lparr>m_event_tasks := ts\<rparr>) = object i s" "history i (s\<lparr>m_event_tasks := ts\<rparr>) = history i s"
  "gone_ok (s\<lparr>m_event_tasks := ts\<rparr>) i = gone_ok s i"
  "object i (s\<lparr>refused_fds := fs\<rparr>) = object i s" "history i (s\<lparr>refused_fds := fs\<rparr>) = history i s"
  "gone_ok (s\<lparr>refused_fds := fs\<rparr>) i = gone_ok s i"
  by (simp_all add: object_def history_def gone_ok_def)

lemma server_inv_submit:
  assumes "server_inv excused s"
  shows "server_inv excused (submitTask t s)"
proof -
  have "live_ok excused (submitTask t s) i x" if "object i s = Some x" for i x
    using server_invD(2) [OF assms that] by (auto simp: live_ok_def submitTask_def)
  then show ?thesis using assms by (simp add: server_inv_def submitTask_def)
qed

lemma server_inv_pop:
  assumes "server_inv {} s" "m_event_tasks s = t # ts"
  shows "server_inv (case t of EventSendTask _ _ \<Rightarrow> {} | EventShutdownSessionTask sid \<Rightarrow> {sid}) (s\<lparr>m_event_tasks := ts\<rparr>)"
proof -
  have "live_ok (case t of EventSendTask _ _ \<Rightarrow> {} | EventShutdownSessionTask sid \<Rightarrow> {sid}) (s\<lparr>m_event_tasks := ts\<rparr>) i x"
    if "object i s = Some x" for i x
    using server_invD(2) [OF assms(1) that] assms(2) by (cases t) (auto simp: live_ok_def)
  then show ?thesis using assms(1) by (simp add: server_inv_def)
qed

lemma server_inv_excused:
  assumes "server_inv {sid} s" "\<forall>i x. m_sessions s sid = Some i \<longrightarrow> object i s = Some x \<longrightarrow> m_wait_writen x"
  shows "server_inv {} s"
proof -
  have "live_ok {} s i x" if "object i s = Some x" for i x
    using server_invD(2) [OF assms(1) that] assms(2) that by (auto simp: live_ok_def)
  then show ?thesis using assms(1) by (simp add: server_inv_def)
qed

lemma object_append: "object j (s\<lparr>objects := objects s @ [r]\<rparr>) = (if j = length (objects s) then r else object j s)"
  by (auto simp: object_def nth_append)

lemma server_inv_accept:
  assumes inv: "server_inv {} s" and fd: "\<forall>x. Some x \<in> set (objects s) \<longrightarrow> m_fd (m_sid x) \<noteq> fd"
  shows "server_inv {} (onAccept (Some fd) True s)"
proof -
  define seq where "seq = (if m_next_seq s = 2 ^ 31 - 1 then 0 else m_next_seq s) + 1"
  let ?sid = "EventSessionID fd seq" let ?i = "length (objects s)" let ?x = "addEvent_read (new_EventSession ?sid) :: 'a ev_session"
  have fresh: "m_fd (m_sid x) \<noteq> fd" if "object j s = Some x" for j x
    using that fd nth_mem [of j "objects s"] by (auto simp: object_Some)
  have none: "m_sessions s ?sid = None"
  proof (rule ccontr)
    assume "m_sessions s ?sid \<noteq> None"
    then obtain j x where "object j s = Some x" "m_sid x = ?sid" using server_invD(1) [OF inv, of ?sid] by blast
    with fresh [of j x] show False by simp
  qed
  have eq: "onAccept (Some fd) True s = s\<lparr>m_next_seq := seq, objects := objects s @ [Some ?x], m_sessions := (m_sessions s)(?sid \<mapsto> ?i)\<rparr>"
    using none by (simp add: onAccept_def createSession_def Let_def seq_def)
  have obj: "object j (onAccept (Some fd) True s) = (if j = ?i then Some ?x else object j s)" for j
    unfolding eq by (auto simp: object_def nth_append)
  have hist: "history j (onAccept (Some fd) True s) = history j s" for j by (simp add: eq history_def)
  have frame: "m_sessions (onAccept (Some fd) True s) = (m_sessions s)(?sid \<mapsto> ?i)"
    "m_event_tasks (onAccept (Some fd) True s) = m_event_tasks s" by (simp_all add: eq)
  have x: "m_sid ?x = ?sid" "session_inv [] ?x" "unsent_ok [] ?x" "\<not> m_shutdown ?x"
    by (simp_all add: addEvent_read_def new_EventSession_def session_inv_def unsent_ok_def write_len_def)
  show ?thesis
    unfolding server_inv_def obj hist
  proof (intro conjI allI impI)
    show "\<exists>y. (if j = ?i then Some ?x else object j s) = Some y \<and> m_sid y = sid'"
      if "m_sessions (onAccept (Some fd) True s) sid' = Some j" for sid' j
      using that server_invD(1) [OF inv, of sid' j] x by (auto simp: eq object_Some split: if_splits)
    show "live_ok {} (onAccept (Some fd) True s) j y" if "(if j = ?i then Some ?x else object j s) = Some y" for j y
      using that server_invD(2) [OF inv, of j y] server_invD(5) [OF inv, of ?i] x fresh [of j y]
      by (auto simp: live_ok_def hist frame object_Some split: if_splits)
    show "j = k" if "(if j = ?i then Some ?x else object j s) = Some y" "(if k = ?i then Some ?x else object k s) = Some z"
      "m_fd (m_sid y) = m_fd (m_sid z)" for j k y z
      using that server_invD(3) [OF inv, of j y k z] x fresh [of j y] fresh [of k z] by (auto split: if_splits)
    show "gone_ok (onAccept (Some fd) True s) j" if "(if j = ?i then Some ?x else object j s) = None" for j
      using that server_invD(4) [OF inv, of j] by (auto simp: gone_ok_def hist split: if_splits)
    show "history j s = []" if "length (objects (onAccept (Some fd) True s)) \<le> j" for j
      using that server_invD(5) [OF inv, of j] by (simp add: eq)
    show "length (closed_fds (onAccept (Some fd) True s)) = length (filter (\<lambda>x. x = None) (objects (onAccept (Some fd) True s)))"
      using server_invD(6) [OF inv] by (simp add: eq)
  qed
qed

lemma server_inv_refuse: "server_inv {} s \<Longrightarrow> server_inv {} (onAccept (Some fd) False s)"
  by (simp add: onAccept_def server_inv_def live_ok_def)

text \<open>A session that is deleted while it does not wait has sent all it accepted, with the exceptions of \<open>unsent_ok\<close>.\<close>

lemma gone_session: "session_inv (history i s) x \<Longrightarrow> unsent_ok (history i s) x \<Longrightarrow> \<not> m_wait_writen x \<Longrightarrow> gone_ok s i"
  using write_len_le0 [of x] by (auto simp: session_inv_def unsent_ok_def gone_ok_def split: if_splits)

lemma server_inv_delete:
  assumes inv: "server_inv {sid} s" and i: "m_sessions s sid = Some i" "object i s = Some x" and wait: "\<not> m_wait_writen x"
  shows "server_inv {} (delete_session i x1 (eraseSession sid s))"
proof -
  let ?s = "delete_session i x1 (eraseSession sid s)"
  have len: "i < length (objects s)" "objects s ! i = Some x" using i(2) by (simp_all add: object_Some)
  have sid: "m_sid x = sid" using server_invD(1) [OF inv i(1)] i(2) by auto
  have obj: "object j ?s = (if j = i then None else object j s)" for j
    using len by (auto simp: delete_session_def eraseSession_def object_def)
  have frame: "history j ?s = history j s" "m_sessions ?s = (m_sessions s)(sid := None)" "m_event_tasks ?s = m_event_tasks s" for j
    by (simp_all add: delete_session_def eraseSession_def history_def)
  have other: "m_sid y \<noteq> sid" if "object j s = Some y" "j \<noteq> i" for j y
    using server_invD(2) [OF inv that(1)] that(2) i(1) by (auto simp: live_ok_def)
  have gone: "gone_ok s i" using server_invD(2) [OF inv i(2)] wait by (auto simp: live_ok_def intro: gone_session)
  show ?thesis
    unfolding server_inv_def obj
  proof (intro conjI allI impI)
    show "\<exists>y. (if j = i then None else object j s) = Some y \<and> m_sid y = sid'" if "m_sessions ?s sid' = Some j" for sid' j
      using that server_invD(1) [OF inv, of sid' j] sid i by (auto simp: frame split: if_splits)
    show "live_ok {} ?s j y" if "(if j = i then None else object j s) = Some y" for j y
      using that server_invD(2) [OF inv, of j y] other [of j y] by (auto simp: live_ok_def frame split: if_splits)
    show "j = k" if "(if j = i then None else object j s) = Some y" "(if k = i then None else object k s) = Some z"
      "m_fd (m_sid y) = m_fd (m_sid z)" for j k y z
      using that server_invD(3) [OF inv, of j y k z] by (auto split: if_splits)
    show "gone_ok ?s j" if "(if j = i then None else object j s) = None" for j
      using that gone server_invD(4) [OF inv, of j] by (auto simp: gone_ok_def frame split: if_splits)
    show "history j ?s = []" if "length (objects ?s) \<le> j" for j
      using that server_invD(5) [OF inv, of j] by (simp add: frame) (simp add: delete_session_def eraseSession_def)
    show "length (closed_fds ?s) = length (filter (\<lambda>x. x = None) (objects ?s))"
      using server_invD(6) [OF inv] filter_None_update(2) [OF len] by (simp add: delete_session_def eraseSession_def)
  qed
qed

lemma server_inv_run_shutdown:
  assumes inv: "server_inv {sid} s"
  shows "\<exists>s'. run_shutdown sid s = Inr s' \<and> server_inv {} s'"
proof (cases "m_sessions s sid")
  case None
  then show ?thesis using server_inv_excused [OF inv] by (simp add: run_shutdown_def findSession_def)
next
  case (Some i)
  then obtain x where x: "object i s = Some x" "m_sid x = sid" using server_invD(1) [OF inv] by blast
  show ?thesis
  proof (cases "m_wait_writen x")
    case True
    let ?x = "x\<lparr>m_shutdown := True\<rparr>"
    have "session_step x [] ?x" using True by (auto simp: session_step_def session_inv_def unsent_ok_def)
    from server_inv_put [OF inv x(1) this] have "server_inv {sid} (put_object i ([], ?x) s)" .
    then have "server_inv {} (put_object i ([], ?x) s)"
      using Some x True by (intro server_inv_excused) (auto simp: object_simps object_Some)
    then show ?thesis using Some x True by (simp add: run_shutdown_def findSession_def ev_release_def Let_def)
  next
    case False
    then show ?thesis using Some x server_inv_delete [OF inv Some x(1) False]
      by (simp add: run_shutdown_def findSession_def ev_release_def Let_def)
  qed
qed

lemma server_inv_run_send:
  assumes inv: "server_inv {} s"
  shows "run_send sid resp rs s = Inl No_such_run \<or> (\<exists>s'. run_send sid resp rs s = Inr s' \<and> server_inv {} s')"
proof (cases "m_sessions s sid")
  case (Some i)
  then obtain x where x: "object i s = Some x" "m_sid x = sid" using server_invD(1) [OF inv] by blast
  have "server_inv {} (put_object i (Accepted resp # os, x') s)"
    if "\<not> m_shutdown x" "asyncWrite rs (x\<lparr>m_send_buffer := m_send_buffer x @ resp\<rparr>) = Some (os, x')" for os x'
    by (rule server_inv_put [OF inv x(1) run_send_step [OF that(2,1)]])
  then show ?thesis using Some x inv
    by (auto simp: run_send_def findSession_def appendResponse_def split: option.split)
qed (use inv in \<open>auto simp: run_send_def findSession_def\<close>)

lemma server_inv_task:
  assumes "server_inv {} s" "m_event_tasks s = t # ts"
  shows "run_task t rs (s\<lparr>m_event_tasks := ts\<rparr>) = Inl No_such_run \<or>
    (\<exists>s'. run_task t rs (s\<lparr>m_event_tasks := ts\<rparr>) = Inr s' \<and> server_inv {} s')"
proof (cases t)
  case (EventSendTask sid resp)
  then show ?thesis using server_inv_pop [OF assms] server_inv_run_send [of "s\<lparr>m_event_tasks := ts\<rparr>" sid resp rs] by simp
next
  case (EventShutdownSessionTask sid)
  then show ?thesis using server_inv_pop [OF assms] server_inv_run_shutdown [of sid "s\<lparr>m_event_tasks := ts\<rparr>"] by simp
qed

lemma server_inv_step: "ev_step decode s s' \<Longrightarrow> server_inv {} s \<Longrightarrow> server_inv {} s'"
proof (induction rule: ev_step.induct)
  case (accept s fd nonblocking)
  then show ?case by (cases nonblocking) (simp_all add: server_inv_accept server_inv_refuse)
next
  case (writable i s x rs r)
  have "write_pending x = m_wait_writen x" using server_invD(2) [OF writable.prems writable.hyps(1)]
    by (simp add: live_ok_def session_inv_def)
  then have "session_step x (fst r) (snd r)" using writable.hyps(2,3) onWrite_step [of rs x "fst r" "snd r"] by simp
  from server_inv_put [OF writable.prems writable.hyps(1) this] show ?case by simp
next
  case (readable i s x got)
  from server_inv_put [OF readable.prems readable.hyps(1) onRead_step [of x decode got]] show ?case by simp
next
  case (task s t ts rs s')
  from server_inv_task [OF task.prems task.hyps(1), of rs] task.hyps(2) show ?case by auto
qed (simp_all add: server_inv_submit sendResponse_def shutdownSession_def)

lemma ev_reachable_inv: "ev_reachable decode s \<Longrightarrow> server_inv {} s"
  unfolding ev_reachable_def
proof (induction rule: rtranclp_induct)
  case base
  show ?case by (simp add: server_inv_def new_EventServer_def object_def gone_ok_def history_def)
next
  case (step s s')
  then show ?case by (simp add: server_inv_step)
qed

section \<open>Properties\<close>

definition deleted_sessions :: "'m ev_server \<Rightarrow> nat" where
  "deleted_sessions s = length (filter (\<lambda>x. x = None) (objects s))"

definition next_task_runs :: "write_result list \<Rightarrow> 'm ev_server \<Rightarrow> bool" where
  "next_task_runs rs s \<longleftrightarrow> (case m_event_tasks s of
       [] \<Rightarrow> True
     | t # ts \<Rightarrow> run_task t rs (s\<lparr>m_event_tasks := ts\<rparr>) \<noteq> Inl Use_after_delete)"

lemma live_session:
  assumes "ev_reachable decode s" "object i s = Some x"
  shows "findSession (m_sid x) s = Some i \<and> accepted_of (history i s) = sent_of (history i s) @ m_send_buffer x \<and>
    (m_shutdown x \<longrightarrow> m_wait_writen x \<or> EventShutdownSessionTask (m_sid x) \<in> set (m_event_tasks s)) \<and>
    (\<not> m_shutdown x \<longrightarrow> ends (history i s) = 0) \<and>
    (m_send_buffer x = [] \<or> m_wait_writen x \<or> Write_failed \<in> set (history i s) \<or> 2 ^ 31 \<le> length (m_send_buffer x))"
  using server_invD(2) [OF ev_reachable_inv [OF assms(1)] assms(2)] write_len_le0 [of x]
  by (auto simp: live_ok_def session_inv_def unsent_ok_def findSession_def)

lemma deleted_session:
  assumes "ev_reachable decode s" "object i s = None"
  shows "accepted_of (history i s) = sent_of (history i s) \<or> Write_failed \<in> set (history i s) \<or>
    length (sent_of (history i s)) + 2 ^ 31 \<le> length (accepted_of (history i s))"
  using server_invD(4) [OF ev_reachable_inv [OF assms(1)] assms(2)] by (simp add: gone_ok_def)

lemma any_session: 
  assumes "ev_reachable decode s"
  shows "prefix (sent_of (history i s)) (accepted_of (history i s)) \<and> ends (history i s) \<le> 2 \<and> failure_reported (history i s)"
proof (cases "object i s")
  case None
  then show ?thesis using server_invD(4) [OF ev_reachable_inv [OF assms]] by (simp add: gone_ok_def)
next
  case (Some x)
  then show ?thesis using server_invD(2) [OF ev_reachable_inv [OF assms] Some]
    by (auto simp: live_ok_def session_inv_def split: if_splits)
qed

lemma next_task:
  assumes "ev_reachable decode s"
  shows "next_task_runs rs s"
proof (cases "m_event_tasks s")
  case (Cons t ts)
  from server_inv_task [OF ev_reachable_inv [OF assms] Cons, of rs] show ?thesis
    by (auto simp: next_task_runs_def Cons)
qed (simp add: next_task_runs_def)

text \<open>
  C39. In every reachable state of the event server the map of sessions finds each live session, and each byte a send task
  accepted for it was sent, in order, or is in its buffer; bytes stay in the buffer only while the session waits to write, after a write
  failed, or when there are \<open>2\<^sup>31\<close> or more, which \<open>onWrite\<close> takes for none.  A session that is deleted has sent all bytes
  accepted for it, with the last two exceptions only.  A session that is shut down either waits for its write event or
  has a task queued that will delete it, so none leaks; one that is not shut down has not been reported as closed or timed
  out.  For every session, deleted or not, the bytes sent are a prefix of those accepted, at most two ends were
  reported, and a failed write was reported.  No task uses a deleted session, and each deletion closes one socket.
\<close>

theorem event_sessions:
  assumes "ev_reachable decode s"
  shows "(\<forall>i x. object i s = Some x \<longrightarrow>
      findSession (m_sid x) s = Some i \<and> accepted_of (history i s) = sent_of (history i s) @ m_send_buffer x \<and>
      (m_shutdown x \<longrightarrow> m_wait_writen x \<or> EventShutdownSessionTask (m_sid x) \<in> set (m_event_tasks s)) \<and>
      (\<not> m_shutdown x \<longrightarrow> ends (history i s) = 0) \<and>
      (m_send_buffer x = [] \<or> m_wait_writen x \<or> Write_failed \<in> set (history i s) \<or> 2 ^ 31 \<le> length (m_send_buffer x))) \<and>
    (\<forall>i. object i s = None \<longrightarrow> accepted_of (history i s) = sent_of (history i s) \<or> Write_failed \<in> set (history i s) \<or>
      length (sent_of (history i s)) + 2 ^ 31 \<le> length (accepted_of (history i s))) \<and>
    (\<forall>i. prefix (sent_of (history i s)) (accepted_of (history i s)) \<and> ends (history i s) \<le> 2 \<and> failure_reported (history i s)) \<and>
    next_task_runs rs s \<and> length (closed_fds s) = deleted_sessions s"
  using live_session [OF assms] deleted_session [OF assms] any_session [OF assms] next_task [OF assms] server_invD(6) [OF ev_reachable_inv [OF assms]]
  by (simp add: deleted_sessions_def)

text \<open>
  A run for the examples: a session waits to write two bytes, reads the end of the stream, and its first task to delete it
  does not; then the peer is gone.
\<close>

definition waiting_session :: "unit ev_server" where
  "waiting_session = \<lparr>m_next_seq = 1, m_sessions = [EventSessionID 5 1 \<mapsto> 0],
     objects = [Some \<lparr>m_shutdown = True, m_wait_writen = True, m_sid = EventSessionID 5 1, m_received_buffer = [],
       m_send_buffer = [8], m_msg_queue = [], read_pending = False, write_pending = True\<rparr>],
     m_event_tasks = [], outs = [(0, Accepted [7, 8]), (0, Sent [7]), (0, Report Close), (0, Shutdown_self)], closed_fds = [], refused_fds = []\<rparr>"

definition keep_all :: "byte list \<Rightarrow> int \<times> unit list \<times> byte list" where
  "keep_all bs = (0, [], bs)"

lemmas ev_run = run_send_def run_shutdown_def findSession_def object_def appendResponse_def asyncWrite_def onWrite_def
  addEvent_read_def addEvent_write_def put_object_def ev_release_def ev_shutdown_def onRead_def shutdownSession_def
  sendResponse_def submitTask_def delete_session_def eraseSession_def onAccept_def createSession_def new_EventSession_def

lemma waiting_session_reached: "ev_reachable keep_all waiting_session"
proof -
  let ?sid = "EventSessionID 5 1"
  let ?s1 = "onAccept (Some 5) True (new_EventServer :: unit ev_server)"
  let ?s2 = "sendResponse ?sid [7, 8] ?s1"
  let ?s3 = "\<lparr>m_next_seq = 1, m_sessions = [?sid \<mapsto> 0],
     objects = [Some \<lparr>m_shutdown = False, m_wait_writen = True, m_sid = ?sid, m_received_buffer = [],
       m_send_buffer = [8], m_msg_queue = [], read_pending = True, write_pending = True\<rparr>],
     m_event_tasks = [], outs = [(0, Accepted [7, 8]), (0, Sent [7])], closed_fds = [], refused_fds = []\<rparr> :: unit ev_server"
  let ?s4 = "put_object 0 (onRead keep_all (Some []) (the (objects ?s3 ! 0))) ?s3"
  have "ev_step keep_all new_EventServer ?s1" by (rule ev_step.accept) (simp add: new_EventServer_def)
  moreover have "ev_step keep_all ?s1 ?s2" by (rule ev_step.send)
  moreover have "ev_step keep_all ?s2 ?s3"
    by (rule ev_step.task [where t = "EventSendTask ?sid [7, 8]" and ts = "[]" and rs = "[Wrote 1, Again]"])
      (simp_all add: ev_run new_EventServer_def Let_def write_len_small)
  moreover have "ev_step keep_all ?s3 ?s4" by (rule ev_step.readable) (simp_all add: object_def)
  moreover have "ev_step keep_all ?s4 waiting_session"
    by (rule ev_step.task [where t = "EventShutdownSessionTask ?sid" and ts = "[]" and rs = "[]"])
      (simp_all add: ev_run waiting_session_def Let_def)
  ultimately show ?thesis unfolding ev_reachable_def by (meson converse_rtranclp_into_rtranclp rtranclp.rtrancl_refl)
qed

text \<open>The peer is gone: the handler is told a second time.\<close>

definition closed_twice :: "unit ev_server" where
  "closed_twice = put_object 0 ([Write_failed, Report Close, Shutdown_self],
     (the (objects waiting_session ! 0))\<lparr>m_wait_writen := False, write_pending := False\<rparr>) waiting_session"

lemma closed_twice_reached: "ev_reachable keep_all closed_twice"
proof -
  have "ev_step keep_all waiting_session closed_twice"
    unfolding closed_twice_def
    by (rule ev_step.writable [where rs = "[Broken]" and x = "the (objects waiting_session ! 0)"]) (simp_all add: object_def waiting_session_def onWrite_def ev_shutdown_def
        write_len_small)
  with waiting_session_reached show ?thesis unfolding ev_reachable_def by (rule rtranclp.rtrancl_into_rtrancl)
qed

theorem event_sessions_witness:
  "accepted_of (history 0 closed_twice) = [7, 8] \<and> sent_of (history 0 closed_twice) = [7] \<and> ends (history 0 closed_twice) = 2 \<and>
   next_task_runs [] closed_twice \<and> length (closed_fds closed_twice) = deleted_sessions closed_twice"
  using event_sessions [OF closed_twice_reached, of "[]"]
  by (simp add: history_def closed_twice_def put_object_def shutdownSession_def submitTask_def waiting_session_def)

text \<open>
  In every reachable state the task to shut a session down that \<open>findSession\<close> finds meets a live session and
  returns without a call of the handler, so a session the server shuts down is never reported as closed.  If the session waits for its write event it
  stays in the map, shut down, and ignores all further reads, ends and timeouts; otherwise it is deleted, its socket is closed, and
  its number is not found any more.
\<close>

lemma event_shutdown:
  assumes "ev_reachable decode s" "findSession sid s = Some i"
  shows "\<exists>x s'. object i s = Some x \<and> m_sid x = sid \<and> run_shutdown sid s = Inr s' \<and> outs s' = outs s \<and>
    (if m_wait_writen x
     then object i s' = Some (x\<lparr>m_shutdown := True\<rparr>) \<and> findSession sid s' = Some i \<and>
       fst (onRead decode got (x\<lparr>m_shutdown := True\<rparr>)) = [] \<and> closed_fds s' = closed_fds s
     else object i s' = None \<and> findSession sid s' = None \<and> closed_fds s' = closed_fds s @ [m_fd sid])"
proof -
  obtain x where x: "object i s = Some x" "m_sid x = sid"
    using server_invD(1) [OF ev_reachable_inv [OF assms(1)]] assms(2) by (auto simp: findSession_def)
  then show ?thesis using assms(2)
    by (auto simp: run_shutdown_def ev_release_def Let_def findSession_def put_object_def object_def onRead_def
      delete_session_def eraseSession_def split: if_splits)
qed

theorem event_shutdown_witness:
  "\<exists>x s'. object 0 waiting_session = Some x \<and> m_sid x = EventSessionID 5 1 \<and>
    run_shutdown (EventSessionID 5 1) waiting_session = Inr s' \<and> findSession (EventSessionID 5 1) s' = Some 0"
  using event_shutdown [OF waiting_session_reached, of "EventSessionID 5 1" 0 None]
  by (auto simp: findSession_def waiting_session_def object_def)

end
