(* ===== verification/Stream_Codec.thy ===== *)
theory Stream_Codec
  imports Byte_Buf Memory_Text
begin

text \<open>
  The messages of \<open>network/stream_server\<close>: \<open>CallbackUtility.cpp\<close>, over the class \<open>ByteBuffer\<close> of \<open>ByteBuffer.h\<close>, which is
  that of \<^typ>\<open>byte_buf\<close> except that \<open>shrinkToFit\<close> also clears the vector of a buffer read to its end.  A message is its number and its
  body; its frame holds the length of the whole, the number and the body.
\<close>

section \<open>The buffer\<close>

definition buffer_shrinkToFit :: "byte_buf \<Rightarrow> bb_error + byte_buf" where
  "buffer_shrinkToFit b =
     (if m_rpos b = 0 then Inr b
      else res_bind (byteSize b) (\<lambda>len.
        if len = 0 then Inr (b\<lparr>m_rpos := 0, m_wpos := 0, m_storage := []\<rparr>)
        else
          (let st = take len (drop (m_rpos b) (m_storage b)) @ drop len (m_storage b)
           in Inr (b\<lparr>m_rpos := 0, m_wpos := len, m_storage := take len st\<rparr>))))"

text \<open>Unlike the original, it keeps the end of the vector at the write position, so strings can be read back.\<close>

lemma buffer_shrink_contents:
  assumes "bb_inv b" "tight b"
  shows "\<exists>b'. buffer_shrinkToFit b = Inr b' \<and> bb_inv b' \<and> tight b' \<and> contents b' = contents b"
proof (cases "m_rpos b = 0 \<or> contents b = []")
  case True
  then show ?thesis using assms
    by (auto simp: buffer_shrinkToFit_def byteSize_contents bb_inv_def contents_def tight_def)
next
  case False
  have "\<exists>b'. shrinkToFit b = Inr b' \<and> bb_inv b' \<and> contents b' = contents b \<and> tight b'"
    using shrink_contents [OF assms(1)] assms(2) False by auto
  moreover have "buffer_shrinkToFit b = shrinkToFit b"
    using False assms(1) by (simp add: buffer_shrinkToFit_def shrinkToFit_def byteSize_contents)
  ultimately show ?thesis by auto
qed

section \<open>Decoder and encoder\<close>

type_synonym callback_message = "32 word \<times> byte list"

datatype decode_error = Head_len_error int | Buffer_error bb_error

text \<open>The part of the loop after the length has been accepted: the body takes all that is in the buffer.\<close>

definition decode_body :: "int \<Rightarrow> byte_buf \<Rightarrow> bb_error + callback_message \<times> byte_buf" where
  "decode_body len b =
     res_bind (readSkip 4 b) (\<lambda>b1. res_bind (get_value (\<lambda>_. True) 4 b1) (\<lambda>(msg_id, b2).
       if 0 < len - 8 then res_bind (get_vector b2) (\<lambda>(m_data, b3). Inr ((un_le msg_id, m_data), b3))
       else Inr ((un_le msg_id, []), b2)))"

lemma readSkip_advances: "readSkip n b = Inr b' \<Longrightarrow> m_wpos b' = m_wpos b \<and> m_rpos b' = m_rpos b + n \<and> m_rpos b' \<le> m_wpos b"
  by (auto simp: readSkip_def byteSize_def res_bind_def split: if_splits sum.splits)

lemma get_value_advances: "get_value p n b = Inr (v, b') \<Longrightarrow> m_wpos b' = m_wpos b \<and> m_rpos b' = m_rpos b + n \<and> m_rpos b' \<le> m_wpos b"
  by (auto simp: get_value_def res_bind_eq_Inr dest: readSkip_advances)

lemma get_vector_advances: "get_vector b = Inr (v, b') \<Longrightarrow> m_wpos b' = m_wpos b \<and> m_rpos b \<le> m_rpos b'"
  by (auto simp: get_vector_def res_bind_eq_Inr dest: readSkip_advances split: if_splits)

lemma decode_body_advances:
  assumes "decode_body len b = Inr (m, b')"
  shows "m_wpos b' - m_rpos b' < m_wpos b - m_rpos b"
proof -
  obtain b1 v b2 where b1: "readSkip 4 b = Inr b1" and b2: "get_value (\<lambda>_. True) 4 b1 = Inr (v, b2)"
    and rest: "b' = b2 \<or> (\<exists>d. get_vector b2 = Inr (d, b'))"
    using assms by (auto simp: decode_body_def res_bind_eq_Inr split: if_splits)
  from rest have "m_wpos b' = m_wpos b2 \<and> m_rpos b2 \<le> m_rpos b'" using get_vector_advances by blast
  with readSkip_advances [OF b1] get_value_advances [OF b2] show ?thesis by linarith
qed

text \<open>The exception or normal end, the messages put into \<open>*out\<close> and the buffer.\<close>

function callbackMessageDecoder ::
    "byte_buf \<Rightarrow> callback_message list \<Rightarrow> (decode_error + unit) \<times> callback_message list \<times> byte_buf" where
  "callbackMessageDecoder b out =
     (case byteSize b of
        Inl e \<Rightarrow> (Inl (Buffer_error e), out, b)
      | Inr byte_size \<Rightarrow>
          let buffer_size = sint (of_nat byte_size :: 32 word) in
          if buffer_size < 8 then (Inr (), out, b)
          else (case bb_read 4 b of
              Inl e \<Rightarrow> (Inl (Buffer_error e), out, b)
            | Inr head \<Rightarrow>
                let len = sint (un_le head :: 32 word) in
                if len < 8 then (Inl (Head_len_error len), out, b)
                else if len \<le> buffer_size
                then (case decode_body len b of
                    Inl e \<Rightarrow> (Inl (Buffer_error e), out, b)
                  | Inr (msg, b') \<Rightarrow> callbackMessageDecoder b' (out @ [msg]))
                else (Inr (), out, b)))"
  by pat_completeness auto
termination
  by (relation "measure (\<lambda>(b, _). m_wpos b - m_rpos b)") (auto dest: decode_body_advances)

declare callbackMessageDecoder.simps [simp del]

definition callbackMessageEncoder :: "32 word \<Rightarrow> byte list \<Rightarrow> byte list" where
  "callbackMessageEncoder msg_id data =
     le_bytes 4 (of_nat (8 + length data) :: 32 word) @ le_bytes 4 msg_id @ data"

section \<open>What is decoded\<close>

abbreviation frame :: "callback_message \<Rightarrow> byte list" where
  "frame m \<equiv> callbackMessageEncoder (fst m) (snd m)"

lemma le_bytes_eq_Nil [simp]: "le_bytes n w = [] \<longleftrightarrow> n = 0"
  by (simp add: le_bytes_def)

lemma length_encoder [simp]: "length (callbackMessageEncoder i d) = 8 + length d" "callbackMessageEncoder i d \<noteq> []"
  by (simp_all add: callbackMessageEncoder_def)

lemma sint_below: "n < 2 ^ 31 \<Longrightarrow> sint (of_nat n :: 32 word) = int n"
proof -
  assume n: "n < 2 ^ 31"
  have "uint (of_nat n :: 32 word) = int n" using n by (simp add: unsigned_of_nat take_bit_nat_eq_self)
  moreover have "sint (of_nat n :: 32 word) = signed_take_bit 31 (uint (of_nat n :: 32 word))"
    by (simp add: sint_uint)
  ultimately show ?thesis using n by (simp add: signed_take_bit_int_eq_self)
qed

text \<open>A whole buffer that starts with a frame.\<close>

lemma decode_body_frame:
  assumes "bb_inv b" "tight b" "contents b = frame m @ rest" "8 + length (snd m) < 2 ^ 31"
  shows "\<exists>b'. decode_body (int (8 + length (snd m))) b = Inr ((fst m, if snd m = [] then [] else snd m @ rest), b') \<and>
    bb_inv b' \<and> tight b' \<and> contents b' = (if snd m = [] then rest else [])"
proof -
  have c: "contents b = le_bytes 4 (of_nat (8 + length (snd m)) :: 32 word) @ le_bytes 4 (fst m) @ snd m @ rest"
    using assms(3) by (simp add: callbackMessageEncoder_def)
  then have "4 \<le> length (contents b)" by simp
  from readSkip_contents(2) [OF assms(1) this] obtain b1 where b1: "readSkip 4 b = Inr b1" "bb_inv b1" "tight b1"
    "contents b1 = le_bytes 4 (fst m) @ snd m @ rest" using assms(2) c by auto
  then have "4 \<le> length (contents b1)" by simp
  from readSkip_contents(2) [OF b1(2) this] obtain b2 where b2: "readSkip 4 b1 = Inr b2" "bb_inv b2" "tight b2"
    "contents b2 = snd m @ rest" using b1 by auto
  have v: "get_value (\<lambda>_. True) 4 b1 = Inr (le_bytes 4 (fst m), b2)"
    using b1 b2 by (simp add: get_value_def read_checked_def read_contents res_bind_def)
  have id: "un_le (le_bytes 4 (fst m)) = fst m" by (rule un_le_le_bytes) simp
  show ?thesis
  proof (cases "snd m = []")
    case True
    then show ?thesis using b1 b2 v id by (simp add: decode_body_def res_bind_def)
  next
    case False
    then have ne: "\<not> byteEmpty b2" using tight_inv [OF b2(2,3)] b2(4) by simp
    from readSkip_contents(2) [OF b2(2) order.refl] obtain b3 where
      b3: "readSkip (length (contents b2)) b2 = Inr b3" "bb_inv b3" "tight b3" "contents b3 = []" using b2(3) by auto
    have "take (length (contents b2)) (drop (m_rpos b2) (m_storage b2)) = snd m @ rest"
      using b2 length_contents [OF b2(2)] by (metis contents_def)
    then have "get_vector b2 = Inr (snd m @ rest, b3)"
      using ne b2 b3 by (simp add: get_vector_def bb_data_def byteSize_contents res_bind_def)
    then show ?thesis using False b1 b3 v id by (simp add: decode_body_def res_bind_def)
  qed
qed

text \<open>What the decoder makes of frames: a message with a body takes all that follows it.\<close>

fun absorbed :: "callback_message list \<Rightarrow> byte list \<Rightarrow> callback_message list" where
  "absorbed [] tail = []"
| "absorbed (m # ms) tail =
     (if snd m = [] then m # absorbed ms tail else [(fst m, snd m @ concat (map frame ms) @ tail)])"

definition bodiless :: "callback_message list \<Rightarrow> bool" where
  "bodiless ms \<longleftrightarrow> list_all (\<lambda>m. snd m = []) ms"

text \<open>The beginning of a frame.\<close>

definition partial_frame :: "byte list \<Rightarrow> bool" where
  "partial_frame tail \<longleftrightarrow> (\<exists>m. length (frame m) < 2 ^ 31 \<and> length tail < length (frame m) \<and> tail = take (length tail) (frame m))"

lemma partial_frameI: "length (frame m) < 2 ^ 31 \<Longrightarrow> k < length (frame m) \<Longrightarrow> partial_frame (take k (frame m))"
  unfolding partial_frame_def by (intro exI [of _ m]) (simp add: min_def)

lemma partial_frame_Nil [simp]: "partial_frame []"
  using partial_frameI [of "(0, [])" 0] by simp

lemma decoder_partial:
  assumes "bb_inv b" "contents b = tail" "partial_frame tail"
  shows "callbackMessageDecoder b out = (Inr (), out, b)"
proof -
  obtain m where m: "length (frame m) < 2 ^ 31" "length tail < length (frame m)" "tail = take (length tail) (frame m)"
    using assms(3) by (auto simp: partial_frame_def)
  have n: "byteSize b = Inr (length tail)" "sint (of_nat (length tail) :: 32 word) = int (length tail)"
    using assms m by (simp_all add: byteSize_contents sint_below)
  show ?thesis
  proof (cases "length tail < 8")
    case True
    then show ?thesis using n by (subst callbackMessageDecoder.simps) simp
  next
    case False
    have "take 4 tail = take 4 (take (length tail) (frame m))" using m(3) by (rule arg_cong)
    also have "\<dots> = take 4 (frame m)" using False by (simp only: take_take) simp
    finally have "take 4 tail = take 4 (frame m)" .
    then have "take 4 tail = le_bytes 4 (of_nat (8 + length (snd m)) :: 32 word)"
      by (simp add: callbackMessageEncoder_def)
    moreover have "un_le (le_bytes 4 (of_nat (8 + length (snd m)) :: 32 word)) = (of_nat (8 + length (snd m)) :: 32 word)"
      by (rule un_le_le_bytes) simp
    moreover have "sint (of_nat (8 + length (snd m)) :: 32 word) = int (8 + length (snd m))"
      using m(1) by (intro sint_below) simp
    ultimately show ?thesis using False n m assms(1,2)
      by (subst callbackMessageDecoder.simps) (simp add: read_contents Let_def)
  qed
qed

lemma decoder_frames:
  assumes "bb_inv b" "tight b" "contents b = concat (map frame ms) @ tail" "length (contents b) < 2 ^ 31" "partial_frame tail"
  shows "\<exists>b'. callbackMessageDecoder b out = (Inr (), out @ absorbed ms tail, b') \<and>
    bb_inv b' \<and> tight b' \<and> contents b' = (if bodiless ms then tail else [])"
  using assms
proof (induction ms arbitrary: b out)
  case Nil
  then show ?case using decoder_partial [of b tail out] by (simp add: bodiless_def)
next
  case (Cons m ms)
  let ?rest = "concat (map frame ms) @ tail"
  have len: "8 + length (snd m) < 2 ^ 31" "8 + length (snd m) \<le> length (contents b)" using Cons.prems by auto
  have "contents b = frame m @ ?rest" using Cons.prems by simp
  from decode_body_frame [OF Cons.prems(1,2) this len(1)] obtain b' where
    b': "decode_body (int (8 + length (snd m))) b = Inr ((fst m, if snd m = [] then [] else snd m @ ?rest), b')"
    "bb_inv b'" "tight b'" "contents b' = (if snd m = [] then ?rest else [])" by blast
  have "un_le (le_bytes 4 (of_nat (8 + length (snd m)) :: 32 word)) = (of_nat (8 + length (snd m)) :: 32 word)"
    by (rule un_le_le_bytes) simp
  moreover have "bb_read 4 b = Inr (le_bytes 4 (of_nat (8 + length (snd m)) :: 32 word))"
    using Cons.prems by (simp add: read_contents callbackMessageEncoder_def)
  moreover have "sint (of_nat (8 + length (snd m)) :: 32 word) = int (8 + length (snd m))" using len by (intro sint_below)
  moreover have "byteSize b = Inr (length (contents b))" "sint (of_nat (length (contents b)) :: 32 word) = int (length (contents b))"
    using byteSize_contents [OF Cons.prems(1)] sint_below [OF Cons.prems(4)] .
  ultimately have step: "callbackMessageDecoder b out =
      callbackMessageDecoder b' (out @ [(fst m, if snd m = [] then [] else snd m @ ?rest)])"
    using len b'(1) by (subst callbackMessageDecoder.simps) (simp add: Let_def del: of_nat_add)
  show ?case
  proof (cases "snd m = []")
    case True
    then have "m = (fst m, [])" by (metis prod.collapse)
    with True step b' Cons.IH [of b' "out @ [m]"] Cons.prems show ?thesis by (auto simp: bodiless_def)
  next
    case False
    then show ?thesis using step b' decoder_partial [of b' "[]"] by (simp add: bodiless_def)
  qed
qed

text \<open>Of frames in the buffer, followed by the beginning of another, the decoder returns the messages up to the first with a
  body; that one takes the bytes of all later frames and the beginning too.  So the messages are decoded exactly when nothing follows a
  message with a body.\<close>

lemma callback_decoder_absorbs:
  assumes "bb_inv b" "tight b" "contents b = concat (map frame ms) @ tail" "length (contents b) < 2 ^ 31" "partial_frame tail"
  shows "\<exists>b'. callbackMessageDecoder b [] = (Inr (), absorbed ms tail, b') \<and> contents b' = (if bodiless ms then tail else []) \<and>
    (absorbed ms tail = ms \<and> contents b' = tail \<longleftrightarrow> bodiless ms \<or> bodiless (butlast ms) \<and> tail = [])"
proof -
  have "absorbed ms tail = ms \<longleftrightarrow> bodiless ms \<or> bodiless (butlast ms) \<and> tail = []"
  proof (induction ms)
    case (Cons m ms)
    show ?case
    proof (cases "snd m = []")
      case True
      then show ?thesis using Cons by (auto simp: bodiless_def)
    next
      case False
      have "concat (map frame ms) = [] \<longleftrightarrow> ms = []" by (cases ms) (auto simp: callbackMessageEncoder_def)
      with False show ?thesis by (cases m) (auto simp: bodiless_def)
    qed
  qed (simp add: bodiless_def)
  with decoder_frames [OF assms, of "[]"] show ?thesis by auto
qed

theorem callback_decoder_absorbs_witness:
  "\<exists>b'. callbackMessageDecoder (bb_of_bytes (frame (1, []) @ frame (2, [7]) @ frame (3, [9]) @ [11])) [] =
     (Inr (), [(1, []), (2, 7 # frame (3, [9]) @ [11])], b')"
proof -
  have "take 1 (frame (0, [0, 0, 0])) = [11]" by code_simp
  then have "partial_frame [11]" using partial_frameI [of "(0, [0, 0, 0])" 1] by simp
  then show ?thesis
    using callback_decoder_absorbs [of "bb_of_bytes (frame (1, []) @ frame (2, [7]) @ frame (3, [9]) @ [11])"
        "[(1, []), (2, [7]), (3, [9])]" "[11]"]
    by (auto simp: new_contents)
qed

end
