(* ===== verification/Stream_Server.thy ===== *)
theory Stream_Server
  imports Stream_Codec
begin

text \<open>
  The server of \<open>network/stream_server\<close>: \<open>RWHandler.cpp\<close>, \<open>StreamServer.cpp\<close> and \<open>CallbackServer.cpp\<close>.  One thread runs the
  \<open>io_service\<close>: the completions of reads, writes, timers and accepts, and the functions posted, in their order; other threads send,
  shut down and call \<open>update\<close>.  Handlers are numbered in a list.  A handler keeps all its outstanding reads and writes in the
  order they were started; any of them may complete next.  An operation carries whether its socket was open when it
  was started: it may complete with success, also after the socket was closed, only then.  A write also carries the message it writes.
\<close>

section \<open>State\<close>

datatype closed_type = NORMAL | TIMEOUT | ACTIVITY

record rw_handler =
  m_is_closed :: bool
  m_write_buffer :: "byte list list"
  m_read_buffer :: byte_buf
  write_ops :: "(byte list \<times> bool) list"
  read_ops :: "bool list"
  timer_armed :: bool
  timers_expired :: nat

record server_option =
  m_max_connection :: nat
  m_timeout_seconds :: nat

text \<open>Which of the callbacks of the user are set, and the numbers of the messages with a callback.\<close>

record sync_callbacks =
  m_sync_accept :: bool
  m_sync_timeout :: bool
  m_sync_closed :: bool
  m_sync_received_msg_array :: "32 word list"

datatype posted_task = Post_send nat "byte list" | Post_close nat

datatype sync_call = Sync_accept nat | Sync_timeout nat | Sync_closed nat
  | Sync_received nat callback_message | Cannot_callback nat callback_message

text \<open>The lists \<open>sends\<close>, \<open>written\<close> and \<open>calls\<close> record what was sent, written and called back; \<open>ends\<close> the handlers whose end
  was reported, \<open>arrived\<close> the messages that were.\<close>

record stream_server =
  handlers :: "rw_handler list"
  m_handlers :: "nat list"
  acceptor_open :: bool
  accept_op :: "bool option"
  posted :: "posted_task list"
  m_hdl_accept :: "nat list"
  m_hdl_closed :: "nat list"
  m_hdl_timeout :: "nat list"
  m_received_msg :: "(nat \<times> callback_message list) list"
  phase :: nat
  sends :: "(nat \<times> byte list) list"
  written :: "(nat \<times> byte list) list"
  ends :: "(nat \<times> closed_type) list"
  arrived :: "(nat \<times> callback_message) list"
  calls :: "sync_call list"

text \<open>An event that cannot happen, and an operation on an empty queue or an exception that leaves the \<open>io_service\<close>.\<close>

datatype stream_fault = Not_enabled | Undefined

section \<open>Handlers\<close>

definition upd_handler :: "nat \<Rightarrow> (rw_handler \<Rightarrow> rw_handler) \<Rightarrow> stream_server \<Rightarrow> stream_server" where
  "upd_handler i f s = s\<lparr>handlers := (handlers s)[i := f (handlers s ! i)]\<rparr>"

definition setTimeoutTimer :: "nat \<Rightarrow> rw_handler \<Rightarrow> rw_handler" where
  "setTimeoutTimer seconds h = h\<lparr>timer_armed := True\<rparr>"

text \<open>A timer that has expired already is not cancelled.\<close>

definition timeoutCancel :: "rw_handler \<Rightarrow> rw_handler" where
  "timeoutCancel h = h\<lparr>timer_armed := False\<rparr>"

definition doRead :: "server_option \<Rightarrow> rw_handler \<Rightarrow> rw_handler" where
  "doRead opt h =
     (let h' = (if 0 < m_timeout_seconds opt then setTimeoutTimer (m_timeout_seconds opt) h else h)
      in h'\<lparr>read_ops := read_ops h' @ [\<not> m_is_closed h']\<rparr>)"

definition doWrite :: "rw_handler \<Rightarrow> rw_handler" where
  "doWrite h = h\<lparr>write_ops := write_ops h @ [(hd (m_write_buffer h), \<not> m_is_closed h)]\<rparr>"

definition sendMessage :: "nat \<Rightarrow> byte list \<Rightarrow> stream_server \<Rightarrow> stream_server" where
  "sendMessage i msg s = s\<lparr>posted := posted s @ [Post_send i msg], sends := sends s @ [(i, msg)]\<rparr>"

text \<open>The function \<open>sendMessage\<close> posts.\<close>

definition send_posted :: "byte list \<Rightarrow> rw_handler \<Rightarrow> rw_handler" where
  "send_posted msg h =
     (let wait_write = m_write_buffer h \<noteq> [];
          h' = h\<lparr>m_write_buffer := m_write_buffer h @ [msg]\<rparr>
      in if wait_write then h' else doWrite h')"

definition shutdown_handler :: "nat \<Rightarrow> stream_server \<Rightarrow> stream_server" where
  "shutdown_handler i s = (if m_is_closed (handlers s ! i) then s else s\<lparr>posted := posted s @ [Post_close i]\<rparr>)"

section \<open>Callbacks of the network thread\<close>

definition asyncAccept :: "nat \<Rightarrow> stream_server \<Rightarrow> stream_server" where
  "asyncAccept hdl s = s\<lparr>m_hdl_accept := m_hdl_accept s @ [hdl]\<rparr>"

definition asyncClosed :: "nat \<Rightarrow> stream_server \<Rightarrow> stream_server" where
  "asyncClosed hdl s = s\<lparr>m_hdl_closed := m_hdl_closed s @ [hdl], ends := ends s @ [(hdl, NORMAL)]\<rparr>"

definition asyncTimeout :: "nat \<Rightarrow> stream_server \<Rightarrow> stream_server" where
  "asyncTimeout hdl s = s\<lparr>m_hdl_timeout := m_hdl_timeout s @ [hdl], ends := ends s @ [(hdl, TIMEOUT)]\<rparr>"

definition asyncReceivedMsg :: "nat \<Rightarrow> callback_message list \<Rightarrow> stream_server \<Rightarrow> stream_server" where
  "asyncReceivedMsg hdl msg_list s =
     s\<lparr>m_received_msg := m_received_msg s @ [(hdl, msg_list)], arrived := arrived s @ map (Pair hdl) msg_list\<rparr>"

definition stopHandler :: "nat \<Rightarrow> stream_server \<Rightarrow> stream_server" where
  "stopHandler hdl s = s\<lparr>m_handlers := filter (\<lambda>i. i \<noteq> hdl) (m_handlers s)\<rparr>"

definition handler_closed :: "nat \<Rightarrow> stream_server \<Rightarrow> stream_server" where
  "handler_closed hdl s = stopHandler hdl (asyncClosed hdl s)"

definition handler_timeout :: "nat \<Rightarrow> stream_server \<Rightarrow> stream_server" where
  "handler_timeout hdl s = stopHandler hdl (asyncTimeout hdl s)"

definition doClosed :: "closed_type \<Rightarrow> nat \<Rightarrow> stream_server \<Rightarrow> stream_server" where
  "doClosed type i s =
     (if m_is_closed (handlers s ! i) then s
      else (let s' = upd_handler i (\<lambda>h. h\<lparr>m_is_closed := True\<rparr>) s
            in case type of NORMAL \<Rightarrow> handler_closed i s' | TIMEOUT \<Rightarrow> handler_timeout i s' | ACTIVITY \<Rightarrow> s'))"

text \<open>The completion of the \<open>k\<close>-th outstanding write; what is on the wire then is the message it was started with.\<close>

definition drop_nth :: "nat \<Rightarrow> 'a list \<Rightarrow> 'a list" where
  "drop_nth k xs = take k xs @ drop (Suc k) xs"

definition doWriteCallback :: "bool \<Rightarrow> nat \<Rightarrow> nat \<Rightarrow> stream_server \<Rightarrow> stream_fault + stream_server" where
  "doWriteCallback ec k i s0 =
     (let msg = fst (write_ops (handlers s0 ! i) ! k);
          s = upd_handler i (\<lambda>h. h\<lparr>write_ops := drop_nth k (write_ops h)\<rparr>) s0 in
      if ec then Inr (doClosed NORMAL i s)
      else (case m_write_buffer (handlers s ! i) of
          [] \<Rightarrow> Inl Undefined
        | m # ms \<Rightarrow>
            let s1 = upd_handler i (\<lambda>h. h\<lparr>m_write_buffer := ms\<rparr>) s\<lparr>written := written s @ [(i, msg)]\<rparr>
            in Inr (if ms \<noteq> [] then upd_handler i doWrite s1 else s1)))"

text \<open>The data of a read, at most 1024 bytes, or the error of it.\<close>

definition doReadCallback :: "server_option \<Rightarrow> byte list option \<Rightarrow> nat \<Rightarrow> nat \<Rightarrow> stream_server \<Rightarrow> stream_fault + stream_server" where
  "doReadCallback opt ec_data k i s0 =
     (let s = upd_handler i (\<lambda>h. timeoutCancel (h\<lparr>read_ops := drop_nth k (read_ops h)\<rparr>)) s0 in
      case ec_data of
        None \<Rightarrow> Inr (doClosed NORMAL i s)
      | Some data \<Rightarrow>
          if data = [] then Inr (upd_handler i (doRead opt) s)
          else (case callbackMessageDecoder (bb_append data (m_read_buffer (handlers s ! i))) [] of
              (Inl e, msg_list, b) \<Rightarrow> Inr (doClosed NORMAL i (upd_handler i (\<lambda>h. h\<lparr>m_read_buffer := b\<rparr>) s))
            | (Inr _, msg_list, b) \<Rightarrow>
                (case buffer_shrinkToFit b of
                   Inl e \<Rightarrow> Inl Undefined
                 | Inr b' \<Rightarrow>
                     Inr (upd_handler i (doRead opt) (upd_handler i (\<lambda>h. h\<lparr>m_read_buffer := b'\<rparr>)
                       (if msg_list \<noteq> [] then asyncReceivedMsg i msg_list s else s))))))"

section \<open>Accepting\<close>

definition accept_start :: "stream_server \<Rightarrow> stream_server" where
  "accept_start s = s\<lparr>accept_op := Some (acceptor_open s)\<rparr>"

definition stopAccept :: "stream_server \<Rightarrow> stream_server" where
  "stopAccept s = s\<lparr>acceptor_open := False\<rparr>"

definition new_RWHandler :: rw_handler where
  "new_RWHandler = \<lparr>m_is_closed = False, m_write_buffer = [], m_read_buffer = bb_new, write_ops = [], read_ops = [],
     timer_armed = False, timers_expired = 0\<rparr>"

text \<open>\<open>None\<close> is the null pointer.\<close>

definition createHandler :: "server_option \<Rightarrow> stream_server \<Rightarrow> nat option \<times> stream_server" where
  "createHandler opt s =
     (if m_max_connection opt \<noteq> 0 \<and> m_max_connection opt \<le> length (m_handlers s) then (None, s)
      else (let i = length (handlers s)
            in (Some i, s\<lparr>handlers := handlers s @ [doRead opt new_RWHandler], m_handlers := m_handlers s @ [i]\<rparr>)))"

definition acceptCallback :: "server_option \<Rightarrow> bool \<Rightarrow> stream_server \<Rightarrow> stream_server" where
  "acceptCallback opt ec s0 =
     (let s = s0\<lparr>accept_op := None\<rparr> in
      if ec then stopAccept s
      else (case createHandler opt s of
          (None, s') \<Rightarrow> accept_start s'
        | (Some i, s') \<Rightarrow> accept_start (asyncAccept i s')))"

section \<open>The thread that calls \<open>update\<close>\<close>

definition syncAccept :: "sync_callbacks \<Rightarrow> stream_server \<Rightarrow> stream_server" where
  "syncAccept cb s = s\<lparr>m_hdl_accept := [], calls := calls s @ (if m_sync_accept cb then map Sync_accept (m_hdl_accept s) else [])\<rparr>"

definition syncTimeout :: "sync_callbacks \<Rightarrow> stream_server \<Rightarrow> stream_server" where
  "syncTimeout cb s = s\<lparr>m_hdl_timeout := [], calls := calls s @ (if m_sync_timeout cb then map Sync_timeout (m_hdl_timeout s) else [])\<rparr>"

definition syncClosed :: "sync_callbacks \<Rightarrow> stream_server \<Rightarrow> stream_server" where
  "syncClosed cb s = s\<lparr>m_hdl_closed := [], calls := calls s @ (if m_sync_closed cb then map Sync_closed (m_hdl_closed s) else [])\<rparr>"

definition msgCallback :: "sync_callbacks \<Rightarrow> nat \<Rightarrow> callback_message \<Rightarrow> sync_call" where
  "msgCallback cb hdl msg =
     (if fst msg \<in> set (m_sync_received_msg_array cb) then Sync_received hdl msg else Cannot_callback hdl msg)"

definition syncReceivedMsg :: "sync_callbacks \<Rightarrow> stream_server \<Rightarrow> stream_server" where
  "syncReceivedMsg cb s =
     s\<lparr>m_received_msg := [],
       calls := calls s @ concat (map (\<lambda>(hdl, msg_list). map (msgCallback cb hdl) msg_list) (m_received_msg s))\<rparr>"

text \<open>The next of the four parts of \<open>update\<close>; between them the network thread may run.\<close>

definition update_phase :: "sync_callbacks \<Rightarrow> stream_server \<Rightarrow> stream_server" where
  "update_phase cb s =
     (let s' = (if phase s = 0 then syncAccept cb s else if phase s = 1 then syncTimeout cb s
                else if phase s = 2 then syncClosed cb s else syncReceivedMsg cb s)
      in s'\<lparr>phase := (phase s + 1) mod 4\<rparr>)"

section \<open>Runs\<close>

definition started_server :: stream_server where
  "started_server = accept_start \<lparr>handlers = [], m_handlers = [], acceptor_open = True, accept_op = None, posted = [],
     m_hdl_accept = [], m_hdl_closed = [], m_hdl_timeout = [], m_received_msg = [], phase = 0, sends = [], written = [],
     ends = [], arrived = [], calls = []\<rparr>"

datatype stream_event = Accept_done bool | Stop_server | Send nat "byte list" | Shutdown nat | Run_posted
  | Write_done bool nat nat | Read_done "byte list option" nat nat | Timer_expires nat | Timer_runs nat | Update_phase

text \<open>A success (the flag is False) needs an operation started on an open socket or acceptor.\<close>

definition completes :: "bool \<Rightarrow> bool option \<Rightarrow> bool" where
  "completes ec op \<longleftrightarrow> (case op of None \<Rightarrow> False | Some open_socket \<Rightarrow> ec \<or> open_socket)"

definition completes_nth :: "bool \<Rightarrow> nat \<Rightarrow> bool list \<Rightarrow> bool" where
  "completes_nth ec k ops \<longleftrightarrow> k < length ops \<and> (ec \<or> ops ! k)"

definition run_posted :: "stream_server \<Rightarrow> stream_fault + stream_server" where
  "run_posted s = (case posted s of
       [] \<Rightarrow> Inl Not_enabled
     | Post_send i msg # ps \<Rightarrow> Inr (upd_handler i (send_posted msg) (s\<lparr>posted := ps\<rparr>))
     | Post_close i # ps \<Rightarrow> Inr (doClosed ACTIVITY i (s\<lparr>posted := ps\<rparr>)))"

fun stream_step :: "server_option \<Rightarrow> sync_callbacks \<Rightarrow> stream_event \<Rightarrow> stream_server \<Rightarrow> stream_fault + stream_server" where
  "stream_step opt cb (Accept_done ec) s =
     (if completes ec (accept_op s) then Inr (acceptCallback opt ec s) else Inl Not_enabled)"
| "stream_step opt cb Stop_server s = Inr (stopAccept s)"
| "stream_step opt cb (Send i msg) s = (if i < length (handlers s) then Inr (sendMessage i msg s) else Inl Not_enabled)"
| "stream_step opt cb (Shutdown i) s = (if i < length (handlers s) then Inr (shutdown_handler i s) else Inl Not_enabled)"
| "stream_step opt cb Run_posted s = run_posted s"
| "stream_step opt cb (Write_done ec k i) s =
     (if i < length (handlers s) \<and> completes_nth ec k (map snd (write_ops (handlers s ! i))) then doWriteCallback ec k i s
      else Inl Not_enabled)"
| "stream_step opt cb (Read_done r k i) s =
     (if i < length (handlers s) \<and> completes_nth (r = None) k (read_ops (handlers s ! i)) \<and>
         (case r of None \<Rightarrow> True | Some data \<Rightarrow> length data \<le> 1024)
      then doReadCallback opt r k i s else Inl Not_enabled)"
| "stream_step opt cb (Timer_expires i) s =
     (if i < length (handlers s) \<and> timer_armed (handlers s ! i)
      then Inr (upd_handler i (\<lambda>h. h\<lparr>timer_armed := False, timers_expired := timers_expired h + 1\<rparr>) s) else Inl Not_enabled)"
| "stream_step opt cb (Timer_runs i) s =
     (if i < length (handlers s) \<and> 0 < timers_expired (handlers s ! i)
      then Inr (doClosed TIMEOUT i (upd_handler i (\<lambda>h. h\<lparr>timers_expired := timers_expired h - 1\<rparr>) s)) else Inl Not_enabled)"
| "stream_step opt cb Update_phase s = Inr (update_phase cb s)"

inductive reachable :: "server_option \<Rightarrow> sync_callbacks \<Rightarrow> stream_server \<Rightarrow> bool" for opt cb where
  started: "reachable opt cb started_server"
| step: "reachable opt cb s \<Longrightarrow> stream_step opt cb e s = Inr s' \<Longrightarrow> reachable opt cb s'"

section \<open>Writing and reading\<close>

definition of_handler :: "nat \<Rightarrow> (nat \<times> 'a) list \<Rightarrow> 'a list" where
  "of_handler i xs = map snd (filter (\<lambda>p. fst p = i) xs)"

fun pending :: "nat \<Rightarrow> posted_task list \<Rightarrow> byte list list" where
  "pending i [] = []"
| "pending i (Post_send j msg # ps) = (if j = i then msg # pending i ps else pending i ps)"
| "pending i (Post_close j # ps) = pending i ps"

lemma of_handler_simps [simp]:
  "of_handler i [] = []" "of_handler i (xs @ ys) = of_handler i xs @ of_handler i ys"
  "of_handler i (p # ps) = (if fst p = i then [snd p] else []) @ of_handler i ps"
  by (simp_all add: of_handler_def)

lemma pending_append [simp]: "pending i (ps @ qs) = pending i ps @ pending i qs"
  by (induction i ps rule: pending.induct) auto

text \<open>A handler by itself: one write, of its first message, is outstanding while there are messages, and one read, unless it is
  closed; there is never a second one.\<close>

definition handler_ok :: "rw_handler \<Rightarrow> bool" where
  "handler_ok h \<longleftrightarrow> (write_ops h = [] \<or> m_write_buffer h \<noteq> [] \<and> map fst (write_ops h) = [hd (m_write_buffer h)]) \<and>
     (m_write_buffer h \<noteq> [] \<longrightarrow> write_ops h = [] \<longrightarrow> m_is_closed h) \<and>
     length (read_ops h) \<le> 1 \<and> (read_ops h = [] \<longrightarrow> m_is_closed h) \<and>
     bb_inv (m_read_buffer h) \<and> tight (m_read_buffer h)"

text \<open>The messages of a handler: written, in its list, or still posted, in the order they were sent.\<close>

definition traffic_ok :: "stream_server \<Rightarrow> bool" where
  "traffic_ok s \<longleftrightarrow>
     (\<forall>i < length (handlers s). handler_ok (handlers s ! i) \<and>
        of_handler i (sends s) = of_handler i (written s) @ m_write_buffer (handlers s ! i) @ pending i (posted s)) \<and>
     (\<forall>i \<ge> length (handlers s). of_handler i (sends s) = [] \<and> of_handler i (written s) = [] \<and> pending i (posted s) = [])"

lemmas end_defs = handler_closed_def handler_timeout_def stopHandler_def asyncClosed_def asyncTimeout_def

lemma upd_handler_nth:
  "handlers (upd_handler i f s) ! j = (if j = i \<and> i < length (handlers s) then f (handlers s ! i) else handlers s ! j)"
  by (cases "i < length (handlers s)") (auto simp: upd_handler_def nth_list_update not_less list_update_beyond)

lemma upd_handler_simps [simp]:
  "length (handlers (upd_handler i f s)) = length (handlers s)"
  "m_handlers (upd_handler i f s) = m_handlers s" "posted (upd_handler i f s) = posted s" "sends (upd_handler i f s) = sends s"
  "written (upd_handler i f s) = written s" "ends (upd_handler i f s) = ends s" "arrived (upd_handler i f s) = arrived s"
  "calls (upd_handler i f s) = calls s" "m_hdl_accept (upd_handler i f s) = m_hdl_accept s"
  "m_hdl_closed (upd_handler i f s) = m_hdl_closed s" "m_hdl_timeout (upd_handler i f s) = m_hdl_timeout s"
  "m_received_msg (upd_handler i f s) = m_received_msg s" "phase (upd_handler i f s) = phase s"
  by (simp_all add: upd_handler_def)

lemma doClosed_simps [simp]:
  "length (handlers (doClosed t i s)) = length (handlers s)" "posted (doClosed t i s) = posted s" "sends (doClosed t i s) = sends s"
  "written (doClosed t i s) = written s" "arrived (doClosed t i s) = arrived s" "calls (doClosed t i s) = calls s"
  "m_hdl_accept (doClosed t i s) = m_hdl_accept s" "m_received_msg (doClosed t i s) = m_received_msg s"
  "phase (doClosed t i s) = phase s"
  by (simp_all add: doClosed_def end_defs Let_def split: closed_type.splits)

lemma doClosed_nth:
  "handlers (doClosed t i s) ! j =
     (if j = i \<and> i < length (handlers s) then (handlers s ! i)\<lparr>m_is_closed := True\<rparr> else handlers s ! j)"
  by (simp add: doClosed_def end_defs Let_def upd_handler_nth split: closed_type.splits)

text \<open>A change of one handler that keeps its messages.\<close>

lemma traffic_upd:
  assumes "traffic_ok s" "i < length (handlers s)" "handler_ok (handlers s ! i) \<Longrightarrow> handler_ok (f (handlers s ! i))"
    "m_write_buffer (f (handlers s ! i)) = m_write_buffer (handlers s ! i)"
  shows "traffic_ok (upd_handler i f s)"
  using assms by (auto simp: traffic_ok_def upd_handler_nth)

lemma traffic_doClosed: "traffic_ok s \<Longrightarrow> traffic_ok (doClosed t i s)"
  by (auto simp: traffic_ok_def doClosed_nth handler_ok_def)

lemma doRead_simps [simp]:
  "m_is_closed (doRead opt h) = m_is_closed h" "m_write_buffer (doRead opt h) = m_write_buffer h" "write_ops (doRead opt h) = write_ops h"
  "m_read_buffer (doRead opt h) = m_read_buffer h" "read_ops (doRead opt h) = read_ops h @ [\<not> m_is_closed h]"
  by (simp_all add: doRead_def setTimeoutTimer_def Let_def)

text \<open>The decoder only moves the read position.\<close>

lemma readSkip_moves: "readSkip n b = Inr b' \<Longrightarrow> \<exists>r \<le> m_wpos b. b' = b\<lparr>m_rpos := r\<rparr>"
  by (auto simp: readSkip_def byteSize_def res_bind_def split: if_splits intro!: exI [of _ "m_rpos b + n"])

lemma decode_body_moves:
  assumes "decode_body len b = Inr (m, b')"
  shows "\<exists>r \<le> m_wpos b. b' = b\<lparr>m_rpos := r\<rparr>"
proof -
  obtain b1 v b2 where b1: "readSkip 4 b = Inr b1" and b2: "get_value (\<lambda>_. True) 4 b1 = Inr (v, b2)"
    and rest: "b' = b2 \<or> (\<exists>d. get_vector b2 = Inr (d, b'))"
    using assms by (auto simp: decode_body_def res_bind_eq_Inr split: if_splits)
  obtain r1 where r1: "r1 \<le> m_wpos b" "b1 = b\<lparr>m_rpos := r1\<rparr>" using readSkip_moves [OF b1] by blast
  have "readSkip 4 b1 = Inr b2" using b2 by (auto simp: get_value_def res_bind_eq_Inr)
  then obtain r2 where r2: "r2 \<le> m_wpos b" "b2 = b\<lparr>m_rpos := r2\<rparr>" using readSkip_moves [of 4 b1 b2] r1 by auto
  have "get_vector b2 = Inr (d, b') \<Longrightarrow> b' = b2 \<or> (\<exists>n. readSkip n b2 = Inr b')" for d
    by (auto simp: get_vector_def res_bind_eq_Inr split: if_splits)
  with rest r2 show ?thesis using readSkip_moves [of _ b2 b'] by fastforce
qed

lemma decoder_moves:
  "callbackMessageDecoder b out = (r, ms, b') \<Longrightarrow> m_rpos b \<le> m_wpos b \<Longrightarrow> \<exists>p \<le> m_wpos b. b' = b\<lparr>m_rpos := p\<rparr>"
proof (induction b out rule: callbackMessageDecoder.induct)
  case (1 b out)
  have same: "\<exists>p \<le> m_wpos b. b = b\<lparr>m_rpos := p\<rparr>" using "1.prems"(2) by (intro exI [of _ "m_rpos b"]) simp
  show ?case
  proof (cases "\<exists>n h m b1. byteSize b = Inr n \<and> \<not> sint (of_nat n :: 32 word) < 8 \<and> bb_read 4 b = Inr h \<and>
      \<not> sint (un_le h :: 32 word) < 8 \<and> sint (un_le h :: 32 word) \<le> sint (of_nat n :: 32 word) \<and>
      decode_body (sint (un_le h :: 32 word)) b = Inr (m, b1)")
    case True
    then obtain n h m b1 where c: "byteSize b = Inr n" "\<not> sint (of_nat n :: 32 word) < 8" "bb_read 4 b = Inr h"
      "\<not> sint (un_le h :: 32 word) < 8" "sint (un_le h :: 32 word) \<le> sint (of_nat n :: 32 word)"
      "decode_body (sint (un_le h :: 32 word)) b = Inr (m, b1)" by blast
    obtain p where p: "p \<le> m_wpos b" "b1 = b\<lparr>m_rpos := p\<rparr>" using decode_body_moves [OF c(6)] by blast
    have "callbackMessageDecoder b1 (out @ [m]) = (r, ms, b')"
      using "1.prems"(1) c by (subst (asm) callbackMessageDecoder.simps) (simp add: Let_def)
    from "1.IH" [OF c(1) refl c(2,3) refl c(4,5,6) refl this] p show ?thesis by auto
  next
    case False
    then have "b' = b"
      using "1.prems"(1)
      by (subst (asm) callbackMessageDecoder.simps) (auto simp: Let_def split: sum.splits if_splits)
    with same show ?thesis by simp
  qed
qed

lemma decoder_inv:
  assumes "callbackMessageDecoder b out = (r, ms, b')" "bb_inv b" "tight b"
  shows "bb_inv b' \<and> tight b'"
  using decoder_moves [OF assms(1)] assms(2,3) by (auto simp: bb_inv_def tight_def)

text \<open>A new value of one handler with the same messages.\<close>

lemma traffic_replace:
  assumes "traffic_ok s" "i < length (handlers s)" "length (handlers s') = length (handlers s)"
    "sends s' = sends s" "written s' = written s" "posted s' = posted s"
    "\<And>j. j \<noteq> i \<Longrightarrow> handlers s' ! j = handlers s ! j" "handler_ok (handlers s' ! i)"
    "m_write_buffer (handlers s' ! i) = m_write_buffer (handlers s ! i)"
  shows "traffic_ok s'"
proof -
  have "handler_ok (handlers s' ! j) \<and>
      of_handler j (sends s') = of_handler j (written s') @ m_write_buffer (handlers s' ! j) @ pending j (posted s')"
    if "j < length (handlers s')" for j
    using assms that by (cases "j = i") (auto simp: traffic_ok_def)
  then show ?thesis using assms by (auto simp: traffic_ok_def)
qed

lemma read_callback_ok:
  assumes "traffic_ok s" "i < length (handlers s)" "k < length (read_ops (handlers s ! i))"
  shows "\<exists>s'. doReadCallback opt r k i s = Inr s' \<and> traffic_ok s'"
proof -
  let ?s = "upd_handler i (\<lambda>h. timeoutCancel (h\<lparr>read_ops := drop_nth k (read_ops h)\<rparr>)) s"
  let ?h = "handlers s ! i"
  have ok: "handler_ok ?h" using assms by (simp add: traffic_ok_def)
  have none: "drop_nth k (read_ops ?h) = []" using ok assms(3) by (simp add: handler_ok_def drop_nth_def)
  note replace = traffic_replace [OF assms(1,2)]
  show ?thesis
  proof (cases r)
    case None
    have "traffic_ok (doClosed NORMAL i ?s)"
      by (rule replace) (use ok none assms(2) in \<open>auto simp: doClosed_nth upd_handler_nth handler_ok_def timeoutCancel_def\<close>)
    then show ?thesis using None by (simp add: doReadCallback_def Let_def)
  next
    case (Some data)
    show ?thesis
    proof (cases "data = []")
      case True
      have "traffic_ok (upd_handler i (doRead opt) ?s)"
        by (rule replace) (use ok none assms(2) in \<open>auto simp: upd_handler_nth timeoutCancel_def handler_ok_def\<close>)
      then show ?thesis using Some True by (simp add: doReadCallback_def Let_def)
    next
      case False
      let ?b = "bb_append data (m_read_buffer ?h)"
      obtain res msgs b where d: "callbackMessageDecoder ?b [] = (res, msgs, b)" by (metis prod_cases3)
      have b: "bb_inv b" "tight b"
        using decoder_inv [OF d] append_contents ok by (auto simp: handler_ok_def)
      obtain b' where b': "buffer_shrinkToFit b = Inr b'" "bb_inv b'" "tight b'"
        using buffer_shrink_contents [OF b] by blast
      have closing: "traffic_ok (doClosed NORMAL i (upd_handler i (\<lambda>h. h\<lparr>m_read_buffer := b\<rparr>) ?s))"
        by (rule replace) (use ok none b assms(2) in \<open>auto simp: doClosed_nth upd_handler_nth handler_ok_def timeoutCancel_def\<close>)
      let ?t = "if msgs \<noteq> [] then asyncReceivedMsg i msgs ?s else ?s"
      have t: "handlers ?t = handlers ?s" "sends ?t = sends ?s" "written ?t = written ?s" "posted ?t = posted ?s"
        by (simp_all add: asyncReceivedMsg_def)
      have "traffic_ok (upd_handler i (doRead opt) (upd_handler i (\<lambda>h. h\<lparr>m_read_buffer := b'\<rparr>) ?t))"
        by (rule replace) (use ok none b' assms(2) in \<open>auto simp: upd_handler_nth t timeoutCancel_def handler_ok_def\<close>)
      then show ?thesis using Some False d b' closing assms(2)
        by (cases res) (auto simp: doReadCallback_def Let_def upd_handler_nth timeoutCancel_def)
    qed
  qed
qed

lemma write_callback_ok:
  assumes "traffic_ok s" "i < length (handlers s)" "k < length (write_ops (handlers s ! i))"
  shows "\<exists>s'. doWriteCallback ec k i s = Inr s' \<and> traffic_ok s'"
proof -
  let ?s = "upd_handler i (\<lambda>h. h\<lparr>write_ops := drop_nth k (write_ops h)\<rparr>) s"
  let ?h = "handlers s ! i"
  have ok: "handler_ok ?h" using assms by (simp add: traffic_ok_def)
  obtain m ms where m: "m_write_buffer ?h = m # ms" and ops: "map fst (write_ops ?h) = [m]"
    using ok assms(3) by (cases "m_write_buffer ?h") (auto simp: handler_ok_def)
  then have k: "drop_nth k (write_ops ?h) = []" "fst (write_ops ?h ! k) = m"
    using assms(3) by (auto simp: drop_nth_def map_eq_Cons_conv)
  show ?thesis
  proof (cases ec)
    case True
    have "traffic_ok (doClosed NORMAL i ?s)"
      by (rule traffic_replace [OF assms(1,2)]) (use ok k assms(2) in \<open>auto simp: doClosed_nth upd_handler_nth handler_ok_def\<close>)
    then show ?thesis using True by (simp add: doWriteCallback_def Let_def)
  next
    case False
    let ?s1 = "upd_handler i (\<lambda>h. h\<lparr>m_write_buffer := ms\<rparr>) ?s\<lparr>written := written ?s @ [(i, m)]\<rparr>"
    let ?s' = "if ms \<noteq> [] then upd_handler i doWrite ?s1 else ?s1"
    have h: "handlers ?s' ! j = (if j = i then ?h\<lparr>write_ops := if ms = [] then [] else [(hd ms, \<not> m_is_closed ?h)], m_write_buffer := ms\<rparr>
        else handlers s ! j)" for j
      using assms(2) k(1) by (auto simp: upd_handler_def doWrite_def nth_list_update)
    have l: "length (handlers ?s') = length (handlers s)" "sends ?s' = sends s" "posted ?s' = posted s" "written ?s' = written s @ [(i, m)]"
      by (simp_all add: upd_handler_def)
    have "traffic_ok ?s'"
      using assms(1,2) ok m unfolding traffic_ok_def h l by (auto simp: handler_ok_def)
    then show ?thesis using False m k(2) assms(2)
      by (cases "ms = []") (simp_all add: doWriteCallback_def Let_def upd_handler_nth)
  qed
qed

lemma run_posted_ok:
  assumes "traffic_ok s" "run_posted s = Inr s'"
  shows "traffic_ok s'"
proof (cases "posted s")
  case Nil
  then show ?thesis using assms(2) by (simp add: run_posted_def)
next
  case (Cons p ps)
  let ?s = "s\<lparr>posted := ps\<rparr>"
  show ?thesis
  proof (cases p)
    case (Post_close i)
    have "traffic_ok ?s" using assms(1) Cons Post_close by (simp add: traffic_ok_def)
    then show ?thesis using assms(2) Cons Post_close by (auto simp: run_posted_def intro: traffic_doClosed)
  next
    case (Post_send i msg)
    have i: "i < length (handlers s)" 
    proof (rule ccontr)
      assume "\<not> i < length (handlers s)"
      then have "pending i (posted s) = []" using assms(1) by (simp add: traffic_ok_def)
      with Cons Post_send show False by simp
    qed
    have s': "s' = upd_handler i (send_posted msg) ?s" using assms(2) Cons Post_send by (simp add: run_posted_def)
    have "handler_ok (handlers s ! i)" using assms(1) i by (simp add: traffic_ok_def)
    then have "handler_ok (send_posted msg (handlers s ! i))"
      "m_write_buffer (send_posted msg (handlers s ! i)) = m_write_buffer (handlers s ! i) @ [msg]"
      by (auto simp: handler_ok_def send_posted_def doWrite_def Let_def)
    then show ?thesis using assms(1) i Cons Post_send unfolding s' traffic_ok_def by (auto simp: upd_handler_nth)
  qed
qed

lemma accept_callback_ok:
  assumes "traffic_ok s"
  shows "traffic_ok (acceptCallback opt ec s)"
proof -
  have new: "handler_ok (doRead opt new_RWHandler)"
    by (auto simp: handler_ok_def new_RWHandler_def new_contents)
  show ?thesis
    using assms new
    by (auto simp: acceptCallback_def createHandler_def stopAccept_def accept_start_def asyncAccept_def Let_def traffic_ok_def
        nth_append less_Suc_eq new_RWHandler_def)
qed

lemma update_phase_ok: "traffic_ok s \<Longrightarrow> traffic_ok (update_phase cb s)"
  by (simp add: update_phase_def syncAccept_def syncTimeout_def syncClosed_def syncReceivedMsg_def Let_def traffic_ok_def)

lemma step_traffic:
  assumes "traffic_ok s" "stream_step opt cb e s = Inr s'"
  shows "traffic_ok s'"
proof (cases e)
  case (Send i msg)
  then show ?thesis using assms by (auto simp: sendMessage_def traffic_ok_def split: if_splits)
next
  case (Shutdown i)
  then show ?thesis using assms by (auto simp: shutdown_handler_def traffic_ok_def split: if_splits)
next
  case (Write_done ec k i)
  then have "i < length (handlers s)" "k < length (write_ops (handlers s ! i))" "doWriteCallback ec k i s = Inr s'"
    using assms(2) by (auto simp: completes_nth_def split: if_splits)
  then show ?thesis using write_callback_ok [OF assms(1), of i k ec] by auto
next
  case (Read_done r k i)
  then have "i < length (handlers s)" "k < length (read_ops (handlers s ! i))" "doReadCallback opt r k i s = Inr s'"
    using assms(2) by (auto simp: completes_nth_def split: if_splits)
  then show ?thesis using read_callback_ok [OF assms(1), of i k opt r] by auto
next
  case (Timer_expires i)
  then show ?thesis using assms by (auto split: if_splits intro!: traffic_upd simp: handler_ok_def)
next
  case (Timer_runs i)
  then show ?thesis using assms by (auto split: if_splits intro!: traffic_upd traffic_doClosed simp: handler_ok_def)
next
  case Run_posted
  then show ?thesis using assms run_posted_ok by simp
next
  case (Accept_done ec)
  then show ?thesis using assms by (auto split: if_splits intro: accept_callback_ok)
next
  case Stop_server
  then show ?thesis using assms by (auto simp: stopAccept_def traffic_ok_def)
next
  case Update_phase
  then show ?thesis using assms(2) update_phase_ok [OF assms(1)] by auto
qed

lemma reachable_traffic: "reachable opt cb s \<Longrightarrow> traffic_ok s"
proof (induction rule: reachable.induct)
  case started
  show ?case by (simp add: traffic_ok_def started_server_def accept_start_def)
next
  case (step s e s')
  then show ?case by (blast intro: step_traffic)
qed

text \<open>No operation on a reachable state is undefined.\<close>

lemma no_undefined:
  assumes "traffic_ok s"
  shows "stream_step opt cb e s \<noteq> Inl Undefined"
proof (cases e)
  case (Write_done ec k i)
  have "doWriteCallback ec k i s \<noteq> Inl Undefined" if "i < length (handlers s)" "completes_nth ec k (map snd (write_ops (handlers s ! i)))"
    using write_callback_ok [OF assms that(1), of k ec] that(2) by (force simp: completes_nth_def)
  then show ?thesis using Write_done by simp
next
  case (Read_done r k i)
  have "doReadCallback opt r k i s \<noteq> Inl Undefined" if "i < length (handlers s)" "completes_nth (r = None) k (read_ops (handlers s ! i))"
    using read_callback_ok [OF assms that(1), of k opt r] that(2) by (force simp: completes_nth_def)
  then show ?thesis using Read_done by simp
next
  case Run_posted
  then show ?thesis by (simp add: run_posted_def split: list.splits posted_task.splits)
qed auto

section \<open>Ends of connections\<close>

text \<open>The table holds the handlers whose end was not reported; a handler's end is reported once, after it was closed.\<close>

definition ends_ok :: "server_option \<Rightarrow> stream_server \<Rightarrow> bool" where
  "ends_ok opt s \<longleftrightarrow>
     distinct (map fst (ends s)) \<and> (\<forall>(i, t) \<in> set (ends s). i < length (handlers s) \<and> m_is_closed (handlers s ! i) \<and> t \<noteq> ACTIVITY) \<and>
     m_handlers s = filter (\<lambda>i. i \<notin> fst ` set (ends s)) [0 ..< length (handlers s)] \<and>
     (m_max_connection opt \<noteq> 0 \<longrightarrow> length (m_handlers s) \<le> m_max_connection opt)"

lemma ends_keep:
  assumes "ends_ok opt s" "ends s' = ends s" "m_handlers s' = m_handlers s" "length (handlers s') = length (handlers s)"
    "\<And>i. i < length (handlers s) \<Longrightarrow> m_is_closed (handlers s ! i) \<Longrightarrow> m_is_closed (handlers s' ! i)"
  shows "ends_ok opt s'"
proof -
  have "i < length (handlers s) \<and> m_is_closed (handlers s' ! i) \<and> t \<noteq> ACTIVITY" if "(i, t) \<in> set (ends s)" for i t
    using assms(1,5) that by (auto simp: ends_ok_def)
  with assms(1-4) show ?thesis by (auto simp: ends_ok_def)
qed

lemma ends_doClosed:
  assumes "ends_ok opt s" "i < length (handlers s)"
  shows "ends_ok opt (doClosed t i s)"
proof (cases "m_is_closed (handlers s ! i) \<or> t = ACTIVITY")
  case True
  then show ?thesis
    by (intro ends_keep [OF assms(1)]) (auto simp: doClosed_def Let_def upd_handler_nth split: closed_type.splits)
next
  case False
  then have new: "i \<notin> fst ` set (ends s)" using assms(1) by (auto simp: ends_ok_def)
  have e: "ends (doClosed t i s) = ends s @ [(i, t)]" "m_handlers (doClosed t i s) = filter (\<lambda>j. j \<noteq> i) (m_handlers s)"
    using False by (auto simp: doClosed_def Let_def end_defs split: closed_type.splits)
  have "filter (\<lambda>j. j \<noteq> i) (filter (\<lambda>i. i \<notin> fst ` set (ends s)) xs) = filter (\<lambda>j. j \<notin> fst ` set (ends s @ [(i, t)])) xs" for xs
    by (auto simp: filter_filter intro!: filter_cong)
  then have m: "m_handlers (doClosed t i s) = filter (\<lambda>j. j \<notin> fst ` set (ends s @ [(i, t)])) [0 ..< length (handlers s)]"
    using assms(1) e(2) by (simp add: ends_ok_def)
  have "length (m_handlers (doClosed t i s)) \<le> length (m_handlers s)" unfolding e(2) by simp
  then have "m_max_connection opt \<noteq> 0 \<longrightarrow> length (m_handlers (doClosed t i s)) \<le> m_max_connection opt"
    using assms(1) by (auto simp: ends_ok_def intro: le_trans)
  moreover have "\<forall>(j, t') \<in> set (ends s @ [(i, t)]). j < length (handlers s) \<and> m_is_closed (handlers (doClosed t i s) ! j) \<and> t' \<noteq> ACTIVITY"
    using assms False by (auto simp: ends_ok_def doClosed_nth)
  moreover have "distinct (map fst (ends s @ [(i, t)]))" using assms(1) new by (auto simp: ends_ok_def)
  ultimately show ?thesis using m e(1) by (simp only: ends_ok_def doClosed_simps)
qed

text \<open>The handler that is closed, if any, and nothing else changes in what the invariant reads.\<close>

lemma ends_upd:
  assumes "ends_ok opt s" "\<And>h. m_is_closed (f h) = m_is_closed h"
  shows "ends_ok opt (upd_handler i f s)"
  using assms(1) by (rule ends_keep) (auto simp: assms(2) upd_handler_nth)

lemma timeoutCancel_closed [simp]: "m_is_closed (timeoutCancel h) = m_is_closed h"
  by (simp add: timeoutCancel_def)

lemma send_posted_closed [simp]: "m_is_closed (send_posted m h) = m_is_closed h"
  by (simp add: send_posted_def doWrite_def Let_def)

lemma ends_receive: "ends_ok opt s \<Longrightarrow> ends_ok opt (asyncReceivedMsg i ms s)"
  by (erule ends_keep) (auto simp: asyncReceivedMsg_def)

lemma ends_read:
  assumes "ends_ok opt s" "i < length (handlers s)" "doReadCallback opt' r k i s = Inr s'"
  shows "ends_ok opt s'"
  using assms
  by (auto simp: doReadCallback_def Let_def split: option.splits if_splits sum.splits prod.splits
      intro!: ends_doClosed ends_upd ends_receive)

lemma ends_write:
  assumes "ends_ok opt s" "i < length (handlers s)" "doWriteCallback ec k i s = Inr s'"
  shows "ends_ok opt s'"
proof -
  have log: "ends_ok opt (t\<lparr>written := w\<rparr>)" if "ends_ok opt t" for t w
    using that by (rule ends_keep) auto
  show ?thesis using assms
    by (auto simp: doWriteCallback_def Let_def doWrite_def split: if_splits list.splits intro!: ends_doClosed ends_upd log)
qed

lemma ends_accept:
  assumes "ends_ok opt s"
  shows "ends_ok opt (acceptCallback opt ec s)"
proof -
  have keep: "ends_ok opt t" if "handlers t = handlers s" "ends t = ends s" "m_handlers t = m_handlers s" for t
    using assms by (rule ends_keep) (use that in auto)
  have new: "ends_ok opt t" if "handlers t = handlers s @ [h]" "ends t = ends s" "m_handlers t = m_handlers s @ [length (handlers s)]"
    "m_max_connection opt = 0 \<or> length (m_handlers s) < m_max_connection opt" for t h
  proof -
    have "length (handlers s) \<notin> fst ` set (ends s)" using assms by (auto simp: ends_ok_def)
    moreover have "m_is_closed ((handlers s @ [h]) ! i)" if "(i, t) \<in> set (ends s)" for i t
      using assms that by (auto simp: ends_ok_def nth_append)
    ultimately show ?thesis using assms that by (auto simp: ends_ok_def)
  qed
  show ?thesis
  proof (cases "ec \<or> m_max_connection opt \<noteq> 0 \<and> m_max_connection opt \<le> length (m_handlers s)")
    case True
    then show ?thesis
      by (auto simp: acceptCallback_def createHandler_def stopAccept_def accept_start_def Let_def intro!: keep)
  next
    case False
    then show ?thesis
      by (intro new [of _ "doRead opt new_RWHandler"])
        (auto simp: acceptCallback_def createHandler_def accept_start_def asyncAccept_def Let_def)
  qed
qed

lemma step_ends:
  assumes "ends_ok opt s" "traffic_ok s" "stream_step opt cb e s = Inr s'"
  shows "ends_ok opt s'"
proof -
  have keep: "ends_ok opt t" if "handlers t = handlers s" "ends t = ends s" "m_handlers t = m_handlers s" for t
    using assms(1) by (rule ends_keep) (use that in auto)
  show ?thesis
  proof (cases e)
    case Run_posted
    show ?thesis
    proof (cases "posted s")
      case (Cons p ps)
      have t: "ends_ok opt (s\<lparr>posted := ps\<rparr>)" by (rule keep) auto
      show ?thesis
      proof (cases p)
        case (Post_send i msg)
        then show ?thesis using assms(3) Run_posted Cons t
          by (auto simp: run_posted_def intro!: ends_upd)
      next
        case (Post_close i)
        show ?thesis
        proof (cases "i < length (handlers s)")
          case True
          then show ?thesis using assms(3) Run_posted Cons Post_close t by (auto simp: run_posted_def intro!: ends_doClosed)
        next
          case False
          then show ?thesis using assms(3) Run_posted Cons Post_close t
            by (auto simp: run_posted_def doClosed_def Let_def upd_handler_nth intro!: ends_keep [OF assms(1)])
        qed
      qed
    qed (use assms(3) Run_posted in \<open>simp add: run_posted_def\<close>)
  next
    case (Write_done ec k i)
    then show ?thesis using assms(1,3) by (auto split: if_splits intro: ends_write)
  next
    case (Read_done r k i)
    then show ?thesis using assms(1,3) by (auto split: if_splits intro: ends_read)
  next
    case (Accept_done ec)
    then show ?thesis using assms(1,3) by (auto split: if_splits intro: ends_accept)
  next
    case (Timer_expires i)
    then show ?thesis using assms(1,3) by (auto split: if_splits intro!: ends_upd)
  next
    case (Timer_runs i)
    then show ?thesis using assms(1,3) by (auto split: if_splits intro!: ends_upd ends_doClosed)
  qed (use assms(3) in \<open>auto simp: sendMessage_def shutdown_handler_def stopAccept_def update_phase_def syncAccept_def
      syncTimeout_def syncClosed_def syncReceivedMsg_def Let_def split: if_splits intro!: keep assms(1)\<close>)
qed

lemma reachable_ends: "reachable opt cb s \<Longrightarrow> ends_ok opt s"
proof (induction rule: reachable.induct)
  case started
  show ?case by (simp add: ends_ok_def started_server_def accept_start_def)
next
  case (step s e s')
  then show ?case using step_ends reachable_traffic by blast
qed

section \<open>Callbacks of the user\<close>

fun accept_calls :: "sync_call list \<Rightarrow> nat list" where
  "accept_calls [] = []"
| "accept_calls (c # cs) = (case c of Sync_accept i \<Rightarrow> i # accept_calls cs | _ \<Rightarrow> accept_calls cs)"

fun timeout_calls :: "sync_call list \<Rightarrow> nat list" where
  "timeout_calls [] = []"
| "timeout_calls (c # cs) = (case c of Sync_timeout i \<Rightarrow> i # timeout_calls cs | _ \<Rightarrow> timeout_calls cs)"

fun closed_calls :: "sync_call list \<Rightarrow> nat list" where
  "closed_calls [] = []"
| "closed_calls (c # cs) = (case c of Sync_closed i \<Rightarrow> i # closed_calls cs | _ \<Rightarrow> closed_calls cs)"

fun message_calls :: "sync_call list \<Rightarrow> (nat \<times> callback_message) list" where
  "message_calls [] = []"
| "message_calls (c # cs) = (case c of Sync_received i m \<Rightarrow> (i, m) # message_calls cs
     | Cannot_callback i m \<Rightarrow> (i, m) # message_calls cs | _ \<Rightarrow> message_calls cs)"

lemma calls_append [simp]:
  "accept_calls (xs @ ys) = accept_calls xs @ accept_calls ys" "timeout_calls (xs @ ys) = timeout_calls xs @ timeout_calls ys"
  "closed_calls (xs @ ys) = closed_calls xs @ closed_calls ys" "message_calls (xs @ ys) = message_calls xs @ message_calls ys"
  by (induction xs) (auto split: sync_call.splits)

lemma calls_map [simp]:
  "accept_calls (map Sync_accept xs) = xs" "timeout_calls (map Sync_accept xs) = []" "closed_calls (map Sync_accept xs) = []"
  "message_calls (map Sync_accept xs) = []" "accept_calls (map Sync_timeout xs) = []" "timeout_calls (map Sync_timeout xs) = xs"
  "closed_calls (map Sync_timeout xs) = []" "message_calls (map Sync_timeout xs) = []" "accept_calls (map Sync_closed xs) = []"
  "timeout_calls (map Sync_closed xs) = []" "closed_calls (map Sync_closed xs) = xs" "message_calls (map Sync_closed xs) = []"
  by (induction xs) simp_all

lemma calls_messages [simp]:
  "accept_calls (map (msgCallback cb i) ms) = []" "timeout_calls (map (msgCallback cb i) ms) = []"
  "closed_calls (map (msgCallback cb i) ms) = []" "message_calls (map (msgCallback cb i) ms) = map (Pair i) ms"
  by (induction ms) (auto simp: msgCallback_def)

text \<open>What was called back and what waits in the queues is what happened, in order.\<close>

definition ended :: "closed_type \<Rightarrow> stream_server \<Rightarrow> nat list" where
  "ended t s = map fst (filter (\<lambda>e. snd e = t) (ends s))"

definition unpack :: "(nat \<times> callback_message list) list \<Rightarrow> (nat \<times> callback_message) list" where
  "unpack pkgs = concat (map (\<lambda>(hdl, msg_list). map (Pair hdl) msg_list) pkgs)"

definition queues_ok :: "sync_callbacks \<Rightarrow> stream_server \<Rightarrow> bool" where
  "queues_ok cb s \<longleftrightarrow>
     (m_sync_accept cb \<longrightarrow> accept_calls (calls s) @ m_hdl_accept s = [0 ..< length (handlers s)]) \<and>
     (m_sync_timeout cb \<longrightarrow> timeout_calls (calls s) @ m_hdl_timeout s = ended TIMEOUT s) \<and>
     (m_sync_closed cb \<longrightarrow> closed_calls (calls s) @ m_hdl_closed s = ended NORMAL s) \<and>
     message_calls (calls s) @ unpack (m_received_msg s) = arrived s \<and>
     (\<forall>(i, m) \<in> set (arrived s). i < length (handlers s))"

lemma unpack_simps [simp]: "unpack [] = []" "unpack (xs @ ys) = unpack xs @ unpack ys" "unpack ((i, ms) # xs) = map (Pair i) ms @ unpack xs"
  by (simp_all add: unpack_def)

lemma unpack_calls [simp]:
  "accept_calls (concat (map (\<lambda>(hdl, msg_list). map (msgCallback cb hdl) msg_list) pkgs)) = []"
  "timeout_calls (concat (map (\<lambda>(hdl, msg_list). map (msgCallback cb hdl) msg_list) pkgs)) = []"
  "closed_calls (concat (map (\<lambda>(hdl, msg_list). map (msgCallback cb hdl) msg_list) pkgs)) = []"
  "message_calls (concat (map (\<lambda>(hdl, msg_list). map (msgCallback cb hdl) msg_list) pkgs)) = unpack pkgs"
  by (induction pkgs) (auto simp: unpack_def)

lemma queues_keep:
  assumes "queues_ok cb s" "length (handlers s') = length (handlers s)" "calls s' = calls s" "m_hdl_accept s' = m_hdl_accept s"
    "m_hdl_timeout s' = m_hdl_timeout s" "m_hdl_closed s' = m_hdl_closed s" "ends s' = ends s" "m_received_msg s' = m_received_msg s"
    "arrived s' = arrived s"
  shows "queues_ok cb s'"
  using assms by (simp add: queues_ok_def ended_def)

lemma queues_upd: "queues_ok cb s \<Longrightarrow> queues_ok cb (upd_handler i f s)"
  by (erule queues_keep) simp_all

lemma queues_doClosed: "queues_ok cb s \<Longrightarrow> queues_ok cb (doClosed t i s)"
proof -
  assume q: "queues_ok cb s"
  show ?thesis
  proof (cases "m_is_closed (handlers s ! i) \<or> t = ACTIVITY")
    case True
    then show ?thesis using q by (auto simp: doClosed_def Let_def intro: queues_upd)
  next
    case False
    then show ?thesis using q
      by (cases t) (auto simp: doClosed_def Let_def end_defs queues_ok_def ended_def upd_handler_def)
  qed
qed

lemma queues_receive: "queues_ok cb s \<Longrightarrow> i < length (handlers s) \<Longrightarrow> queues_ok cb (asyncReceivedMsg i ms s)"
  by (auto simp: queues_ok_def asyncReceivedMsg_def ended_def)

lemma queues_accept: "queues_ok cb s \<Longrightarrow> queues_ok cb (acceptCallback opt ec s)"
  by (auto simp: acceptCallback_def createHandler_def stopAccept_def accept_start_def asyncAccept_def Let_def queues_ok_def ended_def)

lemma queues_update: "queues_ok cb s \<Longrightarrow> queues_ok cb (update_phase cb s)"
  by (auto simp: update_phase_def syncAccept_def syncTimeout_def syncClosed_def syncReceivedMsg_def Let_def queues_ok_def ended_def)

lemma step_queues:
  assumes "queues_ok cb s" "stream_step opt cb e s = Inr s'"
  shows "queues_ok cb s'"
proof -
  have keep: "queues_ok cb t" if "handlers t = handlers s" "calls t = calls s" "m_hdl_accept t = m_hdl_accept s"
    "m_hdl_timeout t = m_hdl_timeout s" "m_hdl_closed t = m_hdl_closed s" "ends t = ends s" "m_received_msg t = m_received_msg s"
    "arrived t = arrived s" for t
    using assms(1) by (rule queues_keep) (use that in auto)
  have log: "queues_ok cb (t\<lparr>written := w\<rparr>)" if "queues_ok cb t" for t w
    using that by (rule queues_keep) auto
  show ?thesis
  proof (cases e)
    case Run_posted
    then show ?thesis using assms(2)
      by (auto simp: run_posted_def split: list.splits posted_task.splits intro!: queues_upd queues_doClosed keep)
  next
    case (Write_done ec k i)
    then show ?thesis using assms
      by (auto simp: doWriteCallback_def Let_def split: if_splits list.splits intro!: queues_upd queues_doClosed log)
  next
    case (Read_done r k i)
    then show ?thesis using assms
      by (auto simp: doReadCallback_def Let_def split: option.splits if_splits sum.splits prod.splits
          intro!: queues_upd queues_doClosed queues_receive)
  next
    case (Accept_done ec)
    then show ?thesis using assms by (auto split: if_splits intro: queues_accept)
  next
    case (Timer_expires i)
    then show ?thesis using assms by (auto split: if_splits intro!: queues_upd)
  next
    case (Timer_runs i)
    then show ?thesis using assms by (auto split: if_splits intro!: queues_upd queues_doClosed)
  next
    case Update_phase
    then show ?thesis using assms by (auto intro: queues_update)
  qed (use assms(2) in \<open>auto simp: sendMessage_def shutdown_handler_def stopAccept_def split: if_splits intro!: keep assms(1)\<close>)
qed

lemma reachable_queues: "reachable opt cb s \<Longrightarrow> queues_ok cb s"
proof (induction rule: reachable.induct)
  case started
  show ?case by (simp add: queues_ok_def started_server_def accept_start_def ended_def)
next
  case (step s e s')
  then show ?case by (blast intro: step_queues)
qed

text \<open>A list of events from the start.\<close>

definition run_events :: "server_option \<Rightarrow> sync_callbacks \<Rightarrow> stream_event list \<Rightarrow> stream_fault + stream_server" where
  "run_events opt cb es = foldl (\<lambda>r e. res_bind r (stream_step opt cb e)) (Inr started_server) es"

lemma run_reachable: "run_events opt cb es = Inr s \<Longrightarrow> reachable opt cb s"
proof (induction es arbitrary: s rule: rev_induct)
  case Nil
  then show ?case by (simp add: run_events_def started)
next
  case (snoc e es)
  then obtain t where "run_events opt cb es = Inr t" "stream_step opt cb e t = Inr s"
    by (auto simp: run_events_def res_bind_eq_Inr)
  then show ?case using snoc.IH by (blast intro: reachable.step)
qed

lemma run_exists: "case_sum (\<lambda>_. False) P (run_events opt cb es) \<Longrightarrow> \<exists>s. reachable opt cb s \<and> P s"
  by (cases "run_events opt cb es") (auto intro: run_reachable)

section \<open>Properties\<close>

text \<open>C19. In every reachable state the messages sent to a handler are, in order, those written, those in its list and those posted;
  and those written are the contents of the completed writes.  At most one write is outstanding, of the first message, and
  exactly one while an open handler has messages; at most one read is, and exactly one while it is open; nothing is undefined.\<close>

theorem stream_server_traffic:
  assumes "reachable opt cb s"
  shows "stream_step opt cb e s \<noteq> Inl Undefined \<and>
    (\<forall>i < length (handlers s). let h = handlers s ! i in
       of_handler i (sends s) = of_handler i (written s) @ m_write_buffer h @ pending i (posted s) \<and>
       (write_ops h = [] \<or> m_write_buffer h \<noteq> [] \<and> map fst (write_ops h) = [hd (m_write_buffer h)]) \<and> length (read_ops h) \<le> 1 \<and>
       (\<not> m_is_closed h \<longrightarrow> (write_ops h \<noteq> [] \<longleftrightarrow> m_write_buffer h \<noteq> []) \<and> read_ops h \<noteq> []))"
  using reachable_traffic [OF assms] no_undefined [OF reachable_traffic [OF assms], of opt cb e]
  by (auto simp: traffic_ok_def handler_ok_def Let_def)

definition no_limit :: server_option where
  "no_limit = \<lparr>m_max_connection = 0, m_timeout_seconds = 0\<rparr>"

definition all_callbacks :: sync_callbacks where
  "all_callbacks = \<lparr>m_sync_accept = True, m_sync_timeout = True, m_sync_closed = True, m_sync_received_msg_array = [1]\<rparr>"

theorem stream_server_traffic_witness:
  "\<exists>s. reachable no_limit all_callbacks s \<and> written s = [(0, [7])] \<and> m_write_buffer (handlers s ! 0) = [[8]] \<and>
     write_ops (handlers s ! 0) = [([8], True)] \<and> of_handler 0 (sends s) = [[7], [8], [9]]"
proof -
  define r where "r = run_events no_limit all_callbacks [Accept_done False, Send 0 [7], Send 0 [8], Run_posted, Run_posted,
      Write_done False 0 0, Send 0 [9]]"
  have ev: "case_sum (\<lambda>_. False) (\<lambda>s. length (handlers s) = 1 \<and> written s = [(0, [7])] \<and> m_write_buffer (handlers s ! 0) = [[8]] \<and>
     write_ops (handlers s ! 0) = [([8], True)] \<and> pending 0 (posted s) = [[9]]) r"
    unfolding r_def by code_simp
  then obtain s where s: "r = Inr s" by (cases r) auto
  then have "reachable no_limit all_callbacks s" using run_reachable by (simp add: r_def)
  from stream_server_traffic [OF this] this ev s show ?thesis by (auto simp: Let_def)
qed

text \<open>C20. The end of a handler is reported at most once, to one of the two callbacks, and the table holds exactly the handlers whose
  end was not reported, never more than the maximum.  Of accepts, time-outs, ends and messages each, what was called back, followed by what
  waits, is all that happened, in order; a message goes to the callback of its number.\<close>

theorem stream_server_callbacks:
  assumes "reachable opt cb s"
  shows "distinct (ended NORMAL s @ ended TIMEOUT s) \<and>
    m_handlers s = filter (\<lambda>i. i \<notin> set (ended NORMAL s @ ended TIMEOUT s)) [0 ..< length (handlers s)] \<and>
    (m_max_connection opt \<noteq> 0 \<longrightarrow> length (m_handlers s) \<le> m_max_connection opt) \<and>
    (m_sync_accept cb \<longrightarrow> accept_calls (calls s) @ m_hdl_accept s = [0 ..< length (handlers s)]) \<and>
    (m_sync_timeout cb \<longrightarrow> timeout_calls (calls s) @ m_hdl_timeout s = ended TIMEOUT s) \<and>
    (m_sync_closed cb \<longrightarrow> closed_calls (calls s) @ m_hdl_closed s = ended NORMAL s) \<and>
    message_calls (calls s) @ unpack (m_received_msg s) = arrived s"
proof -
  have ends: "ends_ok opt s" using assms by (rule reachable_ends)
  have "\<forall>e \<in> set (ends s). snd e = NORMAL \<or> snd e = TIMEOUT"
    using ends by (auto simp: ends_ok_def intro: closed_type.exhaust)
  then have set: "set (ended NORMAL s @ ended TIMEOUT s) = fst ` set (ends s)" by (force simp: ended_def)
  have "distinct (map fst es) \<Longrightarrow> distinct (map fst (filter (\<lambda>e. snd e = NORMAL) es) @ map fst (filter (\<lambda>e. snd e = TIMEOUT) es))"
    for es :: "(nat \<times> closed_type) list"
    by (induction es) auto
  then have "distinct (ended NORMAL s @ ended TIMEOUT s)" using ends by (simp add: ended_def ends_ok_def)
  then show ?thesis
    using ends reachable_queues [OF assms] unfolding set ends_ok_def queues_ok_def by blast
qed


theorem stream_server_callbacks_witness:
  "\<exists>s. reachable \<lparr>m_max_connection = 1, m_timeout_seconds = 5\<rparr> all_callbacks s \<and>
     calls s = [Sync_accept 0, Sync_timeout 0, Sync_received 0 (1, [])] \<and> m_handlers s = [1] \<and>
     accept_calls (calls s) @ m_hdl_accept s = [0 ..< length (handlers s)]"
proof -
  let ?opt = "\<lparr>m_max_connection = 1, m_timeout_seconds = 5\<rparr>"
  define r where "r = run_events ?opt all_callbacks [Accept_done False, Timer_expires 0, Update_phase,
      Read_done (Some (callbackMessageEncoder 1 [])) 0 0, Accept_done False, Timer_runs 0, Accept_done False, Update_phase,
      Update_phase, Update_phase]"
  have ev: "case_sum (\<lambda>_. False) (\<lambda>s. calls s = [Sync_accept 0, Sync_timeout 0, Sync_received 0 (1, [])] \<and> m_handlers s = [1]) r"
    unfolding r_def by code_simp
  then obtain s where s: "r = Inr s" by (cases r) auto
  then have "reachable ?opt all_callbacks s" using run_reachable by (simp add: r_def)
  moreover have "accept_calls (calls s) @ m_hdl_accept s = [0 ..< length (handlers s)]"
    using stream_server_callbacks [OF \<open>reachable ?opt all_callbacks s\<close>] by (auto simp: all_callbacks_def)
  ultimately show ?thesis using ev s by (intro exI [of _ s]) simp
qed

text \<open>Runs in which the network thread does nothing between the parts of an \<open>update\<close>.\<close>

definition whole_update :: "sync_callbacks \<Rightarrow> stream_server \<Rightarrow> stream_server" where
  "whole_update cb s = update_phase cb (update_phase cb (update_phase cb (update_phase cb s)))"

inductive quiet :: "server_option \<Rightarrow> sync_callbacks \<Rightarrow> stream_server \<Rightarrow> bool" for opt cb where
  quiet_started: "quiet opt cb started_server"
| quiet_event: "quiet opt cb s \<Longrightarrow> e \<noteq> Update_phase \<Longrightarrow> stream_step opt cb e s = Inr s' \<Longrightarrow> quiet opt cb s'"
| quiet_update: "quiet opt cb s \<Longrightarrow> quiet opt cb (whole_update cb s)"

lemma quiet_reachable: "quiet opt cb s \<Longrightarrow> reachable opt cb s"
proof (induction rule: quiet.induct)
  case (quiet_update s)
  have "stream_step opt cb Update_phase t = Inr (update_phase cb t)" for t by simp
  then show ?case unfolding whole_update_def by (meson quiet_update.IH reachable.step)
qed (auto intro: reachable.intros)

text \<open>Every message comes after the accept of its handler.\<close>

definition accepted_first :: "sync_call list \<Rightarrow> bool" where
  "accepted_first cs \<longleftrightarrow> (\<forall>pre c post. cs = pre @ c # post \<longrightarrow> (\<forall>p \<in> set (message_calls [c]). fst p \<in> set (accept_calls pre)))"

lemma accepted_first_append:
  assumes "accepted_first xs" "\<forall>p \<in> set (message_calls ys). fst p \<in> set (accept_calls xs)"
  shows "accepted_first (xs @ ys)"
  unfolding accepted_first_def
proof (intro allI impI)
  fix pre c post
  assume eq: "xs @ ys = pre @ c # post"
  then consider (left) us where "xs = pre @ c # us" | (right) us where "pre = xs @ us" "ys = us @ c # post"
    by (auto simp: append_eq_append_conv2 append_eq_Cons_conv)
  then show "\<forall>p \<in> set (message_calls [c]). fst p \<in> set (accept_calls pre)"
  proof cases
    case left
    then show ?thesis using assms(1) unfolding accepted_first_def by blast
  next
    case right
    have "message_calls (c # post) = message_calls [c] @ message_calls post"
      using calls_append(4) [of "[c]" post] by simp
    then have "set (message_calls [c]) \<subseteq> set (message_calls ys)" using right by auto
    then show ?thesis using assms(2) right by auto
  qed
qed

lemma step_phase_calls: "e \<noteq> Update_phase \<Longrightarrow> stream_step opt cb e s = Inr s' \<Longrightarrow> phase s' = phase s \<and> calls s' = calls s"
proof (cases e)
  case Run_posted
  then show "stream_step opt cb e s = Inr s' \<Longrightarrow> ?thesis"
    by (auto simp: run_posted_def split: list.splits posted_task.splits)
next
  case (Write_done ec k i)
  then show "stream_step opt cb e s = Inr s' \<Longrightarrow> ?thesis"
    by (auto simp: doWriteCallback_def Let_def split: if_splits list.splits)
next
  case (Read_done r k i)
  then show "stream_step opt cb e s = Inr s' \<Longrightarrow> ?thesis"
    by (auto simp: doReadCallback_def asyncReceivedMsg_def Let_def split: option.splits if_splits sum.splits prod.splits)
next
  case (Accept_done ec)
  then show "stream_step opt cb e s = Inr s' \<Longrightarrow> ?thesis"
    by (auto simp: acceptCallback_def createHandler_def stopAccept_def accept_start_def asyncAccept_def Let_def split: if_splits)
qed (auto simp: sendMessage_def shutdown_handler_def stopAccept_def split: if_splits)

lemma whole_update_calls:
  assumes "phase s = 0"
  shows "phase (whole_update cb s) = 0 \<and> calls (whole_update cb s) = calls s @
     (if m_sync_accept cb then map Sync_accept (m_hdl_accept s) else []) @
     (if m_sync_timeout cb then map Sync_timeout (m_hdl_timeout s) else []) @
     (if m_sync_closed cb then map Sync_closed (m_hdl_closed s) else []) @
     concat (map (\<lambda>(hdl, msg_list). map (msgCallback cb hdl) msg_list) (m_received_msg s))"
  using assms
  by (simp add: whole_update_def update_phase_def syncAccept_def syncTimeout_def syncClosed_def syncReceivedMsg_def Let_def numeral_2_eq_2)

lemma quiet_accepted_first:
  assumes "quiet opt cb s" "m_sync_accept cb"
  shows "phase s = 0 \<and> accepted_first (calls s)"
  using assms(1)
proof (induction rule: quiet.induct)
  case quiet_started
  show ?case by (simp add: started_server_def accept_start_def accepted_first_def)
next
  case (quiet_event s e s')
  then show ?case using step_phase_calls by metis
next
  case (quiet_update s)
  let ?a = "calls s @ map Sync_accept (m_hdl_accept s)"
  let ?m = "(if m_sync_timeout cb then map Sync_timeout (m_hdl_timeout s) else []) @
     (if m_sync_closed cb then map Sync_closed (m_hdl_closed s) else []) @
     concat (map (\<lambda>(hdl, msg_list). map (msgCallback cb hdl) msg_list) (m_received_msg s))"
  have q: "queues_ok cb s" using quiet_update.hyps by (intro reachable_queues quiet_reachable)
  then have a: "accept_calls ?a = [0 ..< length (handlers s)]" using assms(2) by (simp add: queues_ok_def)
  have "message_calls (calls s) @ unpack (m_received_msg s) = arrived s" using q by (simp add: queues_ok_def)
  then have "set (unpack (m_received_msg s)) \<subseteq> set (arrived s)" by (metis Un_upper2 set_append)
  moreover have "\<forall>p \<in> set (arrived s). fst p < length (handlers s)" using q by (auto simp: queues_ok_def)
  moreover have "message_calls ?m = unpack (m_received_msg s)" by simp
  ultimately have "\<forall>p \<in> set (message_calls ?m). fst p \<in> set (accept_calls ?a)" unfolding a by auto
  moreover have "accepted_first ?a" using quiet_update.IH by (intro accepted_first_append) auto
  ultimately have "accepted_first (?a @ ?m)" by (rule accepted_first_append [rotated])
  then show ?case using whole_update_calls [of s cb] quiet_update.IH assms(2) by simp
qed

text \<open>A handler closed by \<open>shutdown\<close> stays in the table.\<close>

lemma doClosed_stays:
  assumes "i \<in> set (m_handlers s)" "m_is_closed (handlers s ! i)"
  shows "i \<in> set (m_handlers (doClosed t j s)) \<and> m_is_closed (handlers (doClosed t j s) ! i)"
  using assms by (auto simp: doClosed_def end_defs Let_def upd_handler_nth split: closed_type.splits)

definition stuck :: "nat \<Rightarrow> stream_server \<Rightarrow> bool" where
  "stuck i s \<longleftrightarrow> i < length (handlers s) \<and> i \<in> set (m_handlers s) \<and> m_is_closed (handlers s ! i)"

lemma stuck_doClosed: "stuck i s \<Longrightarrow> stuck i (doClosed t j s)"
  using doClosed_stays [of i s t j] by (simp add: stuck_def)

lemma stuck_upd: "stuck i s \<Longrightarrow> (\<And>h. m_is_closed (f h) = m_is_closed h) \<Longrightarrow> stuck i (upd_handler j f s)"
  by (auto simp: stuck_def upd_handler_nth)

lemma step_stuck:
  assumes "stuck i s" "stream_step opt cb e s = Inr s'"
  shows "stuck i s'"
proof -
  have keep: "stuck i t" if "handlers t = handlers s" "m_handlers t = m_handlers s" for t
    using assms(1) that by (simp add: stuck_def)
  have log: "stuck i (t\<lparr>written := w\<rparr>)" if "stuck i t" for t w
    using that by (simp add: stuck_def)
  have receive: "stuck i (asyncReceivedMsg j ms t)" if "stuck i t" for j ms t
    using that by (simp add: stuck_def asyncReceivedMsg_def)
  have post: "stuck i (s\<lparr>posted := ps\<rparr>)" for ps by (rule keep) simp_all
  show ?thesis
  proof (cases e)
    case Run_posted
    then show ?thesis using assms(2)
      by (auto simp: run_posted_def split: list.splits posted_task.splits intro!: stuck_upd stuck_doClosed post)
  next
    case (Write_done ec k j)
    then show ?thesis using assms
      by (auto simp: doWriteCallback_def Let_def doWrite_def split: if_splits list.splits intro!: stuck_upd stuck_doClosed log)
  next
    case (Read_done r k j)
    then show ?thesis using assms
      by (auto simp: doReadCallback_def Let_def split: option.splits if_splits sum.splits prod.splits
          intro!: stuck_upd stuck_doClosed receive)
  next
    case (Accept_done ec)
    then show ?thesis using assms
      by (auto simp: acceptCallback_def createHandler_def stopAccept_def accept_start_def asyncAccept_def Let_def stuck_def
          nth_append split: if_splits)
  next
    case (Timer_expires j)
    then show ?thesis using assms by (auto split: if_splits intro!: stuck_upd)
  next
    case (Timer_runs j)
    then show ?thesis using assms by (auto split: if_splits intro!: stuck_upd stuck_doClosed)
  qed (use assms(2) in \<open>auto simp: sendMessage_def shutdown_handler_def stopAccept_def update_phase_def syncAccept_def
      syncTimeout_def syncClosed_def syncReceivedMsg_def Let_def split: if_splits intro!: keep assms(1)\<close>)
qed

definition run_from :: "server_option \<Rightarrow> sync_callbacks \<Rightarrow> stream_event list \<Rightarrow> stream_server \<Rightarrow> stream_fault + stream_server" where
  "run_from opt cb es s = foldl (\<lambda>r e. res_bind r (stream_step opt cb e)) (Inr s) es"

lemma run_stuck: "stuck i s \<Longrightarrow> run_from opt cb es s = Inr s' \<Longrightarrow> stuck i s'"
proof (induction es arbitrary: s' rule: rev_induct)
  case (snoc e es)
  then obtain t where "run_from opt cb es s = Inr t" "stream_step opt cb e t = Inr s'"
    by (auto simp: run_from_def res_bind_eq_Inr)
  then show ?case using snoc step_stuck by blast
qed (simp add: run_from_def)

text \<open>C21. The order of kinds is not kept.  A message can be called back before the accept of its handler, when it arrives while an
  \<open>update\<close> is under way; a message that arrived before its handler ended is called back after the end, and one can be read after it.  A
  handler that is shut down never leaves the table: the end is not reported, and it counts as a connection for ever.\<close>

theorem stream_server_races:
  "(\<exists>s. reachable no_limit all_callbacks s \<and> calls s = [Sync_received 0 (1, []), Sync_accept 0]) \<and>
   (\<exists>s. quiet no_limit all_callbacks s \<and> calls s = [Sync_accept 0, Sync_closed 0, Sync_received 0 (1, [])]) \<and>
   (\<exists>s s'. reachable no_limit all_callbacks s \<and> ended NORMAL s = [0] \<and> arrived s = [] \<and>
      stream_step no_limit all_callbacks (Read_done (Some (callbackMessageEncoder 1 [])) 0 0) s = Inr s' \<and> arrived s' = [(0, (1, []))]) \<and>
   (\<exists>s. reachable \<lparr>m_max_connection = 1, m_timeout_seconds = 0\<rparr> all_callbacks s \<and>
      (\<forall>es. case run_from \<lparr>m_max_connection = 1, m_timeout_seconds = 0\<rparr> all_callbacks es s of
         Inl _ \<Rightarrow> True | Inr s' \<Rightarrow> 0 \<in> set (m_handlers s') \<and> m_is_closed (handlers s' ! 0)))"
  (is "?early \<and> ?closed \<and> ?late \<and> ?leak")
proof (intro conjI)
  let ?m = "Read_done (Some (callbackMessageEncoder 1 [])) 0 0"
  let ?run = "run_events no_limit all_callbacks"
  have ev: "case_sum (\<lambda>_. False) (\<lambda>s. calls s = [Sync_received 0 (1, []), Sync_accept 0])
    (?run [Update_phase, Accept_done False, ?m, Update_phase, Update_phase, Update_phase, Update_phase])" by code_simp
  then show ?early by (rule run_exists)
  have ev: "case_sum (\<lambda>_. False) (\<lambda>s. ended NORMAL s = [0] \<and> arrived s = [] \<and>
      case_sum (\<lambda>_. False) (\<lambda>s'. arrived s' = [(0, (1, []))]) (stream_step no_limit all_callbacks ?m s))
    (?run [Accept_done False, Send 0 [7], Run_posted, Write_done True 0 0])" by code_simp
  show ?late
  proof -
    obtain s where s: "reachable no_limit all_callbacks s" "ended NORMAL s = [0]" "arrived s = []" and
      r: "case_sum (\<lambda>_. False) (\<lambda>s'. arrived s' = [(0, (1, []))]) (stream_step no_limit all_callbacks ?m s)"
      using run_exists [OF ev] by blast
    obtain s' where "stream_step no_limit all_callbacks ?m s = Inr s'" "arrived s' = [(0, (1, []))]"
      using r by (cases "stream_step no_limit all_callbacks ?m s") (simp_all del: stream_step.simps)
    with s show ?thesis by blast
  qed
  have ev: "case_sum (\<lambda>_. False) (\<lambda>s. stuck 0 s)
    (run_events \<lparr>m_max_connection = 1, m_timeout_seconds = 0\<rparr> all_callbacks [Accept_done False, Shutdown 0, Run_posted])" by code_simp
  show ?leak
  proof -
    obtain s where s: "reachable \<lparr>m_max_connection = 1, m_timeout_seconds = 0\<rparr> all_callbacks s" "stuck 0 s"
      using run_exists [OF ev] by blast
    have "case run_from \<lparr>m_max_connection = 1, m_timeout_seconds = 0\<rparr> all_callbacks es s of
        Inl _ \<Rightarrow> True | Inr s' \<Rightarrow> 0 \<in> set (m_handlers s') \<and> m_is_closed (handlers s' ! 0)" for es
      using run_stuck [OF s(2), of "\<lparr>m_max_connection = 1, m_timeout_seconds = 0\<rparr>" all_callbacks es]
      by (simp add: stuck_def split: sum.split)
    then show ?thesis using s(1) by blast
  qed
  show ?closed
  proof -
    have ev: "case_sum (\<lambda>_. False) (\<lambda>s. calls (whole_update all_callbacks s) = [Sync_accept 0, Sync_closed 0, Sync_received 0 (1, [])])
      (?run [Accept_done False, ?m, Read_done None 0 0])" by code_simp
    obtain s1 s2 s3 where s: "stream_step no_limit all_callbacks (Accept_done False) started_server = Inr s1"
      "stream_step no_limit all_callbacks ?m s1 = Inr s2" "stream_step no_limit all_callbacks (Read_done None 0 0) s2 = Inr s3"
      "calls (whole_update all_callbacks s3) = [Sync_accept 0, Sync_closed 0, Sync_received 0 (1, [])]"
      using ev by (auto simp: run_events_def res_bind_def split: sum.splits simp del: stream_step.simps)
    have "quiet no_limit all_callbacks s3" using s(1-3) by (meson quiet_event quiet_started stream_event.distinct)
    then show ?thesis using s(4) quiet.quiet_update by blast
  qed
qed

end
