(* ===== verification/Stream_Client.thy ===== *)
theory Stream_Client
  imports Stream_Codec
begin

text \<open>
  The client of \<open>network/stream_server\<close>: connecting in \<open>StreamClient.cpp\<close> and the callbacks of \<open>CallbackClient.cpp\<close>.  The network
  thread stores what happens in slots behind a mutex, \<open>update\<close> empties them in five parts; between the parts the network thread may run.
  The clients are numbered in a list; a shared pointer is a number, and a client lives while one refers to it.  Which texts are
  addresses is an argument.
\<close>

section \<open>State\<close>

record stream_client =
  sc_ip :: string
  sc_port :: u16
  connecting :: bool
  sc_handler :: bool

datatype client_call = Connect_success | Connect_fail | Client_timeout | Client_closed | Client_received callback_message
  | Client_unknown callback_message

text \<open>\<open>attempts\<close> are the end points given to \<open>async_connect\<close>, \<open>outcomes\<close> the error flags of the connections, \<open>calls\<close> the callbacks.\<close>

record callback_client =
  clients :: "stream_client list"
  m_async_client :: "nat option"
  m_ip :: string
  m_port :: u16
  m_async_connect_success :: "nat option"
  m_async_connect_fail :: "nat option"
  m_async_timeout :: "nat option"
  m_async_closed :: "nat option"
  m_async_received_msg_pkg :: "callback_message list list"
  phase :: nat
  attempts :: "(string \<times> u16) list"
  outcomes :: "bool list"
  calls :: "client_call list"

record client_callbacks =
  m_sync_connect_success :: bool
  m_sync_connect_fail :: bool
  m_sync_timeout :: bool
  m_sync_closed :: bool
  m_sync_received_msg_array :: "32 word list"

datatype client_fault = Not_enabled | Use_after_free

definition new_callback_client :: callback_client where
  "new_callback_client = \<lparr>clients = [], m_async_client = None, m_ip = '''', m_port = 0, m_async_connect_success = None,
     m_async_connect_fail = None, m_async_timeout = None, m_async_closed = None, m_async_received_msg_pkg = [], phase = 0,
     attempts = [], outcomes = [], calls = []\<rparr>"

section \<open>Connecting\<close>

definition upd_client :: "nat \<Rightarrow> (stream_client \<Rightarrow> stream_client) \<Rightarrow> callback_client \<Rightarrow> callback_client" where
  "upd_client c f s = s\<lparr>clients := (clients s)[c := f (clients s ! c)]\<rparr>"

text \<open>\<open>from_string\<close> is a static function: it throws for a text that is no address, and its result is dropped, so the address stays
  the default one.\<close>

definition doConnect :: "(string \<Rightarrow> bool) \<Rightarrow> nat \<Rightarrow> callback_client \<Rightarrow> bool \<times> callback_client" where
  "doConnect is_address c s0 =
     (let s = upd_client c (\<lambda>k. k\<lparr>sc_handler := False\<rparr>) s0 in
      if is_address (sc_ip (clients s ! c))
      then (True, upd_client c (\<lambda>k. k\<lparr>connecting := True\<rparr>) s\<lparr>attempts := attempts s @ [(''0.0.0.0'', sc_port (clients s ! c))]\<rparr>)
      else (False, s))"

definition stream_connect :: "(string \<Rightarrow> bool) \<Rightarrow> string \<Rightarrow> u16 \<Rightarrow> nat \<Rightarrow> callback_client \<Rightarrow> bool \<times> callback_client" where
  "stream_connect is_address ip port c s = doConnect is_address c (upd_client c (\<lambda>k. k\<lparr>sc_ip := ip, sc_port := port\<rparr>) s)"

definition callback_connect :: "(string \<Rightarrow> bool) \<Rightarrow> string \<Rightarrow> u16 \<Rightarrow> callback_client \<Rightarrow> bool \<times> callback_client" where
  "callback_connect is_address ip port s =
     (if m_async_client s \<noteq> None then (False, s)
      else (let c = length (clients s)
            in stream_connect is_address ip port c
                 (s\<lparr>clients := clients s @ [\<lparr>sc_ip = '''', sc_port = 0, connecting = False, sc_handler = False\<rparr>],
                    m_async_client := Some c, m_ip := ip, m_port := port\<rparr>)))"

definition reconnect :: "(string \<Rightarrow> bool) \<Rightarrow> callback_client \<Rightarrow> bool \<times> callback_client" where
  "reconnect is_address s = callback_connect is_address (m_ip s) (m_port s) (s\<lparr>m_async_client := None\<rparr>)"

section \<open>Callbacks of the network thread\<close>

definition asyncConnect :: "bool \<Rightarrow> callback_client \<Rightarrow> callback_client" where
  "asyncConnect ec s =
     (if ec then s\<lparr>m_async_connect_fail := m_async_client s\<rparr> else s\<lparr>m_async_connect_success := m_async_client s\<rparr>)"

definition asyncTimeout :: "callback_client \<Rightarrow> callback_client" where
  "asyncTimeout s = s\<lparr>m_async_timeout := m_async_client s\<rparr>"

definition asyncClosed :: "callback_client \<Rightarrow> callback_client" where
  "asyncClosed s = s\<lparr>m_async_closed := m_async_client s\<rparr>"

definition asyncReceivedMsg :: "callback_message list \<Rightarrow> callback_client \<Rightarrow> callback_client" where
  "asyncReceivedMsg msg_list s = s\<lparr>m_async_received_msg_pkg := m_async_received_msg_pkg s @ [msg_list]\<rparr>"

definition alive :: "nat \<Rightarrow> callback_client \<Rightarrow> bool" where
  "alive c s \<longleftrightarrow> Some c \<in> {m_async_client s, m_async_connect_success s, m_async_connect_fail s, m_async_timeout s, m_async_closed s}"

text \<open>The completion of a connect holds a plain pointer to its client; a destroyed socket completes it too.\<close>

definition doConnectCallback :: "bool \<Rightarrow> nat \<Rightarrow> callback_client \<Rightarrow> client_fault + callback_client" where
  "doConnectCallback ec c s =
     (if \<not> (c < length (clients s) \<and> connecting (clients s ! c)) then Inl Not_enabled
      else if \<not> alive c s then Inl Use_after_free
      else (let s1 = (if \<not> ec then upd_client c (\<lambda>k. k\<lparr>sc_handler := True\<rparr>) s else s);
                s2 = upd_client c (\<lambda>k. k\<lparr>connecting := False\<rparr>) s1
            in Inr (asyncConnect ec (s2\<lparr>outcomes := outcomes s2 @ [ec]\<rparr>))))"

section \<open>The parts of \<open>update\<close>\<close>

definition syncConnectSuccess :: "client_callbacks \<Rightarrow> callback_client \<Rightarrow> callback_client" where
  "syncConnectSuccess cb s =
     (let connect_succ = m_async_connect_success s; s' = s\<lparr>m_async_connect_success := None\<rparr>
      in if connect_succ \<noteq> None \<and> m_sync_connect_success cb then s'\<lparr>calls := calls s' @ [Connect_success]\<rparr> else s')"

text \<open>It takes the slot of the successes.\<close>

definition syncConnectFail :: "client_callbacks \<Rightarrow> callback_client \<Rightarrow> callback_client" where
  "syncConnectFail cb s =
     (let connect_fail = m_async_connect_success s; s' = s\<lparr>m_async_connect_success := None\<rparr>
      in if connect_fail \<noteq> None \<and> m_sync_connect_fail cb then s'\<lparr>calls := calls s' @ [Connect_fail]\<rparr> else s')"

definition syncTimeout :: "client_callbacks \<Rightarrow> callback_client \<Rightarrow> callback_client" where
  "syncTimeout cb s =
     (let all_timeout = m_async_timeout s; s' = s\<lparr>m_async_timeout := None\<rparr>
      in if all_timeout \<noteq> None \<and> m_sync_timeout cb then s'\<lparr>calls := calls s' @ [Client_timeout]\<rparr> else s')"

definition syncClosed :: "client_callbacks \<Rightarrow> callback_client \<Rightarrow> callback_client" where
  "syncClosed cb s =
     (let all_closed = m_async_closed s; s' = s\<lparr>m_async_closed := None\<rparr>
      in if all_closed \<noteq> None \<and> m_sync_closed cb then s'\<lparr>calls := calls s' @ [Client_closed]\<rparr> else s')"

definition msgCallback :: "client_callbacks \<Rightarrow> callback_message \<Rightarrow> client_call" where
  "msgCallback cb msg = (if fst msg \<in> set (m_sync_received_msg_array cb) then Client_received msg else Client_unknown msg)"

definition syncReceivedMsg :: "client_callbacks \<Rightarrow> callback_client \<Rightarrow> callback_client" where
  "syncReceivedMsg cb s =
     s\<lparr>m_async_received_msg_pkg := [], calls := calls s @ map (msgCallback cb) (concat (m_async_received_msg_pkg s))\<rparr>"

definition update_phase :: "client_callbacks \<Rightarrow> callback_client \<Rightarrow> callback_client" where
  "update_phase cb s =
     (let s' = (if phase s = 0 then syncConnectSuccess cb s else if phase s = 1 then syncConnectFail cb s
                else if phase s = 2 then syncTimeout cb s else if phase s = 3 then syncClosed cb s else syncReceivedMsg cb s)
      in s'\<lparr>phase := (phase s + 1) mod 5\<rparr>)"

section \<open>Runs\<close>

datatype client_event = Connect string u16 | Reconnect | Connect_done bool nat | Handler_closed | Handler_timeout
  | Received "callback_message list" | Update_phase

fun client_step :: "(string \<Rightarrow> bool) \<Rightarrow> client_callbacks \<Rightarrow> client_event \<Rightarrow> callback_client \<Rightarrow> client_fault + callback_client" where
  "client_step is_address cb (Connect ip port) s = Inr (snd (callback_connect is_address ip port s))"
| "client_step is_address cb Reconnect s = Inr (snd (reconnect is_address s))"
| "client_step is_address cb (Connect_done ec c) s = doConnectCallback ec c s"
| "client_step is_address cb Handler_closed s = Inr (asyncClosed s)"
| "client_step is_address cb Handler_timeout s = Inr (asyncTimeout s)"
| "client_step is_address cb (Received ms) s = Inr (asyncReceivedMsg ms s)"
| "client_step is_address cb Update_phase s = Inr (update_phase cb s)"

definition client_run :: "(string \<Rightarrow> bool) \<Rightarrow> client_callbacks \<Rightarrow> client_event list \<Rightarrow> client_fault + callback_client" where
  "client_run is_address cb es = foldl (\<lambda>r e. res_bind r (client_step is_address cb e)) (Inr new_callback_client) es"

lemma client_run_snoc:
  "client_run is_address cb (es @ [e]) = res_bind (client_run is_address cb es) (client_step is_address cb e)"
  by (simp add: client_run_def)

section \<open>What is reported\<close>

fun count_call :: "client_call \<Rightarrow> client_call list \<Rightarrow> nat" where
  "count_call c [] = 0"
| "count_call c (d # cs) = (if d = c then 1 else 0) + count_call c cs"

lemma count_call_append [simp]: "count_call c (xs @ ys) = count_call c xs + count_call c ys"
  by (induction xs) auto

lemma count_call_messages [simp]:
  "count_call Connect_success (map (msgCallback cb) ms) = 0" "count_call Connect_fail (map (msgCallback cb) ms) = 0"
  by (induction ms) (auto simp: msgCallback_def)

text \<open>Every callback of a connection, success or failure, uses up a success.\<close>

definition reports_ok :: "callback_client \<Rightarrow> bool" where
  "reports_ok s \<longleftrightarrow>
     count_call Connect_success (calls s) + count_call Connect_fail (calls s) + (if m_async_connect_success s = None then 0 else 1)
       \<le> length (filter Not (outcomes s)) \<and>
     list_all (\<lambda>a. fst a = ''0.0.0.0'') (attempts s)"

lemma reports_connect: "reports_ok s \<Longrightarrow> reports_ok (snd (callback_connect is_address ip port s))"
  by (auto simp: callback_connect_def stream_connect_def doConnect_def upd_client_def Let_def reports_ok_def)

lemma step_reports:
  assumes "reports_ok s" "client_step is_address cb e s = Inr s'"
  shows "reports_ok s'"
proof (cases e)
  case (Connect ip port)
  then show ?thesis using assms reports_connect by auto
next
  case Reconnect
  have "reports_ok (s\<lparr>m_async_client := None\<rparr>)" using assms(1) by (simp add: reports_ok_def)
  then show ?thesis using Reconnect assms(2) reports_connect by (auto simp: reconnect_def)
next
  case (Connect_done ec c)
  then show ?thesis using assms
    by (auto simp: doConnectCallback_def asyncConnect_def upd_client_def reports_ok_def Let_def split: if_splits)
next
  case Update_phase
  then show ?thesis using assms
    by (auto simp: update_phase_def syncConnectSuccess_def syncConnectFail_def syncTimeout_def syncClosed_def syncReceivedMsg_def
        reports_ok_def Let_def split: if_splits)
qed (use assms in \<open>auto simp: asyncClosed_def asyncTimeout_def asyncReceivedMsg_def reports_ok_def\<close>)

lemma run_reports: "client_run is_address cb es = Inr s \<Longrightarrow> reports_ok s"
proof (induction es arbitrary: s rule: rev_induct)
  case Nil
  then show ?case by (auto simp: client_run_def new_callback_client_def reports_ok_def)
next
  case (snoc e es)
  then obtain t where "client_run is_address cb es = Inr t" "client_step is_address cb e t = Inr s"
    by (auto simp: client_run_snoc res_bind_eq_Inr)
  then show ?case using snoc.IH step_reports by blast
qed

definition all_client_callbacks :: client_callbacks where
  "all_client_callbacks = \<lparr>m_sync_connect_success = True, m_sync_connect_fail = True, m_sync_timeout = True, m_sync_closed = True,
     m_sync_received_msg_array = [1]\<rparr>"

text \<open>C22. Together the two callbacks of connecting are called at most as often as connections succeeded, so a failed connection is never
  reported; every attempt goes to the default address, whatever address was given.  The failure callback is called for a success that
  arrives between the first two parts of \<open>update\<close>, and reconnecting while a connection is being made uses the client after it was freed.\<close>

theorem client_connect_reports:
  "(case client_run is_address cb es of
      Inl _ \<Rightarrow> True
    | Inr s \<Rightarrow> count_call Connect_success (calls s) + count_call Connect_fail (calls s) \<le> length (filter Not (outcomes s)) \<and>
        list_all (\<lambda>a. fst a = ''0.0.0.0'') (attempts s)) \<and>
   (case client_run (\<lambda>_. True) all_client_callbacks [Connect ''10.0.0.1'' 80, Update_phase, Connect_done False 0, Update_phase] of
      Inl _ \<Rightarrow> False | Inr s \<Rightarrow> calls s = [Connect_fail] \<and> attempts s = [(''0.0.0.0'', 80)] \<and> outcomes s = [False]) \<and>
   client_run (\<lambda>_. True) all_client_callbacks [Connect ''10.0.0.1'' 80, Reconnect, Connect_done True 0] = Inl Use_after_free"
proof (intro conjI)
  show "case client_run is_address cb es of
      Inl _ \<Rightarrow> True
    | Inr s \<Rightarrow> count_call Connect_success (calls s) + count_call Connect_fail (calls s) \<le> length (filter Not (outcomes s)) \<and>
        list_all (\<lambda>a. fst a = ''0.0.0.0'') (attempts s)"
    using run_reports [of is_address cb es] by (auto simp: reports_ok_def split: sum.split)
  show "case client_run (\<lambda>_. True) all_client_callbacks [Connect ''10.0.0.1'' 80, Update_phase, Connect_done False 0, Update_phase] of
      Inl _ \<Rightarrow> False | Inr s \<Rightarrow> calls s = [Connect_fail] \<and> attempts s = [(''0.0.0.0'', 80)] \<and> outcomes s = [False]"
    by code_simp
  show "client_run (\<lambda>_. True) all_client_callbacks [Connect ''10.0.0.1'' 80, Reconnect, Connect_done True 0] = Inl Use_after_free"
    by (simp add: client_run_def res_bind_def new_callback_client_def callback_connect_def stream_connect_def doConnect_def upd_client_def
        reconnect_def doConnectCallback_def alive_def Let_def)
qed

end
