(* ===== verification/Zylib_Experimental.thy ===== *)
theory Zylib_Experimental
  imports Zylib_Prelude "HOL-Library.Sublist" "HOL-Library.Multiset"
begin

text \<open>
  Three headers of \<open>experimental/\<close>: the generator of numbers of \<open>Snowflake.h\<close>, the weighted choice of
  \<open>RateGenerator.h\<close> and the combinations of \<open>Algorithm.h\<close>.  The clock is the list of the times it will give, and a
  call that has used them all up is still waiting (\<open>None\<close>); the result of \<open>rand\<close> is an argument.
\<close>

unbundle bit_operations_syntax

section \<open>Snowflake\<close>

record snowflake =
  m_epoch :: u64
  m_worker_id :: u64
  m_last_timestamp :: u64
  m_sequence :: u64

definition new_Snowflake :: "32 word \<Rightarrow> u64 \<Rightarrow> snowflake" where
  "new_Snowflake worker_id start_epoch =
     \<lparr>m_epoch = start_epoch, m_worker_id = ucast worker_id, m_last_timestamp = 0, m_sequence = 0\<rparr>"

text \<open>A time is the pair of \<open>tv_sec\<close> and \<open>tv_usec\<close>.\<close>

type_synonym timeval = "int \<times> int"

definition genTimestamp :: "timeval \<Rightarrow> u64" where
  "genTimestamp tv = word_of_int (snd tv) div 1000 + word_of_int (fst tv) * 1000"

definition SEQUENCE_MASK :: "nat \<Rightarrow> u64" where
  "SEQUENCE_MASK seq_bits = push_bit seq_bits 1 - 1"

fun waitNextMilliseconds :: "u64 \<Rightarrow> timeval list \<Rightarrow> (u64 \<times> timeval list) option" where
  "waitNextMilliseconds lastTimestamp [] = None"
| "waitNextMilliseconds lastTimestamp (tv # clock) =
     (if genTimestamp tv \<le> lastTimestamp then waitNextMilliseconds lastTimestamp clock else Some (genTimestamp tv, clock))"

definition snowflake_id :: "nat \<Rightarrow> nat \<Rightarrow> u64 \<Rightarrow> u64 \<Rightarrow> u64 \<Rightarrow> u64" where
  "snowflake_id worker_bits seq_bits timestamp worker sequ =
     push_bit (seq_bits + worker_bits) timestamp OR push_bit seq_bits worker OR sequ"

definition nextID :: "nat \<Rightarrow> nat \<Rightarrow> snowflake \<Rightarrow> timeval list \<Rightarrow> (u64 \<times> snowflake \<times> timeval list) option" where
  "nextID worker_bits seq_bits g clock =
     (case clock of
        [] \<Rightarrow> None
      | tv # clock1 \<Rightarrow>
          let timestamp = genTimestamp tv in
          if timestamp < m_last_timestamp g then Some (0, g, clock1)
          else
            let sequ = (if m_last_timestamp g = timestamp then (m_sequence g + 1) AND SEQUENCE_MASK seq_bits else 0)
            in map_option (\<lambda>(timestamp, clock2).
                 (snowflake_id worker_bits seq_bits timestamp (m_worker_id g) sequ,
                  g\<lparr>m_sequence := sequ, m_last_timestamp := timestamp\<rparr>, clock2))
               (if m_last_timestamp g = timestamp \<and> sequ = 0 then waitNextMilliseconds (m_last_timestamp g) clock1
                else Some (timestamp, clock1)))"

text \<open>Successive calls, as many as the clock allows up to \<open>n\<close>.\<close>

fun next_ids :: "nat \<Rightarrow> nat \<Rightarrow> nat \<Rightarrow> snowflake \<Rightarrow> timeval list \<Rightarrow> u64 list" where
  "next_ids worker_bits seq_bits 0 g clock = []"
| "next_ids worker_bits seq_bits (Suc n) g clock =
     (case nextID worker_bits seq_bits g clock of
        None \<Rightarrow> []
      | Some (i, g', clock') \<Rightarrow> i # next_ids worker_bits seq_bits n g' clock')"

section \<open>Weighted choice\<close>

record 'a rate_wrapper =
  closeMin :: int
  openMax :: int
  res :: 'a

record 'a rate_generator =
  mRangeDivisor :: int
  mRanges :: "'a rate_wrapper list"

definition new_RateGenerator :: "'a rate_generator" where
  "new_RateGenerator = \<lparr>mRangeDivisor = 0, mRanges = []\<rparr>"

text \<open>\<open>None\<close> is the overflow of a signed 32-bit integer.\<close>

definition int_ok :: "int \<Rightarrow> bool" where
  "int_ok i \<longleftrightarrow> - (2 ^ 31) \<le> i \<and> i < 2 ^ 31"

definition putRes :: "('a \<Rightarrow> int) \<Rightarrow> 'a \<Rightarrow> 'a rate_generator \<Rightarrow> 'a rate_generator option" where
  "putRes rates pItem g =
     (let val = rates pItem in
      if int_ok (mRangeDivisor g + val)
      then Some \<lparr>mRangeDivisor = mRangeDivisor g + val,
                 mRanges = mRanges g @ [\<lparr>closeMin = mRangeDivisor g, openMax = mRangeDivisor g + val, res = pItem\<rparr>]\<rparr>
      else None)"

fun put_all :: "('a \<Rightarrow> int) \<Rightarrow> 'a list \<Rightarrow> 'a rate_generator \<Rightarrow> 'a rate_generator option" where
  "put_all rates [] g = Some g"
| "put_all rates (x # xs) g = Option.bind (putRes rates x g) (put_all rates xs)"

definition RateGenerator_of :: "('a \<Rightarrow> int) \<Rightarrow> 'a list \<Rightarrow> 'a rate_generator option" where
  "RateGenerator_of rates xs = put_all rates xs new_RateGenerator"

fun find_range :: "int \<Rightarrow> 'a rate_wrapper list \<Rightarrow> 'a option" where
  "find_range num [] = None"
| "find_range num (w # ws) = (if closeMin w \<le> num \<and> num < openMax w then Some (res w) else find_range num ws)"

text \<open>\<open>None\<close> is the null pointer; \<open>rand\<close> is not negative.\<close>

definition randShuffle :: "int \<Rightarrow> 'a rate_generator \<Rightarrow> 'a option" where
  "randShuffle rand_result g =
     (if mRangeDivisor g \<le> 0 then None else find_range (rand_result mod mRangeDivisor g) (mRanges g))"

section \<open>Combinations\<close>

function combinational_detail :: "'a list \<Rightarrow> nat \<Rightarrow> 'a list \<times> 'a list list \<Rightarrow> nat \<Rightarrow> nat \<Rightarrow> 'a list \<times> 'a list list"
  and combinational_loop :: "'a list \<Rightarrow> nat \<Rightarrow> 'a list \<times> 'a list list \<Rightarrow> nat \<Rightarrow> nat \<Rightarrow> 'a list \<times> 'a list list" where
  "combinational_detail src need s lenpos needpos =
     (if needpos = need then (fst s, snd s @ [take need (fst s)]) else combinational_loop src need s lenpos needpos)"
| "combinational_loop src need s i needpos =
     (if i < length src
      then if length src - i < need - needpos then s
           else combinational_loop src need
                  (combinational_detail src need ((fst s)[needpos := src ! i], snd s) (i + 1) (needpos + 1)) (i + 1) needpos
      else s)"
  by pat_completeness auto
termination
  by (relation "measure (case_sum (\<lambda>(src, _, _, i, _). 2 * (length src - i) + 1) (\<lambda>(src, _, _, i, _). 2 * (length src - i)))")
    auto

text \<open>The result is the new value of \<open>*out\<close>; \<open>None\<close> is a failed assertion.\<close>

definition combinational :: "'a list \<Rightarrow> nat \<Rightarrow> 'a list \<Rightarrow> 'a list list \<Rightarrow> 'a list list option" where
  "combinational src need buffer out =
     (if length src < need then None
      else if need = 0 then Some out
      else Some (snd (combinational_detail src need (buffer, out) 0 0)))"

text \<open>\<open>zero\<close> is the element \<open>resize\<close> fills the buffer with.\<close>

fun permutation_loop :: "'a \<Rightarrow> 'a list \<Rightarrow> nat list \<Rightarrow> 'a list list \<Rightarrow> 'a list list option" where
  "permutation_loop zero src [] out = Some out"
| "permutation_loop zero src (i # is) out =
     Option.bind (combinational src i (replicate i zero) []) (\<lambda>ret. permutation_loop zero src is (out @ ret))"

definition permutation :: "'a \<Rightarrow> 'a list \<Rightarrow> 'a list list \<Rightarrow> 'a list list option" where
  "permutation zero src out = (if src = [] then Some out else permutation_loop zero src [1 ..< Suc (length src)] out)"

section \<open>Numbers of a snowflake\<close>

lemma unat_mask_and:
  fixes s :: u64
  assumes "sb < 64"
  shows "unat (s AND SEQUENCE_MASK sb) = unat s mod 2 ^ sb"
proof -
  have "s AND SEQUENCE_MASK sb = take_bit sb s"
    by (simp add: SEQUENCE_MASK_def take_bit_eq_mask mask_eq_exp_minus_1 push_bit_eq_mult)
  then show ?thesis by (simp add: unsigned_take_bit_eq flip: take_bit_eq_mod)
qed

lemma push_bit_disjoint:
  fixes x y :: u64
  assumes "unat y < 2 ^ k" "k < 64"
  shows "push_bit k x OR y = push_bit k x + y"
proof -
  have y: "y = take_bit k y"
    using assms by (simp add: word_unat_eq_iff unsigned_take_bit_eq take_bit_nat_eq_self)
  have "push_bit k x AND y = 0"
    by (subst y, rule bit_word_eqI) (auto simp: bit_simps)
  then show ?thesis by (simp add: disjunctive_add_eq_or)
qed

lemma unat_push_bit:
  fixes x :: u64
  assumes "unat x * 2 ^ k < 2 ^ 64"
  shows "unat (push_bit k x) = unat x * 2 ^ k"
  using assms by (subst unsigned_push_bit_eq) (simp add: push_bit_eq_mult take_bit_nat_eq_self)

lemma unat_snowflake_id:
  fixes t w s :: u64
  assumes b: "sb + wb < 64" and t: "unat t < 2 ^ (63 - (sb + wb))" and w: "unat w < 2 ^ wb" and s: "unat s < 2 ^ sb"
  shows "unat (snowflake_id wb sb t w s) = (unat t * 2 ^ wb + unat w) * 2 ^ sb + unat s"
    and "unat (snowflake_id wb sb t w s) < 2 ^ 63"
proof -
  have t': "Suc (unat t) * 2 ^ (sb + wb) \<le> 2 ^ 63"
  proof -
    have "Suc (unat t) * 2 ^ (sb + wb) \<le> 2 ^ (63 - (sb + wb)) * 2 ^ (sb + wb)"
      using t by (intro mult_le_mono1) simp
    also have "\<dots> = 2 ^ 63" using b by (simp flip: power_add)
    finally show ?thesis .
  qed
  have low: "unat w * 2 ^ sb + unat s < 2 ^ (sb + wb)"
  proof -
    have "Suc (unat w) * 2 ^ sb \<le> 2 ^ wb * 2 ^ sb" using w by (intro mult_le_mono1) simp
    with s show ?thesis by (simp add: power_add mult.commute)
  qed
  have "(2 :: nat) ^ (sb + wb) < 2 ^ 64" using b by (intro power_strict_increasing) auto
  with low have ws: "unat w * 2 ^ sb < 2 ^ 64" "unat w * 2 ^ sb + unat s < 2 ^ 64" by linarith+
  have sum: "unat t * 2 ^ (sb + wb) + (unat w * 2 ^ sb + unat s) < 2 ^ 63" using t' low by simp
  have "push_bit sb w OR s = push_bit sb w + s" using s b by (intro push_bit_disjoint) auto
  moreover have l: "unat (push_bit sb w + s) = unat w * 2 ^ sb + unat s"
    using ws by (subst unat_add_lem [THEN iffD1]) (simp_all add: unat_push_bit)
  moreover have "push_bit (sb + wb) t OR (push_bit sb w + s) = push_bit (sb + wb) t + (push_bit sb w + s)"
    using l low b by (intro push_bit_disjoint) auto
  moreover have "unat (push_bit (sb + wb) t + (push_bit sb w + s)) = unat t * 2 ^ (sb + wb) + (unat w * 2 ^ sb + unat s)"
    using sum l by (subst unat_add_lem [THEN iffD1]) (simp_all add: unat_push_bit)
  ultimately have "unat (snowflake_id wb sb t w s) = unat t * 2 ^ (sb + wb) + (unat w * 2 ^ sb + unat s)"
    by (simp add: snowflake_id_def or.assoc)
  then show "unat (snowflake_id wb sb t w s) = (unat t * 2 ^ wb + unat w) * 2 ^ sb + unat s"
    and "unat (snowflake_id wb sb t w s) < 2 ^ 63"
    using sum by (simp_all add: power_add algebra_simps)
qed

text \<open>Pairs of a time and a sequence number are ordered like their numbers.\<close>

lemma pack_less:
  fixes t s t' s' w :: nat
  assumes "t < t' \<or> t = t' \<and> s < s'" "s < 2 ^ sb" "w < 2 ^ wb"
  shows "(t * 2 ^ wb + w) * 2 ^ sb + s < (t' * 2 ^ wb + w) * 2 ^ sb + s'"
  using assms(1)
proof
  assume "t < t'"
  then have "Suc t * 2 ^ wb \<le> t' * 2 ^ wb" by (intro mult_le_mono1) simp
  then have "Suc (t * 2 ^ wb + w) \<le> t' * 2 ^ wb + w"
    by (metis Suc_le_eq \<open>t < t'\<close> add_less_mono1 mult_less_mono1 zero_less_power zero_less_numeral)
  then have "Suc (t * 2 ^ wb + w) * 2 ^ sb \<le> (t' * 2 ^ wb + w) * 2 ^ sb" by (rule mult_le_mono1)
  then show ?thesis using assms(2) by simp
qed simp

lemma waitNext_later:
  "waitNextMilliseconds l clock = Some (t, clock') \<Longrightarrow>
     l < t \<and> set clock' \<subseteq> set clock \<and> (\<exists>tv \<in> set clock. t = genTimestamp tv)"
  by (induction clock) (auto split: if_splits)

lemma waitNext_ends:
  "(waitNextMilliseconds l clock = None) \<longleftrightarrow> (\<forall>tv \<in> set clock. genTimestamp tv \<le> l)"
  by (induction clock) auto


text \<open>The four cases of a call.\<close>

lemma nextID_branches:
  fixes g :: snowflake and tv :: timeval and sb :: nat
  defines "t \<equiv> genTimestamp tv" and "sequ \<equiv> (m_sequence g + 1) AND SEQUENCE_MASK sb"
  shows "t < m_last_timestamp g \<Longrightarrow> nextID wb sb g (tv # cs) = Some (0, g, cs)"
    and "m_last_timestamp g < t \<Longrightarrow> nextID wb sb g (tv # cs) =
      Some (snowflake_id wb sb t (m_worker_id g) 0, g\<lparr>m_sequence := 0, m_last_timestamp := t\<rparr>, cs)"
    and "m_last_timestamp g = t \<Longrightarrow> sequ \<noteq> 0 \<Longrightarrow> nextID wb sb g (tv # cs) =
      Some (snowflake_id wb sb t (m_worker_id g) sequ, g\<lparr>m_sequence := sequ, m_last_timestamp := t\<rparr>, cs)"
    and "m_last_timestamp g = t \<Longrightarrow> sequ = 0 \<Longrightarrow> nextID wb sb g (tv # cs) =
      map_option (\<lambda>(t', cs'). (snowflake_id wb sb t' (m_worker_id g) 0, g\<lparr>m_sequence := 0, m_last_timestamp := t'\<rparr>, cs'))
        (waitNextMilliseconds t cs)"
  by (auto simp: nextID_def t_def sequ_def Let_def)

lemma nextID_step:
  assumes next_id: "nextID wb sb g clock = Some (i, g', clock')"
    and bits: "sb + wb < 64" and w: "unat (m_worker_id g) < 2 ^ wb" and sq: "unat (m_sequence g) < 2 ^ sb"
    and clock: "\<forall>tv \<in> set clock. unat (genTimestamp tv) < 2 ^ (63 - (sb + wb))"
  shows "m_worker_id g' = m_worker_id g \<and> set clock' \<subseteq> set clock \<and> unat (m_sequence g') < 2 ^ sb \<and>
    (genTimestamp (hd clock) < m_last_timestamp g \<and> i = 0 \<and> g' = g \<or>
     m_last_timestamp g \<le> genTimestamp (hd clock) \<and>
     i = snowflake_id wb sb (m_last_timestamp g') (m_worker_id g) (m_sequence g') \<and>
     unat (m_last_timestamp g') < 2 ^ (63 - (sb + wb)) \<and>
     (m_last_timestamp g < m_last_timestamp g' \<or>
      m_last_timestamp g = m_last_timestamp g' \<and> m_sequence g < m_sequence g'))"
proof -
  obtain tv cs where c: "clock = tv # cs" using next_id by (cases clock) (auto simp: nextID_def)
  let ?t = "genTimestamp tv" and ?s = "(m_sequence g + 1) AND SEQUENCE_MASK sb"
  have s: "unat ?s < 2 ^ sb" using bits by (simp add: unat_mask_and)
  have less: "m_sequence g < ?s" if "?s \<noteq> 0"
  proof -
    have "unat (m_sequence g + 1) mod 2 ^ sb \<noteq> 0" using that bits unat_mask_and [of sb "m_sequence g + 1"]
      by (metis add_lessD1 unat_eq_zero)
    moreover have "unat (m_sequence g + 1) = (if m_sequence g = - 1 then 0 else Suc (unat (m_sequence g)))"
      by (metis add.commute unatSuc unat_0 eq_neg_iff_add_eq_0)
    ultimately have "unat (m_sequence g + 1) = Suc (unat (m_sequence g))" by (auto split: if_splits)
    moreover from this have "unat (m_sequence g + 1) \<noteq> 2 ^ sb"
      using \<open>unat (m_sequence g + 1) mod 2 ^ sb \<noteq> 0\<close> by auto
    ultimately show ?thesis using sq bits by (simp add: word_less_nat_alt unat_mask_and)
  qed
  consider (behind) "?t < m_last_timestamp g" | (wait) "m_last_timestamp g = ?t" "?s = 0"
    | (same) "m_last_timestamp g = ?t" "?s \<noteq> 0" | (later) "m_last_timestamp g < ?t" by fastforce
  then show ?thesis
  proof cases
    case behind
    then show ?thesis using next_id sq by (auto simp: c nextID_branches(1))
  next
    case wait
    with next_id obtain t where "waitNextMilliseconds ?t cs = Some (t, clock')" "i = snowflake_id wb sb t (m_worker_id g) 0"
      "g' = g\<lparr>m_sequence := 0, m_last_timestamp := t\<rparr>"
      by (auto simp: c nextID_branches(4))
    with waitNext_later [OF this(1)] show ?thesis using clock wait by (auto simp: c)
  next
    case same
    then show ?thesis using next_id clock s less by (auto simp: c nextID_branches(3))
  next
    case later
    then show ?thesis using next_id clock by (auto simp: c nextID_branches(2))
  qed
qed

text \<open>The number a state stands at: every later number is above it.\<close>

definition snowflake_mark :: "nat \<Rightarrow> nat \<Rightarrow> snowflake \<Rightarrow> nat" where
  "snowflake_mark wb sb g = (unat (m_last_timestamp g) * 2 ^ wb + unat (m_worker_id g)) * 2 ^ sb + unat (m_sequence g)"

lemma next_ids_above:
  assumes "sb + wb < 64" "unat (m_worker_id g) < 2 ^ wb" "unat (m_sequence g) < 2 ^ sb"
    and "\<forall>tv \<in> set clock. unat (genTimestamp tv) < 2 ^ (63 - (sb + wb))"
  shows "sorted_wrt (<) (filter (\<lambda>i. i \<noteq> 0) (next_ids wb sb n g clock))"
    and "\<forall>i \<in> set (filter (\<lambda>i. i \<noteq> 0) (next_ids wb sb n g clock)).
      snowflake_mark wb sb g < unat i \<and> unat i < 2 ^ 63 \<and> unat i div 2 ^ sb mod 2 ^ wb = unat (m_worker_id g)"
proof -
  let ?ok = "\<lambda>g i. snowflake_mark wb sb g < unat i \<and> unat i < 2 ^ 63 \<and> unat i div 2 ^ sb mod 2 ^ wb = unat (m_worker_id g)"
  have "sorted_wrt (<) (filter (\<lambda>i. i \<noteq> 0) (next_ids wb sb n g clock)) \<and>
    (\<forall>i \<in> set (filter (\<lambda>i. i \<noteq> 0) (next_ids wb sb n g clock)). ?ok g i)"
    using assms(2-)
  proof (induction n arbitrary: g clock)
    case (Suc n)
    show ?case
    proof (cases "nextID wb sb g clock")
      case (Some r)
      obtain i g' clock' where r: "r = (i, g', clock')" by (cases r) auto
      note step = nextID_step [OF Some [unfolded r] assms(1) Suc.prems]
      have IH: "sorted_wrt (<) (filter (\<lambda>i. i \<noteq> 0) (next_ids wb sb n g' clock'))"
        "\<forall>i \<in> set (filter (\<lambda>i. i \<noteq> 0) (next_ids wb sb n g' clock')). ?ok g' i"
        using Suc.IH [of g' clock'] step Suc.prems by auto
      show ?thesis
      proof (cases "g' = g \<and> i = 0")
        case True
        then show ?thesis using IH Some r by simp
      next
        case False
        then have i: "i = snowflake_id wb sb (m_last_timestamp g') (m_worker_id g') (m_sequence g')"
          "unat (m_last_timestamp g') < 2 ^ (63 - (sb + wb))" "unat (m_sequence g') < 2 ^ sb" "m_worker_id g' = m_worker_id g"
          and less: "m_last_timestamp g < m_last_timestamp g' \<or>
            m_last_timestamp g = m_last_timestamp g' \<and> m_sequence g < m_sequence g'"
          using step by auto
        have unat_i: "unat i = snowflake_mark wb sb g'" "unat i < 2 ^ 63"
          using i Suc.prems(1) unat_snowflake_id [OF assms(1) i(2) _ i(3)] by (simp_all add: snowflake_mark_def)
        have up: "snowflake_mark wb sb g < snowflake_mark wb sb g'"
          using less Suc.prems pack_less unfolding snowflake_mark_def i(4) by (auto simp: word_less_nat_alt)
        have "unat i div 2 ^ sb mod 2 ^ wb = unat (m_worker_id g)"
          unfolding unat_i snowflake_mark_def using i(3,4) Suc.prems(1) by simp
        then have "?ok g i" using unat_i up by simp
        moreover have "i \<noteq> 0" using up unat_i by auto
        ultimately show ?thesis using IH Some r up i(4) unat_i by (force simp: word_less_nat_alt [of i])
      qed
    qed simp
  qed simp
  then show "sorted_wrt (<) (filter (\<lambda>i. i \<noteq> 0) (next_ids wb sb n g clock))"
    and "\<forall>i \<in> set (filter (\<lambda>i. i \<noteq> 0) (next_ids wb sb n g clock)). ?ok g i" by simp_all
qed

text \<open>The epoch has no influence.\<close>

lemma nextID_epoch:
  "nextID wb sb (g\<lparr>m_epoch := e\<rparr>) clock =
     map_option (\<lambda>(i, g', clock'). (i, g'\<lparr>m_epoch := e\<rparr>, clock')) (nextID wb sb g clock)"
  by (auto simp: nextID_def Let_def option.map_comp comp_def split: list.split intro!: option.map_cong)

lemma next_ids_epoch: "next_ids wb sb n (g\<lparr>m_epoch := e\<rparr>) clock = next_ids wb sb n g clock"
proof (induction n arbitrary: g clock)
  case (Suc n)
  then show ?case by (auto simp: nextID_epoch split: option.split)
qed simp

text \<open>A call that is not refused waits exactly when its millisecond is used up and the clock does not move on.\<close>

lemma nextID_waits:
  "(nextID wb sb g (tv # cs) = None) \<longleftrightarrow>
     m_last_timestamp g = genTimestamp tv \<and> (m_sequence g + 1) AND SEQUENCE_MASK sb = 0 \<and>
     (\<forall>tv' \<in> set cs. genTimestamp tv' \<le> genTimestamp tv)"
proof -
  have "map_option f (waitNextMilliseconds l cs) = None \<longleftrightarrow> (\<forall>tv' \<in> set cs. genTimestamp tv' \<le> l)" for l and f :: "_ \<Rightarrow> 'a"
    by (simp add: waitNext_ends)
  then show ?thesis
    by (cases "m_last_timestamp g" "genTimestamp tv" rule: linorder_cases)
      (auto simp: nextID_branches nextID_def Let_def waitNext_ends)
qed

text \<open>C12. While the worker number and the time fit their bits, a generator hands out strictly increasing positive numbers that
  carry the worker number, so generators of different workers never give the same one; the value 0 means that the clock has gone
  back.  The start epoch has no influence.\<close>

theorem snowflake_ids_increase:
  assumes "sb + wb < 64" "unat worker < 2 ^ wb"
    and "\<forall>tv \<in> set clock. unat (genTimestamp tv) < 2 ^ (63 - (sb + wb))"
  shows "sorted_wrt (<) (filter (\<lambda>i. i \<noteq> 0) (next_ids wb sb n (new_Snowflake worker epoch) clock)) \<and>
    (\<forall>i \<in> set (next_ids wb sb n (new_Snowflake worker epoch) clock). i \<noteq> 0 \<longrightarrow>
       unat i < 2 ^ 63 \<and> unat i div 2 ^ sb mod 2 ^ wb = unat worker) \<and>
    next_ids wb sb n (new_Snowflake worker epoch) clock = next_ids wb sb n (new_Snowflake worker 0) clock"
proof -
  have "new_Snowflake worker epoch = (new_Snowflake worker 0)\<lparr>m_epoch := epoch\<rparr>" by (simp add: new_Snowflake_def)
  then have "next_ids wb sb n (new_Snowflake worker epoch) clock = next_ids wb sb n (new_Snowflake worker 0) clock"
    by (simp only: next_ids_epoch)
  moreover have "unat (m_worker_id (new_Snowflake worker epoch)) = unat worker" "m_sequence (new_Snowflake worker epoch) = 0"
    using unsigned_less [of worker, where 'a = nat]
    by (simp_all add: new_Snowflake_def unsigned_ucast_eq take_bit_nat_eq_self)
  ultimately show ?thesis
    using next_ids_above [of sb wb "new_Snowflake worker epoch" clock n] assms by (auto simp del: next_ids.simps)
qed

theorem snowflake_ids_increase_witness:
  "next_ids 2 1 5 (new_Snowflake 3 7) [(0, 5000), (0, 5100), (0, 5200), (0, 5900), (0, 6001), (0, 4000), (0, 6999)] =
     [46, 47, 54, 0, 55] \<and>
   sorted_wrt (<) (filter (\<lambda>i. i \<noteq> 0) (next_ids 2 1 5 (new_Snowflake 3 7)
     [(0, 5000), (0, 5100), (0, 5200), (0, 5900), (0, 6001), (0, 4000), (0, 6999)]))"
proof
  show "next_ids 2 1 5 (new_Snowflake 3 7) [(0, 5000), (0, 5100), (0, 5200), (0, 5900), (0, 6001), (0, 4000), (0, 6999)] =
     [46, 47, 54, 0, 55]"
    by code_simp
  show "sorted_wrt (<) (filter (\<lambda>i. i \<noteq> 0) (next_ids 2 1 5 (new_Snowflake 3 7)
     [(0, 5000), (0, 5100), (0, 5200), (0, 5900), (0, 6001), (0, 4000), (0, 6999)]))"
    by (rule snowflake_ids_increase [THEN conjunct1]) (simp_all add: genTimestamp_def)
qed

section \<open>Weights\<close>

fun ranges_from :: "('a \<Rightarrow> int) \<Rightarrow> int \<Rightarrow> 'a list \<Rightarrow> 'a rate_wrapper list" where
  "ranges_from rates d [] = []"
| "ranges_from rates d (x # xs) =
     \<lparr>closeMin = d, openMax = d + rates x, res = x\<rparr> # ranges_from rates (d + rates x) xs"

lemma put_all_ranges:
  assumes "\<forall>x \<in> set xs. 0 \<le> rates x" "0 \<le> mRangeDivisor g" "mRangeDivisor g < 2 ^ 31"
  shows "put_all rates xs g =
    (if mRangeDivisor g + sum_list (map rates xs) < 2 ^ 31
     then Some \<lparr>mRangeDivisor = mRangeDivisor g + sum_list (map rates xs),
                mRanges = mRanges g @ ranges_from rates (mRangeDivisor g) xs\<rparr>
     else None)"
  using assms
proof (induction xs arbitrary: g)
  case (Cons x xs)
  have "0 \<le> sum_list (map rates xs)" using Cons.prems by (auto intro!: sum_list_nonneg)
  then show ?case using Cons by (auto simp: putRes_def int_ok_def Let_def add.assoc)
qed simp

lemma find_range_low: "(\<forall>w \<in> set ws. num < closeMin w) \<Longrightarrow> find_range num ws = None"
  by (induction ws) auto

lemma ranges_from_low:
  "(\<forall>x \<in> set xs. 0 \<le> rates x) \<Longrightarrow> w \<in> set (ranges_from rates d xs) \<Longrightarrow> d \<le> closeMin w"
  by (induction xs arbitrary: d) force+

lemma find_range_shares:
  assumes "\<forall>x \<in> set xs. 0 \<le> rates x"
  shows "card {num. d \<le> num \<and> num < d + sum_list (map rates xs) \<and> find_range num (ranges_from rates d xs) = Some x} =
      count_list xs x * nat (rates x)"
    and "d \<le> num \<Longrightarrow> num < d + sum_list (map rates xs) \<Longrightarrow> find_range num (ranges_from rates d xs) \<noteq> None"
proof -
  have pos: "0 \<le> sum_list (map rates ys)" if "\<forall>x \<in> set ys. 0 \<le> rates x" for ys
    using that by (auto intro!: sum_list_nonneg)
  show "card {num. d \<le> num \<and> num < d + sum_list (map rates xs) \<and> find_range num (ranges_from rates d xs) = Some x} =
      count_list xs x * nat (rates x)"
    using assms
  proof (induction xs arbitrary: d)
    case (Cons y ys)
    let ?d = "d + rates y"
    let ?A = "{num. d \<le> num \<and> num < ?d \<and> y = x}"
    let ?B = "{num. ?d \<le> num \<and> num < ?d + sum_list (map rates ys) \<and> find_range num (ranges_from rates ?d ys) = Some x}"
    have "{num. d \<le> num \<and> num < d + sum_list (map rates (y # ys)) \<and>
        find_range num (ranges_from rates d (y # ys)) = Some x} = ?A \<union> ?B"
      using pos [of ys] Cons.prems by auto
    moreover have "finite ?A" "finite ?B"
      by (rule finite_subset [of _ "{d ..< ?d}"], auto)
        (rule finite_subset [of _ "{?d ..< ?d + sum_list (map rates ys)}"], auto)
    moreover have "?A \<inter> ?B = {}" by auto
    moreover have "card ?A = (if y = x then nat (rates y) else 0)"
    proof -
      have "?A = (if y = x then {d ..< ?d} else {})" by auto
      then show ?thesis by simp
    qed
    ultimately show ?case using Cons.IH [of ?d] Cons.prems by (simp add: card_Un_disjoint)
  qed simp
  show "d \<le> num \<Longrightarrow> num < d + sum_list (map rates xs) \<Longrightarrow> find_range num (ranges_from rates d xs) \<noteq> None"
    using assms by (induction xs arbitrary: d) auto
qed

text \<open>For weights that are not negative, the generator is built exactly when their sum is an \<open>int\<close>; then each item is chosen
  by as many remainders of \<open>rand\<close> as its weight, and the null pointer is returned exactly when all weights are 0.\<close>

lemma rates_are_proportional:
  assumes "\<forall>x \<in> set xs. 0 \<le> rates x"
  shows "(case RateGenerator_of rates xs of
      None \<Rightarrow> 2 ^ 31 \<le> sum_list (map rates xs)
    | Some g \<Rightarrow> sum_list (map rates xs) < 2 ^ 31 \<and> mRangeDivisor g = sum_list (map rates xs) \<and>
        (\<forall>x. card {num. 0 \<le> num \<and> num < mRangeDivisor g \<and> randShuffle num g = Some x} = count_list xs x * nat (rates x)) \<and>
        (\<forall>num. randShuffle num g = None \<longleftrightarrow> (\<forall>x \<in> set xs. rates x = 0)))"
proof (cases "sum_list (map rates xs) < 2 ^ 31")
  case True
  let ?g = "\<lparr>mRangeDivisor = sum_list (map rates xs), mRanges = ranges_from rates 0 xs\<rparr>"
  have g: "RateGenerator_of rates xs = Some ?g"
    using put_all_ranges [of xs rates new_RateGenerator] assms True by (simp add: RateGenerator_of_def new_RateGenerator_def)
  have "0 \<le> sum_list (map rates xs)" using assms by (auto intro!: sum_list_nonneg)
  moreover have "sum_list (map rates xs) = 0 \<longleftrightarrow> (\<forall>x \<in> set xs. rates x = 0)"
    using assms by (subst sum_list_nonneg_eq_0_iff) auto
  moreover have card: "card {num. 0 \<le> num \<and> num < mRangeDivisor ?g \<and> randShuffle num ?g = Some x} =
    count_list xs x * nat (rates x)" for x
  proof -
    have "{num. 0 \<le> num \<and> num < mRangeDivisor ?g \<and> randShuffle num ?g = Some x} =
      {num. 0 \<le> num \<and> num < 0 + sum_list (map rates xs) \<and> find_range num (ranges_from rates 0 xs) = Some x}"
      by (auto simp: randShuffle_def)
    then show ?thesis using find_range_shares(1) [OF assms, of 0 x] by simp
  qed
  moreover have "randShuffle num ?g = None \<longleftrightarrow> \<not> 0 < sum_list (map rates xs)" for num
    using find_range_shares(2) [OF assms, of 0 "num mod sum_list (map rates xs)"] by (simp add: randShuffle_def)
  ultimately show ?thesis
    unfolding g option.case using True by (simp only: card) (auto simp: order.order_iff_strict)
next
  case False
  then show ?thesis using put_all_ranges [of xs rates new_RateGenerator] assms
    by (simp add: RateGenerator_of_def new_RateGenerator_def)
qed

lemma rates_are_proportional_witness:
  "map (\<lambda>num. Option.bind (RateGenerator_of (\<lambda>x. if x = CHR ''a'' then 1 else if x = CHR ''b'' then 2 else 0) ''abc'') (randShuffle num))
     [0, 1, 2, 3, 7] = [Some CHR ''a'', Some CHR ''b'', Some CHR ''b'', Some CHR ''a'', Some CHR ''b''] \<and>
   (case RateGenerator_of (\<lambda>x. if x = CHR ''a'' then 1 else if x = CHR ''b'' then 2 else 0) ''abc'' of
      None \<Rightarrow> False | Some g \<Rightarrow> mRangeDivisor g = 3)"
  using rates_are_proportional [of "''abc''" "\<lambda>x. if x = CHR ''a'' then 1 else if x = CHR ''b'' then 2 else 0"]
  by (auto simp: RateGenerator_of_def new_RateGenerator_def putRes_def int_ok_def randShuffle_def)

section \<open>All combinations\<close>

declare combinational_detail.simps [simp del] combinational_loop.simps [simp del]

text \<open>The reference: the sublists of \<open>k\<close> elements, by the position of their first element, then of the second, and so on.\<close>

fun sublists_of :: "nat \<Rightarrow> 'a list \<Rightarrow> 'a list list" where
  "sublists_of 0 xs = [[]]"
| "sublists_of (Suc k) [] = []"
| "sublists_of (Suc k) (x # xs) = map ((#) x) (sublists_of k xs) @ sublists_of (Suc k) xs"

lemma sublists_of_short: "length xs < k \<Longrightarrow> sublists_of k xs = []"
  by (induction k xs rule: sublists_of.induct) auto

lemma filter_map_Cons:
  "filter (\<lambda>ys. length ys = Suc k) (map ((#) x) yss) = map ((#) x) (filter (\<lambda>ys. length ys = k) yss)"
  by (induction yss) auto

lemma sublists_of_subseqs: "sublists_of k xs = filter (\<lambda>ys. length ys = k) (subseqs xs)"
proof (induction k xs rule: sublists_of.induct)
  case (1 xs)
  then show ?case by (induction xs) (auto simp: Let_def filter_empty_conv)
next
  case (3 k x xs)
  then show ?case by (simp add: Let_def filter_map_Cons)
qed simp

lemma take_update: "p < length b \<Longrightarrow> take (Suc p) (b[p := x]) = take p b @ [x]"
  by (simp add: take_Suc_conv_app_nth)

lemma combinational_lists:
  shows "needpos \<le> need \<Longrightarrow> need \<le> length (fst s) \<Longrightarrow>
      (let s' = combinational_detail src need s lenpos needpos in
       length (fst s') = length (fst s) \<and> take needpos (fst s') = take needpos (fst s) \<and>
       snd s' = snd s @ map ((@) (take needpos (fst s))) (sublists_of (need - needpos) (drop lenpos src)))"
    and "needpos < need \<Longrightarrow> need \<le> length (fst s) \<Longrightarrow>
      (let s' = combinational_loop src need s i needpos in
       length (fst s') = length (fst s) \<and> take needpos (fst s') = take needpos (fst s) \<and>
       snd s' = snd s @ map ((@) (take needpos (fst s))) (sublists_of (need - needpos) (drop i src)))"
proof (induction src need s lenpos needpos and src need s i needpos rule: combinational_detail_combinational_loop.induct)
  case (1 src need s lenpos needpos)
  then show ?case by (subst combinational_detail.simps) (auto simp: Let_def)
next
  case (2 src need s i needpos)
  obtain k where k: "need - needpos = Suc k" "need - Suc needpos = k" using "2.prems" by (metis Suc_diff_Suc)
  show ?case
  proof (cases "i < length src \<and> \<not> length src - i < need - needpos")
    case False
    then have "sublists_of (need - needpos) (drop i src) = []" using k by (auto intro: sublists_of_short)
    with False show ?thesis by (subst combinational_loop.simps) auto
  next
    case True
    let ?s1 = "((fst s)[needpos := src ! i], snd s)"
    define s2 where "s2 = combinational_detail src need ?s1 (i + 1) (needpos + 1)"
    have b: "needpos < length (fst s)" using "2.prems" by simp
    have "length (fst s2) = length (fst s)" "take (Suc needpos) (fst s2) = take needpos (fst s) @ [src ! i]"
      "snd s2 = snd s @ map ((@) (take needpos (fst s) @ [src ! i])) (sublists_of k (drop (Suc i) src))"
      using "2.IH"(1) True "2.prems" b k by (simp_all add: s2_def Let_def take_update)
    moreover from this have "take needpos (fst s2) = take needpos (fst s)"
      by (metis append_eq_conv_conj length_take min.absorb2 less_imp_le b take_take lessI min_def_raw)
    moreover have "combinational_loop src need s i needpos = combinational_loop src need s2 (i + 1) needpos"
      using True by (subst combinational_loop.simps) (simp add: s2_def)
    moreover have "sublists_of (Suc k) (drop i src) =
        map ((#) (src ! i)) (sublists_of k (drop (Suc i) src)) @ sublists_of (Suc k) (drop (Suc i) src)"
      using True by (simp flip: Cons_nth_drop_Suc)
    ultimately show ?thesis using "2.IH"(2) True "2.prems" k by (simp add: s2_def Let_def comp_def)
  qed
qed

lemma combinational_result:
  assumes "need \<le> length src" "need \<le> length buffer"
  shows "combinational src need buffer out = Some (if need = 0 then out else out @ sublists_of need src)"
  using assms combinational_lists(1) [of 0 need "(buffer, out)" src 0]
  by (auto simp: combinational_def Let_def map_idI)

lemma permutation_loop_result:
  "\<forall>i \<in> set is. 0 < i \<and> i \<le> length src \<Longrightarrow>
     permutation_loop zero src is out = Some (out @ concat (map (\<lambda>i. sublists_of i src) is))"
  by (induction "is" arbitrary: out) (auto simp: combinational_result)

text \<open>\<open>combinational\<close> fails its assertion exactly when more elements are needed than there are, and otherwise appends the
  sublists of that many elements in the order of the library's \<open>subseqs\<close>; none is needed, none is appended.  \<open>permutation\<close> appends
  all sublists but the empty one, the shorter ones first.\<close>

lemma combinations_are_sublists:
  "(need \<le> length buffer \<longrightarrow> combinational src need buffer out =
     (if length src < need then None
      else if need = 0 then Some out else Some (out @ filter (\<lambda>ys. length ys = need) (subseqs src)))) \<and>
   (\<exists>ret. permutation zero src out = Some (out @ ret) \<and> mset ret = mset (filter (\<lambda>ys. ys \<noteq> []) (subseqs src)) \<and>
      sorted (map length ret))"
proof (intro conjI impI)
  show "combinational src need buffer out =
     (if length src < need then None
      else if need = 0 then Some out else Some (out @ filter (\<lambda>ys. length ys = need) (subseqs src)))"
    if "need \<le> length buffer"
    using that combinational_result [of need src buffer out] by (auto simp: combinational_def sublists_of_subseqs)
  let ?ret = "concat (map (\<lambda>i. sublists_of i src) [1 ..< Suc (length src)])"
  have "permutation zero src out = Some (out @ ?ret)"
    by (cases src) (auto simp: permutation_def permutation_loop_result simp del: upt_Suc)
  moreover have "mset (concat (map (\<lambda>i. sublists_of i src) [1 ..< Suc n])) =
      mset (filter (\<lambda>ys. ys \<noteq> [] \<and> length ys \<le> n) (subseqs src))" for n
  proof (induction n)
    case (Suc n)
    have "mset (filter (\<lambda>ys. ys \<noteq> [] \<and> length ys \<le> Suc n) yss) =
        mset (filter (\<lambda>ys. ys \<noteq> [] \<and> length ys \<le> n) yss) + mset (filter (\<lambda>ys. length ys = Suc n) yss)" for yss :: "'a list list"
      by (induction yss) auto
    then show ?case using Suc by (simp add: sublists_of_subseqs)
  qed (simp add: filter_empty_conv)
  moreover have "filter (\<lambda>ys. ys \<noteq> [] \<and> length ys \<le> length src) (subseqs src) = filter (\<lambda>ys. ys \<noteq> []) (subseqs src)"
    by (rule filter_cong) (auto simp: list_emb_length)
  moreover have "sorted (map length (concat (map (\<lambda>i. sublists_of i src) [m ..< k]))) " for m k
  proof (induction k)
    case (Suc k)
    have "map length (filter (\<lambda>ys. length ys = k) yss) = replicate (length (filter (\<lambda>ys. length ys = k) yss)) k"
      for yss :: "'a list list" by (induction yss) auto
    with Suc show ?case by (auto simp: sorted_append sublists_of_subseqs)
  qed simp
  ultimately show "\<exists>ret. permutation zero src out = Some (out @ ret) \<and> mset ret = mset (filter (\<lambda>ys. ys \<noteq> []) (subseqs src)) \<and>
      sorted (map length ret)" by metis
qed

theorem combinations_are_sublists_witness:
  "combinational [0 :: nat, 1, 2, 3] 2 [9, 9, 9] [] = Some [[0, 1], [0, 2], [0, 3], [1, 2], [1, 3], [2, 3]] \<and>
   permutation (0 :: nat) [1, 2, 3] [] = Some [[1], [2], [3], [1, 2], [1, 3], [2, 3], [1, 2, 3]]"
proof
  show "combinational [0 :: nat, 1, 2, 3] 2 [9, 9, 9] [] = Some [[0, 1], [0, 2], [0, 3], [1, 2], [1, 3], [2, 3]]"
    using combinations_are_sublists [of 2 "[9, 9, 9]" "[0 :: nat, 1, 2, 3]" "[]"] by (simp add: Let_def)
  show "permutation (0 :: nat) [1, 2, 3] [] = Some [[1], [2], [3], [1, 2], [1, 3], [2, 3], [1, 2, 3]]"
    by code_simp
qed

end
