(* ===== verification/Zysoft_Utility.thy ===== *)
theory Zysoft_Utility
  imports Memory_Text
begin

text \<open>
  Conversions, times and timers of \<open>zysoft/src/zysoft\<close>: \<open>string/convert_functions.h\<close>, \<open>time.h\<close>, \<open>timer.h\<close> and \<open>utility.h\<close>.
  An integer type is given by its width and signedness; \<open>std::from_chars\<close> reads decimal digits, with a minus sign for signed
  types only.  What the C library makes of a \<open>time_t\<close> is an argument.
\<close>

unbundle bit_operations_syntax

section \<open>Numbers\<close>

datatype int_type = Int_type (is_signed: bool) (width: nat)

definition type_min :: "int_type \<Rightarrow> int" where
  "type_min ty = (if is_signed ty then - (2 ^ (width ty - 1)) else 0)"

definition type_max :: "int_type \<Rightarrow> int" where
  "type_max ty = (if is_signed ty then 2 ^ (width ty - 1) - 1 else 2 ^ width ty - 1)"

datatype errc = Invalid_argument | Result_out_of_range

definition from_chars :: "int_type \<Rightarrow> string \<Rightarrow> errc + int" where
  "from_chars ty s =
     (let neg = is_signed ty \<and> s \<noteq> [] \<and> hd s = CHR ''-'';
          ds = takeWhile is_digit (if neg then tl s else s);
          v = (if neg then - int (decimal ds) else int (decimal ds))
      in if ds = [] then Inl Invalid_argument
         else if v < type_min ty \<or> type_max ty < v then Inl Result_out_of_range
         else Inr v)"

text \<open>\<open>std::isspace\<close> is undefined for a negative \<open>char\<close>.\<close>

definition is_blank :: "char \<Rightarrow> bool" where
  "is_blank c \<longleftrightarrow> (of_char c :: nat) = 32 \<or> 9 \<le> (of_char c :: nat) \<and> (of_char c :: nat) \<le> 13"

fun skip_spaces :: "string \<Rightarrow> string option" where
  "skip_spaces [] = Some []"
| "skip_spaces (c # cs) =
     (if 128 \<le> (of_char c :: nat) then None else if is_blank c then skip_spaces cs else Some (c # cs))"

text \<open>The value \<open>cvt_impl\<close> returns and what it stores in \<open>*ec\<close>; \<open>None\<close> is undefined behaviour.\<close>

definition cvt_impl :: "bool \<Rightarrow> int_type \<Rightarrow> string \<Rightarrow> int option \<Rightarrow> (int \<times> errc option) option" where
  "cvt_impl skip ty s d = map_option (\<lambda>first.
     (case from_chars ty first of
        Inl e \<Rightarrow> (case d of Some v \<Rightarrow> v | None \<Rightarrow> 0, Some e)
      | Inr v \<Rightarrow> (v, None))) (if skip then skip_spaces s else Some s)"

definition to_number_ec :: "bool \<Rightarrow> int_type \<Rightarrow> string \<Rightarrow> (int \<times> errc option) option" where
  "to_number_ec skip ty s = cvt_impl skip ty s None"

definition throw_error :: "errc option \<Rightarrow> errc + unit" where
  "throw_error ec = (case ec of Some e \<Rightarrow> Inl e | None \<Rightarrow> Inr ())"

definition to_number :: "bool \<Rightarrow> int_type \<Rightarrow> string \<Rightarrow> (errc + int) option" where
  "to_number skip ty s = map_option (\<lambda>(v, ec). map_sum id (\<lambda>_. v) (throw_error ec)) (to_number_ec skip ty s)"

definition to_number_default :: "bool \<Rightarrow> int_type \<Rightarrow> string \<Rightarrow> int \<Rightarrow> int option" where
  "to_number_default skip ty s d = map_option fst (cvt_impl skip ty s (Some d))"

section \<open>Hexadecimal digits\<close>

definition hex_digits :: "byte list" where
  "hex_digits = ascii ''0123456789abcdef''"

fun hex_dump :: "byte list \<Rightarrow> byte list" where
  "hex_dump [] = []"
| "hex_dump (b # bs) = hex_digits ! unat (drop_bit 4 b) # hex_digits ! unat (b AND 0xf) # hex_dump bs"

section \<open>Times\<close>

record tm =
  tm_sec :: int
  tm_min :: int
  tm_hour :: int
  tm_mday :: int
  tm_mon :: int
  tm_year :: int

text \<open>\<open>snprintf\<close> into 64 bytes.\<close>

definition snprintf_64 :: "string \<Rightarrow> string" where
  "snprintf_64 s = take 63 s"

definition Localtime_HHMMSS :: "(int \<Rightarrow> tm) \<Rightarrow> int \<Rightarrow> string" where
  "Localtime_HHMMSS localtime_r t =
     (let cur_tm = localtime_r t
      in snprintf_64 (zero_padded 2 (tm_hour cur_tm) @ '':'' @ zero_padded 2 (tm_min cur_tm) @ '':'' @ zero_padded 2 (tm_sec cur_tm)))"

definition Localtime_YYYYMMDD_HHMMSS :: "(int \<Rightarrow> tm) \<Rightarrow> int \<Rightarrow> string" where
  "Localtime_YYYYMMDD_HHMMSS localtime_r t =
     (let cur_tm = localtime_r t
      in snprintf_64 (zero_padded 4 (tm_year cur_tm + 1900) @ ''/'' @ zero_padded 2 (tm_mon cur_tm + 1) @ ''/'' @
           zero_padded 2 (tm_mday cur_tm) @ '' '' @
           zero_padded 2 (tm_hour cur_tm) @ '':'' @ zero_padded 2 (tm_min cur_tm) @ '':'' @ zero_padded 2 (tm_sec cur_tm)))"

text \<open>The pair is what \<open>gettimeofday\<close> gives, seconds and microseconds.\<close>

definition Localtime_HHMMSS_F :: "(int \<Rightarrow> tm) \<Rightarrow> int \<times> int \<Rightarrow> string" where
  "Localtime_HHMMSS_F localtime_r tv =
     (let cur_tm = localtime_r (fst tv)
      in snprintf_64 (zero_padded 2 (tm_hour cur_tm) @ '':'' @ zero_padded 2 (tm_min cur_tm) @ '':'' @ zero_padded 2 (tm_sec cur_tm) @
           ''.'' @ zero_padded 6 (snd tv)))"

definition Localtime_YYYYMMDD_HHMMSS_F :: "(int \<Rightarrow> tm) \<Rightarrow> int \<times> int \<Rightarrow> string" where
  "Localtime_YYYYMMDD_HHMMSS_F localtime_r tv =
     (let cur_tm = localtime_r (fst tv)
      in snprintf_64 (zero_padded 4 (tm_year cur_tm + 1900) @ ''/'' @ zero_padded 2 (tm_mon cur_tm + 1) @ ''/'' @
           zero_padded 2 (tm_mday cur_tm) @ '' '' @
           zero_padded 2 (tm_hour cur_tm) @ '':'' @ zero_padded 2 (tm_min cur_tm) @ '':'' @ zero_padded 2 (tm_sec cur_tm) @
           ''.'' @ zero_padded 6 (snd tv)))"

definition UTC_HHMMSS :: "(int \<Rightarrow> tm) \<Rightarrow> int \<Rightarrow> string" where
  "UTC_HHMMSS gmtime_r t =
     (let cur_tm = gmtime_r t
      in snprintf_64 (zero_padded 2 (tm_hour cur_tm) @ '':'' @ zero_padded 2 (tm_min cur_tm) @ '':'' @ zero_padded 2 (tm_sec cur_tm)))"

definition UTC_YYYYMMDD_HHMMSS :: "(int \<Rightarrow> tm) \<Rightarrow> int \<Rightarrow> string" where
  "UTC_YYYYMMDD_HHMMSS gmtime_r t =
     (let cur_tm = gmtime_r t
      in snprintf_64 (zero_padded 4 (tm_year cur_tm + 1900) @ ''/'' @ zero_padded 2 (tm_mon cur_tm + 1) @ ''/'' @
           zero_padded 2 (tm_mday cur_tm) @ '' '' @
           zero_padded 2 (tm_hour cur_tm) @ '':'' @ zero_padded 2 (tm_min cur_tm) @ '':'' @ zero_padded 2 (tm_sec cur_tm)))"

text \<open>The same of the Greenwich time and \<open>gettimeofday\<close>.\<close>

definition UTC_HHMMSS_F :: "(int \<Rightarrow> tm) \<Rightarrow> int \<times> int \<Rightarrow> string" where
  "UTC_HHMMSS_F gmtime_r tv =
     (let cur_tm = gmtime_r (fst tv)
      in snprintf_64 (zero_padded 2 (tm_hour cur_tm) @ '':'' @ zero_padded 2 (tm_min cur_tm) @ '':'' @ zero_padded 2 (tm_sec cur_tm) @
           ''.'' @ zero_padded 6 (snd tv)))"

definition UTC_YYYYMMDD_HHMMSS_F :: "(int \<Rightarrow> tm) \<Rightarrow> int \<times> int \<Rightarrow> string" where
  "UTC_YYYYMMDD_HHMMSS_F gmtime_r tv =
     (let cur_tm = gmtime_r (fst tv)
      in snprintf_64 (zero_padded 4 (tm_year cur_tm + 1900) @ ''/'' @ zero_padded 2 (tm_mon cur_tm + 1) @ ''/'' @
           zero_padded 2 (tm_mday cur_tm) @ '' '' @
           zero_padded 2 (tm_hour cur_tm) @ '':'' @ zero_padded 2 (tm_min cur_tm) @ '':'' @ zero_padded 2 (tm_sec cur_tm) @
           ''.'' @ zero_padded 6 (snd tv)))"

section \<open>Timers\<close>

record basic_timer =
  timer_flag :: int
  timer_start :: int
  timer_expire :: int

definition BasicTimer :: "int \<Rightarrow> basic_timer" where
  "BasicTimer d = \<lparr>timer_flag = 0, timer_start = 0, timer_expire = d\<rparr>"

definition timer_Update :: "int \<Rightarrow> basic_timer \<Rightarrow> basic_timer" where
  "timer_Update delta t = t\<lparr>timer_start := timer_start t + delta\<rparr>"

definition timer_Passed :: "basic_timer \<Rightarrow> bool" where
  "timer_Passed t \<longleftrightarrow> timer_expire t \<le> timer_start t"

definition timer_Reset :: "basic_timer \<Rightarrow> basic_timer" where
  "timer_Reset t = t\<lparr>timer_start := 0, timer_flag := 0\<rparr>"

definition timer_Remain :: "basic_timer \<Rightarrow> int" where
  "timer_Remain t = timer_expire t - timer_start t"

definition timer_SetFlag :: "int \<Rightarrow> basic_timer \<Rightarrow> basic_timer" where
  "timer_SetFlag flag t = t\<lparr>timer_flag := flag\<rparr>"

section \<open>Reading numbers\<close>

definition number_text :: "int \<Rightarrow> string" where
  "number_text v = (if v < 0 then CHR ''-'' # digits (nat (- v)) else digits (nat v))"

lemma digit_small: "is_digit c \<Longrightarrow> (of_char c :: nat) < 128 \<and> \<not> is_blank c \<and> c \<noteq> CHR ''-''"
  by (auto simp: is_digit_def is_blank_def)

lemma minus_small [simp]: "\<not> is_blank (CHR ''-'')" "\<not> is_digit (CHR ''-'')"
  by (simp_all add: is_blank_def is_digit_def)

lemma skip_spaces_blank:
  "list_all is_blank ws \<Longrightarrow> skip_spaces (ws @ s) = skip_spaces s"
  by (induction ws) (auto simp: is_blank_def)

lemma number_text_hd:
  obtains c cs where "number_text v = c # cs" "(of_char c :: nat) < 128" "\<not> is_blank c"
proof (cases "v < 0")
  case True
  then show ?thesis using that by (simp add: number_text_def)
next
  case False
  obtain c cs where c: "digits (nat v) = c # cs" using digits_ok(2) by (metis list.exhaust)
  then have "is_digit c" using digits_ok(1) [of "nat v"] by simp
  with c False show ?thesis using that digit_small by (simp add: number_text_def)
qed

lemma takeWhile_number:
  assumes "rest = [] \<or> \<not> is_digit (hd rest)"
  shows "takeWhile is_digit (digits n @ rest) = digits n"
proof -
  have "takeWhile is_digit rest = []" using assms by (cases rest) auto
  then show ?thesis using digits_ok(1) [of n] by (simp add: takeWhile_append list_all_iff)
qed

lemma from_chars_number:
  assumes "rest = [] \<or> \<not> is_digit (hd rest)"
  shows "from_chars ty (number_text v @ rest) =
    (if v < 0 \<and> \<not> is_signed ty then Inl Invalid_argument
     else if v < type_min ty \<or> type_max ty < v then Inl Result_out_of_range else Inr v)"
proof (cases "v < 0")
  case True
  then show ?thesis
    by (simp add: from_chars_def number_text_def takeWhile_number [OF assms] digits_ok Let_def)
next
  case False
  have "hd (digits (nat v)) \<noteq> CHR ''-''"
    using digits_ok(1,2) [of "nat v"] digit_small by (metis hd_in_set list_all_iff)
  then show ?thesis using False
    by (simp add: from_chars_def number_text_def takeWhile_number [OF assms] digits_ok Let_def)
qed

lemma from_chars_no_digit:
  assumes "takeWhile is_digit (if s \<noteq> [] \<and> is_signed ty \<and> hd s = CHR ''-'' then tl s else s) = []"
  shows "from_chars ty s = Inl Invalid_argument"
  using assms by (auto simp: from_chars_def Let_def)

text \<open>The decimal text of a number, after blanks and before anything but a digit, is read back as the number by every type
  that holds it; another signed type reports that it is out of range, and for a negative number an unsigned type an invalid argument.  The default value is
  returned exactly in these cases.\<close>

lemma to_number_reads_back:
  assumes "list_all is_blank ws" "rest = [] \<or> \<not> is_digit (hd rest)"
  shows "to_number True ty (ws @ number_text v @ rest) =
      Some (if v < 0 \<and> \<not> is_signed ty then Inl Invalid_argument
            else if v < type_min ty \<or> type_max ty < v then Inl Result_out_of_range else Inr v) \<and>
    to_number_default True ty (ws @ number_text v @ rest) d =
      Some (if type_min ty \<le> v \<and> v \<le> type_max ty then v else d)"
proof -
  obtain c cs where c: "number_text v = c # cs" "(of_char c :: nat) < 128" "\<not> is_blank c" by (rule number_text_hd)
  have "skip_spaces (ws @ number_text v @ rest) = Some (number_text v @ rest)"
    using c by (simp add: skip_spaces_blank [OF assms(1)])
  then show ?thesis
    using from_chars_number [OF assms(2), of ty v]
    by (auto simp: to_number_def to_number_default_def to_number_ec_def cvt_impl_def throw_error_def type_min_def)
qed

lemma to_number_reads_back_witness:
  "to_number True (Int_type True 8) ''  -128 apples'' = Some (Inr (- 128)) \<and>
   to_number True (Int_type True 8) ''128'' = Some (Inl Result_out_of_range) \<and>
   to_number_default True (Int_type False 16) '' 65536'' 999 = Some 999"
proof -
  have texts: "number_text (- 128) = ''-128''" "number_text 128 = ''128''" "number_text 65536 = ''65536''"
    by (simp_all add: number_text_def digits.simps char_of_def bit_0)
  show ?thesis
    using to_number_reads_back [of "''  ''" "'' apples''" "Int_type True 8" "- 128" 0]
      to_number_reads_back [of "[]" "[]" "Int_type True 8" 128 0]
      to_number_reads_back [of "'' ''" "[]" "Int_type False 16" 65536 999]
    by (simp add: texts type_min_def type_max_def is_blank_def is_digit_def)
qed

section \<open>Fields of a time\<close>

lemma length_zero_padded_exact:
  assumes "0 \<le> i" "i < 10 ^ Suc k"
  shows "length (zero_padded (Suc k) i) = Suc k"
proof -
  have "length (zero_padded (Suc k) i) \<le> Suc k" using assms by (rule length_zero_padded) simp
  with assms(1) show ?thesis by (simp add: zero_padded_def Let_def)
qed

lemma two_digits: "0 \<le> i \<Longrightarrow> i < 100 \<Longrightarrow> length (zero_padded 2 i) = 2"
  using length_zero_padded_exact [of i 1] by (simp add: numeral_2_eq_2)

lemma four_digits: "0 \<le> i \<Longrightarrow> i < 10000 \<Longrightarrow> length (zero_padded 4 i) = 4"
  using length_zero_padded_exact [of i 3] by (simp add: numeral_eq_Suc)

lemma six_digits: "0 \<le> i \<Longrightarrow> i < 1000000 \<Longrightarrow> length (zero_padded 6 i) = 6"
  using length_zero_padded_exact [of i 5] by (simp add: numeral_eq_Suc)

text \<open>The decimal number of \<open>n\<close> characters from position \<open>p\<close>.\<close>

definition number_at :: "string \<Rightarrow> nat \<Rightarrow> nat \<Rightarrow> int" where
  "number_at s p n = int (decimal (take n (drop p s)))"

definition valid_tm :: "tm \<Rightarrow> bool" where
  "valid_tm c \<longleftrightarrow> 0 \<le> tm_sec c \<and> tm_sec c \<le> 60 \<and> 0 \<le> tm_min c \<and> tm_min c < 60 \<and> 0 \<le> tm_hour c \<and> tm_hour c < 24 \<and>
     1 \<le> tm_mday c \<and> tm_mday c \<le> 31 \<and> 0 \<le> tm_mon c \<and> tm_mon c < 12 \<and> - 1900 \<le> tm_year c \<and> tm_year c < 8100"

text \<open>The functions for Greenwich time differ in the conversion only.\<close>

lemma utc_formats:
  "UTC_HHMMSS = Localtime_HHMMSS" "UTC_YYYYMMDD_HHMMSS = Localtime_YYYYMMDD_HHMMSS" "UTC_HHMMSS_F = Localtime_HHMMSS_F"
  "UTC_YYYYMMDD_HHMMSS_F = Localtime_YYYYMMDD_HHMMSS_F"
  by (intro ext, simp add: UTC_HHMMSS_def UTC_YYYYMMDD_HHMMSS_def UTC_HHMMSS_F_def UTC_YYYYMMDD_HHMMSS_F_def Localtime_HHMMSS_def
    Localtime_YYYYMMDD_HHMMSS_def Localtime_HHMMSS_F_def Localtime_YYYYMMDD_HHMMSS_F_def)+

text \<open>Every field of a time stands at a fixed position, and the shorter texts are parts of the longest one.\<close>

lemma time_text_fields:
  assumes "valid_tm (localtime_r t)" "0 \<le> usec" "usec < 1000000"
  defines "s \<equiv> Localtime_YYYYMMDD_HHMMSS_F localtime_r (t, usec)" and "c \<equiv> localtime_r t"
  shows "length s = 26" "Localtime_YYYYMMDD_HHMMSS localtime_r t = take 19 s" "Localtime_HHMMSS_F localtime_r (t, usec) = drop 11 s"
    "Localtime_HHMMSS localtime_r t = take 8 (drop 11 s)"
    "map (\<lambda>(p, n). number_at s p n) [(0, 4), (5, 2), (8, 2), (11, 2), (14, 2), (17, 2), (20, 6)] =
      [tm_year c + 1900, tm_mon c + 1, tm_mday c, tm_hour c, tm_min c, tm_sec c, usec]"
proof -
  have l: "length (zero_padded 4 (tm_year c + 1900)) = 4" "length (zero_padded 2 (tm_mon c + 1)) = 2"
    "length (zero_padded 2 (tm_mday c)) = 2" "length (zero_padded 2 (tm_hour c)) = 2" "length (zero_padded 2 (tm_min c)) = 2"
    "length (zero_padded 2 (tm_sec c)) = 2" "length (zero_padded 6 usec) = 6"
    using assms by (auto simp: valid_tm_def intro: two_digits four_digits six_digits)
  have d: "decimal (zero_padded 4 (tm_year c + 1900)) = nat (tm_year c + 1900)" "decimal (zero_padded 2 (tm_mon c + 1)) = nat (tm_mon c + 1)"
    "decimal (zero_padded 2 (tm_mday c)) = nat (tm_mday c)" "decimal (zero_padded 2 (tm_hour c)) = nat (tm_hour c)"
    "decimal (zero_padded 2 (tm_min c)) = nat (tm_min c)" "decimal (zero_padded 2 (tm_sec c)) = nat (tm_sec c)"
    "decimal (zero_padded 6 usec) = nat usec"
    using assms by (auto simp: valid_tm_def intro: zero_padded_ok(2))
  show "length s = 26" "Localtime_YYYYMMDD_HHMMSS localtime_r t = take 19 s" "Localtime_HHMMSS_F localtime_r (t, usec) = drop 11 s"
    "Localtime_HHMMSS localtime_r t = take 8 (drop 11 s)"
    by (simp_all add: s_def Localtime_YYYYMMDD_HHMMSS_F_def Localtime_YYYYMMDD_HHMMSS_def Localtime_HHMMSS_F_def
      Localtime_HHMMSS_def snprintf_64_def Let_def l flip: c_def)
  show "map (\<lambda>(p, n). number_at s p n) [(0, 4), (5, 2), (8, 2), (11, 2), (14, 2), (17, 2), (20, 6)] =
      [tm_year c + 1900, tm_mon c + 1, tm_mday c, tm_hour c, tm_min c, tm_sec c, usec]"
    using assms(1-3) by (simp add: s_def Localtime_YYYYMMDD_HHMMSS_F_def snprintf_64_def Let_def number_at_def l d valid_tm_def flip: c_def)
qed

section \<open>Elapsed time\<close>

text \<open>A timer has passed when the updates since it was made or last reset add up to its time.\<close>

lemma timer_passes:
  "timer_Passed (fold timer_Update ds (timer_Reset t)) \<longleftrightarrow> timer_expire t \<le> sum_list ds"
  "timer_Remain (fold timer_Update ds (timer_Reset t)) = timer_expire t - sum_list ds"
proof -
  have "fold timer_Update ds t = t\<lparr>timer_start := timer_start t + sum_list ds\<rparr>" for t
    by (induction ds arbitrary: t) (simp_all add: timer_Update_def)
  then show "timer_Passed (fold timer_Update ds (timer_Reset t)) \<longleftrightarrow> timer_expire t \<le> sum_list ds"
    "timer_Remain (fold timer_Update ds (timer_Reset t)) = timer_expire t - sum_list ds"
    by (simp_all add: timer_Passed_def timer_Remain_def timer_Reset_def)
qed

end
