(* ===== verification/Database_Service.thy ===== *)
theory Database_Service
  imports Zylib_Prelude "HOL-Library.Multiset"
begin

text \<open>
  The threads of \<open>game_server/database/DataBaseService\<close> and their queue of \<open>zylib/AsyncTask.h\<close>.  A section under the mutex is one
  step; \<open>init\<close> is not called while \<open>stop\<close> runs.  A task is \<open>Some\<close> what it does, or \<open>None\<close> if it is empty; what a call throws is kept by
  the packaged task.
\<close>

section \<open>The service\<close>

text \<open>A thread of \<open>run\<close>: before the test of \<open>m_running\<close>, in the wait, with a task, or ended.\<close>

datatype 'a db_thread = Testing | Waiting | Holding "'a option" | Ended

record 'a db_service =
  m_running :: bool
  m_queue :: "'a option list"
  m_threads :: "'a db_thread list"
  m_conn_pools :: "string set"

definition new_DataBaseService :: "'a db_service" where
  "new_DataBaseService = \<lparr>m_running = False, m_queue = [], m_threads = [], m_conn_pools = {}\<rparr>"

text \<open>The configured pools with the result of the \<open>init\<close> of each; the first failure ends the loop.\<close>

fun init_pools :: "(string \<times> bool) list \<Rightarrow> string set \<Rightarrow> bool \<times> string set" where
  "init_pools [] pools = (True, pools)"
| "init_pools ((name, ok) # confs) pools = (if ok then init_pools confs (insert name pools) else (False, pools))"

definition db_init :: "(string \<times> bool) list \<Rightarrow> nat \<Rightarrow> 'a db_service \<Rightarrow> bool \<times> 'a db_service" where
  "db_init confs num_threads d =
     (if m_running d then (False, d)
      else let d1 = d\<lparr>m_running := True\<rparr>; (ok, pools) = init_pools confs (m_conn_pools d1); d2 = d1\<lparr>m_conn_pools := pools\<rparr>
           in if ok then (True, d2\<lparr>m_threads := m_threads d2 @ replicate num_threads Testing\<rparr>) else (False, d2))"

definition asyncSubmit :: "'a \<Rightarrow> 'a db_service \<Rightarrow> 'a db_service" where
  "asyncSubmit f d = d\<lparr>m_queue := m_queue d @ [Some f]\<rparr>"

text \<open>\<open>stop\<close> up to the lock, which says whether it goes on, and the rest of it.\<close>

definition stop_flag :: "'a db_service \<Rightarrow> bool \<times> 'a db_service" where
  "stop_flag d = (m_running d, d\<lparr>m_running := False\<rparr>)"

definition stop_wake :: "'a db_service \<Rightarrow> 'a db_service" where
  "stop_wake d = d\<lparr>m_queue := m_queue d @ replicate (length (m_threads d)) None\<rparr>"

text \<open>The calls of the tasks that are left, in order.\<close>

definition executeRemainTask :: "'a db_service \<Rightarrow> 'a list \<times> 'a db_service" where
  "executeRemainTask d = (if m_running d then ([], d) else (List.map_filter id (m_queue d), d\<lparr>m_queue := []\<rparr>))"

definition set_thread :: "nat \<Rightarrow> 'a db_thread \<Rightarrow> 'a db_service \<Rightarrow> 'a db_service" where
  "set_thread i t d = d\<lparr>m_threads := (m_threads d)[i := t]\<rparr>"

text \<open>The steps of \<open>run\<close>: the test, the end of the wait, and the call, if there is one.\<close>

definition run_test :: "nat \<Rightarrow> 'a db_service \<Rightarrow> 'a db_service" where
  "run_test i d = set_thread i (if m_running d then Waiting else Ended) d"

definition run_take :: "nat \<Rightarrow> 'a db_service \<Rightarrow> 'a db_service option" where
  "run_take i d = (case m_queue d of [] \<Rightarrow> None | t # q \<Rightarrow> Some (set_thread i (Holding t) (d\<lparr>m_queue := q\<rparr>)))"

definition run_call :: "nat \<Rightarrow> 'a db_service \<Rightarrow> 'a option \<times> 'a db_service" where
  "run_call i d = (case m_threads d ! i of Holding t \<Rightarrow> (t, set_thread i Testing d) | _ \<Rightarrow> (None, d))"

section \<open>All interleavings\<close>

text \<open>With the service, the calls of \<open>stop\<close> before the lock, and the tasks submitted, taken from the queue, and called.\<close>

record 'a db_world =
  db :: "'a db_service"
  stopping :: nat
  submitted :: "'a list"
  taken :: "'a list"
  called :: "'a list"

definition new_world :: "'a db_world" where
  "new_world = \<lparr>db = new_DataBaseService, stopping = 0, submitted = [], taken = [], called = []\<rparr>"

definition opt_list :: "'a option \<Rightarrow> 'a list" where
  "opt_list t = (case t of None \<Rightarrow> [] | Some a \<Rightarrow> [a])"

definition remain_world :: "'a db_world \<Rightarrow> 'a db_world" where
  "remain_world w = (let (as, d) = executeRemainTask (db w)
     in w\<lparr>db := d, taken := taken w @ as, called := called w @ as\<rparr>)"

inductive thread_step :: "'a db_world \<Rightarrow> 'a db_world \<Rightarrow> bool" where
  test: "i < length (m_threads (db w)) \<Longrightarrow> m_threads (db w) ! i = Testing \<Longrightarrow> thread_step w (w\<lparr>db := run_test i (db w)\<rparr>)"
| take: "i < length (m_threads (db w)) \<Longrightarrow> m_threads (db w) ! i = Waiting \<Longrightarrow> run_take i (db w) = Some d \<Longrightarrow>
     thread_step w (w\<lparr>db := d, taken := taken w @ opt_list (hd (m_queue (db w)))\<rparr>)"
| call: "i < length (m_threads (db w)) \<Longrightarrow> m_threads (db w) ! i = Holding t \<Longrightarrow> run_call i (db w) = (t', d) \<Longrightarrow>
     thread_step w (w\<lparr>db := d, called := called w @ opt_list t'\<rparr>)"

text \<open>\<open>executeRemainTask\<close> is called after \<open>waitExit\<close>.\<close>

inductive db_step :: "'a db_world \<Rightarrow> 'a db_world \<Rightarrow> bool" where
  thread: "thread_step w w' \<Longrightarrow> db_step w w'"
| init: "db_step w (w\<lparr>db := snd (db_init confs n (db w))\<rparr>)"
| submit: "db_step w (w\<lparr>db := asyncSubmit a (db w), submitted := submitted w @ [a]\<rparr>)"
| stop: "stop_flag (db w) = (on, d) \<Longrightarrow> db_step w (w\<lparr>db := d, stopping := (if on then Suc (stopping w) else stopping w)\<rparr>)"
| wake: "0 < stopping w \<Longrightarrow> db_step w (w\<lparr>db := stop_wake (db w), stopping := stopping w - 1\<rparr>)"
| remain: "list_all (\<lambda>t. t = Ended) (m_threads (db w)) \<Longrightarrow> db_step w (remain_world w)"

section \<open>The invariant\<close>

fun held :: "'a db_thread \<Rightarrow> 'a multiset" where
  "held (Holding (Some a)) = {#a#}"
| "held _ = {#}"

fun rank :: "'a db_thread \<Rightarrow> nat" where
  "rank Testing = 1"
| "rank Waiting = 3"
| "rank (Holding t) = 2"
| "rank Ended = 0"

definition waiters :: "'a db_service \<Rightarrow> nat" where
  "waiters d = (\<Sum>t \<leftarrow> m_threads d. if t = Waiting then 1 else 0)"

definition db_inv :: "'a db_world \<Rightarrow> bool" where
  "db_inv w \<longleftrightarrow> submitted w = taken w @ List.map_filter id (m_queue (db w))
     \<and> mset (taken w) = mset (called w) + (\<Sum>t \<leftarrow> m_threads (db w). held t)
     \<and> (\<not> m_running (db w) \<and> stopping w = 0 \<longrightarrow> waiters (db w) \<le> length (m_queue (db w)))"

lemma sum_update:
  fixes f :: "'a \<Rightarrow> 'b :: comm_monoid_add"
  shows "i < length xs \<Longrightarrow> sum_list (map f (xs[i := t])) + f (xs ! i) = sum_list (map f xs) + f t"
proof (induction xs arbitrary: i)
  case (Cons x xs)
  then show ?case by (cases i) (auto simp: algebra_simps)
qed simp

lemma map_filter_id:
  "List.map_filter id (xs @ ys) = List.map_filter id xs @ List.map_filter id ys"
  "List.map_filter id (t # xs) = opt_list t @ List.map_filter id xs"
  "List.map_filter id (replicate n (None :: 'a option)) = []"
  "List.map_filter id ([] :: 'a option list) = []"
  by (induction n) (auto simp: List.map_filter_def opt_list_def split: option.splits)

lemma held_Holding: "held (Holding t) = mset (opt_list t)"
  by (cases t) (simp_all add: opt_list_def)

lemma waiters_le: "waiters d \<le> length (m_threads d)"
proof -
  have "(\<Sum>t \<leftarrow> ts. if t = Waiting then 1 else 0) \<le> length ts" for ts :: "'a db_thread list" by (induction ts) auto
  then show ?thesis by (simp add: waiters_def)
qed

lemma waiters_set_thread:
  "i < length (m_threads d) \<Longrightarrow> waiters (set_thread i t d) + (if m_threads d ! i = Waiting then 1 else 0) = waiters d + (if t = Waiting then 1 else 0)"
  using sum_update [of i "m_threads d" "\<lambda>t. if t = Waiting then 1 else 0 :: nat" t] by (simp add: waiters_def set_thread_def)

lemma held_set_thread:
  "i < length (m_threads d) \<Longrightarrow>
     (\<Sum>t \<leftarrow> m_threads (set_thread i t d). held t) + held (m_threads d ! i) = (\<Sum>t \<leftarrow> m_threads d. held t) + held t"
  using sum_update [of i "m_threads d" held t] by (simp add: set_thread_def)

lemma set_thread_sel [simp]:
  "m_queue (set_thread i t d) = m_queue d" "m_running (set_thread i t d) = m_running d"
  "length (m_threads (set_thread i t d)) = length (m_threads d)"
  by (simp_all add: set_thread_def)

lemma waiters_simps [simp]:
  "waiters (d\<lparr>m_queue := q\<rparr>) = waiters d" "waiters (d\<lparr>m_running := r\<rparr>) = waiters d"
  by (simp_all add: waiters_def)

lemma thread_step_inv: "thread_step w w' \<Longrightarrow> db_inv w \<Longrightarrow> db_inv w'"
proof (induction rule: thread_step.induct)
  case (test i w)
  have "(\<Sum>t \<leftarrow> m_threads (run_test i (db w)). held t) = (\<Sum>t \<leftarrow> m_threads (db w). held t)"
    using held_set_thread [OF test(1)] test(2) by (simp add: run_test_def)
  moreover have "\<not> m_running (db w) \<Longrightarrow> waiters (run_test i (db w)) = waiters (db w)"
    using waiters_set_thread [OF test(1), of Ended] test(2) by (simp add: run_test_def)
  ultimately show ?case using test(3) by (simp add: db_inv_def) (simp add: run_test_def)
next
  case (take i w d)
  then obtain t q where q: "m_queue (db w) = t # q" "d = set_thread i (Holding t) (db w\<lparr>m_queue := q\<rparr>)"
    by (auto simp: run_take_def split: list.splits)
  have "(\<Sum>t \<leftarrow> m_threads d. held t) = (\<Sum>t \<leftarrow> m_threads (db w). held t) + mset (opt_list t)"
    using held_set_thread [of i "db w\<lparr>m_queue := q\<rparr>" "Holding t"] take(1,2) by (simp add: q(2) held_Holding)
  moreover have "waiters (db w) = Suc (waiters d)"
    using waiters_set_thread [of i "db w\<lparr>m_queue := q\<rparr>" "Holding t"] take(1,2) by (simp add: q(2))
  ultimately show ?case using take(4) q by (auto simp: db_inv_def opt_list_def split: option.splits)
next
  case (call i w t t' d)
  then have d: "t' = t" "d = set_thread i Testing (db w)" by (simp_all add: run_call_def)
  have "(\<Sum>t \<leftarrow> m_threads d. held t) + mset (opt_list t) = (\<Sum>t \<leftarrow> m_threads (db w). held t)"
    using held_set_thread [OF call(1), of Testing] call(2) by (simp add: d held_Holding)
  moreover have "waiters d = waiters (db w)"
    using waiters_set_thread [OF call(1), of Testing] call(2) by (simp add: d)
  ultimately show ?case using call(4) d by (auto simp: db_inv_def ac_simps)
qed

lemma db_step_inv: "db_step w w' \<Longrightarrow> db_inv w \<Longrightarrow> db_inv w'"
proof (induction rule: db_step.induct)
  case (thread w w')
  then show ?case by (rule thread_step_inv)
next
  case (init w confs n)
  have "sum_list (map held (replicate n Testing)) = ({#} :: 'a multiset)" by (induction n) simp_all
  then show ?case using init by (auto simp: db_inv_def db_init_def Let_def split_beta)
next
  case (submit w a)
  then show ?case by (auto simp: db_inv_def asyncSubmit_def map_filter_id opt_list_def)
next
  case (stop w on d)
  then show ?case by (auto simp: db_inv_def stop_flag_def)
next
  case (wake w)
  then show ?case using waiters_le [of "db w"] by (auto simp: db_inv_def stop_wake_def map_filter_id waiters_def)
next
  case (remain w)
  have "waiters (db w) = 0" using remain(1)
  proof -
    have "list_all (\<lambda>t. t = Ended) ts \<Longrightarrow> (\<Sum>t \<leftarrow> ts. if t = Waiting then 1 else 0) = (0 :: nat)" for ts :: "'a db_thread list"
      by (induction ts) auto
    with remain(1) show ?thesis by (simp add: waiters_def)
  qed
  with remain show ?case by (auto simp: db_inv_def remain_world_def executeRemainTask_def Let_def map_filter_id ac_simps)
qed

definition db_reachable :: "'a db_world \<Rightarrow> bool" where
  "db_reachable w \<longleftrightarrow> db_step\<^sup>*\<^sup>* new_world w"

lemma db_reachable_inv: "db_reachable w \<Longrightarrow> db_inv w"
proof -
  have "db_step\<^sup>*\<^sup>* v w \<Longrightarrow> db_inv v \<Longrightarrow> db_inv w" for v
    by (induction rule: rtranclp_induct) (auto intro: db_step_inv)
  moreover have "db_inv (new_world :: 'a db_world)"
    by (simp add: db_inv_def new_world_def new_DataBaseService_def map_filter_id waiters_def)
  ultimately show "db_reachable w \<Longrightarrow> db_inv w" by (simp add: db_reachable_def)
qed

section \<open>After stop\<close>

definition stopped :: "'a db_world \<Rightarrow> bool" where
  "stopped w \<longleftrightarrow> \<not> m_running (db w) \<and> stopping w = 0"

definition work_left :: "'a db_world \<Rightarrow> nat" where
  "work_left w = (\<Sum>t \<leftarrow> m_threads (db w). rank t)"

lemma rank_set_thread:
  "i < length (m_threads d) \<Longrightarrow>
     (\<Sum>t \<leftarrow> m_threads (set_thread i t d). rank t) + rank (m_threads d ! i) = (\<Sum>t \<leftarrow> m_threads d. rank t) + rank t"
  using sum_update [of i "m_threads d" rank t] by (simp add: set_thread_def)

lemma thread_step_stopped:
  assumes "thread_step w w'" "stopped w"
  shows "stopped w' \<and> work_left w' < work_left w \<and> submitted w' = submitted w"
  using assms
proof (induction rule: thread_step.induct)
  case (test i w)
  then show ?case using rank_set_thread [OF test(1), of Ended] by (simp add: stopped_def work_left_def run_test_def)
next
  case (take i w d)
  then obtain t q where q: "m_queue (db w) = t # q" "d = set_thread i (Holding t) (db w\<lparr>m_queue := q\<rparr>)"
    by (auto simp: run_take_def split: list.splits)
  then show ?case using rank_set_thread [of i "db w\<lparr>m_queue := q\<rparr>" "Holding t"] take by (simp add: stopped_def work_left_def)
next
  case (call i w t t' d)
  then have d: "d = set_thread i Testing (db w)" by (simp add: run_call_def)
  then show ?case using rank_set_thread [OF call(1), of Testing] call by (simp add: stopped_def work_left_def)
qed

lemma thread_runs_stopped:
  "(thread_step ^^ n) w w' \<Longrightarrow> stopped w \<Longrightarrow> stopped w' \<and> work_left w' + n \<le> work_left w \<and> submitted w' = submitted w"
proof (induction n arbitrary: w')
  case (Suc n)
  then obtain v where "(thread_step ^^ n) w v" "thread_step v w'" by auto
  with Suc.IH [of v] Suc.prems(2) thread_step_stopped [of v w'] show ?case by fastforce
qed simp

lemma thread_runs_inv: "(thread_step ^^ n) w w' \<Longrightarrow> db_inv w \<Longrightarrow> db_inv w'"
  by (induction n arbitrary: w') (auto intro: thread_step_inv)

lemma work_left_le: "work_left w \<le> 3 * length (m_threads (db w))"
proof -
  have "rank t \<le> 3" for t :: "'a db_thread" by (cases t) auto
  then have "(\<Sum>t \<leftarrow> ts. rank t) \<le> 3 * length ts" for ts :: "'a db_thread list"
    by (induction ts) (auto intro: add_mono)
  then show ?thesis by (simp add: work_left_def)
qed

text \<open>After \<open>stop\<close> a thread that has not ended can go on, or another one can: a waiting thread finds a task.\<close>

lemma stopped_progress:
  assumes "db_inv w" "stopped w" "\<nexists>w'. thread_step w w'"
  shows "list_all (\<lambda>t. t = Ended) (m_threads (db w))"
  unfolding list_all_length
proof (intro allI impI)
  fix i assume i: "i < length (m_threads (db w))"
  show "m_threads (db w) ! i = Ended"
  proof (cases "m_threads (db w) ! i")
    case Testing
    then show ?thesis using thread_step.test [OF i] assms(3) by blast
  next
    case Waiting
    have "0 < waiters (db w)" using waiters_set_thread [OF i, of Ended] Waiting by simp
    then have "m_queue (db w) \<noteq> []" using assms(1,2) by (auto simp: db_inv_def stopped_def)
    then show ?thesis using thread_step.take [OF i Waiting] assms(3) by (fastforce simp: run_take_def neq_Nil_conv)
  next
    case (Holding t)
    then show ?thesis using thread_step.call [OF i Holding] assms(3) by (metis prod.exhaust)
  qed simp
qed

lemma remain_calls_all:
  assumes "db_inv w" "stopped w" "list_all (\<lambda>t. t = Ended) (m_threads (db w))"
  shows "mset (called (remain_world w)) = mset (submitted w)"
proof -
  have "list_all (\<lambda>t. t = Ended) ts \<Longrightarrow> (\<Sum>t \<leftarrow> ts. held t) = {#}" for ts :: "'a db_thread list"
    by (induction ts) auto
  with assms show ?thesis
    by (simp add: db_inv_def stopped_def remain_world_def executeRemainTask_def Let_def)
qed

text \<open>One thread that waits when \<open>stop\<close> has returned.\<close>

definition waiting_world :: "'a db_world" where
  "waiting_world = \<lparr>db = \<lparr>m_running = False, m_queue = [None], m_threads = [Waiting], m_conn_pools = {}\<rparr>, stopping = 0,
     submitted = [], taken = [], called = []\<rparr>"

lemma waiting_world_reachable: "db_reachable waiting_world"
proof -
  let ?d = "\<lambda>r q t. \<lparr>m_running = r, m_queue = q, m_threads = t, m_conn_pools = {}\<rparr> :: 'a db_service"
  let ?w = "\<lambda>d n. \<lparr>db = d, stopping = n, submitted = [], taken = [], called = []\<rparr> :: 'a db_world"
  have "db_step new_world (?w (?d True [] [Testing]) 0)"
    using db_step.init [of new_world "[]" 1] by (simp add: new_world_def new_DataBaseService_def db_init_def)
  moreover have "db_step (?w (?d True [] [Testing]) 0) (?w (?d True [] [Waiting]) 0)"
    using thread_step.test [of 0 "?w (?d True [] [Testing]) 0"] by (intro db_step.thread) (simp add: run_test_def set_thread_def)
  moreover have "db_step (?w (?d True [] [Waiting]) 0) (?w (?d False [] [Waiting]) 1)"
    using db_step.stop [of "?w (?d True [] [Waiting]) 0"] by (simp add: stop_flag_def)
  moreover have "db_step (?w (?d False [] [Waiting]) 1) waiting_world"
    using db_step.wake [of "?w (?d False [] [Waiting]) 1"] by (simp add: stop_wake_def waiting_world_def)
  ultimately show ?thesis unfolding db_reachable_def by (meson rtranclp.intros)
qed

lemma waiting_world_stuck: "\<not> thread_step (remain_world waiting_world) w"
  by (auto elim!: thread_step.cases simp: waiting_world_def remain_world_def executeRemainTask_def Let_def run_take_def)

text \<open>
  C40.  Under every interleaving of clients and threads the tasks leave the queue in the order of their submission, and each is called
  at most once.  Once \<open>stop\<close> has returned no thread waits for ever: within three steps for each thread nothing but the end
  of all threads is left, and \<open>executeRemainTask\<close> then completes the calls of all tasks, each called once.  Called before
  the threads have ended it takes the empty tasks that wake them, and \<open>waitExit\<close> never returns.
\<close>

theorem db_service_stops:
  assumes "db_reachable w"
  shows "submitted w = taken w @ List.map_filter id (m_queue (db w)) \<and> mset (called w) \<subseteq># mset (taken w) \<and>
    (\<not> m_running (db w) \<and> stopping w = 0 \<longrightarrow> (\<forall>n w'. (thread_step ^^ n) w w' \<longrightarrow>
       n \<le> 3 * length (m_threads (db w)) \<and>
       ((\<nexists>w''. thread_step w' w'') \<longrightarrow> list_all (\<lambda>t. t = Ended) (m_threads (db w')) \<and>
          mset (called (remain_world w')) = mset (submitted w)))) \<and>
    (let v = waiting_world :: 'a db_world in db_reachable v \<and> stopped v \<and> (\<nexists>v'. thread_step (remain_world v) v') \<and>
       m_threads (db (remain_world v)) = [Waiting])"
proof (intro conjI allI impI)
  have inv: "db_inv w" by (rule db_reachable_inv [OF assms])
  then show "submitted w = taken w @ List.map_filter id (m_queue (db w))" "mset (called w) \<subseteq># mset (taken w)"
    by (simp_all add: db_inv_def)
  fix n w' assume st: "\<not> m_running (db w) \<and> stopping w = 0" and run: "(thread_step ^^ n) w w'"
  then have s: "stopped w" by (simp add: stopped_def)
  note after = thread_runs_stopped [OF run s]
  show "n \<le> 3 * length (m_threads (db w))" using after work_left_le [of w] by linarith
  assume stuck: "\<nexists>w''. thread_step w' w''"
  show "list_all (\<lambda>t. t = Ended) (m_threads (db w'))"
    using stopped_progress [OF thread_runs_inv [OF run inv]] after stuck by blast
  then show "mset (called (remain_world w')) = mset (submitted w)"
    using remain_calls_all [OF thread_runs_inv [OF run inv]] after by simp
next
  show "let v = waiting_world :: 'a db_world in db_reachable v \<and> stopped v \<and> (\<nexists>v'. thread_step (remain_world v) v') \<and>
       m_threads (db (remain_world v)) = [Waiting]"
    using waiting_world_reachable waiting_world_stuck
    by (auto simp: stopped_def waiting_world_def remain_world_def executeRemainTask_def Let_def)
qed

lemma waiting_world_ends:
  "\<exists>w'. (thread_step ^^ 3) waiting_world w' \<and> m_threads (db w') = [Ended] \<and> (\<nexists>w''. thread_step w' w'')"
proof -
  let ?d = "\<lambda>q t. \<lparr>m_running = False, m_queue = q, m_threads = [t], m_conn_pools = {}\<rparr> :: 'a db_service"
  let ?w = "\<lambda>d. \<lparr>db = d, stopping = 0, submitted = [], taken = [], called = []\<rparr> :: 'a db_world"
  have "thread_step waiting_world (?w (?d [] (Holding None)))"
    using thread_step.take [of 0 waiting_world] by (simp add: waiting_world_def run_take_def set_thread_def opt_list_def)
  moreover have "thread_step (?w (?d [] (Holding None))) (?w (?d [] Testing))"
    using thread_step.call [of 0 "?w (?d [] (Holding None))"] by (simp add: run_call_def set_thread_def opt_list_def)
  moreover have "thread_step (?w (?d [] Testing)) (?w (?d [] Ended))"
    using thread_step.test [of 0 "?w (?d [] Testing)"] by (simp add: run_test_def set_thread_def)
  moreover have "\<nexists>w''. thread_step (?w (?d [] Ended)) w''"
    by (auto elim!: thread_step.cases)
  ultimately show ?thesis by (intro exI [of _ "?w (?d [] Ended)"]) (auto simp: numeral_3_eq_3 OO_def)
qed

lemma db_service_stops_witness:
  "\<exists>w'. (thread_step ^^ 3) (waiting_world :: nat db_world) w' \<and> mset (called (remain_world w')) = {#}"
proof -
  obtain w' :: "nat db_world" where "(thread_step ^^ 3) waiting_world w'" "\<nexists>w''. thread_step w' w''"
    using waiting_world_ends by blast
  then have "mset (called (remain_world w')) = mset (submitted (waiting_world :: nat db_world))"
    using db_service_stops [OF waiting_world_reachable, where 'a = nat] by (simp add: waiting_world_def) blast
  then show ?thesis using \<open>(thread_step ^^ 3) waiting_world w'\<close> by (auto simp: waiting_world_def)
qed

end
