(* ===== verification/Spec2Isabelle.thy ===== *)
theory Spec2Isabelle
  imports Split_Functions Base64 Md5 Md4 Id_Md5 Crc32 Byte_Tools Timing_Wheel Message_Codec Channel Net_Server Net_Buffer
    Net_Connection Connection_Pools
    Byte_Buf Mysql_Values Mysql_Bind Mysql_Statements Knet_Message Knet_Rpc Redis_Buffers
    Redis_Commands Redis_Connection Nel_Sock Nel_Network Nel_Sessions Nel_Naming Auto_Buffer
    Game_Timer Game_Net Game_World Event_Server Stream_Codec Stream_Server Stream_Client
    Zylib_Experimental Zysoft_Utility Database_Service
begin

text \<open>
  A verification of the core of zylib, a collection of C++ libraries: string and digest utilities,
  a timer wheel and an asynchronous network library (\<open>zysoft/src\<close>), clients of MySQL
  (\<open>mysqlcpp\<close>) and Redis (\<open>rediscpp\<close>) with connection pools, buffers and message passing (\<open>nel\<close>),
  remote calls over Kafka (\<open>knet\<close>), and two servers (\<open>game_server\<close>, \<open>eventserver\<close>).  All source names are relative to \<open>src/\<close>.

  \<^bold>\<open>How the parts interact.\<close>  In the network library a \<open>TcpServer\<close> accepts sockets into
  \<open>Channel\<close>s whose \<open>io_context\<close>s an \<open>IOContextPool\<close> hands out in turn; a channel passes
  the bytes of its reads to a message decoder and writes the messages of its queue.  In \<open>mysqlcpp\<close>
  a pool lends connections, which make statements, whose bindings and fields hold values in
  typed buffers.  In \<open>rediscpp\<close> a pool lends connections, through which the commands send buffers
  and turn replies into buffers.  In \<open>knet\<close> the RPC manager encodes a call as a message, hands it to the
  producer, and matches the answer, or a timer, with the call.  In the game server the network thread puts
  connections and messages into lists of the world, whose thread moves them to sessions in the phases of a heartbeat; in the event server
  sessions and other threads submit tasks, which one loop runs between the events of the sockets.

  \<^bold>\<open>Theories and sources.\<close>
  \<^item> \<open>Zylib_Prelude\<close>: words, results that may be a fault, \<open>std::find\<close>; \<open>Memory_Text\<close>: resizing
    vectors, C strings, little-endian integers, decimal text.
  \<^item> \<open>Interfaces\<close>: the locales \<open>codec\<close>, \<open>frame_decoder\<close>, \<open>progressing_decoder\<close>, \<open>resource_pool\<close>,
    \<open>incremental\<close> and \<open>byte_queue\<close>; \<open>owner\<close> is in \<open>Redis_Connection\<close>.  Each is interpreted where its provider
    is modelled.
  \<^item> \<open>Split_Functions\<close>: \<open>zysoft/src/zysoft/string/split_functions.h\<close>.  Every overload equals one
    reference splitter; joining the fields gives the text back.
  \<^item> \<open>Base64\<close>, \<open>Md5\<close>: \<open>string/base64.h\<close>, \<open>string/md5.h\<close> and their \<open>detail\<close>.  The round trip and the exact
    acceptance of the decoder; the digest of any sequence of updates is that of RFC 1321.  \<open>Md4\<close>: \<open>zylib/temp/MD4.cpp\<close>, at any
    width of \<open>unsigned long\<close>; the digest of RFC 1320 at 32 bits.  \<open>Id_Md5\<close>: \<open>zylib_experimental/detail/idMD5.cpp\<close> over the byte-order
    functions of \<open>Byte_Tools\<close>; the digest of RFC 1321 on hosts of either order.
  \<^item> \<open>Crc32\<close>: \<open>zylib_experimental/detail/idCRC32.cpp\<close>.  Table and checksum equal the shift register of the polynomial, and
    bursts of up to 32 bits are detected.
  \<^item> \<open>Byte_Tools\<close>: \<open>zylib/Tools.cpp\<close>.  Byte order on either host, six-bit groups, splitting, hexadecimal text.
  \<^item> \<open>Timing_Wheel\<close>: \<open>timer/timing_wheel.h\<close>.  An invariant, the refinement of a set of deadlines, faults and
    delivery at the deadline.
  \<^item> \<open>Zylib_Experimental\<close>: \<open>experimental/Snowflake.h\<close>, \<open>RateGenerator.h\<close>, \<open>Algorithm.h\<close>.  Increasing numbers, shares of a weighted
    choice, combinations.  \<open>Zysoft_Utility\<close>: \<open>string/convert_functions.h\<close>, \<open>time.h\<close>, \<open>timer.h\<close>.  Numbers read back, fields of times.
  \<^item> \<open>Message_Codec\<close>, \<open>Channel\<close>, \<open>Net_Server\<close>: \<open>zysoft/src/network\<close>.  Framing does not depend on how the
    stream is cut; a channel is a step relation whose traces show order and exclusion; the accept
    loop, the round robin of contexts, and waiting for a connection.
  \<^item> \<open>Net_Buffer\<close>, \<open>Net_Connection\<close>: \<open>zysoft/experimental/net\<close>.  A buffer as a queue of bytes; connections and server in one
    loop, with the life time of connections, shutdown, and what can go wrong.
  \<^item> \<open>Stream_Codec\<close>, \<open>Stream_Server\<close>, \<open>Stream_Client\<close>: \<open>network/stream_server\<close>.  What its decoder makes of frames; handlers, server
    and callbacks under every interleaving of the network thread with senders and \<open>update\<close>; what is reported of connecting.
  \<^item> \<open>Connection_Pools\<close>: \<open>mysqlcpp/mysqlcpp/ConnectionPool.cpp\<close>, \<open>rediscpp/ConnectionPool.cpp\<close>.
    Exclusive lending, for Redis under any interleaving of threads.
  \<^item> \<open>Byte_Buf\<close>: \<open>nel/ByteBuf.*\<close>.  The refinement of a queue of bytes.
  \<^item> \<open>Mysql_Values\<close>, \<open>Mysql_Bind\<close>, \<open>Mysql_Statements\<close>: \<open>mysqlcpp/mysqlcpp\<close>.  Fields, date and time,
    bindings, statements, transactions, result sets, and what is freed.
  \<^item> \<open>Knet_Message\<close>, \<open>Knet_Rpc\<close>: \<open>knet\<close>.  Bounds of fixed strings, the round trip of messages, the queue
    of the producer, and callbacks at most once under every interleaving of the threads.
  \<^item> \<open>Redis_Buffers\<close>, \<open>Redis_Commands\<close>, \<open>Redis_Connection\<close>: \<open>rediscpp\<close>.  Types of the results of scripts,
    the commands as operations of a map, and ownership of contexts and replies.
  \<^item> \<open>Nel_Sock\<close>, \<open>Nel_Network\<close>, \<open>Nel_Sessions\<close>, \<open>Nel_Naming\<close>: the sockets, connections and naming client of
    \<open>nel\<close>.  What a socket writes and reports; which callbacks a network makes for each socket, and in which order.
  \<^item> \<open>Auto_Buffer\<close>: \<open>zysoft/src/zysoft/memory/auto_buffer.h\<close>.  Bounds, leaks and dangling pointers.
  \<^item> \<open>Game_Timer\<close>, \<open>Game_Net\<close>, \<open>Game_World\<close>: \<open>game_server/world\<close>, \<open>game_server/net\<close>.  A list of timers that refines
    deadlines, frames on the wire, and the world under every interleaving with the network thread.
  \<^item> \<open>Database_Service\<close>: \<open>game_server/database\<close>.  The queue of tasks and its threads under every interleaving: order, at most one call,
    and the end of all threads after \<open>stop\<close>.
  \<^item> \<open>Event_Server\<close>: \<open>eventserver\<close>.  The invariant of sessions, events and tasks over all runs.

  \<^bold>\<open>State.\<close>  A class is a record of its members or, with a single member, that member; a member function
  takes the object and returns it changed.  Objects behind shared pointers are numbered in a heap, where
  aliasing matters.  An exception, a failed assertion and undefined behaviour are values (a sum or an
  option).  Callbacks and calls of other libraries are events of a log, or results given as arguments.

  \<^bold>\<open>Bounds and fuel.\<close>  Integers that may wrap are words of their width; lengths of containers are natural numbers.
  Loops are structural recursion, or recursion with a measure; the decoding loop, which can diverge, is a
  partial function whose \<open>None\<close> means that it does not return.  No fuel is used.

  \<^bold>\<open>Parameters.\<close>  The MySQL client library, \<open>hiredis\<close> with the server behind it, the Kafka client,
  Boost.Asio's results, Protocol Buffers, the results and events of \<open>libevent\<close>, the message decoder of a socket, callbacks of timers and \<open>boost::convert\<close> are arguments.  Where a property relies on one of them, a named
  hypothesis states what its documentation promises, and the witness gives a concrete function.

  \<^bold>\<open>Not modelled.\<close>  Third-party code in the tree (a static string from Boost, STLSoft's tokeniser, nginx, tinyxml2,
  doctest, Simple-Web-Server, the output of \<open>protoc\<close>); earlier generations of the same libraries
  (\<open>network/v1\<close> to \<open>v4\<close>, \<open>mysqlcpp2\<close>, \<open>mysqlcpp_old\<close>, \<open>experimental/*_old\<close>); the configuration of \<open>game_server\<close>; \<open>login_server\<close>, which
  repeats its code, and the applications \<open>frontend_service\<close> and \<open>games\<close>; the option setters
  of \<open>kafkacpp\<close> and \<open>rdkafkacpp\<close>, and platform code.  Logging and the destruction of threads are left
  out of the modelled parts.
\<close>

end
